(* ===== verification/Tftf_Prelude.thy ===== *)
theory Tftf_Prelude
  imports Main "HOL-Library.Word"
begin

text \<open>
  Shared vocabulary of the development: the machine types of the AArch64 build
  (\<open>unsigned int\<close> is 32 bits wide, \<open>unsigned long\<close>, \<open>uintptr_t\<close>, \<open>size_t\<close> and
  \<open>u_register_t\<close> 64), the faults a C function can end in instead of returning, the
  sequencing of fallible steps, checked array accesses, and the word, list and
  bit-mask lemmas that several components use.

  Assertions are modelled as in a build with \<open>ENABLE_ASSERTIONS=1\<close>
  (\<open>src/include/lib/libc/assert.h\<close>): a failing \<open>assert()\<close> is the fault
  \<open>AssertFail\<close>. A theorem that an operation returns \<open>Inr\<close> therefore also says
  that none of its assertions fires, in which case a release build computes the
  same result.
\<close>

unbundle bit_operations_syntax

named_theorems arr_simps \<open>checked array accesses\<close>
named_theorems res_simps \<open>sequencing of fallible steps\<close>

section \<open>Machine types\<close>

type_synonym u8 = "8 word"
type_synonym u16 = "16 word"
type_synonym u32 = "32 word"
type_synonym u64 = "64 word"

abbreviation UINT32_MAX :: u32 where "UINT32_MAX \<equiv> -1"
abbreviation UINT64_MAX :: u64 where "UINT64_MAX \<equiv> -1"

section \<open>Faults and sequencing\<close>

text \<open>
  The ways a function can fail to return: a failing \<open>assert()\<close>, a call of
  \<open>panic()\<close>, \<open>bug_unreachable()\<close>, an access outside an array (undefined behaviour
  in C), a read of an uninitialised variable, a busy-wait loop whose condition
  nothing in the modelled step changes, and other undefined behaviour such as a signed overflow.
\<close>

datatype fault = AssertFail | Panic | Unreachable | OutOfBounds | Uninitialised | Hang | Undefined

type_synonym 'a res = "fault + 'a"

definition andthen :: "'a res \<Rightarrow> ('a \<Rightarrow> 'b res) \<Rightarrow> 'b res" where
  "andthen m f = (case m of Inl e \<Rightarrow> Inl e | Inr x \<Rightarrow> f x)"

definition assert_c :: "bool \<Rightarrow> unit res" where
  "assert_c b = (if b then Inr () else Inl AssertFail)"

lemma andthen_Inr [simp, res_simps]: "andthen (Inr x) f = f x"
  by (simp add: andthen_def)

lemma andthen_Inl [simp, res_simps]: "andthen (Inl e) f = Inl e"
  by (simp add: andthen_def)

lemma assert_c_True [simp, res_simps]: "assert_c True = Inr ()"
  by (simp add: assert_c_def)

lemma assert_c_False [simp, res_simps]: "assert_c False = Inl AssertFail"
  by (simp add: assert_c_def)

lemma andthen_eq_Inr_iff:
  "andthen m f = Inr y \<longleftrightarrow> (\<exists>x. m = Inr x \<and> f x = Inr y)"
  by (auto simp: andthen_def split: sum.splits)

lemma assert_c_eq_Inr_iff [simp]: "assert_c b = Inr u \<longleftrightarrow> b"
  by (auto simp: assert_c_def)

lemma andthen_assoc: "andthen (andthen m f) g = andthen m (\<lambda>x. andthen (f x) g)"
  by (auto simp: andthen_def split: sum.splits)

section \<open>Arrays\<close>

text \<open>
  A C array is a list. An index outside it is the fault \<open>OutOfBounds\<close>.
\<close>

definition aget :: "'a list \<Rightarrow> nat \<Rightarrow> 'a res" where
  "aget xs i = (if i < length xs then Inr (xs ! i) else Inl OutOfBounds)"

definition aput :: "'a list \<Rightarrow> nat \<Rightarrow> 'a \<Rightarrow> 'a list res" where
  "aput xs i v = (if i < length xs then Inr (xs[i := v]) else Inl OutOfBounds)"

lemma aget_in [simp, arr_simps]: "i < length xs \<Longrightarrow> aget xs i = Inr (xs ! i)"
  by (simp add: aget_def)

lemma aput_in [simp, arr_simps]: "i < length xs \<Longrightarrow> aput xs i v = Inr (xs[i := v])"
  by (simp add: aput_def)

lemma aget_eq_Inr_iff: "aget xs i = Inr v \<longleftrightarrow> i < length xs \<and> xs ! i = v"
  by (simp add: aget_def)

lemma aput_eq_Inr_iff: "aput xs i v = Inr ys \<longleftrightarrow> i < length xs \<and> ys = xs[i := v]"
  by (auto simp: aput_def)

lemma aget_aput: "aput xs i v = Inr ys \<Longrightarrow> aget ys j = (if j = i then Inr v else aget xs j)"
  by (auto simp: aput_def aget_def split: if_splits)

section \<open>Words\<close>

lemma unat_add_no_wrap:
  fixes a b :: "'a::len word"
  assumes "unat a + unat b < 2 ^ LENGTH('a)"
  shows "unat (a + b) = unat a + unat b"
  using assms by (simp add: unat_word_ariths)

lemma unat_sub_le:
  fixes a b :: "'a::len word"
  assumes "b \<le> a"
  shows "unat (a - b) = unat a - unat b"
  using assms by (rule unat_sub)

lemma word_max_le: "(x :: 'a::len word) \<le> - 1"
  by (rule word_order.extremum)

lemma word_neq_max_less: "(x :: 'a::len word) \<noteq> - 1 \<longleftrightarrow> x < - 1"
  by (auto simp: word_order.not_eq_extremum)

lemma unat_less_2p: "unat (x :: 'a::len word) < 2 ^ LENGTH('a)"
  by (rule unsigned_less)

section \<open>Powers of two and rounding\<close>

text \<open>
  \<open>is_power_of_2\<close>, \<open>round_up\<close> and \<open>round_down\<close> are the macros of
  \<open>src/include/lib/utils_def.h\<close>.
\<close>

definition is_power_of_2 :: "'a::len word \<Rightarrow> bool" where
  "is_power_of_2 x \<longleftrightarrow> x \<noteq> 0 \<and> (x AND (x - 1)) = 0"

definition round_boundary :: "'a::len word \<Rightarrow> 'a word" where
  "round_boundary boundary = boundary - 1"

definition round_up :: "'a::len word \<Rightarrow> 'a word \<Rightarrow> 'a word" where
  "round_up v boundary = ((v - 1) OR round_boundary boundary) + 1"

definition round_down :: "'a::len word \<Rightarrow> 'a word \<Rightarrow> 'a word" where
  "round_down v boundary = v AND NOT (round_boundary boundary)"

lemma nat_even_and_odd: "(2 * y) AND Suc (2 * z) = 2 * (y AND z :: nat)"
  by (subst and_rec) simp

lemma nat_odd_and_even: "Suc (2 * y) AND (2 * z) = 2 * (y AND z :: nat)"
  by (subst and_rec) simp

lemma nat_and_pred_eq_0:
  fixes n :: nat
  assumes "n \<noteq> 0" "n AND (n - 1) = 0"
  shows "\<exists>k. n = 2 ^ k"
  using assms
proof (induction n rule: less_induct)
  case (less n)
  show ?case
  proof (cases "even n")
    case True
    then obtain y where y: "n = 2 * y" by blast
    with less.prems have y0: "y \<noteq> 0" by simp
    have "n - 1 = Suc (2 * (y - 1))" using y y0 by simp
    then have "n AND (n - 1) = 2 * (y AND (y - 1))"
      using y nat_even_and_odd [of y "y - 1"] by metis
    with less.prems have "y AND (y - 1) = 0" by simp
    with less.IH [of y] y y0 obtain k where "y = 2 ^ k" by auto
    with y have "n = 2 ^ Suc k" by simp
    then show ?thesis by blast
  next
    case False
    then obtain y where y: "n = 2 * y + 1" using oddE by blast
    have "n AND (n - 1) = 2 * y"
      using y nat_odd_and_even [of y y] by simp
    with less.prems y have "n = 2 ^ 0" by simp
    then show ?thesis by blast
  qed
qed

lemma unat_and_word: "unat (a AND b) = unat a AND unat (b :: 'a::len word)"
  by (metis of_nat_unat unsigned_and_eq)

lemma is_power_of_2_exp:
  fixes x :: "'a::len word"
  assumes "is_power_of_2 x"
  obtains k where "k < LENGTH('a)" "x = 2 ^ k"
proof -
  from assms have x0: "x \<noteq> 0" and an: "x AND (x - 1) = 0"
    by (auto simp: is_power_of_2_def)
  have "unat (x - 1) = unat x - 1"
    using x0 by (simp add: unat_minus_one)
  moreover have "unat x AND unat (x - 1) = 0"
    using an by (metis unat_0 unat_and_word)
  ultimately obtain k where k: "unat x = 2 ^ k"
    using nat_and_pred_eq_0 [of "unat x"] x0 by (auto simp: unat_eq_zero)
  have "(2::nat) ^ k < 2 ^ LENGTH('a)"
    using k unat_less_2p [of x] by metis
  then have "k < LENGTH('a)" by simp
  moreover have "x = 2 ^ k"
    using k by (metis of_nat_numeral of_nat_power unat_of_nat of_nat_unat word_of_nat_eq_iff ucast_id)
  ultimately show ?thesis by (rule that)
qed

lemma nat_or_mask:
  "(m::nat) OR (2 ^ k - 1) = (m div 2 ^ k) * 2 ^ k + (2 ^ k - 1)"
proof -
  have "m OR mask k = push_bit k (drop_bit k m) OR mask k"
    by (rule bit_eqI) (auto simp: bit_simps)
  also have "\<dots> = push_bit k (drop_bit k m) + mask k"
    by (rule disjunctive_add_eq_or [symmetric]) (auto intro!: bit_eqI simp: bit_simps)
  finally show ?thesis
    by (simp add: mask_eq_exp_minus_1 push_bit_eq_mult drop_bit_eq_div)
qed

lemma unat_exp_word: "k < LENGTH('a) \<Longrightarrow> unat (2 ^ k :: 'a::len word) = 2 ^ k"
  by (metis of_nat_numeral of_nat_power unat_of_nat mod_less power_strict_increasing one_less_numeral_iff semiring_norm(76))

lemma unat_or_word: "unat (a OR b) = unat a OR unat (b :: 'a::len word)"
  by (metis unsigned_or_eq)

text \<open>The least multiple of the boundary that is not below the value.\<close>

lemma unat_round_up:
  fixes v :: "'a::len word"
  assumes k: "k < LENGTH('a)"
    and fits: "(unat v + (2 ^ k - 1)) div 2 ^ k * 2 ^ k < 2 ^ LENGTH('a)"
  shows "unat (round_up v (2 ^ k)) = (unat v + (2 ^ k - 1)) div 2 ^ k * 2 ^ k"
proof (cases "v = 0")
  case True
  then show ?thesis by (simp add: round_up_def)
next
  case False
  let ?m = "unat v - 1"
  have v1: "unat (v - 1) = ?m"
    using False by (simp add: unat_minus_one)
  have b: "unat (round_boundary (2 ^ k :: 'a word)) = 2 ^ k - 1"
    using k by (simp add: round_boundary_def unat_minus_one unat_exp_word)
  have "unat ((v - 1) OR round_boundary (2 ^ k)) = ?m div 2 ^ k * 2 ^ k + (2 ^ k - 1)"
    unfolding unat_or_word v1 b by (rule nat_or_mask)
  moreover have "?m div 2 ^ k * 2 ^ k + 2 ^ k = (unat v + (2 ^ k - 1)) div 2 ^ k * 2 ^ k"
  proof -
    have e: "unat v + (2 ^ k - 1) = ?m + 2 ^ k"
      using False by (cases "unat v") (auto simp: unat_eq_zero)
    have "(?m + 2 ^ k) div 2 ^ k = ?m div 2 ^ k + 1"
      by (rule div_add_self2) simp
    then show ?thesis unfolding e by (simp only: add_mult_distrib)
  qed
  moreover have "(0::nat) < 2 ^ k" by simp
  ultimately have "unat ((v - 1) OR round_boundary (2 ^ k)) + unat (1 :: 'a word)
      = (unat v + (2 ^ k - 1)) div 2 ^ k * 2 ^ k"
    unfolding unat_1 by linarith
  with fits show ?thesis
    unfolding round_up_def by (metis unat_add_no_wrap)
qed

section \<open>Lists\<close>

lemma filter_upt_Cons:
  assumes "filter P [k..<n] = i # is"
  shows "k \<le> i" "i < n" "P i" "is = filter P [Suc i..<n]"
proof -
  from assms obtain us vs where u: "[k..<n] = us @ i # vs" "\<forall>x \<in> set us. \<not> P x" "P i" "is = filter P vs"
    by (auto simp: filter_eq_Cons_iff)
  have i: "i \<in> set [k..<n]" unfolding u(1) by simp
  then show "k \<le> i" "i < n" by auto
  show "P i" by (rule u(3))
  have "length us = i - k"
  proof -
    have lt: "length us < length [k..<n]" unfolding u(1) by simp
    have "[k..<n] ! length us = i" unfolding u(1) by simp
    then have "k + length us = i" using lt by simp
    then show ?thesis by simp
  qed
  then have "drop (Suc (i - k)) [k..<n] = vs" unfolding u(1) by simp
  then show "is = filter P [Suc i..<n]" using u(4) \<open>k \<le> i\<close> by simp
qed

end
