(* ===== verification/Tftf_Heap.thy ===== *)
theory Tftf_Heap
  imports Tftf_Prelude
begin

text \<open>
  The page pool of \<open>src/lib/heap/page_alloc.c\<close>: a bump allocator over one region of
  DRAM. The file's static variables are the record \<open>heap\<close>. The code between
  \<open>spin_lock\<close> and \<open>spin_unlock\<close> of \<open>mem_lock\<close> is one atomic step, but
  \<open>page_alloc\<close> reads the static \<open>heap_addr\<close> for its result only after it has released the
  lock: that read is a step of its own (\<open>page_alloc_return\<close>), and calls of several CPUs
  interleave between the two. \<open>heap_initialised\<close> is a C \<open>bool\<close>: every non-zero code
  stored in it becomes 1.
\<close>

section \<open>State and operations\<close>

record heap =
  memory_used :: u64
  heap_base_addr :: u64
  heap_addr :: u64
  heap_size :: u64
  heap_initialised :: bool

abbreviation HEAP_NULL_PTR :: u64 where "HEAP_NULL_PTR \<equiv> 0"
abbreviation HEAP_INVALID_LEN :: int where "HEAP_INVALID_LEN \<equiv> -1"
abbreviation HEAP_OUT_OF_RANGE :: int where "HEAP_OUT_OF_RANGE \<equiv> -2"
abbreviation HEAP_INIT_FAILED :: int where "HEAP_INIT_FAILED \<equiv> -3"
abbreviation HEAP_INIT_SUCCESS :: int where "HEAP_INIT_SUCCESS \<equiv> 0"

text \<open>Conversion of an integer to the C type \<open>bool\<close>, and back.\<close>

definition to_c_bool :: "int \<Rightarrow> bool" where
  "to_c_bool i \<longleftrightarrow> i \<noteq> 0"

definition of_c_bool :: "bool \<Rightarrow> int" where
  "of_c_bool b = (if b then 1 else 0)"

definition heap_reset_state :: heap where
  "heap_reset_state =
     \<lparr>memory_used = 0, heap_base_addr = 0, heap_addr = 0, heap_size = 0,
      heap_initialised = to_c_bool HEAP_INIT_FAILED\<rparr>"

text \<open>\<open>DRAM_BASE\<close> and \<open>DRAM_SIZE\<close> come from the platform and are parameters.\<close>

definition page_pool_init :: "u64 \<Rightarrow> u64 \<Rightarrow> u64 \<Rightarrow> u64 \<Rightarrow> heap \<Rightarrow> int \<times> heap" where
  "page_pool_init DRAM_BASE DRAM_SIZE base len h =
     (let plat_max_addr = DRAM_BASE + DRAM_SIZE;
          max_addr = base + len;
          h' = (if len = 0 then h\<lparr>heap_initialised := to_c_bool HEAP_INVALID_LEN\<rparr>
                else if plat_max_addr \<le> max_addr
                then h\<lparr>heap_initialised := to_c_bool HEAP_OUT_OF_RANGE\<rparr>
                else h\<lparr>heap_base_addr := base, memory_used := base, heap_size := len,
                       heap_initialised := to_c_bool HEAP_INIT_SUCCESS\<rparr>)
      in (of_c_bool (heap_initialised h'), h'))"

text \<open>
  \<open>page_alloc\<close> up to the release of \<open>mem_lock\<close>: whether the call goes on to return a
  block, and the statics it leaves.
\<close>

definition page_alloc_locked :: "u64 \<Rightarrow> heap \<Rightarrow> bool \<times> heap" where
  "page_alloc_locked bytes_size h =
     (if of_c_bool (heap_initialised h) \<noteq> HEAP_INIT_SUCCESS then (False, h)
      else if bytes_size = 0 then (False, h)
      else if heap_base_addr h + heap_size h \<le> memory_used h + bytes_size
      then (False, h)
      else (True,
            h\<lparr>heap_addr := memory_used h, memory_used := memory_used h + bytes_size\<rparr>))"

text \<open>The result, read from the static variable without the lock.\<close>

definition page_alloc_return :: "bool \<Rightarrow> heap \<Rightarrow> u64" where
  "page_alloc_return ok h = (if ok then heap_addr h else HEAP_NULL_PTR)"

text \<open>A whole call during which no other CPU allocates.\<close>

definition page_alloc :: "u64 \<Rightarrow> heap \<Rightarrow> u64 \<times> heap" where
  "page_alloc bytes_size h =
     (let (ok, h') = page_alloc_locked bytes_size h in (page_alloc_return ok h', h'))"

definition page_alloc_aligned :: "u64 \<Rightarrow> u64 \<Rightarrow> heap \<Rightarrow> u64 \<times> heap" where
  "page_alloc_aligned bytes_size alignment h =
     (if of_c_bool (heap_initialised h) \<noteq> HEAP_INIT_SUCCESS then (HEAP_NULL_PTR, h)
      else if bytes_size = 0 then (HEAP_NULL_PTR, h)
      else if \<not> is_power_of_2 alignment then (HEAP_NULL_PTR, h)
      else let aligned_addr = round_up (memory_used h) alignment;
               total_bytes_size = (aligned_addr - memory_used h) + bytes_size
           in if heap_base_addr h + heap_size h \<le> memory_used h + total_bytes_size
              then (HEAP_NULL_PTR, h)
              else (aligned_addr,
                    h\<lparr>heap_addr := memory_used h,
                      memory_used := memory_used h + total_bytes_size\<rparr>))"

definition page_pool_reset :: "heap \<Rightarrow> heap" where
  "page_pool_reset h = h\<lparr>memory_used := heap_base_addr h\<rparr>"

definition page_free :: "u64 \<Rightarrow> heap \<Rightarrow> heap" where
  "page_free address h = h"

section \<open>Invariant\<close>

definition heap_ready :: "heap \<Rightarrow> bool" where
  "heap_ready h \<longleftrightarrow> \<not> heap_initialised h"

definition heap_limit :: "heap \<Rightarrow> nat" where
  "heap_limit h = unat (heap_base_addr h) + unat (heap_size h)"

text \<open>The region ends below the top of the address space and the cursor is inside it.\<close>

definition heap_wf :: "heap \<Rightarrow> bool" where
  "heap_wf h \<longleftrightarrow> heap_limit h < 2 ^ 64
     \<and> unat (heap_base_addr h) \<le> unat (memory_used h)
     \<and> unat (memory_used h) \<le> heap_limit h"

text \<open>
  A request the 64-bit sums of the allocator can represent: size and alignment
  padding added to any cursor inside the heap stay below \<open>2 ^ 64\<close>.
\<close>

definition fits_req :: "heap \<Rightarrow> u64 \<Rightarrow> u64 \<Rightarrow> bool" where
  "fits_req h bytes_size alignment \<longleftrightarrow>
     heap_limit h + unat bytes_size + unat alignment < 2 ^ 64"

lemma of_c_bool_success [simp]: "(of_c_bool b = HEAP_INIT_SUCCESS) = (\<not> b)"
  by (simp add: of_c_bool_def)

lemma unat_heap_limit: "heap_wf h \<Longrightarrow> unat (heap_base_addr h + heap_size h) = heap_limit h"
  by (simp add: heap_wf_def heap_limit_def unat_add_no_wrap)

lemma page_pool_init_ready:
  assumes "page_pool_init db ds base len h = (0, h')" "unat base + unat len < 2 ^ 64"
  shows "heap_ready h' \<and> heap_wf h' \<and> memory_used h' = base \<and> heap_base_addr h' = base
    \<and> heap_size h' = len \<and> len \<noteq> 0"
  using assms
  by (auto simp: page_pool_init_def Let_def of_c_bool_def to_c_bool_def heap_ready_def heap_wf_def
      heap_limit_def split: if_splits)

text \<open>What a successful allocation returns and how it moves the cursor.\<close>

lemma page_alloc_locked_cases:
  assumes wf: "heap_wf h" and fit: "fits_req h n 0"
    and alloc: "page_alloc_locked n h = (ok, h')"
  shows "h' = h \<and> \<not> ok
    \<or> h' = h\<lparr>heap_addr := memory_used h, memory_used := memory_used h + n\<rparr>
      \<and> ok \<and> n \<noteq> 0 \<and> unat (memory_used h + n) = unat (memory_used h) + unat n
      \<and> unat (memory_used h) + unat n < heap_limit h"
proof -
  have nw: "unat (memory_used h + n) = unat (memory_used h) + unat n"
    using wf fit by (intro unat_add_no_wrap) (auto simp: heap_wf_def fits_req_def)
  show ?thesis
    using alloc nw unat_heap_limit [OF wf]
    by (auto simp: page_alloc_locked_def word_le_nat_alt split: if_splits)
qed

lemma div_round_le: "(m + (2 ^ k - 1)) div 2 ^ k * 2 ^ k \<le> m + (2 ^ k - 1 :: nat)"
  by (rule div_times_less_eq_dividend)

lemma div_round_ge: "m \<le> (m + (2 ^ k - 1)) div 2 ^ k * (2 ^ k :: nat)"
proof -
  have "m + (2 ^ k - 1) = (m + (2 ^ k - 1)) div 2 ^ k * 2 ^ k + (m + (2 ^ k - 1)) mod 2 ^ k"
    by (rule div_mult_mod_eq [symmetric])
  moreover have "(m + (2 ^ k - 1)) mod 2 ^ k < (2 ^ k :: nat)"
    by (rule mod_less_divisor) simp
  ultimately show ?thesis by linarith
qed

lemma round_up_spec:
  assumes p: "is_power_of_2 al" and fit: "unat v + unat al \<le> 2 ^ 64"
  shows "unat v \<le> unat (round_up v (al :: u64))
    \<and> unat (round_up v al) < unat v + unat al \<and> unat al dvd unat (round_up v al)"
proof -
  from p obtain k where k: "k < 64" "al = 2 ^ k"
    by (rule is_power_of_2_exp) simp
  have al: "unat al = 2 ^ k" using k by (simp add: unat_exp_word)
  have "(2::nat) ^ k > 0" by simp
  then have lt: "(unat v + (2 ^ k - 1)) div 2 ^ k * 2 ^ k < unat v + 2 ^ k"
    using div_round_le [of "unat v" k] by linarith
  with fit al have "(unat v + (2 ^ k - 1)) div 2 ^ k * 2 ^ k < 2 ^ LENGTH(64)"
    by simp
  then have "unat (round_up v al) = (unat v + (2 ^ k - 1)) div 2 ^ k * 2 ^ k"
    using k unat_round_up [of k v] by simp
  then show ?thesis
    using lt div_round_ge [of "unat v" k] al by simp
qed

lemma page_alloc_aligned_cases:
  assumes wf: "heap_wf h" and fit: "fits_req h n al"
    and alloc: "page_alloc_aligned n al h = (a, h')"
  shows "h' = h \<and> a = 0
    \<or> is_power_of_2 al \<and> n \<noteq> 0 \<and> unat al dvd unat a
      \<and> h' = h\<lparr>heap_addr := memory_used h, memory_used := a + n\<rparr>
      \<and> unat (memory_used h) \<le> unat a \<and> unat (a + n) = unat a + unat n
      \<and> unat a + unat n < heap_limit h"
proof (cases "h' = h \<and> a = 0")
  case False
  with alloc have p: "is_power_of_2 al" and n: "n \<noteq> 0"
    and a: "a = round_up (memory_used h) al"
    by (auto simp: page_alloc_aligned_def Let_def split: if_splits)
  have "unat (memory_used h) + unat al \<le> 2 ^ 64"
    using wf fit by (auto simp: heap_wf_def fits_req_def)
  from round_up_spec [OF p this] a
  have ru: "unat (memory_used h) \<le> unat a" "unat a < unat (memory_used h) + unat al"
    "unat al dvd unat a"
    by auto
  have cursor: "memory_used h + ((a - memory_used h) + n) = a + n" by simp
  have nw: "unat (a + n) = unat a + unat n"
    using wf fit ru by (intro unat_add_no_wrap) (auto simp: heap_wf_def fits_req_def)
  show ?thesis
    using alloc False p n ru nw unat_heap_limit [OF wf] unfolding a [symmetric]
    by (auto simp: page_alloc_aligned_def Let_def a [symmetric] cursor word_le_nat_alt
        split: if_splits)
qed simp

section \<open>Allocations of several CPUs\<close>

text \<open>A request, and a block (request and address) the pool handed out for one.\<close>

datatype heap_req = Alloc u64 | AllocAligned u64 u64

fun req_size :: "heap_req \<Rightarrow> u64" where
  "req_size (Alloc n) = n"
| "req_size (AllocAligned n al) = n"

fun req_align :: "heap_req \<Rightarrow> u64" where
  "req_align (Alloc n) = 0"
| "req_align (AllocAligned n al) = al"

definition block_start :: "heap_req \<times> u64 \<Rightarrow> nat" where
  "block_start b = unat (snd b)"

definition block_end :: "heap_req \<times> u64 \<Rightarrow> nat" where
  "block_end b = unat (snd b) + unat (req_size (fst b))"

text \<open>
  The pool shared by the CPUs: \<open>granted\<close> holds, for every CPU that has released the lock
  inside a successful \<open>page_alloc\<close> and has not read its result yet, the size it asked
  for; \<open>blocks\<close> the blocks returned so far, in the order of the returns.
\<close>

record pool_sys =
  pool :: heap
  granted :: "nat \<Rightarrow> u64 option"
  blocks :: "(heap_req \<times> u64) list"

definition pool_start :: "heap \<Rightarrow> pool_sys" where
  "pool_start h = \<lparr>pool = h, granted = Map.empty, blocks = []\<rparr>"

text \<open>
  The states the CPUs reach from the pool \<open>h\<close> with requests of the set \<open>R\<close>. With \<open>apart\<close> an
  allocation starts only when no other one is between its unlock and its return (the
  lead CPU alone allocates, or the callers serialise themselves); without it the CPUs
  interleave freely, as \<open>mem_lock\<close> allows.
\<close>

inductive pool_reach :: "bool \<Rightarrow> heap_req set \<Rightarrow> heap \<Rightarrow> pool_sys \<Rightarrow> bool"
  for apart R h where
  start: "pool_reach apart R h (pool_start h)"
| refused: "pool_reach apart R h s \<Longrightarrow> Alloc n \<in> R \<Longrightarrow> granted s cpu = None
    \<Longrightarrow> page_alloc_locked n (pool s) = (False, p) \<Longrightarrow> pool_reach apart R h (s\<lparr>pool := p\<rparr>)"
| unlocked: "pool_reach apart R h s \<Longrightarrow> Alloc n \<in> R \<Longrightarrow> granted s cpu = None
    \<Longrightarrow> (apart \<longrightarrow> granted s = Map.empty)
    \<Longrightarrow> page_alloc_locked n (pool s) = (True, p)
    \<Longrightarrow> pool_reach apart R h (s\<lparr>pool := p, granted := (granted s)(cpu \<mapsto> n)\<rparr>)"
| returned: "pool_reach apart R h s \<Longrightarrow> granted s cpu = Some n
    \<Longrightarrow> pool_reach apart R h (s\<lparr>granted := (granted s)(cpu := None),
          blocks := blocks s @ [(Alloc n, page_alloc_return True (pool s))]\<rparr>)"
| aligned: "pool_reach apart R h s \<Longrightarrow> AllocAligned n al \<in> R \<Longrightarrow> granted s cpu = None
    \<Longrightarrow> (apart \<longrightarrow> granted s = Map.empty)
    \<Longrightarrow> page_alloc_aligned n al (pool s) = (a, p)
    \<Longrightarrow> pool_reach apart R h (s\<lparr>pool := p,
          blocks := blocks s @ (if a = HEAP_NULL_PTR then [] else [(AllocAligned n al, a)])\<rparr>)"

text \<open>
  What holds when the calls are apart: the blocks returned so far lie in order between
  the pool's base and the cursor, except for the one block, at \<open>heap_addr\<close>, that a CPU may
  still be about to return.
\<close>

definition pool_inv :: "heap \<Rightarrow> pool_sys \<Rightarrow> bool" where
  "pool_inv h s \<longleftrightarrow> heap_wf (pool s) \<and> heap_limit (pool s) = heap_limit h
     \<and> heap_base_addr (pool s) = heap_base_addr h
     \<and> (\<forall>cpu n. granted s cpu = Some n \<longrightarrow> granted s = [cpu \<mapsto> n]
          \<and> unat (heap_base_addr h) \<le> unat (heap_addr (pool s))
          \<and> unat (memory_used (pool s)) = unat (heap_addr (pool s)) + unat n
          \<and> unat (memory_used (pool s)) < heap_limit h
          \<and> (\<forall>b \<in> set (blocks s). block_end b \<le> unat (heap_addr (pool s))))
     \<and> (\<forall>b \<in> set (blocks s). unat (heap_base_addr h) \<le> block_start b
          \<and> block_end b \<le> unat (memory_used (pool s)) \<and> block_end b < heap_limit h
          \<and> (req_align (fst b) = 0 \<or> unat (req_align (fst b)) dvd block_start b))
     \<and> sorted_wrt (\<lambda>b c. block_end b \<le> block_start c) (blocks s)"

lemma pool_inv_start: "heap_wf h \<Longrightarrow> pool_inv h (pool_start h)"
  by (simp add: pool_inv_def pool_start_def)

lemma pool_inv_unlocked:
  assumes i: "pool_inv h s" and fit: "fits_req h n 0" and g: "granted s = Map.empty"
    and a: "page_alloc_locked n (pool s) = (True, p)"
  shows "pool_inv h (s\<lparr>pool := p, granted := (granted s)(cpu \<mapsto> n)\<rparr>)"
proof -
  have wf: "heap_wf (pool s)" and "fits_req (pool s) n 0"
    using i fit by (auto simp: pool_inv_def fits_req_def)
  from page_alloc_locked_cases [OF this a] show ?thesis
    using i g by (auto simp: pool_inv_def heap_wf_def heap_limit_def split: if_splits)
qed

lemma pool_inv_returned:
  assumes i: "pool_inv h s" and g: "granted s cpu = Some n"
  shows "pool_inv h (s\<lparr>granted := (granted s)(cpu := None),
    blocks := blocks s @ [(Alloc n, page_alloc_return True (pool s))]\<rparr>)"
proof -
  have pend: "granted s = [cpu \<mapsto> n]" "unat (heap_base_addr h) \<le> unat (heap_addr (pool s))"
    "unat (memory_used (pool s)) = unat (heap_addr (pool s)) + unat n"
    "unat (memory_used (pool s)) < heap_limit h"
    "\<forall>b \<in> set (blocks s). block_end b \<le> unat (heap_addr (pool s))"
    using i g unfolding pool_inv_def by blast+
  have "granted (s\<lparr>granted := (granted s)(cpu := None),
    blocks := blocks s @ [(Alloc n, page_alloc_return True (pool s))]\<rparr>) = Map.empty"
    using pend(1) by simp
  with i pend(2-5) show ?thesis
    unfolding pool_inv_def
    by (simp add: page_alloc_return_def block_start_def block_end_def sorted_wrt_append)
qed

lemma pool_inv_aligned:
  assumes i: "pool_inv h s" and fit: "fits_req h n al" and g: "granted s = Map.empty"
    and a: "page_alloc_aligned n al (pool s) = (a, p)"
  shows "pool_inv h (s\<lparr>pool := p,
    blocks := blocks s @ (if a = HEAP_NULL_PTR then [] else [(AllocAligned n al, a)])\<rparr>)"
proof -
  have wf: "heap_wf (pool s)" and "fits_req (pool s) n al"
    using i fit by (auto simp: pool_inv_def fits_req_def)
  from page_alloc_aligned_cases [OF this a] show ?thesis
  proof
    assume "p = pool s \<and> a = 0"
    then show ?thesis using i by simp
  next
    assume "is_power_of_2 al \<and> n \<noteq> 0 \<and> unat al dvd unat a
      \<and> p = pool s\<lparr>heap_addr := memory_used (pool s), memory_used := a + n\<rparr>
      \<and> unat (memory_used (pool s)) \<le> unat a \<and> unat (a + n) = unat a + unat n
      \<and> unat a + unat n < heap_limit (pool s)"
    then show ?thesis
      using i g
      by (auto simp: pool_inv_def heap_wf_def heap_limit_def block_start_def block_end_def
          sorted_wrt_append)
  qed
qed

lemma pool_inv_reach:
  assumes "pool_reach True R h s" "heap_wf h"
    and fit: "\<And>r. r \<in> R \<Longrightarrow> fits_req h (req_size r) (req_align r)"
  shows "pool_inv h s"
  using assms(1)
proof induction
  case start
  show ?case by (rule pool_inv_start [OF assms(2)])
next
  case (refused s n cpu p)
  then have "p = pool s" by (auto simp: page_alloc_locked_def split: if_splits)
  with refused show ?case by simp
next
  case (unlocked s n cpu p)
  then show ?case using fit [of "Alloc n"] by (intro pool_inv_unlocked) simp_all
next
  case (returned s cpu n)
  then show ?case by (intro pool_inv_returned)
next
  case (aligned s n al cpu a p)
  then show ?case using fit [of "AllocAligned n al"] by (intro pool_inv_aligned) simp_all
qed

section \<open>Properties\<close>

text \<open>C34: from a successful initialisation of a pool that does not wrap around the
  address space, in every state the CPUs reach by plain and aligned requests whose sums
  fit 64 bits, provided no allocation starts between the unlock and the return of a
  \<open>page_alloc\<close> on another CPU, the blocks returned lie inside the pool, are aligned
  as requested and never overlap: each block ends at or before the start of every later one.
  (Without the proviso they can overlap: see the race below.)\<close>

theorem page_pool_blocks_disjoint:
  assumes "page_pool_init db ds base len h0 = (0, h)"
    and "unat base + unat len < 2 ^ 64"
    and "\<And>r. r \<in> R \<Longrightarrow>
      unat base + unat len + unat (req_size r) + unat (req_align r) < 2 ^ 64"
    and "pool_reach True R h s"
  shows "(\<forall>b \<in> set (blocks s). unat base \<le> block_start b
      \<and> block_end b < unat base + unat len
      \<and> (req_align (fst b) = 0 \<or> unat (req_align (fst b)) dvd block_start b))
    \<and> sorted_wrt (\<lambda>b c. block_end b \<le> block_start c) (blocks s)"
proof -
  from page_pool_init_ready [OF assms(1,2)]
  have wf: "heap_wf h" and lim: "heap_limit h = unat base + unat len"
    and ba: "heap_base_addr h = base"
    by (auto simp: heap_limit_def)
  have "pool_inv h s"
    by (rule pool_inv_reach [OF assms(4) wf]) (use assms(3) in \<open>simp add: fits_req_def lim\<close>)
  then show ?thesis unfolding pool_inv_def lim ba by blast
qed

text \<open>A pool of 64 KiB, and its statics after one plain and one aligned allocation.\<close>

definition demo_pool :: heap where
  "demo_pool = snd (page_pool_init 0x80000000 0x80000000 0x88000000 0x10000 heap_reset_state)"

lemma demo_pool_init:
  "page_pool_init 0x80000000 0x80000000 0x88000000 0x10000 heap_reset_state = (0, demo_pool)"
  by (simp add: demo_pool_def page_pool_init_def heap_reset_state_def to_c_bool_def of_c_bool_def
      Let_def)

lemma demo_pool_eq:
  "demo_pool = \<lparr>memory_used = 0x88000000, heap_base_addr = 0x88000000, heap_addr = 0,
     heap_size = 0x10000, heap_initialised = False\<rparr>"
  by (simp add: demo_pool_def page_pool_init_def heap_reset_state_def to_c_bool_def Let_def)

lemma demo_pool_reach:
  "pool_reach True {Alloc 0x1000, AllocAligned 0x2000 0x4000} demo_pool
     \<lparr>pool = \<lparr>memory_used = 0x88006000, heap_base_addr = 0x88000000, heap_addr = 0x88001000,
        heap_size = 0x10000, heap_initialised = False\<rparr>, granted = Map.empty,
      blocks = [(Alloc 0x1000, 0x88000000), (AllocAligned 0x2000 0x4000, 0x88004000)]\<rparr>"
proof -
  define p1 where "p1 = \<lparr>memory_used = 0x88001000, heap_base_addr = 0x88000000,
    heap_addr = 0x88000000, heap_size = 0x10000, heap_initialised = False\<rparr>"
  define p2 where "p2 = \<lparr>memory_used = 0x88006000, heap_base_addr = 0x88000000,
    heap_addr = 0x88001000, heap_size = 0x10000, heap_initialised = False\<rparr>"
  have "page_alloc_locked 0x1000 demo_pool = (True, p1)"
    by (simp add: demo_pool_eq p1_def page_alloc_locked_def)
  note r1 = pool_reach.unlocked [OF pool_reach.start, where n = "0x1000" and cpu = 0
      and h = demo_pool and apart = True and p = p1
      and R = "{Alloc 0x1000, AllocAligned 0x2000 0x4000}", unfolded pool_start_def, simplified,
      OF this]
  note r2 = pool_reach.returned [OF r1, of 0 "0x1000", simplified]
  have "page_alloc_aligned 0x2000 0x4000 p1 = (0x88004000, p2)"
    by (simp add: p1_def p2_def page_alloc_aligned_def is_power_of_2_def round_up_def
        round_boundary_def)
  note r3 = pool_reach.aligned [OF r2, of "0x2000" "0x4000" 1 "0x88004000" p2, simplified, OF this]
  show ?thesis
    using r3 by (simp add: p1_def p2_def page_alloc_return_def)
qed

theorem page_pool_blocks_disjoint_witness:
  "sorted_wrt (\<lambda>b c. block_end b \<le> block_start c)
     [(Alloc 0x1000, 0x88000000), (AllocAligned 0x2000 0x4000, 0x88004000)]
   \<and> 0x4000 dvd block_start (AllocAligned 0x2000 0x4000, 0x88004000)"
proof -
  have fit: "\<And>r. r \<in> {Alloc 0x1000, AllocAligned 0x2000 0x4000} \<Longrightarrow>
      unat (0x88000000 :: u64) + unat (0x10000 :: u64) + unat (req_size r) + unat (req_align r) < 2 ^ 64"
    by auto
  have "unat (0x88000000 :: u64) + unat (0x10000 :: u64) < 2 ^ 64" by simp
  from page_pool_blocks_disjoint [OF demo_pool_init this fit demo_pool_reach] show ?thesis
    by simp
qed

text \<open>C35: the sum of cursor and size is not checked for overflow. On any pool, a
  request of at least the heap's length whose sum with the cursor wraps to an address
  below the pool's end is granted, and the cursor moves to the wrapped address.\<close>

theorem page_alloc_wraps:
  assumes "heap_ready h" "heap_wf h" "n \<noteq> 0"
    and "2 ^ 64 \<le> unat (memory_used h) + unat n"
    and "unat (memory_used h) + unat n - 2 ^ 64 < heap_limit h"
  shows "fst (page_alloc n h) = memory_used h
    \<and> unat (memory_used (snd (page_alloc n h))) = unat (memory_used h) + unat n - 2 ^ 64
    \<and> unat (memory_used (snd (page_alloc n h))) < unat (memory_used h)"
proof -
  have "unat n < 2 ^ 64" using unat_less_2p [of n] by simp
  moreover have w: "unat (memory_used h + n) = unat (memory_used h) + unat n - 2 ^ 64"
    using assms(4) by (simp add: unat_plus_if')
  ultimately show ?thesis
    using assms unat_heap_limit [OF assms(2)]
    by (simp add: page_alloc_def page_alloc_locked_def page_alloc_return_def heap_ready_def
        word_le_nat_alt)
qed

theorem page_alloc_wraps_witness:
  "let h = snd (page_pool_init 0x80000000 0x80000000 0x88000000 0x10000 heap_reset_state)
   in fst (page_alloc 0xFFFFFFFF80000000 h) = 0x88000000
      \<and> unat (memory_used (snd (page_alloc 0xFFFFFFFF80000000 h))) = 0x8000000
      \<and> unat (memory_used (snd (page_alloc 0xFFFFFFFF80000000 h))) < unat (memory_used h)"
proof -
  define h where "h = snd (page_pool_init 0x80000000 0x80000000 0x88000000 0x10000 heap_reset_state)"
  have h: "memory_used h = 0x88000000" "heap_base_addr h = 0x88000000" "heap_size h = 0x10000"
    "\<not> heap_initialised h"
    by (simp_all add: h_def page_pool_init_def heap_reset_state_def to_c_bool_def of_c_bool_def Let_def)
  have "heap_ready h" "heap_wf h" using h by (simp_all add: heap_ready_def heap_wf_def heap_limit_def)
  from page_alloc_wraps [OF this, of "0xFFFFFFFF80000000"] h
  show ?thesis unfolding h_def [symmetric] Let_def by (simp add: heap_limit_def)
qed

text \<open>C36: \<open>page_alloc\<close> returns the static \<open>heap_addr\<close> after it has released \<open>mem_lock\<close>.
  Whenever the pool has room for two requests, two CPUs that both pass the unlock before
  either returns receive the same address, that of the second block; the first block is
  lost and the two blocks overlap.\<close>

theorem page_alloc_race:
  assumes "heap_ready h" "heap_wf h" "n \<noteq> 0" "m \<noteq> 0"
    and room: "unat (memory_used h) + unat n + unat m < heap_limit h"
  shows "\<exists>s. pool_reach False {Alloc n, Alloc m} h s
    \<and> blocks s = [(Alloc n, memory_used h + n), (Alloc m, memory_used h + n)]
    \<and> memory_used (pool s) = memory_used h + n + m"
proof -
  define p1 where "p1 = h\<lparr>heap_addr := memory_used h, memory_used := memory_used h + n\<rparr>"
  define p2 where "p2 = h\<lparr>heap_addr := memory_used h + n, memory_used := memory_used h + n + m\<rparr>"
  have lim: "heap_limit h < 2 ^ 64" using assms(2) by (simp add: heap_wf_def)
  have u1: "unat (memory_used h + n) = unat (memory_used h) + unat n"
    using room lim by (intro unat_add_no_wrap) simp
  then have u2: "unat (memory_used h + n + m) = unat (memory_used h) + unat n + unat m"
    using room lim unat_add_no_wrap [of "memory_used h + n" m] by simp
  note e = unat_heap_limit [OF assms(2)]
  have l1: "page_alloc_locked n h = (True, p1)"
    using assms e u1 by (simp add: page_alloc_locked_def p1_def heap_ready_def word_le_nat_alt)
  have l2: "page_alloc_locked m p1 = (True, p2)"
    using assms e u2
    by (simp add: page_alloc_locked_def p1_def p2_def heap_ready_def word_le_nat_alt)
  note r1 = pool_reach.unlocked [OF pool_reach.start, where R = "{Alloc n, Alloc m}" and n = n and cpu = 0
      and h = h and apart = False and p = p1,
      unfolded pool_start_def, simplified, OF l1]
  have r2: "pool_reach False {Alloc n, Alloc m} h
      \<lparr>pool = p2, granted = [0 \<mapsto> n, 1 \<mapsto> m], blocks = []\<rparr>"
    using pool_reach.unlocked [OF r1, of m 1 p2] l2 by simp
  note r3 = pool_reach.returned [OF r2, of 0 n]
  have "pool_reach False {Alloc n, Alloc m} h
      \<lparr>pool = p2, granted = [0 \<mapsto> n, 1 \<mapsto> m](0 := None, 1 := None),
       blocks = [(Alloc n, heap_addr p2), (Alloc m, heap_addr p2)]\<rparr>"
    using pool_reach.returned [OF r3, of 1 m] by (simp add: page_alloc_return_def)
  then show ?thesis by (intro exI conjI) (assumption, simp_all add: p2_def)
qed

theorem page_alloc_race_witness:
  "\<exists>s. pool_reach False {Alloc 0x1000, Alloc 0x2000} demo_pool s
    \<and> blocks s = [(Alloc 0x1000, 0x88001000), (Alloc 0x2000, 0x88001000)]
    \<and> memory_used (pool s) = 0x88003000"
proof -
  have "heap_ready demo_pool" "heap_wf demo_pool" "memory_used demo_pool = 0x88000000"
    "heap_limit demo_pool = 0x88010000"
    by (simp_all add: demo_pool_eq heap_ready_def heap_wf_def heap_limit_def)
  then show ?thesis
    using page_alloc_race [of demo_pool "0x1000" "0x2000"] by simp
qed

end
