(* ===== verification/Tftf_Timer_Drivers.thy ===== *)
theory Tftf_Timer_Drivers
  imports Tftf_Prelude
begin

text \<open>
  The timer peripherals behind the timer framework: the memory-mapped system timer
  (\<open>src/drivers/arm/timer/system_timer.c\<close>), the per-CPU generic timer
  (\<open>private_timer.c\<close>) and the SP804 of Juno (\<open>sp804.c\<close>), and the interface
  \<open>timer_driver\<close> the framework relies on, with its laws proved for the first two.

  Registers are record fields. The system counter is read from \<open>clk\<close>: \<open>clk h n\<close> is the
  value the \<open>n\<close>-th next read of the counter returns, so two reads of the same C function
  may see different times. Nothing but the order of the readings is assumed about it.
\<close>

section \<open>The counter\<close>

record clock =
  clk :: "nat \<Rightarrow> u64"

definition read_cntpct :: "'a clock_scheme \<Rightarrow> u64 \<times> 'a clock_scheme" where
  "read_cntpct h = (clk h 0, h\<lparr>clk := (\<lambda>n. clk h (Suc n))\<rparr>)"

text \<open>
  The counter never runs backwards, and a session ends before it reaches \<open>2 ^ 62\<close> (146 years
  at 1 GHz).
\<close>

definition clk_mono :: "'a clock_scheme \<Rightarrow> bool" where
  "clk_mono h \<longleftrightarrow> (\<forall>n. clk h n \<le> clk h (Suc n) \<and> unat (clk h n) < 2 ^ 62)"

text \<open>Control register bits: enable is bit 0, interrupt mask bit 1.\<close>

definition set_cntp_ctl_enable :: "u32 \<Rightarrow> u32" where
  "set_cntp_ctl_enable x = x OR push_bit 0 1"

definition set_cntp_ctl_imask :: "u32 \<Rightarrow> u32" where
  "set_cntp_ctl_imask x = x OR push_bit 1 1"

definition clr_cntp_ctl_imask :: "u32 \<Rightarrow> u32" where
  "clr_cntp_ctl_imask x = x AND NOT (push_bit 1 1)"

definition ctl_armed :: "u32 \<Rightarrow> bool" where
  "ctl_armed c \<longleftrightarrow> bit c 0 \<and> \<not> bit c 1"

lemma ctl_armed_program: "ctl_armed (clr_cntp_ctl_imask (set_cntp_ctl_enable c))"
  by (simp add: ctl_armed_def clr_cntp_ctl_imask_def set_cntp_ctl_enable_def bit_simps)

lemma ctl_armed_disabled: "\<not> ctl_armed (set_cntp_ctl_imask 0)"
  by (simp add: ctl_armed_def set_cntp_ctl_imask_def bit_simps)

text \<open>The common timer expression \<open>(freq * time_out_ms) / 1000\<close>, in 64 bits.\<close>

definition ms_to_ticks :: "u32 \<Rightarrow> u64 \<Rightarrow> u64" where
  "ms_to_ticks freq ms = ((ucast freq :: u64) * ms) div 1000"

section \<open>System timer\<close>

record systimer = clock +
  g_systimer_base :: u64
  cntp_cval :: u64
  cntp_ctl :: u32
  sys_freq :: u32

definition program_systimer :: "u64 \<Rightarrow> systimer \<Rightarrow> (int \<times> systimer) res" where
  "program_systimer time_out_ms h =
     andthen (assert_c (g_systimer_base h \<noteq> 0)) (\<lambda>_.
     let (count, h) = read_cntpct h;
         count_val = count + ms_to_ticks (sys_freq h) time_out_ms;
         h = h\<lparr>cntp_cval := count_val\<rparr>;
         h = h\<lparr>cntp_ctl := clr_cntp_ctl_imask (set_cntp_ctl_enable (cntp_ctl h))\<rparr>;
         (later, h) = read_cntpct h
     in if count_val < later then Inl Panic else Inr (0, h))"

definition disable_systimer :: "systimer \<Rightarrow> systimer res" where
  "disable_systimer h =
     andthen (assert_c (g_systimer_base h \<noteq> 0)) (\<lambda>_.
     Inr (h\<lparr>cntp_ctl := set_cntp_ctl_imask 0\<rparr>))"

definition cancel_systimer :: "systimer \<Rightarrow> (int \<times> systimer) res" where
  "cancel_systimer h = andthen (disable_systimer h) (\<lambda>h. Inr (0, h))"

definition handler_systimer :: "systimer \<Rightarrow> (int \<times> systimer) res" where
  "handler_systimer h = andthen (disable_systimer h) (\<lambda>h. Inr (0, h))"

definition init_systimer :: "u64 \<Rightarrow> systimer \<Rightarrow> (int \<times> systimer) res" where
  "init_systimer systimer_base h =
     andthen (assert_c (g_systimer_base h = 0)) (\<lambda>_.
     andthen (disable_systimer (h\<lparr>g_systimer_base := systimer_base\<rparr>)) (\<lambda>h.
     Inr (0, h\<lparr>cntp_cval := 0\<rparr>)))"

section \<open>Per-CPU generic timer\<close>

record timer_context =
  tc_cval :: u64
  tc_ctl :: u32

record gentimer = clock +
  cnthp_cval_el2 :: u64
  cnthp_ctl_el2 :: u32
  cntp_cval_el0 :: u64
  cntp_ctl_el0 :: u32
  cntfrq_el0 :: u32
  pcpu_timer_context :: "timer_context list"

definition private_timer_start :: "u64 \<Rightarrow> gentimer \<Rightarrow> gentimer" where
  "private_timer_start timeo h =
     (let (cval, h) = read_cntpct h;
          cval = cval + ms_to_ticks (cntfrq_el0 h) timeo;
          h = h\<lparr>cnthp_cval_el2 := cval\<rparr>
      in h\<lparr>cnthp_ctl_el2 := set_cntp_ctl_enable 0\<rparr>)"

definition private_timer_stop :: "gentimer \<Rightarrow> gentimer" where
  "private_timer_stop h = h\<lparr>cnthp_ctl_el2 := 0\<rparr>"

definition private_timer_save :: "nat \<Rightarrow> gentimer \<Rightarrow> gentimer res" where
  "private_timer_save linear_id h =
     andthen (aput (pcpu_timer_context h) linear_id
        \<lparr>tc_cval = cnthp_cval_el2 h, tc_ctl = cnthp_ctl_el2 h\<rparr>) (\<lambda>ctxs.
     Inr (h\<lparr>pcpu_timer_context := ctxs\<rparr>))"

definition private_timer_restore :: "nat \<Rightarrow> gentimer \<Rightarrow> gentimer res" where
  "private_timer_restore linear_id h =
     andthen (aget (pcpu_timer_context h) linear_id) (\<lambda>c.
     Inr (h\<lparr>cnthp_cval_el2 := tc_cval c, cnthp_ctl_el2 := tc_ctl c\<rparr>))"

definition arm_gen_timer_program :: "u64 \<Rightarrow> gentimer \<Rightarrow> (int \<times> gentimer) res" where
  "arm_gen_timer_program time_out_ms h =
     (let (count, h) = read_cntpct h;
          count_val = count + ms_to_ticks (cntfrq_el0 h) time_out_ms;
          (later, h) = read_cntpct h
      in if count_val < later then Inr (-1, h)
         else let h = h\<lparr>cntp_cval_el0 := count_val\<rparr>
              in Inr (0, h\<lparr>cntp_ctl_el0 := clr_cntp_ctl_imask (set_cntp_ctl_enable (cntp_ctl_el0 h))\<rparr>))"

definition disable_gentimer :: "gentimer \<Rightarrow> gentimer" where
  "disable_gentimer h = h\<lparr>cntp_ctl_el0 := set_cntp_ctl_imask 0\<rparr>"

definition arm_gen_timer_cancel :: "gentimer \<Rightarrow> (int \<times> gentimer) res" where
  "arm_gen_timer_cancel h = Inr (0, disable_gentimer h)"

definition arm_gen_timer_handler :: "gentimer \<Rightarrow> (int \<times> gentimer) res" where
  "arm_gen_timer_handler h = Inr (0, disable_gentimer h)"

definition arm_gen_timer_init :: "gentimer \<Rightarrow> int \<times> gentimer" where
  "arm_gen_timer_init h = (0, (disable_gentimer h)\<lparr>cntp_cval_el0 := 0\<rparr>)"

section \<open>SP804\<close>

text \<open>
  The registers the driver touches: load value, control byte, and whether the
  interrupt line has been cleared since the last load.
\<close>

record sp804 =
  sp804_freq :: u32
  sp804_base :: u64
  sp804_load :: u32
  sp804_ctrl :: u8
  sp804_int_clr :: bool

abbreviation (input) ONESHOT_MODE :: u8 where "ONESHOT_MODE \<equiv> push_bit 0 1"
abbreviation (input) TIMER_SIZE :: u8 where "TIMER_SIZE \<equiv> push_bit 1 1"
abbreviation (input) TIMER_PRE_DIV1 :: u8 where "TIMER_PRE_DIV1 \<equiv> push_bit 2 0"
abbreviation (input) INT_ENABLE :: u8 where "INT_ENABLE \<equiv> push_bit 5 1"
abbreviation (input) TIMER_EN :: u8 where "TIMER_EN \<equiv> push_bit 7 1"

definition sp804_timer_program :: "u64 \<Rightarrow> sp804 \<Rightarrow> (int \<times> sp804) res" where
  "sp804_timer_program time_out_ms h =
     andthen (assert_c (sp804_base h \<noteq> 0)) (\<lambda>_.
     andthen (assert_c (time_out_ms \<noteq> 0)) (\<lambda>_.
     let ctrl_reg = sp804_ctrl h AND NOT (TIMER_EN OR INT_ENABLE);
         h = h\<lparr>sp804_ctrl := ctrl_reg\<rparr>;
         load_val = (ucast (ms_to_ticks (sp804_freq h) time_out_ms) :: u32);
         h = h\<lparr>sp804_load := load_val, sp804_int_clr := False\<rparr>;
         ctrl_reg = ctrl_reg OR (TIMER_EN OR INT_ENABLE)
     in Inr (0, h\<lparr>sp804_ctrl := ctrl_reg\<rparr>)))"

definition sp804_timer_disable :: "sp804 \<Rightarrow> sp804" where
  "sp804_timer_disable h =
     (let h = h\<lparr>sp804_load := 0xffff, sp804_int_clr := False\<rparr>;
          h = h\<lparr>sp804_int_clr := True\<rparr>;
          ctrl_reg = sp804_ctrl h AND NOT (TIMER_EN OR INT_ENABLE)
      in h\<lparr>sp804_ctrl := ctrl_reg\<rparr>)"

definition sp804_timer_cancel :: "sp804 \<Rightarrow> (int \<times> sp804) res" where
  "sp804_timer_cancel h =
     andthen (assert_c (sp804_base h \<noteq> 0)) (\<lambda>_. Inr (0, sp804_timer_disable h))"

definition sp804_timer_handler :: "sp804 \<Rightarrow> (int \<times> sp804) res" where
  "sp804_timer_handler h =
     andthen (assert_c (sp804_base h \<noteq> 0)) (\<lambda>_. Inr (0, sp804_timer_disable h))"

definition sp804_timer_init :: "u64 \<Rightarrow> u32 \<Rightarrow> sp804 \<Rightarrow> (int \<times> sp804) res" where
  "sp804_timer_init base_addr timer_freq h =
     andthen (assert_c (base_addr \<noteq> 0 \<and> timer_freq \<noteq> 0)) (\<lambda>_.
     andthen (assert_c (sp804_base h = 0)) (\<lambda>_.
     Inr (0, h\<lparr>sp804_base := base_addr, sp804_freq := timer_freq,
               sp804_ctrl := ONESHOT_MODE OR TIMER_PRE_DIV1 OR TIMER_SIZE\<rparr>)))"

section \<open>The interface the timer framework relies on\<close>

text \<open>
  \<open>tick h\<close> is the next value of the counter, \<open>armed h\<close> the counter value at which the
  peripheral raises its interrupt, if it is going to. \<open>freq\<close> is the counter frequency.
  A successful \<open>program\<close> arms the timer no earlier than the requested number of
  milliseconds after the current time; \<open>cancel\<close> and \<open>handler\<close> disarm it; nothing
  moves the counter backwards.
\<close>

locale timer_driver =
  fixes rd :: "'h \<Rightarrow> u64 \<times> 'h"
    and prog :: "u64 \<Rightarrow> 'h \<Rightarrow> (int \<times> 'h) res"
    and canc :: "'h \<Rightarrow> (int \<times> 'h) res"
    and hdlr :: "'h \<Rightarrow> (int \<times> 'h) res"
    and tick :: "'h \<Rightarrow> nat"
    and armed :: "'h \<Rightarrow> nat option"
    and freq :: "'h \<Rightarrow> nat"
    and hw_inv :: "'h \<Rightarrow> bool"
  assumes tick_bound: "\<And>h. hw_inv h \<Longrightarrow> tick h < 2 ^ 62"
    and rd_laws: "\<And>h c h'. hw_inv h \<Longrightarrow> rd h = (c, h') \<Longrightarrow>
      unat c = tick h \<and> tick h \<le> tick h' \<and> armed h' = armed h \<and> freq h' = freq h \<and> hw_inv h'"
    and prog_laws: "\<And>h t rc h'. hw_inv h \<Longrightarrow> unat t \<le> 2 ^ 32 \<Longrightarrow> prog t h = Inr (rc, h') \<Longrightarrow>
      tick h \<le> tick h' \<and> freq h' = freq h \<and> hw_inv h'
      \<and> (rc = 0 \<longrightarrow> armed h' = Some (tick h + freq h * unat t div 1000))"
    and canc_laws: "\<And>h. hw_inv h \<Longrightarrow> \<exists>h'. canc h = Inr (0, h') \<and> armed h' = None
      \<and> tick h' = tick h \<and> freq h' = freq h \<and> hw_inv h'"
    and hdlr_laws: "\<And>h. hw_inv h \<Longrightarrow> \<exists>h'. hdlr h = Inr (0, h') \<and> armed h' = None
      \<and> tick h' = tick h \<and> freq h' = freq h \<and> hw_inv h'"

section \<open>The system timer and the generic timer implement it\<close>

lemma unat_ms_to_ticks:
  assumes "unat t \<le> 2 ^ 32"
  shows "unat (ms_to_ticks f t) = unat f * unat t div 1000"
proof -
  have f: "unat f < 2 ^ 32" using unat_less_2p [of f] by simp
  have "unat f * unat t \<le> (2 ^ 32 - 1) * 2 ^ 32"
    using f assms by (intro mult_le_mono) auto
  also have "\<dots> < (2 :: nat) ^ 64" by simp
  finally have lt: "unat f * unat t < 2 ^ 64" .
  have "unat (ucast f :: u64) = unat f"
    using f by (simp add: unsigned_ucast_eq take_bit_nat_eq_self)
  then have "unat ((ucast f :: u64) * t) = unat f * unat t"
    using lt by (simp add: unat_word_ariths)
  then show ?thesis by (simp add: ms_to_ticks_def unat_div_distrib)
qed

text \<open>A sum that is not below its first summand did not wrap.\<close>

lemma unat_add_ge:
  fixes a b :: "'a::len word"
  assumes "a \<le> a + b"
  shows "unat (a + b) = unat a + unat b"
  using assms no_plus_overflow_unat_size [of a b] by (simp add: unat_add_no_wrap word_size)

lemma clk_mono_two: "clk_mono h \<Longrightarrow> clk h 0 \<le> clk h (Suc (Suc 0))"
  unfolding clk_mono_def by (meson order_trans)

definition clk_tick :: "'a clock_scheme \<Rightarrow> nat" where
  "clk_tick h = unat (clk h 0)"

definition systimer_armed :: "systimer \<Rightarrow> nat option" where
  "systimer_armed h = (if ctl_armed (cntp_ctl h) then Some (unat (cntp_cval h)) else None)"

definition systimer_freq :: "systimer \<Rightarrow> nat" where
  "systimer_freq h = unat (sys_freq h)"

definition systimer_inv :: "systimer \<Rightarrow> bool" where
  "systimer_inv h \<longleftrightarrow> clk_mono h \<and> g_systimer_base h \<noteq> 0"

lemmas systimer_defs = systimer_armed_def systimer_freq_def systimer_inv_def clk_tick_def
  read_cntpct_def

lemma systimer_program_laws:
  assumes inv: "systimer_inv h" and t: "unat t \<le> 2 ^ 32"
    and p: "program_systimer t h = Inr (rc, h')"
  shows "clk_tick h \<le> clk_tick h' \<and> systimer_freq h' = systimer_freq h \<and> systimer_inv h'
      \<and> systimer_armed h' = Some (clk_tick h + systimer_freq h * unat t div 1000)"
proof -
  have m: "clk h 0 \<le> clk h (Suc 0)" "clk h 0 \<le> clk h (Suc (Suc 0))"
    using inv clk_mono_two [of h] by (auto simp: systimer_inv_def clk_mono_def)
  from p inv have ge: "clk h (Suc 0) \<le> clk h 0 + ms_to_ticks (sys_freq h) t"
    by (auto simp: program_systimer_def systimer_defs Let_def split: if_splits)
  with m have "unat (clk h 0 + ms_to_ticks (sys_freq h) t)
      = unat (clk h 0) + unat (sys_freq h) * unat t div 1000"
    using unat_add_ge [of "clk h 0" "ms_to_ticks (sys_freq h) t"] unat_ms_to_ticks [OF t]
    by simp
  moreover have "unat (clk h 0) \<le> unat (clk h (Suc (Suc 0)))"
    using m by (simp add: word_le_nat_alt)
  ultimately show ?thesis
    using p inv ge
    by (auto simp: program_systimer_def systimer_defs Let_def ctl_armed_program clk_mono_def
        split: if_splits)
qed

interpretation systimer_hw: timer_driver read_cntpct program_systimer cancel_systimer
  handler_systimer clk_tick systimer_armed systimer_freq systimer_inv
proof
  show "clk_tick h < 2 ^ 62" if "systimer_inv h" for h :: systimer
    using that by (simp add: systimer_defs clk_mono_def)
  show "unat c = clk_tick h \<and> clk_tick h \<le> clk_tick h' \<and> systimer_armed h' = systimer_armed h
      \<and> systimer_freq h' = systimer_freq h \<and> systimer_inv h'"
    if "systimer_inv h" "read_cntpct h = (c, h')" for h c h'
    using that by (auto simp: systimer_defs clk_mono_def word_le_nat_alt)
  show "clk_tick h \<le> clk_tick h' \<and> systimer_freq h' = systimer_freq h \<and> systimer_inv h'
      \<and> (rc = 0 \<longrightarrow> systimer_armed h' = Some (clk_tick h + systimer_freq h * unat t div 1000))"
    if "systimer_inv h" "unat t \<le> 2 ^ 32" "program_systimer t h = Inr (rc, h')" for h t rc h'
    using systimer_program_laws [OF that] by simp
qed (auto simp: cancel_systimer_def handler_systimer_def disable_systimer_def systimer_defs
    ctl_armed_disabled clk_mono_def)

definition gentimer_armed :: "gentimer \<Rightarrow> nat option" where
  "gentimer_armed h = (if ctl_armed (cntp_ctl_el0 h) then Some (unat (cntp_cval_el0 h)) else None)"

definition gentimer_freq :: "gentimer \<Rightarrow> nat" where
  "gentimer_freq h = unat (cntfrq_el0 h)"

lemmas gentimer_defs = gentimer_armed_def gentimer_freq_def clk_tick_def read_cntpct_def

lemma gentimer_program_laws:
  assumes inv: "clk_mono h" and t: "unat t \<le> 2 ^ 32"
    and p: "arm_gen_timer_program t h = Inr (rc, h')"
  shows "clk_tick h \<le> clk_tick h' \<and> gentimer_freq h' = gentimer_freq h \<and> clk_mono h'
      \<and> (rc = 0 \<longrightarrow> gentimer_armed h' = Some (clk_tick h + gentimer_freq h * unat t div 1000))"
proof (cases "clk h 0 + ms_to_ticks (cntfrq_el0 h) t < clk h (Suc 0)")
  case True
  then show ?thesis
    using p inv clk_mono_two [OF inv]
    by (auto simp: arm_gen_timer_program_def gentimer_defs Let_def clk_mono_def word_le_nat_alt)
next
  case False
  have m: "clk h 0 \<le> clk h (Suc 0)" "clk h 0 \<le> clk h (Suc (Suc 0))"
    using inv clk_mono_two [of h] by (auto simp: clk_mono_def)
  with False have "unat (clk h 0 + ms_to_ticks (cntfrq_el0 h) t)
      = unat (clk h 0) + unat (cntfrq_el0 h) * unat t div 1000"
    using unat_add_ge [of "clk h 0" "ms_to_ticks (cntfrq_el0 h) t"] unat_ms_to_ticks [OF t]
    by simp
  moreover have "unat (clk h 0) \<le> unat (clk h (Suc (Suc 0)))"
    using m by (simp add: word_le_nat_alt)
  ultimately show ?thesis
    using p inv False
    by (auto simp: arm_gen_timer_program_def gentimer_defs Let_def ctl_armed_program clk_mono_def)
qed

interpretation gentimer_hw: timer_driver read_cntpct arm_gen_timer_program arm_gen_timer_cancel
  arm_gen_timer_handler clk_tick gentimer_armed gentimer_freq clk_mono
proof
  show "clk_tick h < 2 ^ 62" if "clk_mono h" for h :: gentimer
    using that by (simp add: gentimer_defs clk_mono_def)
  show "unat c = clk_tick h \<and> clk_tick h \<le> clk_tick h' \<and> gentimer_armed h' = gentimer_armed h
      \<and> gentimer_freq h' = gentimer_freq h \<and> clk_mono h'"
    if "clk_mono h" "read_cntpct h = (c, h')" for h c h'
    using that by (auto simp: gentimer_defs clk_mono_def word_le_nat_alt)
  show "clk_tick h \<le> clk_tick h' \<and> gentimer_freq h' = gentimer_freq h \<and> clk_mono h'
      \<and> (rc = 0 \<longrightarrow> gentimer_armed h' = Some (clk_tick h + gentimer_freq h * unat t div 1000))"
    if "clk_mono h" "unat t \<le> 2 ^ 32" "arm_gen_timer_program t h = Inr (rc, h')" for h t rc h'
    using gentimer_program_laws [OF that] .
qed (auto simp: arm_gen_timer_cancel_def arm_gen_timer_handler_def disable_gentimer_def
    gentimer_defs ctl_armed_disabled clk_mono_def)

end
