(* ===== verification/Tftf_Irq.thy ===== *)
theory Tftf_Irq
  imports Tftf_Prelude
begin

text \<open>
  Interrupt handler registration and dispatch (\<open>src/lib/exceptions/irq.c\<close>) over the
  handler tables of the GICv2/GICv3 drivers (\<open>src/drivers/arm/gic/gic_v2v3_common.c\<close>).

  A handler is the address of a C function, 0 for \<open>NULL\<close>. The position of the calling
  core is an argument. What the interrupt controller is told through the
  \<open>arm_gic_*\<close> calls is kept in the record \<open>gic\<close>: the target, priority and enable state of
  each interrupt, the pending state a read returns, the SGIs sent and the
  acknowledged values written back.
\<close>

section \<open>Handler tables\<close>

abbreviation (input) MIN_SGI_ID :: u32 where "MIN_SGI_ID \<equiv> 0"
abbreviation (input) MAX_SGI_ID :: u32 where "MAX_SGI_ID \<equiv> 15"
abbreviation (input) MIN_PPI_ID :: u32 where "MIN_PPI_ID \<equiv> 16"
abbreviation (input) MAX_PPI_ID :: u32 where "MAX_PPI_ID \<equiv> 31"
abbreviation (input) MIN_SPI_ID :: u32 where "MIN_SPI_ID \<equiv> 32"
abbreviation (input) MAX_SPI_ID :: u32 where "MAX_SPI_ID \<equiv> 1019"
abbreviation (input) GIC_SPURIOUS_INTERRUPT :: u32 where "GIC_SPURIOUS_INTERRUPT \<equiv> 1023"
abbreviation (input) IRQ_WAKE_SGI :: u32 where "IRQ_WAKE_SGI \<equiv> 7"

record irq_tables =
  plat_max_spi_offset_id :: u32
  spi_desc_table :: "u64 list"
  ppi_desc_table :: "u64 list list"
  sgi_desc_table :: "u64 list list"
  spurious_desc_handler :: u64

definition is_sgi :: "u32 \<Rightarrow> bool" where
  "is_sgi irq_num \<longleftrightarrow> MIN_SGI_ID \<le> irq_num \<and> irq_num \<le> MAX_SGI_ID"

definition is_ppi :: "u32 \<Rightarrow> bool" where
  "is_ppi irq_num \<longleftrightarrow> MIN_PPI_ID \<le> irq_num \<and> irq_num \<le> MAX_PPI_ID"

definition is_plat_spi :: "irq_tables \<Rightarrow> u32 \<Rightarrow> bool" where
  "is_plat_spi T irq_num \<longleftrightarrow> MIN_SPI_ID \<le> irq_num \<and> irq_num \<le> MIN_SPI_ID + plat_max_spi_offset_id T"

definition gicv2v3_is_irq_spi :: "irq_tables \<Rightarrow> u32 \<Rightarrow> bool" where
  "gicv2v3_is_irq_spi T irq_num = is_plat_spi T irq_num"

definition gicv2v3_get_sgi_num :: "u32 \<Rightarrow> u32 \<Rightarrow> u32" where
  "gicv2v3_get_sgi_num irq_num core_pos = irq_num"

text \<open>\<open>memset\<close> of the four tables to zero.\<close>

definition gicv2v3_irq_setup :: "irq_tables \<Rightarrow> irq_tables" where
  "gicv2v3_irq_setup T = T\<lparr>
     spi_desc_table := replicate (length (spi_desc_table T)) 0,
     ppi_desc_table := map (\<lambda>row. replicate (length row) 0) (ppi_desc_table T),
     sgi_desc_table := map (\<lambda>row. replicate (length row) 0) (sgi_desc_table T),
     spurious_desc_handler := 0\<rparr>"

text \<open>
  \<open>gicv2v3_get_irq_handler\<close> returns the address of a table slot; the slot is the
  location it designates.
\<close>

datatype irq_slot = SpiSlot nat | PpiSlot nat nat | SgiSlot nat nat | SpuriousSlot

definition gicv2v3_get_irq_handler :: "irq_tables \<Rightarrow> u32 \<Rightarrow> u32 \<Rightarrow> irq_slot res" where
  "gicv2v3_get_irq_handler T linear_id irq_num =
     (if is_plat_spi T irq_num then Inr (SpiSlot (unat (irq_num - MIN_SPI_ID)))
      else if is_ppi irq_num then Inr (PpiSlot (unat linear_id) (unat (irq_num - MIN_PPI_ID)))
      else if is_sgi irq_num then Inr (SgiSlot (unat linear_id) (unat (irq_num - MIN_SGI_ID)))
      else andthen (assert_c (irq_num = GIC_SPURIOUS_INTERRUPT)) (\<lambda>_. Inr SpuriousSlot))"

text \<open>Reading and writing through the returned pointer.\<close>

fun slot_read :: "irq_tables \<Rightarrow> irq_slot \<Rightarrow> u64 res" where
  "slot_read T (SpiSlot i) = aget (spi_desc_table T) i"
| "slot_read T (PpiSlot c i) = andthen (aget (ppi_desc_table T) c) (\<lambda>row. aget row i)"
| "slot_read T (SgiSlot c i) = andthen (aget (sgi_desc_table T) c) (\<lambda>row. aget row i)"
| "slot_read T SpuriousSlot = Inr (spurious_desc_handler T)"

fun slot_write :: "irq_tables \<Rightarrow> irq_slot \<Rightarrow> u64 \<Rightarrow> irq_tables res" where
  "slot_write T (SpiSlot i) h =
     andthen (aput (spi_desc_table T) i h) (\<lambda>t. Inr (T\<lparr>spi_desc_table := t\<rparr>))"
| "slot_write T (PpiSlot c i) h =
     andthen (aget (ppi_desc_table T) c) (\<lambda>row. andthen (aput row i h) (\<lambda>row.
     andthen (aput (ppi_desc_table T) c row) (\<lambda>t. Inr (T\<lparr>ppi_desc_table := t\<rparr>))))"
| "slot_write T (SgiSlot c i) h =
     andthen (aget (sgi_desc_table T) c) (\<lambda>row. andthen (aput row i h) (\<lambda>row.
     andthen (aput (sgi_desc_table T) c row) (\<lambda>t. Inr (T\<lparr>sgi_desc_table := t\<rparr>))))"
| "slot_write T SpuriousSlot h = Inr (T\<lparr>spurious_desc_handler := h\<rparr>)"

section \<open>Registration\<close>

definition handler_valid :: "u64 \<Rightarrow> bool \<Rightarrow> bool" where
  "handler_valid handler expect_handler = (if expect_handler then handler \<noteq> 0 else handler = 0)"

definition tftf_irq_update_handler ::
  "u32 \<Rightarrow> u32 \<Rightarrow> u64 \<Rightarrow> bool \<Rightarrow> irq_tables \<Rightarrow> (int \<times> irq_tables) res" where
  "tftf_irq_update_handler core irq_num irq_handler expect_handler T =
     andthen (gicv2v3_get_irq_handler T core irq_num) (\<lambda>slot.
     andthen (slot_read T slot) (\<lambda>cur.
     andthen (assert_c (handler_valid cur expect_handler)) (\<lambda>_.
     if handler_valid cur expect_handler
     then andthen (slot_write T slot irq_handler) (\<lambda>T. Inr (0, T))
     else Inr (-1, T))))"

definition tftf_irq_register_handler ::
  "u32 \<Rightarrow> u32 \<Rightarrow> u64 \<Rightarrow> irq_tables \<Rightarrow> (int \<times> irq_tables) res" where
  "tftf_irq_register_handler core irq_num irq_handler T =
     tftf_irq_update_handler core irq_num irq_handler False T"

definition tftf_irq_unregister_handler ::
  "u32 \<Rightarrow> u32 \<Rightarrow> irq_tables \<Rightarrow> (int \<times> irq_tables) res" where
  "tftf_irq_unregister_handler core irq_num T = tftf_irq_update_handler core irq_num 0 True T"

definition tftf_irq_get_my_sgi_num :: "u32 \<Rightarrow> u32 \<Rightarrow> u32" where
  "tftf_irq_get_my_sgi_num core seq_id = gicv2v3_get_sgi_num seq_id core"

definition tftf_irq_register_handler_sgi ::
  "u32 \<Rightarrow> u32 \<Rightarrow> u64 \<Rightarrow> irq_tables \<Rightarrow> (int \<times> irq_tables) res" where
  "tftf_irq_register_handler_sgi core sgi_id irq_handler T =
     tftf_irq_register_handler core (tftf_irq_get_my_sgi_num core sgi_id) irq_handler T"

definition tftf_irq_unregister_handler_sgi ::
  "u32 \<Rightarrow> u32 \<Rightarrow> irq_tables \<Rightarrow> (int \<times> irq_tables) res" where
  "tftf_irq_unregister_handler_sgi core sgi_id T =
     tftf_irq_unregister_handler core (tftf_irq_get_my_sgi_num core sgi_id) T"

section \<open>The interrupt controller as the framework drives it\<close>

record gic =
  g_target :: "u32 \<Rightarrow> u32"
  g_priority :: "u32 \<Rightarrow> u8"
  g_enabled :: "u32 \<Rightarrow> bool"
  g_pending :: "u32 \<Rightarrow> bool"
  g_sgi :: "(u32 \<times> u32) list"
  g_eoi :: "u32 list"

definition set_intr_target :: "u32 \<Rightarrow> u32 \<Rightarrow> gic \<Rightarrow> gic" where
  "set_intr_target irq core g = g\<lparr>g_target := (g_target g)(irq := core)\<rparr>"

definition set_intr_priority :: "u32 \<Rightarrow> u8 \<Rightarrow> gic \<Rightarrow> gic" where
  "set_intr_priority irq prio g = g\<lparr>g_priority := (g_priority g)(irq := prio)\<rparr>"

definition intr_enable :: "u32 \<Rightarrow> gic \<Rightarrow> gic" where
  "intr_enable irq g = g\<lparr>g_enabled := (g_enabled g)(irq := True)\<rparr>"

definition intr_disable :: "u32 \<Rightarrow> gic \<Rightarrow> gic" where
  "intr_disable irq g = g\<lparr>g_enabled := (g_enabled g)(irq := False)\<rparr>"

definition intr_clear :: "u32 \<Rightarrow> gic \<Rightarrow> gic" where
  "intr_clear irq g = g\<lparr>g_pending := (g_pending g)(irq := False)\<rparr>"

definition send_sgi :: "u32 \<Rightarrow> u32 \<Rightarrow> gic \<Rightarrow> gic" where
  "send_sgi sgi_id core g = g\<lparr>g_sgi := g_sgi g @ [(sgi_id, core)]\<rparr>"

lemmas gic_op_defs = set_intr_target_def set_intr_priority_def intr_enable_def intr_disable_def
  intr_clear_def send_sgi_def

definition tftf_irq_enable :: "u32 \<Rightarrow> u32 \<Rightarrow> u8 \<Rightarrow> gic \<Rightarrow> gic" where
  "tftf_irq_enable core irq_num irq_priority g =
     intr_enable irq_num (set_intr_priority irq_num irq_priority (set_intr_target irq_num core g))"

definition tftf_irq_enable_sgi :: "u32 \<Rightarrow> u32 \<Rightarrow> u8 \<Rightarrow> gic \<Rightarrow> gic" where
  "tftf_irq_enable_sgi core sgi_id irq_priority g =
     tftf_irq_enable core (tftf_irq_get_my_sgi_num core sgi_id) irq_priority g"

definition tftf_irq_disable :: "u32 \<Rightarrow> gic \<Rightarrow> gic" where
  "tftf_irq_disable irq_num g = intr_disable irq_num g"

definition tftf_irq_disable_sgi :: "u32 \<Rightarrow> u32 \<Rightarrow> gic \<Rightarrow> gic" where
  "tftf_irq_disable_sgi core sgi_id g = tftf_irq_disable (tftf_irq_get_my_sgi_num core sgi_id) g"

text \<open>\<open>online\<close> is \<open>tftf_is_core_pos_online\<close>.\<close>

definition tftf_send_sgi :: "(u32 \<Rightarrow> bool) \<Rightarrow> u32 \<Rightarrow> u32 \<Rightarrow> gic \<Rightarrow> gic res" where
  "tftf_send_sgi online sgi_id core_pos g =
     andthen (assert_c (online core_pos)) (\<lambda>_. Inr (send_sgi sgi_id core_pos g))"

text \<open>
  The dispatcher. \<open>iar\<close> is the acknowledged value and \<open>irq_num\<close> the interrupt number
  \<open>arm_gic_intr_ack\<close> extracts from it. \<open>call\<close> runs the function at a handler address: it is
  given the interrupt number by pointer, so it may change it, and it may change the handler
  tables, the interrupt controller and the rest of the system's state.
\<close>

definition tftf_irq_handler_dispatcher ::
  "(u64 \<Rightarrow> u32 \<Rightarrow> irq_tables \<Rightarrow> gic \<Rightarrow> 's \<Rightarrow> (int \<times> u32 \<times> irq_tables \<times> gic \<times> 's) res)
     \<Rightarrow> u32 \<Rightarrow> u32 \<Rightarrow> u32 \<Rightarrow> irq_tables \<Rightarrow> gic \<Rightarrow> 's \<Rightarrow> (int \<times> irq_tables \<times> gic \<times> 's) res" where
  "tftf_irq_handler_dispatcher call core iar irq_num T g s =
     andthen (gicv2v3_get_irq_handler T core irq_num) (\<lambda>slot.
     andthen (slot_read T slot) (\<lambda>handler.
     andthen (if handler \<noteq> 0 then call handler irq_num T g s else Inr (0, irq_num, T, g, s))
       (\<lambda>(rc, irq_num, T, g, s).
     Inr (rc, T, (if irq_num \<noteq> GIC_SPURIOUS_INTERRUPT then g\<lparr>g_eoi := g_eoi g @ [iar]\<rparr> else g), s))))"

section \<open>Well-formed tables and the slot contract\<close>

definition tables_wf :: "nat \<Rightarrow> irq_tables \<Rightarrow> bool" where
  "tables_wf ncores T \<longleftrightarrow>
     unat (plat_max_spi_offset_id T) \<le> 987
     \<and> length (spi_desc_table T) = unat (plat_max_spi_offset_id T) + 1
     \<and> length (ppi_desc_table T) = ncores \<and> (\<forall>row \<in> set (ppi_desc_table T). length row = 16)
     \<and> length (sgi_desc_table T) = ncores \<and> (\<forall>row \<in> set (sgi_desc_table T). length row = 16)"

definition valid_irq :: "irq_tables \<Rightarrow> u32 \<Rightarrow> bool" where
  "valid_irq T irq \<longleftrightarrow> is_plat_spi T irq \<or> is_ppi irq \<or> is_sgi irq \<or> irq = GIC_SPURIOUS_INTERRUPT"

text \<open>The handler the core would run for an interrupt, 0 when there is none.\<close>

definition handler_of :: "irq_tables \<Rightarrow> u32 \<Rightarrow> u32 \<Rightarrow> u64 res" where
  "handler_of T core irq = andthen (gicv2v3_get_irq_handler T core irq) (slot_read T)"

fun slot_in :: "irq_tables \<Rightarrow> irq_slot \<Rightarrow> bool" where
  "slot_in T (SpiSlot i) = (i < length (spi_desc_table T))"
| "slot_in T (PpiSlot c i) = (c < length (ppi_desc_table T) \<and> i < length (ppi_desc_table T ! c))"
| "slot_in T (SgiSlot c i) = (c < length (sgi_desc_table T) \<and> i < length (sgi_desc_table T ! c))"
| "slot_in T SpuriousSlot = True"

lemma slot_read_in: "slot_in T s \<Longrightarrow> \<exists>h. slot_read T s = Inr h"
  by (cases s) auto

lemma slot_write_in: "slot_in T s \<Longrightarrow> \<exists>T'. slot_write T s h = Inr T'"
  by (cases s) auto

lemma slot_read_write:
  assumes "slot_write T s h = Inr T'"
  shows "slot_read T' s' = (if s' = s then Inr h else slot_read T s')"
  using assms
  by (cases s; cases s')
    (auto simp: andthen_eq_Inr_iff aget_eq_Inr_iff aput_eq_Inr_iff nth_list_update aget_def
      split: if_splits)

lemma slot_write_frame:
  assumes "slot_write T s h = Inr T'"
  shows "plat_max_spi_offset_id T' = plat_max_spi_offset_id T"
    and "tables_wf n T \<Longrightarrow> tables_wf n T'"
  using assms
  by (cases s; auto simp: andthen_eq_Inr_iff aget_eq_Inr_iff aput_eq_Inr_iff tables_wf_def
      dest!: subsetD [OF set_update_subset_insert])+

lemma get_irq_handler_frame:
  "plat_max_spi_offset_id T' = plat_max_spi_offset_id T \<Longrightarrow>
     gicv2v3_get_irq_handler T' c irq = gicv2v3_get_irq_handler T c irq"
  by (simp add: gicv2v3_get_irq_handler_def is_plat_spi_def)

lemma is_plat_spi_unat:
  assumes "tables_wf n T"
  shows "is_plat_spi T irq \<longleftrightarrow> 32 \<le> unat irq \<and> unat irq \<le> 32 + unat (plat_max_spi_offset_id T)"
proof -
  have "unat (32 + plat_max_spi_offset_id T) = 32 + unat (plat_max_spi_offset_id T)"
    using assms unat_add_no_wrap [of "32 :: u32" "plat_max_spi_offset_id T"]
    by (simp add: tables_wf_def)
  then show ?thesis by (simp add: is_plat_spi_def word_le_nat_alt)
qed

lemma get_irq_handler_valid:
  assumes wf: "tables_wf n T" and "valid_irq T irq" and c: "unat core < n"
  obtains s where "gicv2v3_get_irq_handler T core irq = Inr s" "slot_in T s"
proof -
  have row: "i < length t \<Longrightarrow> \<forall>row \<in> set t. length row = 16 \<Longrightarrow> length (t ! i) = 16"
    for i and t :: "u64 list list"
    by simp
  consider (spi) "is_plat_spi T irq" | (ppi) "\<not> is_plat_spi T irq" "is_ppi irq"
    | (sgi) "\<not> is_plat_spi T irq" "\<not> is_ppi irq" "is_sgi irq"
    | (spur) "\<not> is_plat_spi T irq" "\<not> is_ppi irq" "\<not> is_sgi irq" "irq = GIC_SPURIOUS_INTERRUPT"
    using assms(2) by (auto simp: valid_irq_def)
  then show thesis
  proof cases
    case spi
    then have u: "32 \<le> unat irq" "unat irq \<le> 32 + unat (plat_max_spi_offset_id T)"
      using is_plat_spi_unat [OF wf] by auto
    then have "unat (irq - 32) = unat irq - 32" by (simp add: unat_sub_le word_le_nat_alt)
    with u spi wf show thesis
      by (intro that [of "SpiSlot (unat (irq - 32))"])
        (auto simp: gicv2v3_get_irq_handler_def tables_wf_def)
  next
    case ppi
    then have "unat (irq - 16) = unat irq - 16" "unat irq \<le> 31"
      by (auto simp: is_ppi_def unat_sub_le word_le_nat_alt)
    with ppi wf c row show thesis
      by (intro that [of "PpiSlot (unat core) (unat (irq - 16))"])
        (auto simp: gicv2v3_get_irq_handler_def tables_wf_def)
  next
    case sgi
    then have "unat irq \<le> 15"
      by (auto simp: is_sgi_def word_le_nat_alt)
    with sgi wf c row show thesis
      by (intro that [of "SgiSlot (unat core) (unat irq)"])
        (auto simp: gicv2v3_get_irq_handler_def tables_wf_def)
  next
    case spur
    then show thesis
      by (intro that [of SpuriousSlot]) (auto simp: gicv2v3_get_irq_handler_def)
  qed
qed

text \<open>Interrupts of different numbers never share a slot; an SPI slot is the same on every
  core, a PPI or SGI slot is private.\<close>

definition same_slot :: "irq_tables \<Rightarrow> u32 \<Rightarrow> u32 \<Rightarrow> u32 \<Rightarrow> u32 \<Rightarrow> bool" where
  "same_slot T c irq c' irq' \<longleftrightarrow>
     irq' = irq \<and> (is_plat_spi T irq \<or> irq = GIC_SPURIOUS_INTERRUPT \<or> c' = c)"

lemma get_irq_handler_same_iff:
  assumes "gicv2v3_get_irq_handler T c irq = Inr s"
    and "gicv2v3_get_irq_handler T c' irq' = Inr s'"
  shows "s' = s \<longleftrightarrow> same_slot T c irq c' irq'"
  using assms
  by (auto simp: gicv2v3_get_irq_handler_def same_slot_def is_ppi_def is_sgi_def
      andthen_eq_Inr_iff word_unat_eq_iff [symmetric] split: if_splits)

section \<open>Registration and dispatch\<close>

lemma update_handler_spec:
  assumes wf: "tables_wf n T" and v: "valid_irq T irq" and c: "unat core < n"
  shows "\<exists>cur. handler_of T core irq = Inr cur \<and>
    (if handler_valid cur e
     then \<exists>T'. tftf_irq_update_handler core irq h e T = Inr (0, T') \<and> tables_wf n T'
       \<and> (\<forall>c' irq'. handler_of T' c' irq' =
             (if same_slot T core irq c' irq' then Inr h else handler_of T c' irq'))
     else tftf_irq_update_handler core irq h e T = Inl AssertFail)"
proof -
  obtain s where s: "gicv2v3_get_irq_handler T core irq = Inr s" "slot_in T s"
    by (rule get_irq_handler_valid [OF assms])
  obtain cur where cur: "slot_read T s = Inr cur" using slot_read_in [OF s(2)] by blast
  obtain T' where T': "slot_write T s h = Inr T'" using slot_write_in [OF s(2)] by blast
  note fr = slot_write_frame [OF T'] and rw = slot_read_write [OF T']
  have ss: "gicv2v3_get_irq_handler T c' irq' = Inr s' \<Longrightarrow>
      s' = s \<longleftrightarrow> same_slot T core irq c' irq'" for c' irq' s'
    using get_irq_handler_same_iff [OF s(1)] by blast
  have "handler_of T' c' irq' =
      (if same_slot T core irq c' irq' then Inr h else handler_of T c' irq')" for c' irq'
  proof (cases "gicv2v3_get_irq_handler T c' irq'")
    case (Inl e)
    then have "\<not> same_slot T core irq c' irq'"
      using s(1) by (auto simp: same_slot_def gicv2v3_get_irq_handler_def split: if_splits)
    then show ?thesis using Inl get_irq_handler_frame [OF fr(1)] by (simp add: handler_of_def)
  next
    case (Inr s')
    then show ?thesis using ss [OF Inr] rw get_irq_handler_frame [OF fr(1)]
      by (simp add: handler_of_def)
  qed
  then show ?thesis
    using s cur T' fr(2) [OF wf] by (auto simp: handler_of_def tftf_irq_update_handler_def)
qed

lemma slot_write_undo:
  assumes "slot_write T s h = Inr T'" "slot_read T s = Inr cur"
  shows "slot_write T' s cur = Inr T"
  using assms
  by (cases s) (auto simp: andthen_eq_Inr_iff aget_eq_Inr_iff aput_eq_Inr_iff nth_list_update)

text \<open>C32: registering a handler for an interrupt that has none succeeds, is then what every
  core that shares the table slot would run (every core for an SPI, only the registering core
  for a PPI or an SGI), leaves the handler of every other interrupt on every core unchanged,
  and unregistering it gives back the original tables; registering over an existing handler
  is stopped by the assertion.\<close>

theorem irq_register_spec:
  assumes "tables_wf n T" and "valid_irq T irq" and "unat core < n" and "h \<noteq> 0"
  shows "if handler_of T core irq = Inr 0
    then \<exists>T'. tftf_irq_register_handler core irq h T = Inr (0, T') \<and> tables_wf n T'
       \<and> (\<forall>c' irq'. handler_of T' c' irq' =
             (if same_slot T core irq c' irq' then Inr h else handler_of T c' irq'))
       \<and> tftf_irq_unregister_handler core irq T' = Inr (0, T)
       \<and> (\<forall>h'. tftf_irq_register_handler core irq h' T' = Inl AssertFail)
    else tftf_irq_register_handler core irq h T = Inl AssertFail"
proof -
  obtain s where s: "gicv2v3_get_irq_handler T core irq = Inr s" "slot_in T s"
    by (rule get_irq_handler_valid [OF assms(1-3)])
  obtain cur where cur: "handler_of T core irq = Inr cur" "slot_read T s = Inr cur"
    using s slot_read_in [OF s(2)] by (auto simp: handler_of_def)
  show ?thesis
  proof (cases "cur = 0")
    case False
    then show ?thesis using update_handler_spec [OF assms(1-3), of False h] cur
      by (auto simp: tftf_irq_register_handler_def handler_valid_def)
  next
    case True
    then obtain T' where T': "tftf_irq_register_handler core irq h T = Inr (0, T')" "tables_wf n T'"
      "\<forall>c' irq'. handler_of T' c' irq' =
             (if same_slot T core irq c' irq' then Inr h else handler_of T c' irq')"
      using update_handler_spec [OF assms(1-3), of False h] cur
      by (auto simp: tftf_irq_register_handler_def handler_valid_def)
    then have w: "slot_write T s h = Inr T'"
      using s cur True by (auto simp: tftf_irq_register_handler_def tftf_irq_update_handler_def
          handler_valid_def andthen_eq_Inr_iff)
    have "gicv2v3_get_irq_handler T' core irq = Inr s" "slot_read T' s = Inr h"
      using get_irq_handler_frame [OF slot_write_frame(1) [OF w]] s slot_read_write [OF w] by auto
    then show ?thesis
      using T' cur True slot_write_undo [OF w] \<open>h \<noteq> 0\<close>
      by (auto simp: tftf_irq_unregister_handler_def tftf_irq_register_handler_def
          tftf_irq_update_handler_def handler_valid_def)
  qed
qed

definition demo_tables :: irq_tables where
  "demo_tables = \<lparr>plat_max_spi_offset_id = 3, spi_desc_table = replicate 4 0,
     ppi_desc_table = replicate 2 (replicate 16 0), sgi_desc_table = replicate 2 (replicate 16 0),
     spurious_desc_handler = 0\<rparr>"

lemma demo_tables_wf: "tables_wf 2 demo_tables"
  by (simp add: tables_wf_def demo_tables_def)

lemma demo_tables_free: "handler_of demo_tables 1 7 = Inr 0"
  by (simp add: handler_of_def gicv2v3_get_irq_handler_def demo_tables_def is_plat_spi_def
      is_ppi_def is_sgi_def)

theorem irq_register_spec_witness:
  "\<exists>T'. tftf_irq_register_handler 1 7 0x8000 demo_tables = Inr (0, T')
     \<and> tftf_irq_unregister_handler 1 7 T' = Inr (0, demo_tables)"
  using irq_register_spec [of 2 demo_tables 7 1 "0x8000"] demo_tables_wf demo_tables_free
  by (auto simp: valid_irq_def is_sgi_def)

section \<open>The tables as a registry\<close>

text \<open>
  What the two functions promise, with no tables: a handler per core and interrupt, 0 for
  none. Interrupts from 32 on are shared by all cores. Registering needs a free place and
  unregistering a taken one.
\<close>

type_synonym registry = "u32 \<Rightarrow> u32 \<Rightarrow> u64"

definition reg_upd :: "u32 \<Rightarrow> u32 \<Rightarrow> u64 \<Rightarrow> registry \<Rightarrow> registry" where
  "reg_upd core irq h R = (\<lambda>c i. if i = irq \<and> (32 \<le> irq \<or> c = core) then h else R c i)"

datatype irq_op = Register u32 u32 u64 | Unregister u32 u32

fun reg_do :: "irq_op \<Rightarrow> registry \<Rightarrow> registry option" where
  "reg_do (Register core irq h) R = (if R core irq = 0 then Some (reg_upd core irq h R) else None)"
| "reg_do (Unregister core irq) R = (if R core irq \<noteq> 0 then Some (reg_upd core irq 0 R) else None)"

fun reg_run :: "irq_op list \<Rightarrow> registry \<Rightarrow> registry option" where
  "reg_run [] R = Some R"
| "reg_run (p # ps) R = (case reg_do p R of None \<Rightarrow> None | Some R' \<Rightarrow> reg_run ps R')"

text \<open>The calls on the tables.\<close>

fun irq_do :: "irq_op \<Rightarrow> irq_tables \<Rightarrow> irq_tables res" where
  "irq_do (Register core irq h) T = andthen (tftf_irq_register_handler core irq h T) (\<lambda>(_, T). Inr T)"
| "irq_do (Unregister core irq) T = andthen (tftf_irq_unregister_handler core irq T) (\<lambda>(_, T). Inr T)"

fun irq_run :: "irq_op list \<Rightarrow> irq_tables \<Rightarrow> irq_tables res" where
  "irq_run [] T = Inr T"
| "irq_run (p # ps) T = andthen (irq_do p T) (irq_run ps)"

fun op_ok :: "nat \<Rightarrow> irq_tables \<Rightarrow> irq_op \<Rightarrow> bool" where
  "op_ok n T (Register core irq h) \<longleftrightarrow> unat core < n \<and> valid_irq T irq"
| "op_ok n T (Unregister core irq) \<longleftrightarrow> unat core < n \<and> valid_irq T irq"

definition holds_reg :: "nat \<Rightarrow> irq_tables \<Rightarrow> registry \<Rightarrow> bool" where
  "holds_reg n T R \<longleftrightarrow> tables_wf n T
     \<and> (\<forall>c irq. unat c < n \<longrightarrow> valid_irq T irq \<longrightarrow> handler_of T c irq = Inr (R c irq))"

lemma same_slot_shared:
  assumes "valid_irq T irq"
  shows "same_slot T core irq c i \<longleftrightarrow> i = irq \<and> (32 \<le> irq \<or> c = core)"
proof -
  have "is_plat_spi T irq \<or> irq = GIC_SPURIOUS_INTERRUPT \<longleftrightarrow> 32 \<le> irq"
  proof
    assume "32 \<le> irq"
    then have "\<not> is_ppi irq" "\<not> is_sgi irq" by (auto simp: is_ppi_def is_sgi_def word_le_nat_alt)
    then show "is_plat_spi T irq \<or> irq = GIC_SPURIOUS_INTERRUPT"
      using assms by (simp add: valid_irq_def)
  qed (auto simp: is_plat_spi_def)
  then show ?thesis by (auto simp: same_slot_def)
qed

lemma update_holds_reg:
  assumes r: "holds_reg n T R" and c: "unat core < n" and v: "valid_irq T irq"
  shows "if handler_valid (R core irq) e
    then \<exists>T'. tftf_irq_update_handler core irq h e T = Inr (0, T') \<and> holds_reg n T' (reg_upd core irq h R)
      \<and> valid_irq T' = valid_irq T
    else tftf_irq_update_handler core irq h e T = Inl AssertFail"
proof -
  have wf: "tables_wf n T" and cur: "handler_of T core irq = Inr (R core irq)"
    using r c v by (simp_all add: holds_reg_def)
  show ?thesis
  proof (cases "handler_valid (R core irq) e")
    case False
    then show ?thesis using update_handler_spec [OF wf v c, of e h] cur by auto
  next
    case True
    then obtain T' where T': "tftf_irq_update_handler core irq h e T = Inr (0, T')" "tables_wf n T'"
      "\<forall>c' irq'. handler_of T' c' irq' =
         (if same_slot T core irq c' irq' then Inr h else handler_of T c' irq')"
      using update_handler_spec [OF wf v c, of e h] cur by auto
    from T'(1) have "plat_max_spi_offset_id T' = plat_max_spi_offset_id T"
      by (auto simp: tftf_irq_update_handler_def andthen_eq_Inr_iff dest: slot_write_frame(1)
          split: if_splits)
    then have vi: "valid_irq T' = valid_irq T" by (auto simp: valid_irq_def is_plat_spi_def)
    have "holds_reg n T' (reg_upd core irq h R)"
      using r T'(2,3) by (auto simp: holds_reg_def vi reg_upd_def same_slot_shared [OF v])
    then show ?thesis using True T'(1) vi by auto
  qed
qed

lemma irq_do_refines:
  assumes "holds_reg n T R" "op_ok n T p"
  shows "case reg_do p R of
      None \<Rightarrow> irq_do p T = Inl AssertFail
    | Some R' \<Rightarrow> \<exists>T'. irq_do p T = Inr T' \<and> holds_reg n T' R' \<and> valid_irq T' = valid_irq T"
proof (cases p)
  case (Register core irq h)
  then show ?thesis using assms update_holds_reg [of n T R core irq False h]
    by (auto simp: tftf_irq_register_handler_def handler_valid_def split: if_splits)
next
  case (Unregister core irq)
  then show ?thesis using assms update_holds_reg [of n T R core irq True 0]
    by (auto simp: tftf_irq_unregister_handler_def handler_valid_def split: if_splits)
qed

lemma op_ok_cong: "valid_irq T' = valid_irq T \<Longrightarrow> op_ok n T' p = op_ok n T p"
  by (cases p) simp_all

lemma irq_run_refines:
  assumes "holds_reg n T R" "\<forall>p \<in> set ps. op_ok n T p"
  shows "case reg_run ps R of
      None \<Rightarrow> irq_run ps T = Inl AssertFail
    | Some R' \<Rightarrow> \<exists>T'. irq_run ps T = Inr T' \<and> holds_reg n T' R' \<and> valid_irq T' = valid_irq T"
  using assms
proof (induction ps arbitrary: T R)
  case (Cons p ps)
  note st = irq_do_refines [OF Cons.prems(1), of p]
  show ?case
  proof (cases "reg_do p R")
    case None
    then show ?thesis using st Cons.prems(2) by simp
  next
    case (Some R1)
    then obtain T1 where T1: "irq_do p T = Inr T1" "holds_reg n T1 R1" "valid_irq T1 = valid_irq T"
      using st Cons.prems(2) by auto
    then show ?thesis
      using Cons.IH [OF T1(2)] Cons.prems(2) Some by (auto simp: op_ok_cong [OF T1(3)] split: option.splits)
  qed
qed simp

lemma setup_wf: "tables_wf n T \<Longrightarrow> tables_wf n (gicv2v3_irq_setup T)"
  by (auto simp: tables_wf_def gicv2v3_irq_setup_def)

lemma setup_valid: "valid_irq (gicv2v3_irq_setup T) = valid_irq T"
  by (auto simp: valid_irq_def is_plat_spi_def gicv2v3_irq_setup_def)

lemma setup_slot_read: "slot_in (gicv2v3_irq_setup T) s \<Longrightarrow> slot_read (gicv2v3_irq_setup T) s = Inr 0"
  by (cases s) (auto simp: gicv2v3_irq_setup_def aget_def)

lemma setup_holds_reg:
  assumes "tables_wf n T"
  shows "holds_reg n (gicv2v3_irq_setup T) (\<lambda>_ _. 0)"
  unfolding holds_reg_def
proof (intro conjI allI impI)
  show wf: "tables_wf n (gicv2v3_irq_setup T)" by (rule setup_wf [OF assms])
  fix c irq :: u32 assume c: "unat c < n" and v: "valid_irq (gicv2v3_irq_setup T) irq"
  obtain s where "gicv2v3_get_irq_handler (gicv2v3_irq_setup T) c irq = Inr s"
    "slot_in (gicv2v3_irq_setup T) s"
    by (rule get_irq_handler_valid [OF wf v c])
  then show "handler_of (gicv2v3_irq_setup T) c irq = Inr 0"
    by (simp add: handler_of_def setup_slot_read)
qed

lemma dispatch_holds_reg:
  assumes "holds_reg n T R" "unat core < n" "valid_irq T irq"
  shows "tftf_irq_handler_dispatcher call core iar irq T g s =
    andthen (if R core irq = 0 then Inr (0, irq, T, g, s) else call (R core irq) irq T g s)
      (\<lambda>(rc, irq', T', g', s').
        Inr (rc, T', (if irq' = GIC_SPURIOUS_INTERRUPT then g' else g'\<lparr>g_eoi := g_eoi g' @ [iar]\<rparr>), s'))"
proof -
  have "andthen (gicv2v3_get_irq_handler T core irq) (slot_read T) = Inr (R core irq)"
    using assms by (simp add: holds_reg_def handler_of_def)
  then obtain sl where "gicv2v3_get_irq_handler T core irq = Inr sl" "slot_read T sl = Inr (R core irq)"
    by (auto simp: andthen_eq_Inr_iff)
  then show ?thesis
    by (auto simp: tftf_irq_handler_dispatcher_def intro!: arg_cong [where f = "andthen _"])
qed

text \<open>C33: after the tables were set up, any sequence of calls that register and unregister
  handlers of valid interrupts on existing cores does what a plain registry does: a call that registers
  over a handler or unregisters none is stopped by the assertion; otherwise an interrupt taken
  on a core runs the handler the calls left registered for it there (by any core for an interrupt
  from 32 on, by this core for one below), or none. The handler is given the number of the
  interrupt by reference and may change it, the tables, the interrupt controller and the rest of the state; its
  return value is that of the dispatcher, its faults are too, and the value read at acknowledgement is
  written back after it unless the number is then that of a spurious interrupt.\<close>

theorem irq_dispatch_spec:
  assumes "tables_wf n T0" and "\<forall>p \<in> set ps. op_ok n T0 p"
  shows "case reg_run ps (\<lambda>_ _. 0) of
      None \<Rightarrow> irq_run ps (gicv2v3_irq_setup T0) = Inl AssertFail
    | Some R \<Rightarrow> \<exists>T. irq_run ps (gicv2v3_irq_setup T0) = Inr T
        \<and> (\<forall>call core iar irq g s. unat core < n \<and> valid_irq T0 irq \<longrightarrow>
            tftf_irq_handler_dispatcher call core iar irq T g (s :: 's) =
              andthen (if R core irq = 0 then Inr (0, irq, T, g, s) else call (R core irq) irq T g s)
                (\<lambda>(rc, irq', T', g', s').
                  Inr (rc, T', (if irq' = GIC_SPURIOUS_INTERRUPT then g'
                                else g'\<lparr>g_eoi := g_eoi g' @ [iar]\<rparr>), s')))"
proof -
  have "\<forall>p \<in> set ps. op_ok n (gicv2v3_irq_setup T0) p"
    using assms(2) by (simp add: op_ok_cong [OF setup_valid])
  note r = irq_run_refines [OF setup_holds_reg [OF assms(1)] this, unfolded setup_valid]
  show ?thesis
  proof (cases "reg_run ps (\<lambda>_ _. 0)")
    case (Some R)
    then obtain T where T: "irq_run ps (gicv2v3_irq_setup T0) = Inr T" "holds_reg n T R" "valid_irq T = valid_irq T0"
      using r by auto
    then show ?thesis unfolding Some option.case
      by (intro exI [of _ T] conjI allI impI) (simp_all add: dispatch_holds_reg [OF T(2)])
  qed (use r in simp)
qed

text \<open>A handler of the shared interrupt 33, registered by core 0 and run on core 1, that sends an SGI.\<close>

theorem irq_dispatch_spec_witness:
  "\<exists>T. irq_run [Register 0 33 0x8000, Register 1 7 0x9000, Unregister 1 7] (gicv2v3_irq_setup demo_tables) = Inr T
    \<and> tftf_irq_handler_dispatcher (\<lambda>h irq T g s. Inr (5, irq, T, send_sgi 7 0 g, s + unat h)) 1 0x21 33 T
        \<lparr>g_target = \<lambda>_. 0, g_priority = \<lambda>_. 0, g_enabled = \<lambda>_. True, g_pending = \<lambda>_. False,
         g_sgi = [], g_eoi = []\<rparr> (0 :: nat)
      = Inr (5, T, \<lparr>g_target = \<lambda>_. 0, g_priority = \<lambda>_. 0, g_enabled = \<lambda>_. True, g_pending = \<lambda>_. False,
         g_sgi = [(7, 0)], g_eoi = [0x21]\<rparr>, 0x8000)"
proof -
  let ?ps = "[Register 0 33 0x8000, Register 1 7 0x9000, Unregister 1 7]"
  have ok: "\<forall>p \<in> set ?ps. op_ok 2 demo_tables p"
    by (simp add: valid_irq_def is_plat_spi_def is_sgi_def is_ppi_def demo_tables_def)
  have v: "valid_irq demo_tables 33" by (simp add: valid_irq_def is_plat_spi_def demo_tables_def)
  have "reg_run ?ps (\<lambda>_ _. 0) = Some (reg_upd 1 7 0 (reg_upd 1 7 0x9000 (reg_upd 0 33 0x8000 (\<lambda>_ _. 0))))"
    by (simp add: reg_upd_def)
  then obtain T where T: "irq_run ?ps (gicv2v3_irq_setup demo_tables) = Inr T"
    "\<forall>call core iar irq g s. unat core < 2 \<and> valid_irq demo_tables irq \<longrightarrow>
       tftf_irq_handler_dispatcher call core iar irq T g (s :: nat) =
         andthen (if reg_upd 1 7 0 (reg_upd 1 7 0x9000 (reg_upd 0 33 0x8000 (\<lambda>_ _. 0))) core irq = 0
                  then Inr (0, irq, T, g, s)
                  else call (reg_upd 1 7 0 (reg_upd 1 7 0x9000 (reg_upd 0 33 0x8000 (\<lambda>_ _. 0))) core irq) irq T g s)
           (\<lambda>(rc, irq', T', g', s').
             Inr (rc, T', (if irq' = GIC_SPURIOUS_INTERRUPT then g'
                           else g'\<lparr>g_eoi := g_eoi g' @ [iar]\<rparr>), s'))"
    using irq_dispatch_spec [where 's = nat, OF demo_tables_wf ok] by auto
  show ?thesis using T(1) v by (intro exI [of _ T]) (simp add: T(2) reg_upd_def send_sgi_def)
qed

end
