(* ===== verification/Tftf_Timer.thy ===== *)
theory Tftf_Timer
  imports Tftf_Timer_Drivers Tftf_Irq
begin

text \<open>
  The timer framework, \<open>src/tftf/framework/timer/timer_framework.c\<close>: all cores share one
  timer peripheral. Each core may have one outstanding request; the peripheral is
  programmed for one of the earliest requests and the interrupt is targeted at that core,
  which serves the requests of every core whose time has come. A core that resumes from
  system suspend makes itself the target without re-arming the peripheral
  (\<open>tftf_timer_gic_state_restore\<close>); \<open>timer_step\<close> has this as a step like any other, and the
  lemmas say what holds with arbitrary resumes and what needs harmless ones.

  \<open>timer_state\<close> has the static variables of the file, the peripheral \<open>hw\<close>, the handler
  tables, the interrupt controller, and the log \<open>calls\<close> of the per-core handlers that the
  framework handler has called. \<open>timer_env\<close> has what the platform provides. Each operation
  takes the position of the calling core. The operations hold \<open>timer_lock\<close> with
  interrupts masked, so a step of the system is one whole operation; the callbacks run
  inside it and therefore cannot call the framework.
\<close>

abbreviation (input) INVALID_CORE :: u32 where "INVALID_CORE \<equiv> UINT32_MAX"
abbreviation (input) INVALID_TIME :: u64 where "INVALID_TIME \<equiv> UINT64_MAX"
abbreviation (input) MAX_TIME_OUT_MS :: u64 where "MAX_TIME_OUT_MS \<equiv> 10000"
abbreviation (input) GIC_HIGHEST_NS_PRIORITY :: u8 where "GIC_HIGHEST_NS_PRIORITY \<equiv> 0"
abbreviation (input) PSCI_E_SUCCESS :: int where "PSCI_E_SUCCESS \<equiv> 0"

section \<open>State\<close>

record 'h plat_timer =
  program :: "u64 \<Rightarrow> 'h \<Rightarrow> (int \<times> 'h) res"
  cancel :: "'h \<Rightarrow> (int \<times> 'h) res"
  handler :: "('h \<Rightarrow> (int \<times> 'h) res) option"
  timer_step_value :: u32
  timer_irq :: u32

record 'h timer_env =
  plat_timer_info :: "'h plat_timer"
  plat_initialise_timer_ops :: "'h \<Rightarrow> (int \<times> 'h) res"
  syscounter_read :: "'h \<Rightarrow> u64 \<times> 'h"
  read_cntfrq_el0 :: "'h \<Rightarrow> u32"
  framework_handler_addr :: u64

record 'h timer_state =
  interrupt_req_time :: "u64 list"
  current_prog_core :: u32
  systicks_per_ms :: u32
  timer_handler :: "u64 list"
  hw :: 'h
  irqs :: irq_tables
  gicv :: gic
  calls :: "(u32 \<times> u64) list"

abbreviation (input) TIMER_STEP_VALUE :: "'h timer_env \<Rightarrow> u32" where
  "TIMER_STEP_VALUE E \<equiv> timer_step_value (plat_timer_info E)"

abbreviation (input) TIMER_IRQ :: "'h timer_env \<Rightarrow> u32" where
  "TIMER_IRQ E \<equiv> timer_irq (plat_timer_info E)"

abbreviation (input) PROGRAM_TIMER :: "'h timer_env \<Rightarrow> u64 \<Rightarrow> 'h \<Rightarrow> (int \<times> 'h) res" where
  "PROGRAM_TIMER E \<equiv> program (plat_timer_info E)"

section \<open>Operations\<close>

definition get_current_time_ms :: "'h timer_env \<Rightarrow> 'h timer_state \<Rightarrow> (u64 \<times> 'h timer_state) res" where
  "get_current_time_ms E S =
     andthen (assert_c (systicks_per_ms S \<noteq> 0)) (\<lambda>_.
     let (c, h) = syscounter_read E (hw S)
     in Inr (c div (ucast (systicks_per_ms S) :: u64), S\<lparr>hw := h\<rparr>))"

definition get_current_prog_time :: "'h timer_state \<Rightarrow> u64 res" where
  "get_current_prog_time S =
     (if current_prog_core S = INVALID_CORE then Inr 0
      else aget (interrupt_req_time S) (unat (current_prog_core S)))"

definition tftf_initialise_timer ::
  "'h timer_env \<Rightarrow> u32 \<Rightarrow> 'h timer_state \<Rightarrow> (int \<times> 'h timer_state) res" where
  "tftf_initialise_timer E core S =
     andthen (plat_initialise_timer_ops E (hw S)) (\<lambda>(rc, h).
     let S = S\<lparr>hw := h\<rparr>
     in if rc \<noteq> 0 then Inr (rc, S)
        else andthen (assert_c (TIMER_STEP_VALUE E \<noteq> 0)) (\<lambda>_.
          let S = S\<lparr>interrupt_req_time := replicate (length (interrupt_req_time S)) INVALID_TIME\<rparr>
          in andthen (tftf_irq_register_handler core (TIMER_IRQ E) (framework_handler_addr E) (irqs S))
            (\<lambda>(_, T).
             Inr (0, S\<lparr>irqs := T,
               gicv := intr_enable (TIMER_IRQ E)
                 (set_intr_priority (TIMER_IRQ E) GIC_HIGHEST_NS_PRIORITY (gicv S)),
               systicks_per_ms := read_cntfrq_el0 E (hw S) div 1000\<rparr>))))"

definition tftf_initialise_timer_secondary_core :: "'h timer_env \<Rightarrow> 'h timer_state \<Rightarrow> 'h timer_state" where
  "tftf_initialise_timer_secondary_core E S =
     (if \<not> gicv2v3_is_irq_spi (irqs S) (TIMER_IRQ E)
      then S\<lparr>gicv := intr_enable (TIMER_IRQ E)
             (set_intr_priority (TIMER_IRQ E) GIC_HIGHEST_NS_PRIORITY (gicv S))\<rparr>
      else S)"

text \<open>The loop of \<open>get_lowest_req_core\<close> from index \<open>i\<close> on.\<close>

fun lowest_req_from :: "u64 list \<Rightarrow> u32 \<Rightarrow> u64 \<Rightarrow> u32 \<Rightarrow> u32" where
  "lowest_req_from [] i lowest_timer lowest_core_req = lowest_core_req"
| "lowest_req_from (t # ts) i lowest_timer lowest_core_req =
     (if t < lowest_timer then lowest_req_from ts (i + 1) t i
      else lowest_req_from ts (i + 1) lowest_timer lowest_core_req)"

definition get_lowest_req_core :: "'h timer_state \<Rightarrow> u32" where
  "get_lowest_req_core S = lowest_req_from (interrupt_req_time S) 0 INVALID_TIME INVALID_CORE"

definition tftf_program_timer ::
  "'h timer_env \<Rightarrow> u32 \<Rightarrow> u64 \<Rightarrow> 'h timer_state \<Rightarrow> (int \<times> 'h timer_state) res" where
  "tftf_program_timer E core_pos time_out_ms S =
     (let step = (ucast (TIMER_STEP_VALUE E) :: u64)
      in if MAX_TIME_OUT_MS < time_out_ms \<or> time_out_ms = 0 then Inr (-1, S)
      else
        let time_out_ms = (if time_out_ms < step then step else time_out_ms) in
        andthen (aget (interrupt_req_time S) (unat core_pos)) (\<lambda>r.
        andthen (assert_c (r = INVALID_TIME)) (\<lambda>_.
        andthen (assert_c (unat (current_prog_core S) < length (interrupt_req_time S)
                           \<or> current_prog_core S = INVALID_CORE)) (\<lambda>_.
        andthen (get_current_time_ms E S) (\<lambda>(current_time, S).
        andthen (aput (interrupt_req_time S) (unat core_pos) (current_time + time_out_ms)) (\<lambda>reqs.
        let S = S\<lparr>interrupt_req_time := reqs\<rparr> in
        andthen (get_current_prog_time S) (\<lambda>prog_time.
        if prog_time = 0 \<or> current_time + time_out_ms < prog_time - step
        then
          let S = (if gicv2v3_is_irq_spi (irqs S) (TIMER_IRQ E)
                   then S\<lparr>gicv := set_intr_target (TIMER_IRQ E) core_pos (gicv S)\<rparr> else S)
          in andthen (PROGRAM_TIMER E time_out_ms (hw S)) (\<lambda>(rc, h).
             Inr (rc, S\<lparr>hw := h, current_prog_core := core_pos\<rparr>))
        else Inr (0, S))))))))"

text \<open>
  The two suspend wrappers; \<open>suspend\<close> is the PSCI call (\<open>tftf_cpu_suspend\<close> or
  \<open>tftf_system_suspend\<close>), during which other cores and the timer interrupt may run. They
  return the code of the function and the two codes stored through the pointers.
\<close>

definition tftf_program_timer_and_suspend ::
  "'h timer_env \<Rightarrow> u32 \<Rightarrow> u64 \<Rightarrow> (u32 \<Rightarrow> 'h timer_state \<Rightarrow> (int \<times> 'h timer_state) res) \<Rightarrow> u32
     \<Rightarrow> 'h timer_state \<Rightarrow> (int \<times> int \<times> int \<times> 'h timer_state) res" where
  "tftf_program_timer_and_suspend E core_pos milli_secs suspend pwr_state S =
     andthen (tftf_program_timer E core_pos milli_secs S) (\<lambda>(timer_rc, S).
     if timer_rc = 0
     then andthen (suspend pwr_state S) (\<lambda>(suspend_rc, S).
          Inr (if suspend_rc \<noteq> PSCI_E_SUCCESS then -1 else 0, timer_rc, suspend_rc, S))
     else Inr (-1, timer_rc, PSCI_E_SUCCESS, S))"

definition tftf_program_timer_and_sys_suspend ::
  "'h timer_env \<Rightarrow> u32 \<Rightarrow> u64 \<Rightarrow> ('h timer_state \<Rightarrow> (int \<times> 'h timer_state) res)
     \<Rightarrow> 'h timer_state \<Rightarrow> (int \<times> int \<times> int \<times> 'h timer_state) res" where
  "tftf_program_timer_and_sys_suspend E core_pos milli_secs sys_suspend S =
     andthen (tftf_program_timer E core_pos milli_secs S) (\<lambda>(timer_rc, S).
     if timer_rc = 0
     then andthen (sys_suspend S) (\<lambda>(suspend_rc, S).
          Inr (if suspend_rc \<noteq> PSCI_E_SUCCESS then -1 else 0, timer_rc, suspend_rc, S))
     else Inr (-1, timer_rc, PSCI_E_SUCCESS, S))"

definition tftf_cancel_timer ::
  "'h timer_env \<Rightarrow> u32 \<Rightarrow> 'h timer_state \<Rightarrow> (int \<times> 'h timer_state) res" where
  "tftf_cancel_timer E core_pos S =
     (let step = (ucast (TIMER_STEP_VALUE E) :: u64) in
      andthen (aput (interrupt_req_time S) (unat core_pos) INVALID_TIME) (\<lambda>reqs.
      let S = S\<lparr>interrupt_req_time := reqs\<rparr> in
      if core_pos \<noteq> current_prog_core S then Inr (0, S)
      else andthen (cancel (plat_timer_info E) (hw S)) (\<lambda>(rc, h).
        let S = S\<lparr>hw := h\<rparr> in
        if rc \<noteq> 0 then Inr (rc, S)
        else
          let S = (if g_pending (gicv S) (TIMER_IRQ E)
                   then S\<lparr>gicv := intr_clear (TIMER_IRQ E) (gicv S)\<rparr> else S);
              next_timer_req_core_pos = get_lowest_req_core S
          in if next_timer_req_core_pos \<noteq> INVALID_CORE
             then
               let S = S\<lparr>gicv := set_intr_target (TIMER_IRQ E) next_timer_req_core_pos (gicv S),
                         current_prog_core := next_timer_req_core_pos\<rparr> in
               andthen (get_current_time_ms E S) (\<lambda>(current_time, S).
               andthen (aget (interrupt_req_time S) (unat next_timer_req_core_pos)) (\<lambda>r.
               andthen (PROGRAM_TIMER E (if current_time + step < r then r - current_time else step)
                          (hw S)) (\<lambda>(rc, h).
               Inr (rc, S\<lparr>hw := h\<rparr>))))
             else Inr (0, S\<lparr>current_prog_core := INVALID_CORE\<rparr>))))"

text \<open>The loop that wakes the cores whose time is not after \<open>limit\<close>.\<close>

fun wake_cores :: "(u32 \<Rightarrow> bool) \<Rightarrow> u64 \<Rightarrow> nat list \<Rightarrow> 'h timer_state \<Rightarrow> 'h timer_state res" where
  "wake_cores online limit [] S = Inr S"
| "wake_cores online limit (i # is) S =
     andthen (aget (interrupt_req_time S) i) (\<lambda>r.
     if r \<le> limit
     then andthen (aput (interrupt_req_time S) i INVALID_TIME) (\<lambda>reqs.
          andthen (tftf_send_sgi online IRQ_WAKE_SGI (of_nat i) (gicv S)) (\<lambda>g.
          wake_cores online limit is (S\<lparr>interrupt_req_time := reqs, gicv := g\<rparr>)))
     else wake_cores online limit is S)"

definition tftf_timer_framework_handler ::
  "'h timer_env \<Rightarrow> (u32 \<Rightarrow> bool) \<Rightarrow> u32 \<Rightarrow> 'h timer_state \<Rightarrow> (int \<times> 'h timer_state) res" where
  "tftf_timer_framework_handler E online handler_core_pos S =
     (let step = (ucast (TIMER_STEP_VALUE E) :: u64) in
      andthen (aget (interrupt_req_time S) (unat handler_core_pos)) (\<lambda>r.
      andthen (assert_c (r \<noteq> INVALID_TIME)) (\<lambda>_.
      andthen (get_current_time_ms E S) (\<lambda>(current_time, S).
      andthen (assert_c (handler_core_pos = current_prog_core S)) (\<lambda>_.
      andthen (aput (interrupt_req_time S) (unat handler_core_pos) INVALID_TIME) (\<lambda>reqs.
      let S = S\<lparr>interrupt_req_time := reqs\<rparr> in
      andthen (case handler (plat_timer_info E) of None \<Rightarrow> Inr (0, hw S) | Some f \<Rightarrow> f (hw S)) (\<lambda>(_, h).
      let S = S\<lparr>hw := h\<rparr> in
      if g_pending (gicv S) (TIMER_IRQ E) then Inl Panic
      else
        andthen (aget (timer_handler S) (unat handler_core_pos)) (\<lambda>th.
        let S = (if th \<noteq> 0 then S\<lparr>calls := calls S @ [(handler_core_pos, th)]\<rparr> else S) in
        andthen (wake_cores online (current_time + step) [0..<length (interrupt_req_time S)] S) (\<lambda>S.
        let next_timer_req_core_pos = get_lowest_req_core S
        in if next_timer_req_core_pos \<noteq> INVALID_CORE
           then
             andthen (aget (interrupt_req_time S) (unat next_timer_req_core_pos)) (\<lambda>r.
             andthen (assert_c (current_time < r)) (\<lambda>_.
             let S = S\<lparr>gicv := set_intr_target (TIMER_IRQ E) next_timer_req_core_pos (gicv S)\<rparr> in
             andthen (PROGRAM_TIMER E (r - current_time) (hw S)) (\<lambda>(rc, h).
             Inr (rc, S\<lparr>hw := h, current_prog_core := next_timer_req_core_pos\<rparr>))))
           else Inr (0, S\<lparr>current_prog_core := next_timer_req_core_pos\<rparr>))))))))))"

definition tftf_timer_register_handler ::
  "u32 \<Rightarrow> u64 \<Rightarrow> 'h timer_state \<Rightarrow> (int \<times> 'h timer_state) res" where
  "tftf_timer_register_handler core_pos irq_handler S =
     andthen (aget (timer_handler S) (unat core_pos)) (\<lambda>cur.
     andthen (assert_c (cur = 0)) (\<lambda>_.
     andthen (aput (timer_handler S) (unat core_pos) irq_handler) (\<lambda>ths.
     let S = S\<lparr>timer_handler := ths\<rparr> in
     andthen (tftf_irq_register_handler_sgi core_pos IRQ_WAKE_SGI irq_handler (irqs S)) (\<lambda>(ret, T).
     andthen (assert_c (ret = 0)) (\<lambda>_.
     Inr (ret, S\<lparr>irqs := T\<rparr>))))))"

definition tftf_timer_unregister_handler :: "u32 \<Rightarrow> 'h timer_state \<Rightarrow> (int \<times> 'h timer_state) res" where
  "tftf_timer_unregister_handler core_pos S =
     andthen (tftf_irq_unregister_handler_sgi core_pos IRQ_WAKE_SGI (irqs S)) (\<lambda>(ret, T).
     andthen (assert_c (ret = 0)) (\<lambda>_.
     andthen (aget (timer_handler S) (unat core_pos)) (\<lambda>cur.
     andthen (assert_c (cur \<noteq> 0)) (\<lambda>_.
     andthen (aput (timer_handler S) (unat core_pos) 0) (\<lambda>ths.
     Inr (ret, S\<lparr>irqs := T, timer_handler := ths\<rparr>))))))"

definition tftf_get_timer_irq :: "'h timer_env \<Rightarrow> u32 res" where
  "tftf_get_timer_irq E = andthen (assert_c (TIMER_IRQ E \<noteq> 0)) (\<lambda>_. Inr (TIMER_IRQ E))"

definition tftf_get_timer_step_value :: "'h timer_env \<Rightarrow> u32 res" where
  "tftf_get_timer_step_value E =
     andthen (assert_c (TIMER_STEP_VALUE E \<noteq> 0)) (\<lambda>_. Inr (TIMER_STEP_VALUE E))"

definition tftf_timer_gic_state_restore ::
  "'h timer_env \<Rightarrow> u32 \<Rightarrow> 'h timer_state \<Rightarrow> 'h timer_state res" where
  "tftf_timer_gic_state_restore E core_pos S =
     (let S = S\<lparr>gicv := intr_enable (TIMER_IRQ E)
            (set_intr_priority (TIMER_IRQ E) GIC_HIGHEST_NS_PRIORITY (gicv S))\<rparr>
      in andthen (aget (interrupt_req_time S) (unat core_pos)) (\<lambda>r.
         if r = INVALID_TIME then Inr S
         else Inr (S\<lparr>current_prog_core := core_pos,
                     gicv := set_intr_target (TIMER_IRQ E) core_pos (gicv S)\<rparr>)))"

section \<open>The earliest request\<close>

lemma lowest_req_from_spec:
  "lowest_req_from ts i lt lc = lc \<and> (\<forall>t \<in> set ts. lt \<le> t)
   \<or> (\<exists>j < length ts. lowest_req_from ts i lt lc = i + of_nat j \<and> ts ! j < lt
        \<and> (\<forall>j' < length ts. ts ! j \<le> ts ! j') \<and> (\<forall>j' < j. ts ! j < ts ! j'))"
proof (induction ts arbitrary: i lt lc)
  case (Cons t ts)
  show ?case
  proof (cases "t < lt")
    case True
    from Cons.IH [of "i + 1" t i] show ?thesis
    proof (elim disjE exE conjE)
      assume "lowest_req_from ts (i + 1) t i = i" and "\<forall>x \<in> set ts. t \<le> x"
      then show ?thesis using True
        by (intro disjI2 exI [of _ 0]) (auto simp: nth_Cons' all_set_conv_all_nth)
    next
      fix j assume "j < length ts" "lowest_req_from ts (i + 1) t i = i + 1 + of_nat j" "ts ! j < t"
        "\<forall>j' < length ts. ts ! j \<le> ts ! j'" "\<forall>j' < j. ts ! j < ts ! j'"
      then show ?thesis using True
        by (intro disjI2 exI [of _ "Suc j"]) (auto simp: nth_Cons' less_imp_le)
    qed
  next
    case False
    from Cons.IH [of "i + 1" lt lc] show ?thesis
    proof (elim disjE exE conjE)
      assume "lowest_req_from ts (i + 1) lt lc = lc" and "\<forall>x \<in> set ts. lt \<le> x"
      then show ?thesis using False by auto
    next
      fix j assume "j < length ts" "lowest_req_from ts (i + 1) lt lc = i + 1 + of_nat j" "ts ! j < lt"
        "\<forall>j' < length ts. ts ! j \<le> ts ! j'" "\<forall>j' < j. ts ! j < ts ! j'"
      then show ?thesis using False
        by (intro disjI2 exI [of _ "Suc j"]) (auto simp: nth_Cons' not_less intro: less_le_trans less_imp_le)
    qed
  qed
qed simp

lemma unat_of_nat_u32: "n < 2 ^ 32 \<Longrightarrow> unat (of_nat n :: u32) = n"
  by (simp add: unat_of_nat take_bit_nat_eq_self)

text \<open>A core has an outstanding request.\<close>

definition pending :: "'h timer_state \<Rightarrow> nat \<Rightarrow> bool" where
  "pending S i \<longleftrightarrow> i < length (interrupt_req_time S) \<and> interrupt_req_time S ! i \<noteq> INVALID_TIME"

lemma get_lowest_req_core_cases:
  assumes "length (interrupt_req_time S) < 2 ^ 32 - 1"
  shows "get_lowest_req_core S = INVALID_CORE \<and> (\<forall>i. \<not> pending S i)
    \<or> get_lowest_req_core S \<noteq> INVALID_CORE \<and> pending S (unat (get_lowest_req_core S))
      \<and> (\<forall>i < length (interrupt_req_time S).
           interrupt_req_time S ! unat (get_lowest_req_core S) \<le> interrupt_req_time S ! i)
      \<and> (\<forall>i < unat (get_lowest_req_core S).
           interrupt_req_time S ! unat (get_lowest_req_core S) < interrupt_req_time S ! i)"
proof -
  let ?ts = "interrupt_req_time S"
  from lowest_req_from_spec [of ?ts 0 INVALID_TIME INVALID_CORE] show ?thesis
  proof (elim disjE exE conjE)
    assume "lowest_req_from ?ts 0 INVALID_TIME INVALID_CORE = INVALID_CORE"
      and "\<forall>t \<in> set ?ts. INVALID_TIME \<le> t"
    then show ?thesis
      by (auto simp: get_lowest_req_core_def pending_def word_order.extremum_unique)
  next
    fix j
    assume j: "j < length ?ts"
      and e: "lowest_req_from ?ts 0 INVALID_TIME INVALID_CORE = 0 + of_nat j"
      and lt: "?ts ! j < INVALID_TIME"
      and m: "\<forall>j' < length ?ts. ?ts ! j \<le> ?ts ! j'" "\<forall>j' < j. ?ts ! j < ?ts ! j'"
    have u: "unat (of_nat j :: u32) = j" using j assms by (simp add: unat_of_nat_u32)
    have "(of_nat j :: u32) \<noteq> INVALID_CORE"
    proof
      assume "(of_nat j :: u32) = INVALID_CORE"
      then have "j = unat (- 1 :: u32)" using u by simp
      then show False using j assms by (simp add: unsigned_minus_1_eq_mask mask_eq_exp_minus_1)
    qed
    then show ?thesis using j e lt m u by (auto simp: get_lowest_req_core_def pending_def)
  qed
qed

text \<open>C6: \<open>get_lowest_req_core\<close> returns the core whose request is due first, the one with
  the lowest number when several are due at the same time, and \<open>INVALID_CORE\<close> exactly when no
  core has a request.\<close>

theorem get_lowest_req_core_spec:
  assumes "length (interrupt_req_time S) < 2 ^ 32 - 1"
  shows "if (\<exists>i. pending S i)
    then pending S (unat (get_lowest_req_core S))
      \<and> (\<forall>i. pending S i \<longrightarrow>
           interrupt_req_time S ! unat (get_lowest_req_core S) \<le> interrupt_req_time S ! i
           \<and> (interrupt_req_time S ! unat (get_lowest_req_core S) = interrupt_req_time S ! i
               \<longrightarrow> unat (get_lowest_req_core S) \<le> i))
    else get_lowest_req_core S = INVALID_CORE"
  using get_lowest_req_core_cases [OF assms]
  by (auto simp: pending_def) (metis linorder_not_less word_less_nat_alt nat_less_le)

section \<open>Waking the cores whose time has come\<close>

definition woken :: "u64 \<Rightarrow> nat list \<Rightarrow> u64 list \<Rightarrow> u64 list" where
  "woken limit is reqs =
     map (\<lambda>i. if i \<in> set is \<and> reqs ! i \<le> limit then INVALID_TIME else reqs ! i) [0..<length reqs]"

definition wake_sgis :: "u64 \<Rightarrow> nat list \<Rightarrow> u64 list \<Rightarrow> (u32 \<times> u32) list" where
  "wake_sgis limit is reqs =
     map (\<lambda>i. (IRQ_WAKE_SGI, of_nat i)) (filter (\<lambda>i. reqs ! i \<le> limit) is)"

lemma woken_nth [simp]:
  "i < length reqs \<Longrightarrow> woken limit is reqs ! i =
     (if i \<in> set is \<and> reqs ! i \<le> limit then INVALID_TIME else reqs ! i)"
  by (simp add: woken_def)

lemma length_woken [simp]: "length (woken limit is reqs) = length reqs"
  by (simp add: woken_def)

lemma woken_Nil [simp]: "woken limit [] reqs = reqs"
  by (rule nth_equalityI) auto

lemma woken_Cons:
  assumes "i \<notin> set is" "i < length reqs"
  shows "woken limit (i # is) reqs =
     (if reqs ! i \<le> limit then woken limit is (reqs[i := INVALID_TIME]) else woken limit is reqs)"
  by (rule nth_equalityI) (use assms in \<open>auto simp: nth_list_update\<close>)

lemma wake_sgis_update:
  assumes "i \<notin> set is"
  shows "wake_sgis limit is (reqs[i := v]) = wake_sgis limit is reqs"
proof -
  have "filter (\<lambda>j. reqs[i := v] ! j \<le> limit) is = filter (\<lambda>j. reqs ! j \<le> limit) is"
    by (rule filter_cong [OF refl]) (metis assms nth_list_update_neq)
  then show ?thesis by (simp add: wake_sgis_def)
qed

lemma wake_sgis_Cons: "wake_sgis limit (i # is) reqs =
    (if reqs ! i \<le> limit then [(IRQ_WAKE_SGI, of_nat i)] else []) @ wake_sgis limit is reqs"
  by (simp add: wake_sgis_def)

lemma wake_cores_eq:
  assumes "distinct is" "\<forall>i \<in> set is. i < length (interrupt_req_time S)"
  shows "wake_cores online limit is S =
    (if \<forall>i \<in> set is. interrupt_req_time S ! i \<le> limit \<longrightarrow> online (of_nat i)
     then Inr (S\<lparr>interrupt_req_time := woken limit is (interrupt_req_time S),
                 gicv := (gicv S)\<lparr>g_sgi := g_sgi (gicv S) @ wake_sgis limit is (interrupt_req_time S)\<rparr>\<rparr>)
     else Inl AssertFail)"
  using assms
proof (induction "is" arbitrary: S)
  case Nil
  then show ?case by (simp add: wake_sgis_def)
next
  case (Cons i "is")
  let ?r = "interrupt_req_time S"
  have i: "i < length ?r" "i \<notin> set is" using Cons.prems by auto
  have upd: "\<forall>j \<in> set is. ?r[i := INVALID_TIME] ! j = ?r ! j" using i by (auto simp: nth_list_update)
  show ?case
  proof (cases "?r ! i \<le> limit")
    case True
    show ?thesis
    proof (cases "online (of_nat i)")
      case on: True
      let ?S = "S\<lparr>interrupt_req_time := ?r[i := INVALID_TIME],
                  gicv := send_sgi IRQ_WAKE_SGI (of_nat i) (gicv S)\<rparr>"
      have "wake_cores online limit (i # is) S = wake_cores online limit is ?S"
        using True on i by (simp add: tftf_send_sgi_def)
      also have "\<dots> = (if \<forall>j \<in> set is. ?r ! j \<le> limit \<longrightarrow> online (of_nat j)
          then Inr (?S\<lparr>interrupt_req_time := woken limit is (?r[i := INVALID_TIME]),
                 gicv := (gicv ?S)\<lparr>g_sgi := g_sgi (gicv ?S) @ wake_sgis limit is (?r[i := INVALID_TIME])\<rparr>\<rparr>)
          else Inl AssertFail)"
        using Cons.prems upd by (subst Cons.IH) auto
      finally show ?thesis
        using True on i by (simp add: woken_Cons wake_sgis_update wake_sgis_Cons send_sgi_def)
    next
      case False
      with True i show ?thesis by (simp add: tftf_send_sgi_def)
    qed
  next
    case False
    with i have "wake_cores online limit (i # is) S = wake_cores online limit is S" by simp
    also note Cons.IH [of S]
    finally show ?thesis using False i Cons.prems
      by (simp add: woken_Cons wake_sgis_Cons)
  qed
qed

section \<open>The invariant\<close>

text \<open>
  Parameters: the value of the counter, the counter value at which the peripheral fires (if
  armed), its frequency and the peripheral's own invariant. All times of the framework are
  in milliseconds: \<open>tick div systicks_per_ms\<close>.
\<close>

definition timer_base ::
  "('h \<Rightarrow> nat) \<Rightarrow> ('h \<Rightarrow> nat) \<Rightarrow> ('h \<Rightarrow> bool) \<Rightarrow> 'h timer_env \<Rightarrow> 'h timer_state \<Rightarrow> bool" where
  "timer_base tick freq hw_inv E S \<longleftrightarrow>
     length (interrupt_req_time S) < 2 ^ 32 - 1
     \<and> length (timer_handler S) = length (interrupt_req_time S)
     \<and> hw_inv (hw S) \<and> 0 < unat (systicks_per_ms S)
     \<and> unat (systicks_per_ms S) = freq (hw S) div 1000
     \<and> gicv2v3_is_irq_spi (irqs S) (TIMER_IRQ E)
     \<and> TIMER_STEP_VALUE E \<noteq> 0
     \<and> (\<forall>i. pending S i \<longrightarrow>
          unat (TIMER_STEP_VALUE E) \<le> unat (interrupt_req_time S ! i)
          \<and> unat (interrupt_req_time S ! i) \<le> tick (hw S) div unat (systicks_per_ms S) + 2 ^ 32)"

text \<open>
  The peripheral is armed exactly when a core waits, and its interrupt is then targeted at the
  waiting core \<open>current_prog_core\<close>. \<open>strict\<close> adds what a resume from system suspend can break (see
  \<open>tftf_timer_gic_state_restore\<close>): this core's request is one of the earliest, and the peripheral is not armed for an earlier time.
\<close>

definition timer_prog ::
  "bool \<Rightarrow> ('h \<Rightarrow> nat option) \<Rightarrow> 'h timer_env \<Rightarrow> 'h timer_state \<Rightarrow> bool" where
  "timer_prog strict armed E S \<longleftrightarrow>
     (if current_prog_core S = INVALID_CORE then (\<forall>i. \<not> pending S i) \<and> armed (hw S) = None
      else pending S (unat (current_prog_core S))
        \<and> g_target (gicv S) (TIMER_IRQ E) = current_prog_core S
        \<and> (\<forall>i. strict \<longrightarrow> pending S i \<longrightarrow>
             unat (interrupt_req_time S ! unat (current_prog_core S))
               \<le> unat (interrupt_req_time S ! i) + unat (TIMER_STEP_VALUE E))
        \<and> (\<exists>v. armed (hw S) = Some v
             \<and> (strict \<longrightarrow>
                  unat (systicks_per_ms S) * unat (interrupt_req_time S ! unat (current_prog_core S)) \<le> v)))"

lemma unat_u32_u64: "unat (ucast (x :: u32) :: u64) = unat x"
  using unat_less_2p [of x] by (simp add: unsigned_ucast_eq take_bit_nat_eq_self)

lemma pending_hw [simp]: "pending (S\<lparr>hw := h\<rparr>) i = pending S i"
  by (simp add: pending_def)

locale timer_framework = timer_driver rd prog canc hdlr tick armed freq hw_inv
  for rd :: "'h \<Rightarrow> u64 \<times> 'h"
    and prog :: "u64 \<Rightarrow> 'h \<Rightarrow> (int \<times> 'h) res"
    and canc :: "'h \<Rightarrow> (int \<times> 'h) res"
    and hdlr :: "'h \<Rightarrow> (int \<times> 'h) res"
    and tick :: "'h \<Rightarrow> nat"
    and armed :: "'h \<Rightarrow> nat option"
    and freq :: "'h \<Rightarrow> nat"
    and hw_inv :: "'h \<Rightarrow> bool" +
  fixes E :: "'h timer_env"
    and hw_pre :: "'h \<Rightarrow> bool"
  assumes env: "program (plat_timer_info E) = prog" "cancel (plat_timer_info E) = canc"
      "handler (plat_timer_info E) = Some hdlr" "syscounter_read E = rd"
    and prog_rc: "\<And>h t rc h'. prog t h = Inr (rc, h') \<Longrightarrow> rc = 0"
    and cntfrq: "\<And>h. unat (read_cntfrq_el0 E h) = freq h"
    and init_laws: "\<And>h rc h'. hw_pre h \<Longrightarrow> plat_initialise_timer_ops E h = Inr (rc, h') \<Longrightarrow>
      hw_inv h' \<and> armed h' = None"
begin

abbreviation base where "base \<equiv> timer_base tick freq hw_inv E"
abbreviation sound where "sound strict \<equiv> timer_prog strict armed E"

lemma now_spec:
  assumes b: "base S"
  obtains now h' where "get_current_time_ms E S = Inr (now, S\<lparr>hw := h'\<rparr>)"
    and "unat now = tick (hw S) div unat (systicks_per_ms S)" and "unat now < 2 ^ 62"
    and "rd (hw S) = (fst (rd (hw S)), h')"
    and "tick (hw S) \<le> tick h'" "armed h' = armed (hw S)" "freq h' = freq (hw S)" "hw_inv h'"
proof -
  obtain c h' where rd: "rd (hw S) = (c, h')" by (cases "rd (hw S)")
  have i: "hw_inv (hw S)" "systicks_per_ms S \<noteq> 0"
    using b by (auto simp: timer_base_def)
  note l = rd_laws [OF i(1) rd] and t = tick_bound [OF i(1)]
  have u: "unat (c div (ucast (systicks_per_ms S) :: u64)) = tick (hw S) div unat (systicks_per_ms S)"
    using l by (simp add: unat_div_distrib unat_u32_u64)
  moreover have "tick (hw S) div unat (systicks_per_ms S) < 2 ^ 62"
    using t div_le_dividend [of "tick (hw S)"] by (rule le_less_trans [rotated])
  ultimately show thesis
    using i rd l by (intro that [of "c div ucast (systicks_per_ms S)" h'])
      (auto simp: get_current_time_ms_def env)
qed

lemma base_hw:
  assumes "base S" "hw_inv h'" "freq h' = freq (hw S)" "tick (hw S) \<le> tick h'"
  shows "base (S\<lparr>hw := h'\<rparr>)"
proof -
  have "tick (hw S) div k \<le> tick h' div k" for k
    using assms(4) by (rule div_le_mono)
  then show ?thesis using assms by (auto simp: timer_base_def intro: le_trans)
qed

lemma prog_spec:
  assumes b: "base S" and t: "unat t \<le> 2 ^ 32" and p: "prog t (hw S) = Inr (rc, h')"
    and now: "now \<le> tick (hw S) div unat (systicks_per_ms S)"
  shows "rc = 0" and "base (S\<lparr>hw := h'\<rparr>)"
    and "\<exists>v. armed h' = Some v \<and> unat (systicks_per_ms S) * (now + unat t) \<le> v"
proof -
  let ?k = "unat (systicks_per_ms S)"
  have i: "hw_inv (hw S)" and k: "?k = freq (hw S) div 1000" using b by (auto simp: timer_base_def)
  note l = prog_laws [OF i t p]
  show "rc = 0" using prog_rc [OF p] .
  show "base (S\<lparr>hw := h'\<rparr>)" using base_hw [OF b] l by auto
  have "?k * unat t * 1000 \<le> freq (hw S) * unat t"
    using mult_le_mono1 [OF div_times_less_eq_dividend [of "freq (hw S)" 1000], of "unat t"] k
    by (simp add: ac_simps)
  then have "?k * unat t \<le> freq (hw S) * unat t div 1000" by linarith
  moreover have "?k * now \<le> tick (hw S)"
    using mult_le_mono2 [OF now, of ?k] times_div_less_eq_dividend [of ?k "tick (hw S)"]
    by linarith
  ultimately show "\<exists>v. armed h' = Some v \<and> ?k * (now + unat t) \<le> v"
    using l \<open>rc = 0\<close> by (simp add: distrib_left)
qed

end

section \<open>What the operations compute\<close>

lemma pending_update:
  "pending (S\<lparr>interrupt_req_time := (interrupt_req_time S)[c := v]\<rparr>) i \<longleftrightarrow>
     i < length (interrupt_req_time S) \<and> (if i = c then v \<noteq> INVALID_TIME else pending S i)"
  by (auto simp: pending_def nth_list_update)

lemma unat_not_max: "unat (x :: u64) < 2 ^ 63 \<Longrightarrow> x \<noteq> INVALID_TIME"
  by (auto simp: unsigned_minus_1_eq_mask mask_eq_exp_minus_1)

lemma core_not_invalid: "unat (c :: u32) < n \<Longrightarrow> n < 2 ^ 32 - 1 \<Longrightarrow> c \<noteq> INVALID_CORE"
  by (auto simp: unsigned_minus_1_eq_mask mask_eq_exp_minus_1)

lemma request_time:
  fixes now t :: u64
  assumes "unat now < 2 ^ 62" "unat t \<le> 2 ^ 32"
  shows "unat (now + t) = unat now + unat t" "now + t \<noteq> INVALID_TIME"
proof -
  show u: "unat (now + t) = unat now + unat t"
    using assms by (intro unat_add_no_wrap) simp
  show "now + t \<noteq> INVALID_TIME" using assms u by (intro unat_not_max) simp
qed

text \<open>The clamped timeout, and the state once the request is entered.\<close>

definition clamp :: "'h timer_env \<Rightarrow> u64 \<Rightarrow> u64" where
  "clamp E t = (if t < ucast (TIMER_STEP_VALUE E) then ucast (TIMER_STEP_VALUE E) else t)"

definition enter :: "u32 \<Rightarrow> u64 \<Rightarrow> 'h \<Rightarrow> 'h timer_state \<Rightarrow> 'h timer_state" where
  "enter core r h S =
     S\<lparr>hw := h, interrupt_req_time := (interrupt_req_time S)[unat core := r]\<rparr>"

lemma enter_sel [simp]:
  "hw (enter core r h S) = h"
  "interrupt_req_time (enter core r h S) = (interrupt_req_time S)[unat core := r]"
  "current_prog_core (enter core r h S) = current_prog_core S"
  "systicks_per_ms (enter core r h S) = systicks_per_ms S"
  "gicv (enter core r h S) = gicv S" "irqs (enter core r h S) = irqs S"
  "timer_handler (enter core r h S) = timer_handler S"
  by (simp_all add: enter_def)

lemma program_timer_bad:
  "MAX_TIME_OUT_MS < t \<or> t = 0 \<Longrightarrow> tftf_program_timer E core t S = Inr (-1, S)"
  by (auto simp: tftf_program_timer_def Let_def)

lemma program_timer_pre:
  assumes "tftf_program_timer E core t S = Inr (rc, S')" "\<not> (MAX_TIME_OUT_MS < t \<or> t = 0)"
  shows "unat core < length (interrupt_req_time S)" "interrupt_req_time S ! unat core = INVALID_TIME"
  using assms
  by (cases "unat core < length (interrupt_req_time S)";
      cases "interrupt_req_time S ! unat core = INVALID_TIME";
      simp add: tftf_program_timer_def aget_def)+

lemma program_timer_eq:
  assumes "\<not> (MAX_TIME_OUT_MS < t \<or> t = 0)"
    and "unat core < length (interrupt_req_time S)" "interrupt_req_time S ! unat core = INVALID_TIME"
    and "unat (current_prog_core S) < length (interrupt_req_time S) \<or> current_prog_core S = INVALID_CORE"
    and "get_current_time_ms E S = Inr (now, S\<lparr>hw := h\<rparr>)"
    and "gicv2v3_is_irq_spi (irqs S) (TIMER_IRQ E)"
    and "get_current_prog_time (enter core (now + clamp E t) h S) = Inr pt"
  shows "tftf_program_timer E core t S =
    (if pt = 0 \<or> now + clamp E t < pt - ucast (TIMER_STEP_VALUE E)
     then andthen (PROGRAM_TIMER E (clamp E t) h) (\<lambda>(rc, h').
       Inr (rc, (enter core (now + clamp E t) h S)\<lparr>
         gicv := set_intr_target (TIMER_IRQ E) core (gicv S), hw := h', current_prog_core := core\<rparr>))
     else Inr (0, enter core (now + clamp E t) h S))"
  using assms by (simp add: tftf_program_timer_def Let_def clamp_def [symmetric] enter_def)

section \<open>Every operation keeps the invariant\<close>

lemma pending_less: "pending S i \<Longrightarrow> i < length (interrupt_req_time S)"
  by (simp add: pending_def)

context timer_framework
begin

lemma base_request:
  assumes b: "base S" and c: "c < length (interrupt_req_time S)"
    and r: "unat (TIMER_STEP_VALUE E) \<le> unat r"
      "unat r \<le> tick (hw S) div unat (systicks_per_ms S) + 2 ^ 32"
  shows "base (S\<lparr>interrupt_req_time := (interrupt_req_time S)[c := r]\<rparr>)"
  using b c r by (auto simp: timer_base_def pending_update nth_list_update)

lemma base_clear:
  assumes b: "base S"
  shows "base (S\<lparr>interrupt_req_time := (interrupt_req_time S)[c := INVALID_TIME]\<rparr>)"
  using b by (auto simp: timer_base_def pending_update nth_list_update split: if_splits)

lemma base_cong:
  assumes "interrupt_req_time S' = interrupt_req_time S" "timer_handler S' = timer_handler S"
    "hw S' = hw S" "systicks_per_ms S' = systicks_per_ms S" "irqs S' = irqs S"
  shows "base S' \<longleftrightarrow> base S"
  by (simp only: timer_base_def pending_def assms)

lemma base_frame:
  "base (S\<lparr>gicv := g\<rparr>) = base S" "base (S\<lparr>current_prog_core := c\<rparr>) = base S"
  "base (S\<lparr>calls := cs\<rparr>) = base S"
  by (auto simp: timer_base_def pending_def)

lemma step_bounds:
  assumes "base S"
  shows "0 < unat (TIMER_STEP_VALUE E)" "unat (TIMER_STEP_VALUE E) < 2 ^ 32"
  using assms unat_less_2p [of "TIMER_STEP_VALUE E"]
  by (auto simp: timer_base_def unat_gt_0)

lemma clamp_bounds:
  assumes "base S" "\<not> (MAX_TIME_OUT_MS < t \<or> t = 0)"
  shows "unat (clamp E t) \<le> 2 ^ 32" "unat (TIMER_STEP_VALUE E) \<le> unat (clamp E t)"
  using assms step_bounds [OF assms(1)]
  by (auto simp: clamp_def word_le_nat_alt word_less_nat_alt unat_u32_u64)

lemma enter_pending:
  assumes "unat core < length (interrupt_req_time S)" "r \<noteq> INVALID_TIME"
  shows "pending (enter core r h S) i \<longleftrightarrow> i = unat core \<or> pending S i"
  using assms by (auto simp: pending_def nth_list_update)

lemma enter_base:
  assumes b: "base S" and t: "\<not> (MAX_TIME_OUT_MS < t \<or> t = 0)"
    and c: "unat core < length (interrupt_req_time S)"
    and n: "unat now = tick (hw S) div unat (systicks_per_ms S)" "unat now < 2 ^ 62"
    and h: "tick (hw S) \<le> tick h" "freq h = freq (hw S)" "hw_inv h"
  shows "base (enter core (now + clamp E t) h S)"
proof -
  have b0: "base (S\<lparr>hw := h\<rparr>)" using base_hw [OF b] h by auto
  note cl = clamp_bounds [OF b t] and rt = request_time [OF n(2) clamp_bounds(1) [OF b t]]
  have "tick (hw S) div unat (systicks_per_ms S) \<le> tick h div unat (systicks_per_ms S)"
    using h(1) by (rule div_le_mono)
  then show ?thesis
    using base_request [OF b0, of "unat core" "now + clamp E t"] c n cl rt by (simp add: enter_def)
qed

lemma prog_time_cases:
  assumes b: "base S" and s: "sound strict S" and c: "interrupt_req_time S ! unat core = INVALID_TIME"
  shows "current_prog_core S = INVALID_CORE
      \<and> get_current_prog_time (enter core r h S) = Inr 0 \<and> (\<forall>i. \<not> pending S i)
    \<or> current_prog_core S \<noteq> INVALID_CORE \<and> pending S (unat (current_prog_core S))
      \<and> unat (current_prog_core S) \<noteq> unat core
      \<and> get_current_prog_time (enter core r h S)
          = Inr (interrupt_req_time S ! unat (current_prog_core S))
      \<and> unat (TIMER_STEP_VALUE E) \<le> unat (interrupt_req_time S ! unat (current_prog_core S))"
proof (cases "current_prog_core S = INVALID_CORE")
  case True
  then show ?thesis using s by (simp add: get_current_prog_time_def timer_prog_def)
next
  case False
  then have p: "pending S (unat (current_prog_core S))" using s by (simp add: timer_prog_def)
  then have "unat (current_prog_core S) \<noteq> unat core" using c by (auto simp: pending_def)
  moreover have "unat (TIMER_STEP_VALUE E) \<le> unat (interrupt_req_time S ! unat (current_prog_core S))"
    using b p by (auto simp: timer_base_def)
  ultimately show ?thesis using False p by (simp add: get_current_prog_time_def pending_def)
qed

text \<open>Arming the peripheral for one of the earliest requests establishes \<open>sound\<close>.\<close>

definition armed_for :: "u32 \<Rightarrow> 'h \<Rightarrow> 'h timer_state \<Rightarrow> 'h timer_state \<Rightarrow> bool" where
  "armed_for core h S S' \<longleftrightarrow>
     interrupt_req_time S' = interrupt_req_time S \<and> timer_handler S' = timer_handler S
     \<and> systicks_per_ms S' = systicks_per_ms S \<and> irqs S' = irqs S
     \<and> hw S' = h \<and> current_prog_core S' = core \<and> g_target (gicv S') (TIMER_IRQ E) = core"

lemma sound_armed:
  assumes b: "base S" and c: "pending S (unat core)"
    and order: "\<And>i. strict \<Longrightarrow> pending S i \<Longrightarrow>
      unat (interrupt_req_time S ! unat core) \<le> unat (interrupt_req_time S ! i) + unat (TIMER_STEP_VALUE E)"
    and now: "now \<le> tick (hw S) div unat (systicks_per_ms S)"
    and t: "unat t \<le> 2 ^ 32" "unat (interrupt_req_time S ! unat core) \<le> now + unat t"
    and p: "prog t (hw S) = Inr (rc, h)" and S': "armed_for core h S S'"
  shows "base S' \<and> sound strict S'"
proof -
  note P = prog_spec [OF b t(1) p now]
  have "base S' \<longleftrightarrow> base (S\<lparr>hw := h\<rparr>)" using S' by (intro base_cong) (auto simp: armed_for_def)
  moreover have cn: "core \<noteq> INVALID_CORE"
    using c b core_not_invalid [of core] by (auto simp: pending_def timer_base_def)
  obtain v where v: "armed h = Some v" "unat (systicks_per_ms S) * (now + unat t) \<le> v"
    using P(3) by blast
  have "unat (systicks_per_ms S) * unat (interrupt_req_time S ! unat core) \<le> v"
    using mult_le_mono2 [OF t(2)] v(2) by (rule le_trans)
  moreover have "pending S' i = pending S i" for i using S' by (simp add: pending_def armed_for_def)
  ultimately show ?thesis
    using P(2) S' cn c order v(1) by (simp add: timer_prog_def armed_for_def)
qed

lemma program_keeps:
  assumes b: "base S" and s: "sound strict S"
    and p: "tftf_program_timer E core t S = Inr (rc, S')"
  shows "base S' \<and> sound strict S'"
proof (cases "MAX_TIME_OUT_MS < t \<or> t = 0")
  case True
  then show ?thesis using p b s by (simp add: program_timer_bad)
next
  case t: False
  let ?step = "unat (TIMER_STEP_VALUE E)" and ?cp = "unat (current_prog_core S)"
  note c = program_timer_pre [OF p t] and st = step_bounds [OF b]
  obtain now h where n: "get_current_time_ms E S = Inr (now, S\<lparr>hw := h\<rparr>)"
    "unat now = tick (hw S) div unat (systicks_per_ms S)" "unat now < 2 ^ 62"
    and h: "tick (hw S) \<le> tick h" "armed h = armed (hw S)" "freq h = freq (hw S)" "hw_inv h"
    by (rule now_spec [OF b])
  note cl = clamp_bounds [OF b t] and rt = request_time [OF n(3) clamp_bounds(1) [OF b t]]
  let ?S = "enter core (now + clamp E t) h S"
  note be = enter_base [OF b t c(1) n(2,3) h(1,3,4)] and pe = enter_pending [OF c(1) rt(2), of h]
  have req: "interrupt_req_time ?S ! unat core = now + clamp E t"
    "\<And>i. i \<noteq> unat core \<Longrightarrow> interrupt_req_time ?S ! i = interrupt_req_time S ! i"
    using c by auto
  have cpok: "?cp < length (interrupt_req_time S) \<or> current_prog_core S = INVALID_CORE"
    and irq: "gicv2v3_is_irq_spi (irqs S) (TIMER_IRQ E)"
    using s b by (auto simp: timer_prog_def pending_def timer_base_def split: if_splits)
  obtain pt where pt: "get_current_prog_time ?S = Inr pt"
    using prog_time_cases [OF b s c(2)] by blast
  note eq = program_timer_eq [OF t c cpok n(1) irq pt]
  show ?thesis
  proof (cases "pt = 0 \<or> now + clamp E t < pt - ucast (TIMER_STEP_VALUE E)")
    case True
    then obtain h' where P: "prog (clamp E t) h = Inr (rc, h')"
      and S': "S' = ?S\<lparr>gicv := set_intr_target (TIMER_IRQ E) core (gicv S), hw := h',
                       current_prog_core := core\<rparr>"
      using p eq by (auto simp: env andthen_eq_Inr_iff)
    have "unat (now + clamp E t) \<le> unat (interrupt_req_time S ! i) + ?step" if "pending S i" strict for i
      using prog_time_cases [OF b s c(2), of "now + clamp E t" h] that pt True s st
      by (auto simp: timer_prog_def word_less_nat_alt unat_sub_le word_le_nat_alt unat_u32_u64
          unat_eq_zero dest!: spec [of _ i])
    then have ord: "unat (interrupt_req_time ?S ! unat core) \<le> unat (interrupt_req_time ?S ! i) + ?step"
      if strict "pending ?S i" for i
      using that pe req by (cases "i = unat core") auto
    have now: "unat now \<le> tick (hw ?S) div unat (systicks_per_ms ?S)"
      using n(2) div_le_mono [OF h(1)] by simp
    have "armed_for core h' ?S S'"
      unfolding S' by (simp add: armed_for_def set_intr_target_def)
    then show ?thesis
      using pe req rt(1) P by (intro sound_armed [OF be _ ord now cl(1)]) auto
  next
    case False
    then have S': "S' = ?S" using p eq by simp
    from prog_time_cases [OF b s c(2), of "now + clamp E t" h] False pt
    have cp: "current_prog_core S \<noteq> INVALID_CORE" "pending S ?cp" "?cp \<noteq> unat core"
      "pt = interrupt_req_time S ! ?cp" "?step \<le> unat pt"
      by auto
    then have "unat (interrupt_req_time S ! ?cp) \<le> unat (now + clamp E t) + ?step"
      using False by (auto simp: word_less_nat_alt unat_sub_le word_le_nat_alt unat_u32_u64)
    then have "sound strict ?S" using s cp(1-3) pe c(1) h(2)
      by (auto simp: timer_prog_def nth_list_update)
    then show ?thesis using be S' by simp
  qed
qed

lemma sound_clear_other:
  assumes b: "base S" and s: "sound strict S" and c: "unat core < length (interrupt_req_time S)"
    and ne: "core \<noteq> current_prog_core S"
  shows "sound strict (S\<lparr>interrupt_req_time := (interrupt_req_time S)[unat core := INVALID_TIME]\<rparr>)"
proof -
  have "unat core \<noteq> unat (current_prog_core S)" using ne by (simp add: word_unat_eq_iff)
  then show ?thesis
    using s c by (auto simp: timer_prog_def pending_update nth_list_update dest: pending_less)
qed

text \<open>Programming the peripheral for the earliest request, as \<open>tftf_cancel_timer\<close> and the
  interrupt handler do.\<close>

lemma sound_next:
  assumes b: "base S" and nx: "get_lowest_req_core S = core" "core \<noteq> INVALID_CORE"
    and now: "now \<le> tick (hw S) div unat (systicks_per_ms S)"
    and t: "unat t \<le> 2 ^ 32" "unat (interrupt_req_time S ! unat core) \<le> now + unat t"
    and p: "prog t (hw S) = Inr (rc, h)" and S': "armed_for core h S S'"
  shows "base S' \<and> sound strict S'"
proof -
  have "length (interrupt_req_time S) < 2 ^ 32 - 1" using b by (simp add: timer_base_def)
  from get_lowest_req_core_cases [OF this] nx
  have c: "pending S (unat core)"
    and m: "\<And>i. i < length (interrupt_req_time S) \<Longrightarrow>
      interrupt_req_time S ! unat core \<le> interrupt_req_time S ! i"
    by auto
  have "unat (interrupt_req_time S ! unat core)
      \<le> unat (interrupt_req_time S ! i) + unat (TIMER_STEP_VALUE E)" if strict "pending S i" for i
    using m [of i] that by (auto simp: pending_def word_le_nat_alt)
  then show ?thesis by (rule sound_armed [OF b c _ now t p S'])
qed

lemma sound_idle:
  assumes b: "base S" and nx: "get_lowest_req_core S = INVALID_CORE" and a: "armed (hw S) = None"
  shows "base (S\<lparr>current_prog_core := INVALID_CORE\<rparr>) \<and> sound strict (S\<lparr>current_prog_core := INVALID_CORE\<rparr>)"
proof -
  have "length (interrupt_req_time S) < 2 ^ 32 - 1" using b by (simp add: timer_base_def)
  from get_lowest_req_core_cases [OF this] nx have "\<not> pending S i" for i by auto
  moreover have "pending (S\<lparr>current_prog_core := INVALID_CORE\<rparr>) i = pending S i" for i
    by (simp add: pending_def)
  ultimately show ?thesis using a b by (simp add: timer_prog_def base_frame)
qed

end

text \<open>The state after the peripheral has been cancelled.\<close>

definition cancelled :: "'h timer_env \<Rightarrow> u32 \<Rightarrow> 'h \<Rightarrow> 'h timer_state \<Rightarrow> 'h timer_state" where
  "cancelled E core h S =
     S\<lparr>interrupt_req_time := (interrupt_req_time S)[unat core := INVALID_TIME], hw := h,
       gicv := (if g_pending (gicv S) (TIMER_IRQ E) then intr_clear (TIMER_IRQ E) (gicv S) else gicv S)\<rparr>"

lemma cancel_timer_other:
  assumes "unat core < length (interrupt_req_time S)" "core \<noteq> current_prog_core S"
  shows "tftf_cancel_timer E core S =
    Inr (0, S\<lparr>interrupt_req_time := (interrupt_req_time S)[unat core := INVALID_TIME]\<rparr>)"
  using assms by (simp add: tftf_cancel_timer_def Let_def)

lemma cancel_timer_own:
  fixes S :: "'h timer_state"
  assumes "unat core < length (interrupt_req_time S)" "core = current_prog_core S"
    and c: "cancel (plat_timer_info E) (hw S) = Inr (0, h)"
  defines "nx \<equiv> get_lowest_req_core (cancelled E core h S)"
    and "S1 \<equiv> cancelled E core h S"
  shows "tftf_cancel_timer E core S =
    (if nx \<noteq> INVALID_CORE
     then andthen (get_current_time_ms E
            (S1\<lparr>gicv := set_intr_target (TIMER_IRQ E) nx (gicv S1), current_prog_core := nx\<rparr>))
          (\<lambda>(now, S). andthen (aget (interrupt_req_time S) (unat nx)) (\<lambda>r.
            andthen (PROGRAM_TIMER E (if now + ucast (TIMER_STEP_VALUE E) < r then r - now
                                      else ucast (TIMER_STEP_VALUE E)) (hw S)) (\<lambda>(rc, h).
            Inr (rc, S\<lparr>hw := h\<rparr>))))
     else Inr (0, S1\<lparr>current_prog_core := INVALID_CORE\<rparr>))"
  using assms(1-3)
  by (cases "g_pending (gicv S) (TIMER_IRQ E)")
    (simp_all add: tftf_cancel_timer_def Let_def nx_def S1_def cancelled_def)

context timer_framework
begin

lemma reprogram_time:
  fixes now r :: u64
  assumes "unat r \<le> unat now + 2 ^ 32" "now < r"
  shows "unat (r - now) \<le> 2 ^ 32" "unat r \<le> unat now + unat (r - now)"
  using assms by (auto simp: unat_sub_le less_imp_le word_less_nat_alt)

lemma cancel_keeps:
  assumes b: "base S" and s: "sound strict S"
    and p: "tftf_cancel_timer E core S = Inr (rc, S')"
  shows "base S' \<and> sound strict S'"
proof -
  have c: "unat core < length (interrupt_req_time S)"
    using p by (cases "unat core < length (interrupt_req_time S)")
      (simp_all add: tftf_cancel_timer_def aput_def)
  show ?thesis
  proof (cases "core = current_prog_core S")
    case False
    then show ?thesis
      using p cancel_timer_other [OF c False, of E] base_clear [OF b, of "unat core"]
        sound_clear_other [OF b s c False]
      by auto
  next
    case own: True
    have "hw_inv (hw S)" using b by (simp add: timer_base_def)
    from canc_laws [OF this] obtain h where h: "canc (hw S) = Inr (0, h)" "armed h = None"
      "tick h = tick (hw S)" "freq h = freq (hw S)" "hw_inv h" by blast
    let ?S1 = "cancelled E core h S" and ?nx = "get_lowest_req_core (cancelled E core h S)"
    have "base (S\<lparr>hw := h\<rparr>)" using base_hw [OF b] h by auto
    from base_clear [OF this, of "unat core"]
    have b1: "base ?S1" by (subst (asm) base_cong [of _ ?S1]) (auto simp: cancelled_def)
    note eq = cancel_timer_own [OF c own, of E h, unfolded env, OF h(1)]
    show ?thesis
    proof (cases "?nx = INVALID_CORE")
      case True
      then show ?thesis using p eq sound_idle [OF b1 True] h(2) by (simp add: cancelled_def)
    next
      case nx: False
      let ?S2 = "?S1\<lparr>gicv := set_intr_target (TIMER_IRQ E) ?nx (gicv ?S1), current_prog_core := ?nx\<rparr>"
      have b2: "base ?S2" using b1 by (simp add: base_frame)
      obtain now h2 where n: "get_current_time_ms E ?S2 = Inr (now, ?S2\<lparr>hw := h2\<rparr>)"
        "unat now = tick (hw ?S2) div unat (systicks_per_ms ?S2)" "unat now < 2 ^ 62"
        "tick (hw ?S2) \<le> tick h2" "armed h2 = armed (hw ?S2)" "freq h2 = freq (hw ?S2)" "hw_inv h2"
        by (rule now_spec [OF b2])
      let ?S3 = "?S1\<lparr>hw := h2\<rparr>" and ?r = "interrupt_req_time ?S1 ! unat ?nx"
      let ?t = "if now + ucast (TIMER_STEP_VALUE E) < ?r then ?r - now else ucast (TIMER_STEP_VALUE E)"
      have b3: "base ?S3" using base_hw [OF b1] n by simp
      have pn: "pending ?S1 (unat ?nx)"
        using get_lowest_req_core_cases [of ?S1] b1 nx by (auto simp: timer_base_def)
      then have nl: "unat ?nx < length (interrupt_req_time ?S1)" by (rule pending_less)
      have "unat ?r \<le> unat now + 2 ^ 32" using b1 pn n(2) by (auto simp: timer_base_def)
      then have t: "unat ?t \<le> 2 ^ 32" "unat ?r \<le> unat now + unat ?t"
        using reprogram_time [of ?r now] step_bounds [OF b] n(3)
          request_time(1) [of now "ucast (TIMER_STEP_VALUE E)"]
        by (auto simp: unat_u32_u64 word_less_nat_alt)
      obtain h3 where P: "prog ?t h2 = Inr (rc, h3)" and S': "S' = ?S2\<lparr>hw := h3\<rparr>"
        using p eq nx n(1) nl by (auto simp: env andthen_eq_Inr_iff aget_eq_Inr_iff)
      have now: "unat now \<le> tick (hw ?S3) div unat (systicks_per_ms ?S3)"
        using n(2) div_le_mono [OF n(4)] by simp
      have lo: "get_lowest_req_core ?S3 = ?nx" by (simp add: get_lowest_req_core_def)
      have "armed_for ?nx h3 ?S3 S'" by (simp add: armed_for_def S' set_intr_target_def)
      then show ?thesis
        using sound_next [OF b3 lo nx now, of ?t rc h3 S'] t P by simp
    qed
  qed
qed

end

text \<open>The state when the interrupt handler starts to wake cores, and after it has.\<close>

definition fired :: "u32 \<Rightarrow> 'h \<Rightarrow> 'h timer_state \<Rightarrow> 'h timer_state" where
  "fired core h S =
     S\<lparr>interrupt_req_time := (interrupt_req_time S)[unat core := INVALID_TIME], hw := h,
       calls := calls S @ (if timer_handler S ! unat core \<noteq> 0
                           then [(core, timer_handler S ! unat core)] else [])\<rparr>"

definition served :: "u64 \<Rightarrow> 'h timer_state \<Rightarrow> 'h timer_state" where
  "served limit S =
     S\<lparr>interrupt_req_time :=
         woken limit [0..<length (interrupt_req_time S)] (interrupt_req_time S),
       gicv := (gicv S)\<lparr>g_sgi := g_sgi (gicv S)
         @ wake_sgis limit [0..<length (interrupt_req_time S)] (interrupt_req_time S)\<rparr>\<rparr>"

definition reprogram :: "'h timer_env \<Rightarrow> u64 \<Rightarrow> 'h timer_state \<Rightarrow> (int \<times> 'h timer_state) res" where
  "reprogram E now S =
     (let nx = get_lowest_req_core S
      in if nx \<noteq> INVALID_CORE
         then andthen (aget (interrupt_req_time S) (unat nx)) (\<lambda>r.
              andthen (assert_c (now < r)) (\<lambda>_.
              let S = S\<lparr>gicv := set_intr_target (TIMER_IRQ E) nx (gicv S)\<rparr> in
              andthen (PROGRAM_TIMER E (r - now) (hw S)) (\<lambda>(rc, h).
              Inr (rc, S\<lparr>hw := h, current_prog_core := nx\<rparr>))))
         else Inr (0, S\<lparr>current_prog_core := nx\<rparr>))"

lemma fired_sel [simp]:
  "interrupt_req_time (fired core h S) = (interrupt_req_time S)[unat core := INVALID_TIME]"
  "hw (fired core h S) = h" "gicv (fired core h S) = gicv S" "irqs (fired core h S) = irqs S"
  "timer_handler (fired core h S) = timer_handler S"
  "systicks_per_ms (fired core h S) = systicks_per_ms S"
  by (simp_all add: fired_def)

lemma framework_handler_eq:
  assumes "unat core < length (interrupt_req_time S)" "interrupt_req_time S ! unat core \<noteq> INVALID_TIME"
    and "get_current_time_ms E S = Inr (now, S\<lparr>hw := h\<rparr>)" and "core = current_prog_core S"
    and "handler (plat_timer_info E) = Some f" "f h = Inr (x, h2)"
    and "\<not> g_pending (gicv S) (TIMER_IRQ E)"
    and "unat core < length (timer_handler S)"
  defines "limit \<equiv> now + ucast (TIMER_STEP_VALUE E)"
  shows "tftf_timer_framework_handler E online core S =
    (if \<forall>i < length (interrupt_req_time S). interrupt_req_time (fired core h2 S) ! i \<le> limit
          \<longrightarrow> online (of_nat i)
     then reprogram E now (served limit (fired core h2 S)) else Inl AssertFail)"
proof -
  let ?F = "fired core h2 S"
  have "tftf_timer_framework_handler E online core S =
      andthen (wake_cores online limit [0..<length (interrupt_req_time ?F)] ?F) (reprogram E now)"
    using assms(1-8)
    by (cases "timer_handler S ! unat core = 0")
      (simp_all add: tftf_timer_framework_handler_def Let_def limit_def fired_def reprogram_def [abs_def])
  also have "wake_cores online limit [0..<length (interrupt_req_time ?F)] ?F =
      (if \<forall>i < length (interrupt_req_time S). interrupt_req_time ?F ! i \<le> limit \<longrightarrow> online (of_nat i)
       then Inr (served limit ?F) else Inl AssertFail)"
    by (subst wake_cores_eq) (auto simp: served_def)
  finally show ?thesis by (auto split: if_splits)
qed

lemma served_pending:
  assumes "unat core < length (interrupt_req_time S)"
  shows "pending (served limit (fired core h S)) i \<longleftrightarrow>
      pending S i \<and> i \<noteq> unat core \<and> limit < interrupt_req_time S ! i"
    and "pending (served limit (fired core h S)) i \<Longrightarrow>
      interrupt_req_time (served limit (fired core h S)) ! i = interrupt_req_time S ! i"
  using assms
  by (cases "i = unat core"; auto simp: served_def pending_def split: if_splits)+

context timer_framework
begin

lemma base_shrink:
  assumes b: "base S" and "length (interrupt_req_time S') = length (interrupt_req_time S)"
    "timer_handler S' = timer_handler S" "hw S' = hw S" "systicks_per_ms S' = systicks_per_ms S"
    "irqs S' = irqs S"
    and "\<And>i. pending S' i \<Longrightarrow> pending S i \<and> interrupt_req_time S' ! i = interrupt_req_time S ! i"
  shows "base S'"
  using assms by (auto simp: timer_base_def)

text \<open>What the interrupt handler has seen and done when it reaches the reprogramming step.\<close>

lemma handler_setup:
  assumes b: "base S" and s: "sound strict S" and c: "current_prog_core S = core" "core \<noteq> INVALID_CORE"
    and np: "\<not> g_pending (gicv S) (TIMER_IRQ E)"
  obtains now h2 where "unat now = tick (hw S) div unat (systicks_per_ms S)"
    and "unat (now + ucast (TIMER_STEP_VALUE E)) = unat now + unat (TIMER_STEP_VALUE E)"
    and "base (served (now + ucast (TIMER_STEP_VALUE E)) (fired core h2 S))"
    and "armed h2 = None" "tick (hw S) \<le> tick h2"
    and "\<exists>x. hdlr (snd (rd (hw S))) = Inr (x, h2)"
    and "tftf_timer_framework_handler E online core S =
      (if \<forall>i. pending S i \<and> i \<noteq> unat core \<and> interrupt_req_time S ! i \<le> now + ucast (TIMER_STEP_VALUE E)
            \<longrightarrow> online (of_nat i)
       then reprogram E now (served (now + ucast (TIMER_STEP_VALUE E)) (fired core h2 S))
       else Inl AssertFail)"
proof -
  have pc: "pending S (unat core)" using s c by (simp add: timer_prog_def)
  then have cl: "unat core < length (interrupt_req_time S)" "interrupt_req_time S ! unat core \<noteq> INVALID_TIME"
    by (auto simp: pending_def)
  obtain now h where n: "get_current_time_ms E S = Inr (now, S\<lparr>hw := h\<rparr>)"
    "unat now = tick (hw S) div unat (systicks_per_ms S)" "unat now < 2 ^ 62"
    "rd (hw S) = (fst (rd (hw S)), h)" "tick (hw S) \<le> tick h" "freq h = freq (hw S)" "hw_inv h"
    by (rule now_spec [OF b])
  obtain h2 where h2: "hdlr h = Inr (0, h2)" "armed h2 = None" "tick h2 = tick h" "freq h2 = freq h"
    "hw_inv h2" using hdlr_laws [OF n(7)] by blast
  let ?l = "now + ucast (TIMER_STEP_VALUE E)" and ?F = "fired core h2 S"
  have l: "unat ?l = unat now + unat (TIMER_STEP_VALUE E)" "?l \<noteq> INVALID_TIME"
    using request_time [OF n(3), of "ucast (TIMER_STEP_VALUE E)"] step_bounds [OF b]
    by (auto simp: unat_u32_u64)
  have "base (S\<lparr>hw := h2\<rparr>)" using base_hw [OF b] n h2 by auto
  then have "base (served ?l ?F)"
    by (rule base_shrink) (use served_pending [OF cl(1), of ?l h2] in \<open>auto simp: served_def\<close>)
  moreover have thl: "unat core < length (timer_handler S)" using b cl by (simp add: timer_base_def)
  have f: "(\<forall>i < length (interrupt_req_time S). interrupt_req_time ?F ! i \<le> ?l \<longrightarrow> online (of_nat i))
      \<longleftrightarrow> (\<forall>i. pending S i \<and> i \<noteq> unat core \<and> interrupt_req_time S ! i \<le> ?l \<longrightarrow> online (of_nat i))"
    using cl l(2) by (auto simp: pending_def nth_list_update word_order.extremum_unique)
  have "\<exists>x. hdlr (snd (rd (hw S))) = Inr (x, h2)" using n(4) h2(1) by (metis snd_conv)
  ultimately show thesis
    using framework_handler_eq [OF cl n(1) c(1) [symmetric] env(3) h2(1) np thl, of online] n l h2
    unfolding f by (intro that [of now h2]) auto
qed

lemma reprogram_keeps:
  assumes b: "base W" and a: "armed (hw W) = None" and now: "unat now \<le> tick (hw W) div unat (systicks_per_ms W)"
    and bound: "\<And>i. pending W i \<Longrightarrow> unat (interrupt_req_time W ! i) \<le> unat now + 2 ^ 32"
    and p: "reprogram E now W = Inr (rc, S')"
  shows "base S' \<and> sound strict S' \<and> rc = 0 \<and> interrupt_req_time S' = interrupt_req_time W
    \<and> calls S' = calls W \<and> g_sgi (gicv S') = g_sgi (gicv W)"
proof (cases "get_lowest_req_core W = INVALID_CORE")
  case True
  then show ?thesis using p sound_idle [OF b True a] by (auto simp: reprogram_def)
next
  case nx: False
  let ?nx = "get_lowest_req_core W" and ?r = "interrupt_req_time W ! unat (get_lowest_req_core W)"
  have pn: "pending W (unat ?nx)"
    using get_lowest_req_core_cases [of W] b nx by (auto simp: timer_base_def)
  obtain h where lt: "now < ?r" and P: "prog (?r - now) (hw W) = Inr (rc, h)"
    and S': "S' = W\<lparr>gicv := set_intr_target (TIMER_IRQ E) ?nx (gicv W), hw := h, current_prog_core := ?nx\<rparr>"
    using p nx pending_less [OF pn] by (auto simp: reprogram_def Let_def env andthen_eq_Inr_iff)
  have "armed_for ?nx h W S'" by (simp add: armed_for_def S' set_intr_target_def)
  from sound_next [OF b refl nx now _ _ P this] reprogram_time [OF bound [OF pn] lt]
  have "base S' \<and> sound strict S'" by simp
  then show ?thesis using prog_rc [OF P] by (simp add: S' set_intr_target_def)
qed

lemma handler_keeps:
  assumes b: "base S" and s: "sound strict S"
    and p: "tftf_timer_framework_handler E online core S = Inr (rc, S')"
  shows "base S' \<and> sound strict S'"
proof -
  have cl: "unat core < length (interrupt_req_time S)" "interrupt_req_time S ! unat core \<noteq> INVALID_TIME"
    using p by (cases "unat core < length (interrupt_req_time S)";
        cases "interrupt_req_time S ! unat core = INVALID_TIME";
        simp add: tftf_timer_framework_handler_def Let_def aget_def)+
  obtain now0 h0 where n0: "get_current_time_ms E S = Inr (now0, S\<lparr>hw := h0\<rparr>)" "hw_inv h0"
    by (rule now_spec [OF b])
  obtain h1 where h1: "hdlr h0 = Inr (0, h1)" using hdlr_laws [OF n0(2)] by blast
  have c: "current_prog_core S = core" and np: "\<not> g_pending (gicv S) (TIMER_IRQ E)"
    using p cl n0(1) h1
    by (cases "current_prog_core S = core"; cases "g_pending (gicv S) (TIMER_IRQ E)";
        simp add: tftf_timer_framework_handler_def Let_def env)+
  have ci: "core \<noteq> INVALID_CORE" using core_not_invalid [OF cl(1)] b by (simp add: timer_base_def)
  let ?st = "ucast (TIMER_STEP_VALUE E) :: u64"
  obtain now h2 where H: "unat now = tick (hw S) div unat (systicks_per_ms S)"
    "base (served (now + ?st) (fired core h2 S))" "armed h2 = None" "tick (hw S) \<le> tick h2"
    "tftf_timer_framework_handler E online core S =
      (if \<forall>i. pending S i \<and> i \<noteq> unat core \<and> interrupt_req_time S ! i \<le> now + ?st \<longrightarrow> online (of_nat i)
       then reprogram E now (served (now + ?st) (fired core h2 S)) else Inl AssertFail)"
    by (rule handler_setup [OF b s c ci np])
  let ?W = "served (now + ?st) (fired core h2 S)"
  have p': "reprogram E now ?W = Inr (rc, S')" using p H(5) by (simp split: if_splits)
  have "unat now \<le> tick (hw ?W) div unat (systicks_per_ms ?W)"
    using H(1) div_le_mono [OF H(4)] by (simp add: served_def)
  moreover have "unat (interrupt_req_time ?W ! i) \<le> unat now + 2 ^ 32" if "pending ?W i" for i
    using that served_pending [OF cl(1)] b H(1) by (auto simp: timer_base_def)
  moreover have "armed (hw ?W) = None" using H(3) by (simp add: served_def)
  ultimately show ?thesis using reprogram_keeps [OF H(2) _ _ _ p'] by blast
qed

end

section \<open>Reachable states\<close>

text \<open>
  A step is one operation on some core, the timer interrupt taken on the core the interrupt
  is targeted at once the armed time has come, the passing of time, or a change of the
  pending state the interrupt controller reports. A core that resumes from system suspend
  restores the interrupt controller and makes itself the programmed core; without \<open>resume\<close> it does
  so only if its request, if any, is not later than that of the core programmed before.
\<close>

definition resume_ok :: "'h timer_state \<Rightarrow> u32 \<Rightarrow> bool" where
  "resume_ok S core \<longleftrightarrow> (pending S (unat core) \<longrightarrow>
     interrupt_req_time S ! unat core \<le> interrupt_req_time S ! unat (current_prog_core S))"

inductive timer_step ::
  "bool \<Rightarrow> ('h \<Rightarrow> nat) \<Rightarrow> ('h \<Rightarrow> nat option) \<Rightarrow> ('h \<Rightarrow> nat) \<Rightarrow> ('h \<Rightarrow> bool) \<Rightarrow> 'h timer_env
     \<Rightarrow> 'h timer_state \<Rightarrow> 'h timer_state \<Rightarrow> bool"
  for resume tick armed freq hw_inv E where
  step_program: "tftf_program_timer E core t S = Inr (rc, S') \<Longrightarrow> timer_step resume tick armed freq hw_inv E S S'"
| step_cancel: "tftf_cancel_timer E core S = Inr (rc, S') \<Longrightarrow> timer_step resume tick armed freq hw_inv E S S'"
| step_fire: "armed (hw S) = Some v \<Longrightarrow> v \<le> tick (hw S) \<Longrightarrow> core = g_target (gicv S) (TIMER_IRQ E) \<Longrightarrow>
    tftf_timer_framework_handler E online core S = Inr (rc, S') \<Longrightarrow>
    timer_step resume tick armed freq hw_inv E S S'"
| step_register: "tftf_timer_register_handler core h S = Inr (rc, S') \<Longrightarrow>
    timer_step resume tick armed freq hw_inv E S S'"
| step_unregister: "tftf_timer_unregister_handler core S = Inr (rc, S') \<Longrightarrow>
    timer_step resume tick armed freq hw_inv E S S'"
| step_secondary: "timer_step resume tick armed freq hw_inv E S (tftf_initialise_timer_secondary_core E S)"
| step_elapse: "hw_inv h \<Longrightarrow> tick (hw S) \<le> tick h \<Longrightarrow> armed h = armed (hw S) \<Longrightarrow> freq h = freq (hw S) \<Longrightarrow>
    timer_step resume tick armed freq hw_inv E S (S\<lparr>hw := h\<rparr>)"
| step_restore: "resume \<or> resume_ok S core \<Longrightarrow> tftf_timer_gic_state_restore E core S = Inr S' \<Longrightarrow>
    timer_step resume tick armed freq hw_inv E S S'"
| step_irq_line: "timer_step resume tick armed freq hw_inv E S (S\<lparr>gicv := (gicv S)\<lparr>g_pending := p\<rparr>\<rparr>)"

inductive timer_reach ::
  "bool \<Rightarrow> ('h \<Rightarrow> nat) \<Rightarrow> ('h \<Rightarrow> nat option) \<Rightarrow> ('h \<Rightarrow> nat) \<Rightarrow> ('h \<Rightarrow> bool) \<Rightarrow> ('h \<Rightarrow> bool) \<Rightarrow> 'h timer_env
     \<Rightarrow> 'h timer_state \<Rightarrow> bool"
  for resume tick armed freq hw_inv hw_pre E where
  reach_init: "hw_pre (hw S0) \<Longrightarrow> current_prog_core S0 = INVALID_CORE \<Longrightarrow>
    length (interrupt_req_time S0) < 2 ^ 32 - 1 \<Longrightarrow>
    length (timer_handler S0) = length (interrupt_req_time S0) \<Longrightarrow>
    gicv2v3_is_irq_spi (irqs S0) (TIMER_IRQ E) \<Longrightarrow>
    tftf_initialise_timer E core S0 = Inr (0, S) \<Longrightarrow> 1000 \<le> read_cntfrq_el0 E (hw S) \<Longrightarrow>
    timer_reach resume tick armed freq hw_inv hw_pre E S"
| reach_step: "timer_reach resume tick armed freq hw_inv hw_pre E S \<Longrightarrow>
    timer_step resume tick armed freq hw_inv E S S' \<Longrightarrow> timer_reach resume tick armed freq hw_inv hw_pre E S'"

lemma update_handler_spi:
  "tftf_irq_update_handler core irq h e T = Inr (rc, T') \<Longrightarrow>
     gicv2v3_is_irq_spi T' n = gicv2v3_is_irq_spi T n"
  by (auto simp: tftf_irq_update_handler_def andthen_eq_Inr_iff gicv2v3_is_irq_spi_def
      is_plat_spi_def split: if_splits dest: slot_write_frame(1))

lemmas irq_update_defs = tftf_irq_register_handler_sgi_def tftf_irq_unregister_handler_sgi_def
  tftf_irq_register_handler_def tftf_irq_unregister_handler_def

text \<open>Two states that the invariant does not tell apart.\<close>

definition same_timer :: "'h timer_state \<Rightarrow> 'h timer_state \<Rightarrow> bool" where
  "same_timer S S' \<longleftrightarrow>
     interrupt_req_time S' = interrupt_req_time S
     \<and> length (timer_handler S') = length (timer_handler S)
     \<and> hw S' = hw S \<and> systicks_per_ms S' = systicks_per_ms S
     \<and> (\<forall>n. gicv2v3_is_irq_spi (irqs S') n = gicv2v3_is_irq_spi (irqs S) n)
     \<and> current_prog_core S' = current_prog_core S \<and> g_target (gicv S') = g_target (gicv S)"

lemma register_frame:
  assumes "tftf_timer_register_handler core h S = Inr (rc, S')"
  shows "same_timer S S'"
  using assms by (auto simp: tftf_timer_register_handler_def andthen_eq_Inr_iff Let_def same_timer_def
      aput_eq_Inr_iff irq_update_defs update_handler_spi)

lemma unregister_frame:
  assumes "tftf_timer_unregister_handler core S = Inr (rc, S')"
  shows "same_timer S S'"
  using assms by (auto simp: tftf_timer_unregister_handler_def andthen_eq_Inr_iff Let_def same_timer_def
      aput_eq_Inr_iff irq_update_defs update_handler_spi)

lemma secondary_frame: "same_timer S (tftf_initialise_timer_secondary_core E S)"
  by (simp add: same_timer_def tftf_initialise_timer_secondary_core_def gic_op_defs)

context timer_framework
begin

lemma keeps_same:
  assumes i: "base S \<and> sound strict S" and "same_timer S S'"
  shows "base S' \<and> sound strict S'"
proof -
  from assms(2) have e: "interrupt_req_time S' = interrupt_req_time S"
    "length (timer_handler S') = length (timer_handler S)" "hw S' = hw S"
    "systicks_per_ms S' = systicks_per_ms S"
    "\<And>n. gicv2v3_is_irq_spi (irqs S') n = gicv2v3_is_irq_spi (irqs S) n"
    "current_prog_core S' = current_prog_core S" "g_target (gicv S') = g_target (gicv S)"
    by (auto simp: same_timer_def)
  have p: "pending S' i = pending S i" for i by (simp add: pending_def e)
  have "base S' = base S" by (simp only: timer_base_def p e)
  moreover have "sound strict S' = sound strict S" by (simp only: timer_prog_def p e)
  ultimately show ?thesis using i by simp
qed

lemma init_inv:
  assumes "hw_pre (hw S0)" "current_prog_core S0 = INVALID_CORE"
    and l: "length (interrupt_req_time S0) < 2 ^ 32 - 1"
      "length (timer_handler S0) = length (interrupt_req_time S0)"
    and "gicv2v3_is_irq_spi (irqs S0) (TIMER_IRQ E)"
    and i: "tftf_initialise_timer E core S0 = Inr (0, S)" and f: "1000 \<le> read_cntfrq_el0 E (hw S)"
  shows "base S \<and> sound strict S"
proof -
  obtain h rc T where h: "plat_initialise_timer_ops E (hw S0) = Inr (0, h)"
    and st: "TIMER_STEP_VALUE E \<noteq> 0"
    and T: "tftf_irq_register_handler core (TIMER_IRQ E) (framework_handler_addr E) (irqs S0) = Inr (rc, T)"
    and S: "S = S0\<lparr>hw := h, interrupt_req_time := replicate (length (interrupt_req_time S0)) INVALID_TIME,
      irqs := T, gicv := intr_enable (TIMER_IRQ E)
        (set_intr_priority (TIMER_IRQ E) GIC_HIGHEST_NS_PRIORITY (gicv S0)),
      systicks_per_ms := read_cntfrq_el0 E h div 1000\<rparr>"
    using i by (auto simp: tftf_initialise_timer_def andthen_eq_Inr_iff Let_def split: if_splits)
  have "hw_inv h" "armed h = None" using init_laws [OF assms(1) h] by auto
  moreover have "gicv2v3_is_irq_spi T (TIMER_IRQ E)"
    using update_handler_spi T assms(5) by (auto simp: tftf_irq_register_handler_def)
  moreover have "unat (read_cntfrq_el0 E h div 1000) = freq h div 1000"
    by (simp add: unat_div_distrib cntfrq)
  moreover have "1000 \<le> freq h" using f by (simp add: S word_le_nat_alt cntfrq)
  moreover have "\<not> pending S i" for i by (auto simp: pending_def S)
  ultimately show ?thesis
    using assms(2) l st by (auto simp: timer_base_def timer_prog_def S div_greater_zero_iff)
qed

lemma restore_keeps:
  assumes b: "base S" and s: "sound strict S" and ok: "strict \<Longrightarrow> resume_ok S core"
    and r: "tftf_timer_gic_state_restore E core S = Inr S'"
  shows "base S' \<and> sound strict S'"
proof -
  let ?g = "intr_enable (TIMER_IRQ E) (set_intr_priority (TIMER_IRQ E) GIC_HIGHEST_NS_PRIORITY (gicv S))"
  have c: "unat core < length (interrupt_req_time S)"
    using r by (cases "unat core < length (interrupt_req_time S)")
      (simp_all add: tftf_timer_gic_state_restore_def aget_def)
  show ?thesis
  proof (cases "interrupt_req_time S ! unat core = INVALID_TIME")
    case True
    then have "same_timer S S'"
      using r c by (auto simp: tftf_timer_gic_state_restore_def same_timer_def gic_op_defs)
    then show ?thesis using keeps_same b s by blast
  next
    case False
    then have p: "pending S (unat core)" using c by (simp add: pending_def)
    have S': "S' = S\<lparr>gicv := set_intr_target (TIMER_IRQ E) core ?g, current_prog_core := core\<rparr>"
      using r c False by (auto simp: tftf_timer_gic_state_restore_def Let_def)
    have cn: "core \<noteq> INVALID_CORE" using core_not_invalid [OF c] b by (simp add: timer_base_def)
    have old: "current_prog_core S \<noteq> INVALID_CORE" using p s by (auto simp: timer_prog_def)
    have le: "unat (interrupt_req_time S ! unat core) \<le> unat (interrupt_req_time S ! unat (current_prog_core S))" if strict
      using ok [OF that] p by (simp add: resume_ok_def word_le_nat_alt)
    have pe: "pending S' i = pending S i" for i by (simp add: pending_def S')
    obtain v where v: "armed (hw S) = Some v"
      "strict \<Longrightarrow> unat (systicks_per_ms S) * unat (interrupt_req_time S ! unat (current_prog_core S)) \<le> v"
      using s old by (auto simp: timer_prog_def)
    have "unat (systicks_per_ms S) * unat (interrupt_req_time S ! unat core) \<le> v" if strict
      using v(2) [OF that] mult_le_mono2 [OF le [OF that]] by (rule le_trans [rotated])
    moreover have "unat (interrupt_req_time S ! unat core) \<le> unat (interrupt_req_time S ! i) + unat (TIMER_STEP_VALUE E)"
      if strict "pending S i" for i
    proof -
      have "unat (interrupt_req_time S ! unat (current_prog_core S))
          \<le> unat (interrupt_req_time S ! i) + unat (TIMER_STEP_VALUE E)"
        using s old that by (simp add: timer_prog_def)
      then show ?thesis using le [OF that(1)] by linarith
    qed
    ultimately have "sound strict S'"
      unfolding timer_prog_def pe using cn p v(1) by (simp add: S' set_intr_target_def)
    moreover have "base S'" using b unfolding S' by (subst base_cong [of _ S]) simp_all
    ultimately show ?thesis by simp
  qed
qed

lemma step_inv:
  assumes "timer_step resume tick armed freq hw_inv E S S'" "base S \<and> sound (\<not> resume) S"
  shows "base S' \<and> sound (\<not> resume) S'"
  using assms
proof (induction rule: timer_step.induct)
  case (step_register core h S rc S')
  show ?case by (rule keeps_same [OF step_register(2) register_frame [OF step_register(1)]])
next
  case (step_unregister core S rc S')
  show ?case by (rule keeps_same [OF step_unregister(2) unregister_frame [OF step_unregister(1)]])
next
  case (step_secondary S)
  then show ?case by (rule keeps_same [OF _ secondary_frame])
next
  case (step_elapse h S)
  then show ?case using base_hw [of S h] by (auto simp: timer_prog_def)
next
  case (step_restore S core S')
  then show ?case using restore_keeps [of S "\<not> resume" core S'] by auto
next
  case (step_irq_line S p)
  then show ?case by (rule keeps_same) (simp add: same_timer_def)
qed (auto dest: program_keeps cancel_keeps handler_keeps)

lemma reach_inv:
  assumes "timer_reach resume tick armed freq hw_inv hw_pre E S"
  shows "base S \<and> sound (\<not> resume) S"
  using assms by induction (auto dest: init_inv step_inv)

end

section \<open>Serving an interrupt\<close>

text \<open>The cores other than the one that takes the interrupt whose time has come.\<close>

definition due :: "nat \<Rightarrow> u32 \<Rightarrow> u64 list \<Rightarrow> nat list" where
  "due limit core reqs =
     filter (\<lambda>i. i \<noteq> unat core \<and> unat (reqs ! i) \<le> limit) [0..<length reqs]"

lemma wake_sgis_due:
  assumes "unat limit = l" "limit \<noteq> INVALID_TIME" "unat core < length reqs"
  shows "wake_sgis limit [0..<length reqs] (reqs[unat core := INVALID_TIME])
    = map (\<lambda>i. (IRQ_WAKE_SGI, of_nat i)) (due l core reqs)"
proof -
  have "filter (\<lambda>i. reqs[unat core := INVALID_TIME] ! i \<le> limit) [0..<length reqs]
      = filter (\<lambda>i. i \<noteq> unat core \<and> unat (reqs ! i) \<le> l) [0..<length reqs]"
    by (rule filter_cong [OF refl])
      (use assms in \<open>auto simp: nth_list_update word_le_nat_alt [symmetric] word_order.extremum_unique\<close>)
  then show ?thesis by (simp add: wake_sgis_def due_def)
qed

context timer_framework
begin

lemma reprogram_returns:
  assumes b: "base W"
    and lt: "\<And>i. pending W i \<Longrightarrow> now < interrupt_req_time W ! i"
    and bound: "\<And>i. pending W i \<Longrightarrow> unat (interrupt_req_time W ! i) \<le> unat now + 2 ^ 32"
    and ret: "\<And>t. 1 \<le> unat t \<Longrightarrow> unat t \<le> 2 ^ 32 \<Longrightarrow> \<exists>y. prog t (hw W) = Inr y"
  shows "\<exists>S'. reprogram E now W = Inr (0, S')"
proof (cases "get_lowest_req_core W = INVALID_CORE")
  case nx: False
  let ?nx = "unat (get_lowest_req_core W)"
  have pn: "pending W ?nx"
    using get_lowest_req_core_cases [of W] b nx by (auto simp: timer_base_def)
  note l = lt [OF pn]
  have "unat (interrupt_req_time W ! ?nx - now) \<le> 2 ^ 32"
    using reprogram_time [OF bound [OF pn] l] by simp
  moreover have "1 \<le> unat (interrupt_req_time W ! ?nx - now)"
    using l by (simp add: unat_sub_le less_imp_le word_less_nat_alt Suc_le_eq)
  ultimately obtain rc h where "prog (interrupt_req_time W ! ?nx - now) (hw W) = Inr (rc, h)"
    using ret by (metis surj_pair)
  then show ?thesis
    using nx pending_less [OF pn] l prog_rc by (auto simp: reprogram_def env Let_def)
qed (simp add: reprogram_def)

lemma handler_serves:
  assumes i: "base S" "sound strict S" and a: "armed (hw S) = Some v" "v \<le> tick (hw S)"
    and np: "\<not> g_pending (gicv S) (TIMER_IRQ E)"
    and on: "\<And>j. pending S j \<Longrightarrow> online (of_nat j)"
    and ret: "\<And>x h t. hdlr (snd (rd (hw S))) = Inr (x, h) \<Longrightarrow> 1 \<le> unat t \<Longrightarrow> unat t \<le> 2 ^ 32 \<Longrightarrow>
      \<exists>y. prog t h = Inr y"
  defines "core \<equiv> g_target (gicv S) (TIMER_IRQ E)"
    and "now \<equiv> tick (hw S) div unat (systicks_per_ms S)"
    and "st \<equiv> unat (TIMER_STEP_VALUE E)"
  shows "(strict \<longrightarrow> unat (interrupt_req_time S ! unat core) \<le> now)
    \<and> (\<exists>S'. tftf_timer_framework_handler E online core S = Inr (0, S')
       \<and> (\<forall>j < length (interrupt_req_time S). interrupt_req_time S' ! j =
            (if j = unat core \<or> unat (interrupt_req_time S ! j) \<le> now + st
             then INVALID_TIME else interrupt_req_time S ! j))
       \<and> g_sgi (gicv S') = g_sgi (gicv S)
           @ map (\<lambda>j. (IRQ_WAKE_SGI, of_nat j)) (due (now + st) core (interrupt_req_time S))
       \<and> calls S' = calls S @ (if timer_handler S ! unat core \<noteq> 0
                               then [(core, timer_handler S ! unat core)] else []))"
proof -
  have cp: "current_prog_core S = core" "core \<noteq> INVALID_CORE" and pc: "pending S (unat core)"
    and early: "strict \<Longrightarrow> unat (systicks_per_ms S) * unat (interrupt_req_time S ! unat core) \<le> tick (hw S)"
    using i(2) a by (auto simp: timer_prog_def core_def split: if_splits)
  note cl = pending_less [OF pc]
  have "unat (interrupt_req_time S ! unat core) \<le> now" if strict
    using early [OF that] i(1) by (simp add: now_def less_eq_div_iff_mult_less_eq timer_base_def mult.commute)
  moreover let ?st = "ucast (TIMER_STEP_VALUE E) :: u64"
  obtain nw h2 where H: "unat nw = now" "unat (nw + ?st) = now + st"
    "base (served (nw + ?st) (fired core h2 S))" "armed h2 = None" "tick (hw S) \<le> tick h2"
    "\<exists>x. hdlr (snd (rd (hw S))) = Inr (x, h2)"
    "tftf_timer_framework_handler E online core S =
      (if \<forall>i. pending S i \<and> i \<noteq> unat core \<and> interrupt_req_time S ! i \<le> nw + ?st \<longrightarrow> online (of_nat i)
       then reprogram E nw (served (nw + ?st) (fired core h2 S)) else Inl AssertFail)"
    unfolding now_def st_def by (rule handler_setup [OF i cp np, of online]) auto
  let ?W = "served (nw + ?st) (fired core h2 S)"
  note sp = served_pending [OF cl, of "nw + ?st" h2]
  have lt: "nw < interrupt_req_time ?W ! j" if "pending ?W j" for j
  proof -
    have "unat nw \<le> unat (nw + ?st)" using H(1,2) by simp
    then show ?thesis using sp that by (auto simp: word_less_nat_alt)
  qed
  have bound: "unat (interrupt_req_time ?W ! j) \<le> unat nw + 2 ^ 32" if "pending ?W j" for j
    using that sp i(1) H(1) by (auto simp: timer_base_def now_def)
  have "\<exists>S'. reprogram E nw ?W = Inr (0, S')"
    using ret H(6) by (intro reprogram_returns [OF H(3) lt bound]) (auto simp: served_def)
  then obtain S' where S': "reprogram E nw ?W = Inr (0, S')" by blast
  have "now < 2 ^ 62"
    using tick_bound [of "hw S"] i(1) div_le_dividend [of "tick (hw S)"]
    unfolding now_def by (meson le_less_trans timer_base_def)
  then have "nw + ?st \<noteq> INVALID_TIME"
    using H(2) step_bounds [OF i(1)] by (intro unat_not_max) (simp add: st_def)
  then have W: "g_sgi (gicv ?W) = g_sgi (gicv S)
      @ map (\<lambda>j. (IRQ_WAKE_SGI, of_nat j)) (due (now + st) core (interrupt_req_time S))"
    using wake_sgis_due [OF H(2) _ cl] by (simp add: served_def)
  have "interrupt_req_time S' = interrupt_req_time ?W \<and> calls S' = calls ?W
      \<and> g_sgi (gicv S') = g_sgi (gicv ?W)"
    using reprogram_keeps [OF H(3) _ _ bound S'] H(4) div_le_mono [OF H(5)] H(1)
    by (auto simp: served_def now_def)
  moreover have "interrupt_req_time ?W ! j =
      (if j = unat core \<or> unat (interrupt_req_time S ! j) \<le> now + st
       then INVALID_TIME else interrupt_req_time S ! j)" if "j < length (interrupt_req_time S)" for j
    using that cl H(2) by (auto simp: served_def nth_list_update word_le_nat_alt)
  moreover have "tftf_timer_framework_handler E online core S = Inr (0, S')"
    using H(7) on S' by auto
  ultimately show ?thesis using W by (auto simp: served_def fired_def)
qed

end

end
