(* ===== verification/Tftf_Timer_Arm.thy ===== *)
theory Tftf_Timer_Arm
  imports Tftf_Timer
begin

text \<open>
  The timer framework on the Arm platforms (\<open>src/plat/arm/common/arm_timers.c\<close>): the
  peripheral is the memory-mapped system timer and its interrupt is a shared one. The
  framework's interface is instantiated with the system timer driver, and the properties of
  the framework are stated for the states this system can reach.

  \<open>irq\<close> is \<open>IRQ_CNTPSIRQ1\<close> (GICv2 and GICv3; the GICv5 encoding of the same interrupt is not
  modelled), \<open>base\<close> is \<open>SYS_CNT_BASE1\<close> and \<open>addr\<close> the address of
  \<open>tftf_timer_framework_handler\<close>.
\<close>

section \<open>The platform\<close>

definition plat_timers :: "u32 \<Rightarrow> systimer plat_timer" where
  "plat_timers irq = \<lparr>program = program_systimer, cancel = cancel_systimer,
     handler = Some handler_systimer, timer_step_value = 2, timer_irq = irq\<rparr>"

definition arm_initialise_timer_ops :: "u64 \<Rightarrow> systimer \<Rightarrow> (int \<times> systimer) res" where
  "arm_initialise_timer_ops base h = andthen (init_systimer base h) (\<lambda>(_, h). Inr (0, h))"

definition arm_timer_env :: "u32 \<Rightarrow> u64 \<Rightarrow> u64 \<Rightarrow> systimer timer_env" where
  "arm_timer_env irq base addr = \<lparr>plat_timer_info = plat_timers irq,
     plat_initialise_timer_ops = arm_initialise_timer_ops base,
     syscounter_read = read_cntpct, read_cntfrq_el0 = sys_freq, framework_handler_addr = addr\<rparr>"

abbreviation arm_reach :: "bool \<Rightarrow> u32 \<Rightarrow> u64 \<Rightarrow> u64 \<Rightarrow> systimer timer_state \<Rightarrow> bool" where
  "arm_reach resume irq base addr \<equiv>
     timer_reach resume clk_tick systimer_armed systimer_freq systimer_inv clk_mono (arm_timer_env irq base addr)"

interpretation arm_fw: timer_framework read_cntpct program_systimer cancel_systimer handler_systimer
  clk_tick systimer_armed systimer_freq systimer_inv "arm_timer_env irq base addr" clk_mono
  for irq base addr
proof
  show "rc = 0" if "program_systimer t h = Inr (rc, h')" for h t rc h'
    using that by (auto simp: program_systimer_def read_cntpct_def Let_def andthen_eq_Inr_iff
        split: if_splits)
  show "systimer_inv h' \<and> systimer_armed h' = None"
    if "clk_mono h" "plat_initialise_timer_ops (arm_timer_env irq base addr) h = Inr (rc, h')" for h rc h'
    using that by (auto simp: arm_timer_env_def arm_initialise_timer_ops_def init_systimer_def
        disable_systimer_def andthen_eq_Inr_iff systimer_defs ctl_armed_disabled clk_mono_def)
qed (simp_all add: arm_timer_env_def plat_timers_def systimer_freq_def)

text \<open>The driver panics exactly when the counter passes the programmed time between its two
  readings.\<close>

lemma program_systimer_cases:
  assumes i: "systimer_inv h" and t: "unat t \<le> 2 ^ 32"
  shows "if unat (clk h 0) + unat (sys_freq h) * unat t div 1000 < unat (clk h (Suc 0))
    then program_systimer t h = Inl Panic else \<exists>h'. program_systimer t h = Inr (0, h')"
proof -
  let ?tk = "ms_to_ticks (sys_freq h) t"
  have u: "unat ?tk = unat (sys_freq h) * unat t div 1000" by (rule unat_ms_to_ticks [OF t])
  have "unat (clk h 0 + ?tk) = unat (clk h 0) + unat ?tk"
  proof (rule unat_add_no_wrap)
    have "unat ?tk \<le> (2 ^ 64 - 1) div 1000"
      unfolding ms_to_ticks_def using unat_less_2p [of "ucast (sys_freq h) * t :: u64"]
      by (auto simp: unat_div_distrib intro!: div_le_mono)
    moreover have "unat (clk h 0) < 2 ^ 62" using i by (simp add: systimer_inv_def clk_mono_def)
    ultimately show "unat (clk h 0) + unat ?tk < 2 ^ LENGTH(64)" by simp
  qed
  then have "clk h 0 + ?tk < clk h (Suc 0)
      \<longleftrightarrow> unat (clk h 0) + unat (sys_freq h) * unat t div 1000 < unat (clk h (Suc 0))"
    by (simp add: word_less_nat_alt u)
  then show ?thesis
    using i by (simp add: program_systimer_def systimer_defs Let_def)
qed

lemma program_systimer_returns:
  assumes i: "systimer_inv h" and t: "1 \<le> unat t" "unat t \<le> 2 ^ 32"
    and p: "unat (clk h (Suc 0)) \<le> unat (clk h 0) + unat (sys_freq h) div 1000"
  shows "\<exists>y. program_systimer t h = Inr y"
proof -
  have "unat (sys_freq h) \<le> unat (sys_freq h) * unat t" using t(1) by simp
  then have "unat (sys_freq h) div 1000 \<le> unat (sys_freq h) * unat t div 1000" by (rule div_le_mono)
  then show ?thesis using program_systimer_cases [OF i t(2)] p by auto
qed

lemma handler_systimer_clk:
  "handler_systimer (snd (read_cntpct h)) = Inr (x, h2) \<Longrightarrow>
     clk h2 = (\<lambda>n. clk h (Suc n)) \<and> sys_freq h2 = sys_freq h"
  by (auto simp: handler_systimer_def disable_systimer_def andthen_eq_Inr_iff read_cntpct_def)

lemma grouping_test:
  fixes r pt :: u64
  assumes "2 \<le> unat pt"
  shows "pt = 0 \<or> r < pt - 2 \<longleftrightarrow> unat r + 2 < unat pt"
  using assms by (auto simp: word_less_nat_alt unat_sub_le word_le_nat_alt)

section \<open>Properties\<close>

text \<open>C4: in every reachable state of the framework, whatever the cores have requested and
  cancelled, however the interrupt was served and whichever cores have resumed from system
  suspend: the peripheral is disarmed exactly when no core waits, and otherwise its interrupt is
  targeted at \<open>current_prog_core\<close>, which waits. If moreover no core has resumed with a request
  later than that of the core programmed before it (\<open>resume\<close> is false), the peripheral is armed
  for a time not before the request of \<open>current_prog_core\<close>, and that request is no more than the
  timer step later than the request of any waiting core.\<close>

theorem arm_timer_invariant:
  assumes "arm_reach resume irq base addr S"
  shows "if current_prog_core S = INVALID_CORE
    then (\<forall>i. \<not> pending S i) \<and> systimer_armed (hw S) = None
    else pending S (unat (current_prog_core S))
      \<and> g_target (gicv S) irq = current_prog_core S
      \<and> (\<exists>v. systimer_armed (hw S) = Some v \<and> (\<not> resume \<longrightarrow>
          unat (systicks_per_ms S) * unat (interrupt_req_time S ! unat (current_prog_core S)) \<le> v))
      \<and> (\<not> resume \<longrightarrow> (\<forall>i. pending S i \<longrightarrow>
          unat (interrupt_req_time S ! unat (current_prog_core S)) \<le> unat (interrupt_req_time S ! i) + 2))"
  using arm_fw.reach_inv [OF assms]
  by (auto simp: timer_prog_def arm_timer_env_def plat_timers_def split: if_splits)

text \<open>Serving the interrupt, for the property below and for the run at the end of this theory.\<close>

lemma arm_handler_serves:
  assumes "arm_reach resume irq base addr S" and "systimer_armed (hw S) = Some v" and "v \<le> clk_tick (hw S)"
    and "\<not> g_pending (gicv S) irq" and "\<And>i. pending S i \<Longrightarrow> online (of_nat i)"
    and "unat (clk (hw S) 2) \<le> unat (clk (hw S) 1) + unat (sys_freq (hw S)) div 1000"
    and "core = g_target (gicv S) irq" and "now = clk_tick (hw S) div unat (systicks_per_ms S)"
  shows "(\<not> resume \<longrightarrow> unat (interrupt_req_time S ! unat core) \<le> now)
    \<and> (\<exists>S'. tftf_timer_framework_handler (arm_timer_env irq base addr) online core S = Inr (0, S')
       \<and> (\<forall>j < length (interrupt_req_time S). interrupt_req_time S' ! j =
            (if j = unat core \<or> unat (interrupt_req_time S ! j) \<le> now + 2
             then INVALID_TIME else interrupt_req_time S ! j))
       \<and> g_sgi (gicv S') = g_sgi (gicv S)
           @ map (\<lambda>j. (IRQ_WAKE_SGI, of_nat j)) (due (now + 2) core (interrupt_req_time S))
       \<and> calls S' = calls S @ (if timer_handler S ! unat core \<noteq> 0
                               then [(core, timer_handler S ! unat core)] else []))"
proof -
  note inv = arm_fw.reach_inv [OF assms(1)]
  have hi: "systimer_inv (hw S)" using inv by (simp add: timer_base_def)
  have ret: "\<exists>y. program_systimer t h = Inr y"
    if h: "handler_systimer (snd (read_cntpct (hw S))) = Inr (x, h)" and t: "1 \<le> unat t" "unat t \<le> 2 ^ 32"
    for x h t
  proof (rule program_systimer_returns [OF _ t])
    show "systimer_inv h"
      using h hi by (auto simp: handler_systimer_def disable_systimer_def andthen_eq_Inr_iff systimer_defs
          clk_mono_def)
    show "unat (clk h (Suc 0)) \<le> unat (clk h 0) + unat (sys_freq h) div 1000"
      using handler_systimer_clk [OF h] assms(6) by (simp add: numeral_2_eq_2)
  qed
  have e: "timer_irq (plat_timer_info (arm_timer_env irq base addr)) = irq"
    "timer_step_value (plat_timer_info (arm_timer_env irq base addr)) = 2"
    by (simp_all add: arm_timer_env_def plat_timers_def)
  show ?thesis
    using arm_fw.handler_serves [of irq base addr S "\<not> resume" v online, unfolded e, OF _ _ assms(2-5) ret] inv
    unfolding assms(7,8) by simp
qed

text \<open>C3: when the timer interrupt is taken in a reachable state, the handler of the core it is
  targeted at returns without hitting an assertion, clears the request of that core and of
  exactly the cores whose requests are due within the timer step, sends one wake-up SGI to each
  of the latter in core order, calls the registered handler of its own core, and leaves the other
  requests as they were. If no core has resumed from system suspend with a request later than that
  of the core programmed before it (\<open>resume\<close> is false), the request of the interrupted core is due:
  its handler never runs early. Assumed: the peripheral is armed for a time the counter has
  reached, the interrupt controller no longer reports the interrupt as pending once the driver's
  handler has disarmed the peripheral, every waiting core is online, and less than a millisecond
  passes between the two readings of the counter that re-arm the peripheral.\<close>

theorem arm_timer_fire:
  assumes "arm_reach resume irq base addr S" and "systimer_armed (hw S) = Some v" and "v \<le> clk_tick (hw S)"
    and "\<not> g_pending (gicv S) irq" and "\<And>i. pending S i \<Longrightarrow> online (of_nat i)"
    and "unat (clk (hw S) 2) \<le> unat (clk (hw S) 1) + unat (sys_freq (hw S)) div 1000"
    and "core = g_target (gicv S) irq" and "now = clk_tick (hw S) div unat (systicks_per_ms S)"
  shows "(\<not> resume \<longrightarrow> unat (interrupt_req_time S ! unat core) \<le> now)
    \<and> (\<exists>S'. tftf_timer_framework_handler (arm_timer_env irq base addr) online core S = Inr (0, S')
       \<and> (\<forall>j < length (interrupt_req_time S). interrupt_req_time S' ! j =
            (if j = unat core \<or> unat (interrupt_req_time S ! j) \<le> now + 2
             then INVALID_TIME else interrupt_req_time S ! j))
       \<and> g_sgi (gicv S') = g_sgi (gicv S)
           @ map (\<lambda>j. (IRQ_WAKE_SGI, of_nat j)) (due (now + 2) core (interrupt_req_time S))
       \<and> calls S' = calls S @ (if timer_handler S ! unat core \<noteq> 0
                               then [(core, timer_handler S ! unat core)] else []))"
  using assms by (rule arm_handler_serves)

text \<open>C5: a request for 0 or more than 10000 milliseconds is refused and changes nothing; a
  second request of a core that already waits is stopped by the assertion. Any other request
  re-arms the peripheral, with this core as its target, exactly if no core waits or the request is
  more than the timer step earlier than that of \<open>current_prog_core\<close>. If the counter then passes the
  programmed time between the driver's two readings, the driver panics. In all other cases the
  request succeeds and is entered for the current time plus the timeout, raised to the timer
  step, without touching the requests of the other cores.\<close>

theorem arm_program_timer_result:
  assumes "arm_reach resume irq base addr S" and "unat core < length (interrupt_req_time S)"
    and "now = clk_tick (hw S) div unat (systicks_per_ms S)"
    and "rearm \<longleftrightarrow> current_prog_core S = INVALID_CORE
      \<or> now + max 2 (unat t) + 2 < unat (interrupt_req_time S ! unat (current_prog_core S))"
  shows "if t = 0 \<or> 10000 < unat t
    then tftf_program_timer (arm_timer_env irq base addr) core t S = Inr (-1, S)
    else if pending S (unat core)
    then tftf_program_timer (arm_timer_env irq base addr) core t S = Inl AssertFail
    else if rearm \<and> unat (clk (hw S) 1) + unat (sys_freq (hw S)) * max 2 (unat t) div 1000
        < unat (clk (hw S) 2)
    then tftf_program_timer (arm_timer_env irq base addr) core t S = Inl Panic
    else \<exists>S' r. tftf_program_timer (arm_timer_env irq base addr) core t S = Inr (0, S')
      \<and> unat r = now + max 2 (unat t)
      \<and> interrupt_req_time S' = (interrupt_req_time S)[unat core := r]
      \<and> current_prog_core S' = (if rearm then core else current_prog_core S)"
proof -
  let ?E = "arm_timer_env irq base addr" and ?cp = "unat (current_prog_core S)"
  have inv: "arm_fw.base irq base addr S" "arm_fw.sound irq base addr (\<not> resume) S"
    using arm_fw.reach_inv [OF assms(1)] by auto
  have bad: "t = 0 \<or> 10000 < unat t \<longleftrightarrow> MAX_TIME_OUT_MS < t \<or> t = 0"
    by (auto simp: word_less_nat_alt)
  have pd: "tftf_program_timer ?E core t S = Inl AssertFail"
    if "\<not> (MAX_TIME_OUT_MS < t \<or> t = 0)" "pending S (unat core)"
    using that by (simp add: tftf_program_timer_def pending_def)
  have ok: ?thesis if t: "\<not> (MAX_TIME_OUT_MS < t \<or> t = 0)" and np: "\<not> pending S (unat core)"
  proof -
    have c: "interrupt_req_time S ! unat core = INVALID_TIME"
      using np assms(2) by (simp add: pending_def)
    obtain nw h where n: "get_current_time_ms ?E S = Inr (nw, S\<lparr>hw := h\<rparr>)"
      "unat nw = now" "unat nw < 2 ^ 62" "read_cntpct (hw S) = (fst (read_cntpct (hw S)), h)"
      "systimer_inv h"
      unfolding assms(3) by (rule arm_fw.now_spec [OF inv(1)]) auto
    have h: "clk h = (\<lambda>n. clk (hw S) (Suc n))" "sys_freq h = sys_freq (hw S)"
      using n(4) by (auto simp: read_cntpct_def)
    note cl = arm_fw.clamp_bounds [OF inv(1) t]
    have ca: "unat (clamp ?E t) = max 2 (unat t)"
      by (simp add: clamp_def arm_timer_env_def plat_timers_def word_less_nat_alt)
    note P = program_systimer_cases [OF n(5) cl(1), unfolded h ca]
    let ?S = "enter core (nw + clamp ?E t) h S"
    have cpok: "?cp < length (interrupt_req_time S) \<or> current_prog_core S = INVALID_CORE"
      and irq: "gicv2v3_is_irq_spi (irqs S) (TIMER_IRQ ?E)"
      using inv by (auto simp: timer_prog_def pending_def timer_base_def split: if_splits)
    have rt: "unat (nw + clamp ?E t) = now + max 2 (unat t)"
      using request_time(1) [OF n(3) cl(1)] n(2) ca by simp
    have st: "TIMER_STEP_VALUE ?E = 2" by (simp add: arm_timer_env_def plat_timers_def)
    obtain pt where pt: "get_current_prog_time ?S = Inr pt"
      and re: "pt = 0 \<or> nw + clamp ?E t < pt - ucast (TIMER_STEP_VALUE ?E) \<longleftrightarrow> rearm"
      using arm_fw.prog_time_cases [OF inv c, of "nw + clamp ?E t" h]
        grouping_test [of "interrupt_req_time S ! ?cp" "nw + clamp ?E t"]
      unfolding assms(4) st rt by auto
    have pr: "program (plat_timer_info ?E) = program_systimer" by (rule arm_fw.env(1))
    note eq = program_timer_eq [OF t assms(2) c cpok n(1) irq pt, unfolded re pr]
    show ?thesis
      unfolding bad using t np P eq rt by (auto simp: numeral_2_eq_2 simp del: unat_sub_le split: if_splits)
  qed
  show ?thesis
    using ok pd program_timer_bad [of t ?E core S] unfolding bad by (cases "pending S (unat core)") auto
qed

section \<open>A concrete run\<close>

text \<open>Two cores, a 1 MHz counter: core 0 asks for 10 ms, core 1 for 11 ms, and 15 ms pass.\<close>

definition demo_hw :: "u64 \<Rightarrow> u64 \<Rightarrow> u64 \<Rightarrow> u32 \<Rightarrow> systimer" where
  "demo_hw t b cv ctl = \<lparr>clk = (\<lambda>_. t), g_systimer_base = b, cntp_cval = cv, cntp_ctl = ctl,
     sys_freq = 1000000\<rparr>"

definition demo_gic :: "u32 \<Rightarrow> gic" where
  "demo_gic core = \<lparr>g_target = (\<lambda>_. 0)(34 := core), g_priority = (\<lambda>_. 0), g_enabled = (\<lambda>_. False)(34 := True),
     g_pending = (\<lambda>_. False), g_sgi = [], g_eoi = []\<rparr>"

definition demo_spi :: irq_tables where
  "demo_spi = demo_tables\<lparr>spi_desc_table := (replicate 4 0)[2 := 0x8000]\<rparr>"

definition demo_state :: "u64 list \<Rightarrow> u32 \<Rightarrow> systimer \<Rightarrow> systimer timer_state" where
  "demo_state reqs cp h = \<lparr>interrupt_req_time = reqs, current_prog_core = cp, systicks_per_ms = 1000,
     timer_handler = [0, 0], hw = h, irqs = demo_spi, gicv = demo_gic 0, calls = []\<rparr>"

abbreviation demo_env :: "systimer timer_env" where
  "demo_env \<equiv> arm_timer_env 34 0x2a830000 0x8000"

lemmas demo_defs = demo_hw_def demo_gic_def demo_state_def demo_spi_def demo_tables_def
  arm_timer_env_def plat_timers_def

lemma demo_mono [simp]: "unat t < 2 ^ 62 \<Longrightarrow> clk_mono (demo_hw t b cv ctl)"
  by (simp add: clk_mono_def demo_hw_def)

lemma demo_init:
  "tftf_initialise_timer demo_env 0
     \<lparr>interrupt_req_time = [0, 0], current_prog_core = INVALID_CORE, systicks_per_ms = 0,
      timer_handler = [0, 0], hw = demo_hw 5000 0 7 1, irqs = demo_tables,
      gicv = (demo_gic 0)\<lparr>g_enabled := (\<lambda>_. False)\<rparr>, calls = []\<rparr>
   = Inr (0, demo_state [INVALID_TIME, INVALID_TIME] INVALID_CORE (demo_hw 5000 0x2a830000 0 2))"
  by (simp add: tftf_initialise_timer_def arm_initialise_timer_ops_def init_systimer_def
      disable_systimer_def demo_defs tftf_irq_register_handler_def tftf_irq_update_handler_def
      gicv2v3_get_irq_handler_def is_plat_spi_def handler_valid_def gic_op_defs set_cntp_ctl_imask_def
      fun_eq_iff)

lemmas demo_ops = demo_defs tftf_program_timer_def get_current_time_ms_def get_current_prog_time_def
  gicv2v3_is_irq_spi_def is_plat_spi_def program_systimer_def read_cntpct_def ms_to_ticks_def
  set_cntp_ctl_enable_def clr_cntp_ctl_imask_def gic_op_defs Let_def

lemma demo_program_0:
  "tftf_program_timer demo_env 0 10
     (demo_state [INVALID_TIME, INVALID_TIME] INVALID_CORE (demo_hw 5000 0x2a830000 0 2))
   = Inr (0, demo_state [15, INVALID_TIME] 0 (demo_hw 5000 0x2a830000 15000 1))"
  by (simp add: demo_ops fun_eq_iff)

lemma demo_program_1:
  "tftf_program_timer demo_env 1 11 (demo_state [15, INVALID_TIME] 0 (demo_hw 5000 0x2a830000 15000 1))
   = Inr (0, demo_state [15, 16] 0 (demo_hw 5000 0x2a830000 15000 1))"
  by (simp add: demo_ops fun_eq_iff)

lemma demo_armed: "systimer_armed (demo_hw t b 15000 1) = Some 15000"
  by (simp add: systimer_armed_def demo_hw_def ctl_armed_def)

lemma demo_reach_0: "arm_reach resume 34 0x2a830000 0x8000
    (demo_state [INVALID_TIME, INVALID_TIME] INVALID_CORE (demo_hw 5000 0x2a830000 0 2))"
  by (rule reach_init [OF _ _ _ _ _ demo_init])
    (simp_all add: demo_defs clk_mono_def gicv2v3_is_irq_spi_def is_plat_spi_def)

lemma demo_reach_1: "arm_reach resume 34 0x2a830000 0x8000
    (demo_state [15, 16] 0 (demo_hw 5000 0x2a830000 15000 1))"
  by (rule reach_step [OF reach_step [OF demo_reach_0 step_program [OF demo_program_0]]
        step_program [OF demo_program_1]])

lemma demo_reach: "arm_reach resume 34 0x2a830000 0x8000
    (demo_state [15, 16] 0 (demo_hw 20000 0x2a830000 15000 1))"
proof -
  let ?S = "demo_state [15, 16] 0 (demo_hw 5000 0x2a830000 15000 1)"
  let ?h = "demo_hw 20000 0x2a830000 15000 1"
  have "timer_step resume clk_tick systimer_armed systimer_freq systimer_inv demo_env ?S (?S\<lparr>hw := ?h\<rparr>)"
    by (rule step_elapse)
      (simp_all add: systimer_inv_def demo_state_def demo_armed clk_tick_def systimer_freq_def,
       simp_all add: demo_hw_def)
  from reach_step [OF demo_reach_1 this] show ?thesis by (simp add: demo_state_def)
qed

theorem arm_timer_invariant_witness:
  "pending (demo_state [15, 16] 0 (demo_hw 20000 0x2a830000 15000 1)) 0
   \<and> systimer_armed (demo_hw 20000 0x2a830000 15000 1) = Some 15000"
  using arm_timer_invariant [OF demo_reach [of False]] by (simp add: demo_state_def demo_armed)

lemma demo_sel:
  "hw (demo_state r c h) = h" "interrupt_req_time (demo_state r c h) = r"
  "gicv (demo_state r c h) = demo_gic 0" "systicks_per_ms (demo_state r c h) = 1000"
  "current_prog_core (demo_state r c h) = c"
  "timer_handler (demo_state r c h) = [0, 0]"
  "clk (demo_hw t b cv ctl) n = t" "sys_freq (demo_hw t b cv ctl) = 1000000"
  "g_target (demo_gic core) 34 = core" "g_pending (demo_gic core) i = False" "g_sgi (demo_gic core) = []"
  "clk_tick (demo_hw t b cv ctl) = unat t"
  by (simp_all add: demo_state_def demo_hw_def demo_gic_def clk_tick_def)

theorem arm_timer_fire_witness:
  "\<exists>S'. tftf_timer_framework_handler demo_env (\<lambda>_. True) 0
       (demo_state [15, 16] 0 (demo_hw 20000 0x2a830000 15000 1)) = Inr (0, S')
     \<and> g_sgi (gicv S') = [(IRQ_WAKE_SGI, 1)]"
proof -
  have d: "due (20 + 2) 0 [15, 16] = [1]" by (simp add: due_def upt_rec)
  have "clk_tick (demo_hw 20000 0x2a830000 15000 1) div unat (1000 :: u32) = 20"
    by (simp add: demo_sel)
  with arm_timer_fire [OF demo_reach [of False], unfolded demo_sel, OF demo_armed _ _ _ _ refl refl, of "\<lambda>_. True"] d
  show ?thesis by auto
qed

theorem arm_program_timer_result_witness:
  "tftf_program_timer demo_env 0 0 (demo_state [15, 16] 0 (demo_hw 20000 0x2a830000 15000 1))
     = Inr (-1, demo_state [15, 16] 0 (demo_hw 20000 0x2a830000 15000 1))
   \<and> (\<exists>S' r. tftf_program_timer demo_env 1 1
         (demo_state [INVALID_TIME, INVALID_TIME] INVALID_CORE (demo_hw 5000 0x2a830000 0 2)) = Inr (0, S')
       \<and> unat r = 7 \<and> interrupt_req_time S' = [INVALID_TIME, r] \<and> current_prog_core S' = 1)"
proof
  show "tftf_program_timer demo_env 0 0 (demo_state [15, 16] 0 (demo_hw 20000 0x2a830000 15000 1))
     = Inr (-1, demo_state [15, 16] 0 (demo_hw 20000 0x2a830000 15000 1))"
    using arm_program_timer_result [OF demo_reach [of False], unfolded demo_sel, OF _ refl refl, of 0 0]
    by simp
  let ?S = "demo_state [INVALID_TIME, INVALID_TIME] INVALID_CORE (demo_hw 5000 0x2a830000 0 2)"
  have np: "\<not> pending ?S (unat (1 :: u32))" by (simp add: pending_def demo_sel)
  have n: "unat (5000 :: u64) div unat (1000 :: u32) = 5" by simp
  have "\<exists>S' r. tftf_program_timer demo_env 1 1 ?S = Inr (0, S')
      \<and> unat r = 5 + max 2 (unat (1 :: u64))
      \<and> interrupt_req_time S' = [INVALID_TIME, INVALID_TIME][unat (1 :: u32) := r]
      \<and> current_prog_core S' = 1"
    using arm_program_timer_result [OF demo_reach_0 [of False], unfolded demo_sel, OF _ refl refl, of 1 1] np
    unfolding n by (simp only: if_False) simp
  then show "\<exists>S' r. tftf_program_timer demo_env 1 1 ?S = Inr (0, S')
       \<and> unat r = 7 \<and> interrupt_req_time S' = [INVALID_TIME, r] \<and> current_prog_core S' = 1" by simp
qed

theorem get_lowest_req_core_spec_witness:
  "get_lowest_req_core (demo_state [16, 15, 15] 0 (demo_hw 20000 0x2a830000 15000 1)) \<noteq> INVALID_CORE
   \<and> unat (get_lowest_req_core (demo_state [16, 15, 15] 0 (demo_hw 20000 0x2a830000 15000 1))) \<le> 1"
proof -
  let ?S = "demo_state [16, 15, 15] 0 (demo_hw 20000 0x2a830000 15000 1)"
  have p: "pending ?S 1" "interrupt_req_time ?S = [16, 15, 15]"
    by (simp_all add: pending_def demo_sel)
  have "get_lowest_req_core ?S = 1" by (simp add: get_lowest_req_core_def demo_sel)
  then show ?thesis using get_lowest_req_core_spec [of ?S] p by auto
qed

section \<open>A resume that makes a handler run early\<close>








end
