(* ===== verification/Tftf_Libc.thy ===== *)
theory Tftf_Libc
  imports Tftf_Prelude
begin

text \<open>
  The memory and string functions of \<open>src/lib/libc\<close> on a byte-addressed memory, a function
  from 64-bit addresses to bytes; pointer arithmetic wraps as it does on the machine. A loop
  that counts down its length argument is recursion on that number. A loop that runs to a
  terminator is a partial function whose value is \<open>None\<close> when there is no terminator.
\<close>

type_synonym mem = "u64 \<Rightarrow> u8"

section \<open>Blocks of memory\<close>

definition mem_read :: "mem \<Rightarrow> u64 \<Rightarrow> nat \<Rightarrow> u8 list" where
  "mem_read m a n = map (\<lambda>i. m (a + of_nat i)) [0..<n]"

definition mem_write :: "mem \<Rightarrow> u64 \<Rightarrow> u8 list \<Rightarrow> mem" where
  "mem_write m a bs = (\<lambda>x. if unat (x - a) < length bs then bs ! unat (x - a) else m x)"

lemma length_mem_read [simp]: "length (mem_read m a n) = n"
  by (simp add: mem_read_def)

lemma mem_read_nth [simp]: "i < n \<Longrightarrow> mem_read m a n ! i = m (a + of_nat i)"
  by (simp add: mem_read_def)

lemma unat_of_nat_u64: "n < 2 ^ 64 \<Longrightarrow> unat (of_nat n :: u64) = n"
  by (simp add: unat_of_nat take_bit_nat_eq_self)

lemma mem_write_at:
  "i < length bs \<Longrightarrow> i < 2 ^ 64 \<Longrightarrow> mem_write m a bs (a + of_nat i) = bs ! i"
  by (simp add: mem_write_def unat_of_nat_u64)

lemma mem_read_write_same:
  assumes "length bs \<le> 2 ^ 64"
  shows "mem_read (mem_write m a bs) a (length bs) = bs"
  by (rule nth_equalityI) (use assms in \<open>auto simp: mem_write_at\<close>)

lemma mem_write_Nil [simp]: "mem_write m a [] = m"
  by (simp add: mem_write_def)

lemma mem_read_cong: "(\<And>i. i < n \<Longrightarrow> m' (a + of_nat i) = m (a + of_nat i)) \<Longrightarrow> mem_read m' a n = mem_read m a n"
  by (simp add: mem_read_def)

lemma unat_neg_u64:
  fixes x :: u64
  assumes "x \<noteq> 0"
  shows "unat (- x) = 2 ^ 64 - unat x"
proof -
  have "(of_nat (2 ^ 64 - unat x) :: u64) = - x"
    using unat_less_2p [of x] by (simp add: of_nat_diff)
  moreover have "2 ^ 64 - unat x < 2 ^ 64"
    using assms by (simp add: unat_gt_0)
  ultimately show ?thesis by (metis unat_of_nat_u64)
qed

text \<open>Two ranges given by their distance from a common base.\<close>

lemma unat_sub_of_nat:
  assumes "o1 < 2 ^ 64" "x < 2 ^ 64"
  shows "unat (of_nat x - of_nat o1 :: u64) = (if o1 \<le> x then x - o1 else 2 ^ 64 - (o1 - x))"
proof (cases "o1 \<le> x")
  case True
  then have "(of_nat x - of_nat o1 :: u64) = of_nat (x - o1)" by simp
  moreover have "unat (of_nat (x - o1) :: u64) = x - o1"
    using assms by (intro unat_of_nat_u64) simp
  ultimately show ?thesis using True by metis
next
  case False
  then have "(of_nat x - of_nat o1 :: u64) = - of_nat (o1 - x)" by simp
  moreover have "unat (of_nat (o1 - x) :: u64) = o1 - x"
    using assms by (intro unat_of_nat_u64) simp
  moreover from this have "(of_nat (o1 - x) :: u64) \<noteq> 0" using False by (metis diff_is_0_eq unat_0)
  ultimately show ?thesis using False unat_neg_u64 by metis
qed

lemma mem_write_other:
  assumes "o1 + length bs \<le> 2 ^ 64" "o2 + n \<le> 2 ^ 64"
    and "o2 + n \<le> o1 \<or> o1 + length bs \<le> o2"
  shows "mem_read (mem_write m (b + of_nat o1) bs) (b + of_nat o2) n = mem_read m (b + of_nat o2) n"
proof (rule mem_read_cong)
  fix i assume i: "i < n"
  show "mem_write m (b + of_nat o1) bs (b + of_nat o2 + of_nat i) = m (b + of_nat o2 + of_nat i)"
  proof (cases "bs = []")
    case False
    then have o1: "o1 < 2 ^ 64" using assms(1) by (cases bs) auto
    have "b + of_nat o2 + of_nat i - (b + of_nat o1) = (of_nat (o2 + i) - of_nat o1 :: u64)" by simp
    moreover have "\<not> unat (of_nat (o2 + i) - of_nat o1 :: u64) < length bs"
      using assms i o1 by (subst unat_sub_of_nat) auto
    ultimately show ?thesis unfolding mem_write_def by (simp only: if_False)
  qed simp
qed

section \<open>Memory functions\<close>

primrec memcpy :: "mem \<Rightarrow> u64 \<Rightarrow> u64 \<Rightarrow> nat \<Rightarrow> mem" where
  "memcpy m d s 0 = m"
| "memcpy m d s (Suc len) = memcpy (m(d := m s)) (d + 1) (s + 1) len"

primrec memmove_back :: "mem \<Rightarrow> u64 \<Rightarrow> u64 \<Rightarrow> nat \<Rightarrow> mem" where
  "memmove_back m d s 0 = m"
| "memmove_back m d s (Suc n) = memmove_back (m(d - 1 := m (s - 1))) (d - 1) (s - 1) n"

definition memmove :: "mem \<Rightarrow> u64 \<Rightarrow> u64 \<Rightarrow> nat \<Rightarrow> mem" where
  "memmove m dst src len =
     (if len \<le> unat (dst - src) then memcpy m dst src len
      else memmove_back m (dst + of_nat len) (src + of_nat len) len)"

primrec memset :: "mem \<Rightarrow> u64 \<Rightarrow> u8 \<Rightarrow> nat \<Rightarrow> mem" where
  "memset m ptr val 0 = m"
| "memset m ptr val (Suc count) = memset (m(ptr := val)) (ptr + 1) val count"

primrec memchr :: "mem \<Rightarrow> u64 \<Rightarrow> u8 \<Rightarrow> nat \<Rightarrow> u64 option" where
  "memchr m s c 0 = None"
| "memchr m s c (Suc len) = (if m s = c then Some s else memchr m (s + 1) c len)"

primrec memcmp :: "mem \<Rightarrow> u64 \<Rightarrow> u64 \<Rightarrow> nat \<Rightarrow> int" where
  "memcmp m s d 0 = 0"
| "memcmp m s d (Suc len) =
     (if m s \<noteq> m d then uint (m s) - uint (m d) else memcmp m (s + 1) (d + 1) len)"

section \<open>String functions\<close>

partial_function (option) strlen_from :: "mem \<Rightarrow> u64 \<Rightarrow> u64 \<Rightarrow> u64 option" where
  "strlen_from m s cursor = (if m cursor = 0 then Some (cursor - s) else strlen_from m s (cursor + 1))"

definition strlen :: "mem \<Rightarrow> u64 \<Rightarrow> u64 option" where
  "strlen m s = strlen_from m s s"

primrec strnlen_from :: "mem \<Rightarrow> u64 \<Rightarrow> nat \<Rightarrow> nat \<Rightarrow> nat" where
  "strnlen_from m s len 0 = len"
| "strnlen_from m s len (Suc left) =
     (if m s = 0 then len else strnlen_from m (s + 1) (len + 1) left)"

definition strnlen :: "mem \<Rightarrow> u64 \<Rightarrow> nat \<Rightarrow> nat" where
  "strnlen m s maxlen = strnlen_from m s 0 maxlen"

partial_function (option) strcmp :: "mem \<Rightarrow> u64 \<Rightarrow> u64 \<Rightarrow> int option" where
  "strcmp m s1 s2 =
     (if m s1 = m s2 then (if m s1 = 0 then Some 0 else strcmp m (s1 + 1) (s2 + 1))
      else Some (uint (m s1) - uint (m s2)))"

primrec strncmp :: "mem \<Rightarrow> u64 \<Rightarrow> u64 \<Rightarrow> nat \<Rightarrow> int" where
  "strncmp m s1 s2 0 = 0"
| "strncmp m s1 s2 (Suc n) =
     (if m s1 \<noteq> m s2 then uint (m s1) - uint (m s2)
      else if m s1 = 0 then 0 else strncmp m (s1 + 1) (s2 + 1) n)"

primrec strncpy :: "mem \<Rightarrow> u64 \<Rightarrow> u64 \<Rightarrow> nat \<Rightarrow> mem" where
  "strncpy m d s 0 = m"
| "strncpy m d s (Suc n) =
     (if m s = 0 then memset (m(d := 0)) (d + 1) 0 n
      else strncpy (m(d := m s)) (d + 1) (s + 1) n)"

text \<open>
  \<open>strlcpy\<close>: the copying loop (it ends with \<open>nleft\<close> left, 0 when the room is used up before a
  terminator was copied), then the loop that runs to the end of the source.
\<close>

primrec strlcpy_copy :: "mem \<Rightarrow> u64 \<Rightarrow> u64 \<Rightarrow> nat \<Rightarrow> nat \<times> mem \<times> u64 \<times> u64" where
  "strlcpy_copy m dst src 0 = (0, m, dst, src)"
| "strlcpy_copy m dst src (Suc n) =
     (if m src = 0 then (Suc n, m(dst := 0), dst + 1, src + 1)
      else strlcpy_copy (m(dst := m src)) (dst + 1) (src + 1) n)"

partial_function (option) strlcpy_skip :: "mem \<Rightarrow> u64 \<Rightarrow> u64 option" where
  "strlcpy_skip m src = (if m src = 0 then Some (src + 1) else strlcpy_skip m (src + 1))"

definition strlcpy :: "mem \<Rightarrow> u64 \<Rightarrow> u64 \<Rightarrow> nat \<Rightarrow> (u64 \<times> mem) option" where
  "strlcpy m dst osrc dsize =
     (let (nleft, m, dst, src) = (if dsize \<noteq> 0 then strlcpy_copy m dst osrc (dsize - 1) else (0, m, dst, osrc))
      in if nleft = 0
         then let m = (if dsize \<noteq> 0 then m(dst := 0) else m)
              in (case strlcpy_skip m src of None \<Rightarrow> None | Some src \<Rightarrow> Some (src - osrc - 1, m))
         else Some (src - osrc - 1, m))"

partial_function (option) strchr :: "mem \<Rightarrow> u64 \<Rightarrow> u8 \<Rightarrow> u64 option option" where
  "strchr m p c =
     (if m p = c then Some (Some p) else if m p = 0 then Some None else strchr m (p + 1) c)"

partial_function (option) strrchr_from :: "mem \<Rightarrow> u64 \<Rightarrow> u8 \<Rightarrow> u64 option \<Rightarrow> u64 option option" where
  "strrchr_from m p c save =
     (let save = (if m p = c then Some p else save)
      in if m p = 0 then Some save else strrchr_from m (p + 1) c save)"

definition strrchr :: "mem \<Rightarrow> u64 \<Rightarrow> u8 \<Rightarrow> u64 option option" where
  "strrchr m p c = strrchr_from m p c None"

section \<open>Copying\<close>

lemma unat_pred: "(y :: 'a::len word) \<noteq> 0 \<Longrightarrow> unat (y - 1) = unat y - 1"
  by (simp add: unat_minus_one)

lemma unat_max_u64: "unat (- 1 :: u64) = 2 ^ 64 - 1"
  by (simp add: unsigned_minus_1_eq_mask mask_eq_exp_minus_1)

lemma memcpy_at:
  assumes "len \<le> unat (d - s)" "len < 2 ^ 64"
  shows "memcpy m d s len x = (if unat (x - d) < len then m (s + (x - d)) else m x)"
  using assms
proof (induction len arbitrary: m d s)
  case (Suc n)
  let ?m = "m(d := m s)"
  have "memcpy m d s (Suc n) x
      = (if unat (x - d - 1) < n then ?m (s + (x - d)) else ?m x)"
    using Suc.prems by (subst memcpy.simps, subst Suc.IH) (auto simp: algebra_simps)
  also have "\<dots> = (if unat (x - d) < Suc n then m (s + (x - d)) else m x)"
  proof (cases "x = d")
    case True
    then show ?thesis using Suc.prems unat_max_u64 by simp
  next
    case False
    then have u: "unat (x - d - 1) = unat (x - d) - 1" "x - d \<noteq> 0" by (simp_all add: unat_pred)
    then have z: "unat (x - d) \<noteq> 0" by (simp add: unat_eq_zero)
    have "s + (x - d) \<noteq> d" if "unat (x - d) < Suc n"
    proof
      assume "s + (x - d) = d"
      then have "x - d = d - s" by (simp add: algebra_simps)
      with that Suc.prems show False by simp
    qed
    then show ?thesis using u z False by auto
  qed
  finally show ?case .
qed simp

lemma memmove_back_at:
  assumes "s = d \<or> n \<le> unat (s - d)" "n < 2 ^ 64"
  shows "memmove_back m d s n x = (if unat (d - 1 - x) < n then m (s - (d - x)) else m x)"
  using assms
proof (induction n arbitrary: m d s)
  case (Suc n)
  let ?m = "m(d - 1 := m (s - 1))"
  have "memmove_back m d s (Suc n) x
      = (if unat (d - 1 - x - 1) < n then ?m (s - (d - x)) else ?m x)"
    using Suc.prems by (subst memmove_back.simps, subst Suc.IH) (auto simp: algebra_simps)
  also have "\<dots> = (if unat (d - 1 - x) < Suc n then m (s - (d - x)) else m x)"
  proof (cases "x = d - 1")
    case True
    then show ?thesis using Suc.prems unat_max_u64 by simp
  next
    case False
    then have "d - 1 - x \<noteq> 0" by auto
    then have u: "unat (d - 1 - x - 1) = unat (d - 1 - x) - 1" "unat (d - 1 - x) \<noteq> 0"
      using unat_pred by (blast, simp add: unat_eq_zero)
    have "s - (d - x) \<noteq> d - 1" if l: "unat (d - 1 - x) < Suc n"
    proof
      assume "s - (d - x) = d - 1"
      then have "s - d = d - 1 - x" by (simp add: algebra_simps)
      with l u(2) Suc.prems(1) show False by auto
    qed
    then show ?thesis using u False by auto
  qed
  finally show ?case .
qed simp

lemma range_flip:
  assumes "0 < len" "len < 2 ^ 64"
  shows "unat (of_nat len - 1 - y :: u64) < len \<longleftrightarrow> unat y < len"
proof -
  have "(of_nat len - 1 - y :: u64) = of_nat (len - 1) - of_nat (unat y)"
    using assms(1) by (simp add: of_nat_diff Suc_leI)
  moreover have "unat (of_nat (len - 1) - of_nat (unat y) :: u64)
      = (if unat y \<le> len - 1 then len - 1 - unat y else 2 ^ 64 - (unat y - (len - 1)))"
    using assms unat_less_2p [of y] by (intro unat_sub_of_nat) auto
  ultimately show ?thesis using assms unat_less_2p [of y] by auto
qed

lemma mem_write_read_at:
  assumes "len < 2 ^ 64"
  shows "mem_write m d (mem_read m' s len) x = (if unat (x - d) < len then m' (s + (x - d)) else m x)"
  by (simp add: mem_write_def)

lemma memcpy_eq:
  assumes "len \<le> unat (d - s)" "len < 2 ^ 64"
  shows "memcpy m d s len = mem_write m d (mem_read m s len)"
  using memcpy_at [OF assms] mem_write_read_at [OF assms(2)] by (intro ext) simp

text \<open>C14: \<open>memmove\<close> copies the source bytes as they were before the call to the destination,
  whether or not the two ranges overlap and in whichever direction, and changes no other byte,
  for any length up to half the address space.\<close>

theorem memmove_correct:
  assumes "len \<le> 2 ^ 63"
  shows "memmove m dst src len = mem_write m dst (mem_read m src len)"
proof (cases "len \<le> unat (dst - src)")
  case True
  then show ?thesis using assms by (simp add: memmove_def memcpy_eq)
next
  case False
  have l: "0 < len" "len < 2 ^ 64" using False assms by auto
  have ov: "src = dst \<or> len \<le> unat (src - dst)"
  proof (cases "src = dst")
    case False
    then have "unat (src - dst) = 2 ^ 64 - unat (dst - src)"
      using unat_neg_u64 [of "dst - src"] by simp
    then have "len \<le> unat (src - dst)"
      using \<open>\<not> len \<le> unat (dst - src)\<close> assms by simp
    then show ?thesis ..
  qed simp
  show ?thesis
  proof
    fix x
    have e: "dst + of_nat len - 1 - x = of_nat len - 1 - (x - dst)"
      "src + of_nat len - (dst + of_nat len - x) = src + (x - dst)"
      by (simp_all add: algebra_simps)
    have "memmove m dst src len x =
        (if unat (dst + of_nat len - 1 - x) < len then m (src + of_nat len - (dst + of_nat len - x)) else m x)"
      using False ov l by (simp add: memmove_def memmove_back_at)
    then show "memmove m dst src len x = mem_write m dst (mem_read m src len) x"
      unfolding e range_flip [OF l] mem_write_read_at [OF l(2)] .
  qed
qed

theorem memmove_correct_witness:
  "map (memmove (\<lambda>a. ucast a) 102 100 4) [101, 102, 103, 104, 105, 106] = [101, 100, 101, 102, 103, 106]"
proof -
  have "memmove (\<lambda>a. ucast a) 102 100 4 = mem_write (\<lambda>a. ucast a) 102 (mem_read (\<lambda>a. ucast a) 100 4)"
    by (rule memmove_correct) simp
  then show ?thesis by (simp add: mem_write_def unat_max_u64)
qed

lemma memset_at:
  assumes "count < 2 ^ 64"
  shows "memset m ptr v count x = (if unat (x - ptr) < count then v else m x)"
  using assms
proof (induction count arbitrary: m ptr)
  case (Suc n)
  have "memset m ptr v (Suc n) x = (if unat (x - ptr - 1) < n then v else (m(ptr := v)) x)"
    using Suc.prems by (subst memset.simps, subst Suc.IH) (auto simp: algebra_simps)
  then show ?case
  proof (cases "x = ptr")
    case False
    then have "unat (x - ptr - 1) = unat (x - ptr) - 1" "unat (x - ptr) \<noteq> 0"
      by (simp_all add: unat_pred unat_eq_zero)
    then show ?thesis using \<open>memset m ptr v (Suc n) x = _\<close> False by auto
  qed (use Suc.prems unat_max_u64 in simp)
qed simp

section \<open>Strings\<close>

text \<open>The bytes \<open>bs\<close>, followed by a terminator, lie at address \<open>a\<close>.\<close>

definition cstr :: "mem \<Rightarrow> u64 \<Rightarrow> u8 list \<Rightarrow> bool" where
  "cstr m a bs \<longleftrightarrow> length bs < 2 ^ 64 \<and> 0 \<notin> set bs
     \<and> mem_read m a (length bs) = bs \<and> m (a + of_nat (length bs)) = 0"

lemma cstr_Nil [simp]: "cstr m a [] \<longleftrightarrow> m a = 0"
  by (simp add: cstr_def mem_read_def)

lemma mem_read_Suc: "mem_read m a (Suc n) = m a # mem_read m (a + 1) n"
  unfolding mem_read_def upt_conv_Cons [OF zero_less_Suc]
  by (simp add: map_Suc_upt [symmetric] add.assoc del: upt_Suc)

lemma cstr_Cons:
  "cstr m a (b # bs) \<longleftrightarrow> length bs < 2 ^ 64 - 1 \<and> m a = b \<and> b \<noteq> 0 \<and> cstr m (a + 1) bs"
  by (auto simp: cstr_def mem_read_Suc algebra_simps)

lemma strlen_from_cstr: "cstr m c bs \<Longrightarrow> strlen_from m s c = Some (c + of_nat (length bs) - s)"
  by (induction bs arbitrary: c)
    (subst strlen_from.simps, simp add: cstr_Cons algebra_simps)+

lemma strlen_cstr: "cstr m s bs \<Longrightarrow> strlen m s = Some (of_nat (length bs))"
  by (simp add: strlen_def strlen_from_cstr)

lemma strlcpy_skip_cstr: "cstr m s bs \<Longrightarrow> strlcpy_skip m s = Some (s + of_nat (length bs) + 1)"
  by (induction bs arbitrary: s)
    (subst strlcpy_skip.simps, simp add: cstr_Cons algebra_simps)+

lemma strnlen_from_cstr: "cstr m s bs \<Longrightarrow> strnlen_from m s l n = l + min (length bs) n"
proof (induction n arbitrary: s l bs)
  case (Suc n)
  then show ?case by (cases bs) (auto simp: cstr_Cons)
qed simp

lemma strncmp_zero_iff:
  assumes "cstr m s1 bs" "cstr m s2 cs"
  shows "strncmp m s1 s2 n = 0 \<longleftrightarrow> take n bs = take n cs"
  using assms
proof (induction n arbitrary: s1 s2 bs cs)
  case (Suc n)
  then show ?case
    by (cases bs; cases cs) (auto simp: cstr_Cons uint_0_iff word_uint_eq_iff [symmetric])
qed simp

lemma strcmp_zero_iff:
  assumes "cstr m s1 bs" "cstr m s2 cs"
  shows "\<exists>r. strcmp m s1 s2 = Some r \<and> (r = 0 \<longleftrightarrow> bs = cs)"
  using assms
proof (induction bs arbitrary: s1 s2 cs)
  case Nil
  then show ?case by (subst strcmp.simps) (cases cs, auto simp: cstr_Cons uint_0_iff)
next
  case (Cons b bs)
  show ?case
  proof (cases cs)
    case Nil
    then show ?thesis using Cons.prems by (subst strcmp.simps) (auto simp: cstr_Cons uint_0_iff)
  next
    case (Cons c cs')
    then show ?thesis
      using Cons.prems Cons.IH [of "s1 + 1" "s2 + 1" cs'] by (subst strcmp.simps) (auto simp: cstr_Cons word_uint_eq_iff [symmetric])
  qed
qed

lemma strchr_first:
  assumes "cstr m p bs" "c \<noteq> 0"
  shows "strchr m p c = Some (if c \<in> set bs then Some (p + of_nat (length (takeWhile (\<lambda>b. b \<noteq> c) bs))) else None)"
  using assms(1)
proof (induction bs arbitrary: p)
  case Nil
  then show ?case using assms(2) by (subst strchr.simps) simp
next
  case (Cons b bs)
  then show ?case by (subst strchr.simps) (auto simp: cstr_Cons algebra_simps)
qed

section \<open>Bounded copy\<close>

lemma mem_write_Cons:
  assumes "length bs < 2 ^ 64 - 1"
  shows "mem_write (m(d := b)) (d + 1) bs = mem_write m d (b # bs)"
proof
  fix x
  show "mem_write (m(d := b)) (d + 1) bs x = mem_write m d (b # bs) x"
  proof (cases "x = d")
    case True
    then show ?thesis using assms unat_max_u64 by (simp add: mem_write_def)
  next
    case False
    then have "unat (x - (d + 1)) = unat (x - d) - 1" "unat (x - d) \<noteq> 0"
      using unat_pred [of "x - d"] by (simp_all add: unat_eq_zero algebra_simps)
    then show ?thesis using False by (cases "unat (x - d)") (auto simp: mem_write_def)
  qed
qed

lemma mem_write_snoc:
  assumes "length bs < 2 ^ 64"
  shows "(mem_write m d bs)(d + of_nat (length bs) := v) = mem_write m d (bs @ [v])"
proof
  fix x
  have u: "unat (of_nat (length bs) :: u64) = length bs" using assms by (rule unat_of_nat_u64)
  have "x = d + of_nat (length bs) \<longleftrightarrow> unat (x - d) = length bs"
    using u by (metis add.commute diff_add_cancel add_diff_cancel_left' word_unat_eq_iff)
  then show "((mem_write m d bs)(d + of_nat (length bs) := v)) x = mem_write m d (bs @ [v]) x"
    by (auto simp: mem_write_def nth_append)
qed

lemma cstr_cong:
  assumes "\<And>i. i \<le> length bs \<Longrightarrow> m' (a + of_nat i) = m (a + of_nat i)"
  shows "cstr m' a bs = cstr m a bs"
  using assms mem_read_cong [of "length bs" m' a m] by (simp add: cstr_def)

lemma cstr_drop:
  assumes "cstr m a bs" "n \<le> length bs"
  shows "cstr m (a + of_nat n) (drop n bs)"
  using assms
proof (induction n arbitrary: a bs)
  case (Suc n)
  then obtain b bs' where "bs = b # bs'" by (cases bs) auto
  then show ?case using Suc.IH [of "a + 1" bs'] Suc.prems by (simp add: cstr_Cons algebra_simps)
qed simp

lemma mem_write_outside:
  "length bs \<le> unat (x - d) \<Longrightarrow> mem_write m d bs x = m x"
  by (simp add: mem_write_def)

text \<open>No byte of the source, terminator included, lies in the \<open>n + 1\<close> bytes at \<open>d\<close>.\<close>

definition apart :: "nat \<Rightarrow> u64 \<Rightarrow> u64 \<Rightarrow> nat \<Rightarrow> bool" where
  "apart n d s l \<longleftrightarrow> (\<forall>i \<le> l. n < unat (s + of_nat i - d))"

lemma apart_Suc: "apart (Suc n) d s (Suc l) \<Longrightarrow> apart n (d + 1) (s + 1) l"
proof -
  assume a: "apart (Suc n) d s (Suc l)"
  have "n < unat (s + 1 + of_nat i - (d + 1))" if "i \<le> l" for i
  proof -
    have "Suc n < unat (s + of_nat i - d)" using a that by (simp add: apart_def)
    moreover have "s + 1 + of_nat i - (d + 1) = s + of_nat i - d" by simp
    ultimately show ?thesis by (metis Suc_lessD)
  qed
  then show ?thesis by (simp add: apart_def)
qed

lemma apart_neq: "apart n d s l \<Longrightarrow> i \<le> l \<Longrightarrow> s + of_nat i \<noteq> d"
  unfolding apart_def by (metis diff_self less_zeroE unat_0)

lemma strlcpy_copy_eq:
  assumes "cstr m s bs" "apart n d s (length bs)" "n < 2 ^ 64 - 1"
  shows "strlcpy_copy m d s n =
    (if length bs < n
     then (n - length bs, mem_write m d (bs @ [0]), d + of_nat (length bs) + 1, s + of_nat (length bs) + 1)
     else (0, mem_write m d (take n bs), d + of_nat n, s + of_nat n))"
  using assms
proof (induction n arbitrary: m d s bs)
  case (Suc n)
  show ?case
  proof (cases bs)
    case Nil
    then show ?thesis using Suc.prems mem_write_snoc [of "[]" m d 0] by simp
  next
    case (Cons b bs')
    let ?m = "m(d := b)"
    have c: "m s = b" "b \<noteq> 0" "cstr m (s + 1) bs'" using Suc.prems(1) Cons by (simp_all add: cstr_Cons)
    have "cstr ?m (s + 1) bs'"
    proof (subst cstr_cong [of bs' ?m "s + 1" m])
      fix i assume "i \<le> length bs'"
      then have "s + of_nat (Suc i) \<noteq> d"
        using Suc.prems(2) Cons by (intro apart_neq [of "Suc n" d s "Suc (length bs')"]) auto
      then show "?m (s + 1 + of_nat i) = m (s + 1 + of_nat i)" by (simp add: algebra_simps)
    qed (rule c(3))
    moreover have "apart n (d + 1) (s + 1) (length bs')"
      using Suc.prems(2) Cons by (intro apart_Suc) simp
    ultimately have IH: "strlcpy_copy ?m (d + 1) (s + 1) n =
      (if length bs' < n
       then (n - length bs', mem_write ?m (d + 1) (bs' @ [0]), d + 1 + of_nat (length bs') + 1,
             s + 1 + of_nat (length bs') + 1)
       else (0, mem_write ?m (d + 1) (take n bs'), d + 1 + of_nat n, s + 1 + of_nat n))"
      by (rule Suc.IH) (use Suc.prems(3) in simp)
    have w: "length xs \<le> n \<Longrightarrow> mem_write ?m (d + 1) xs = mem_write m d (b # xs)" for xs
      using Suc.prems(3) by (intro mem_write_Cons) simp
    show ?thesis
      using IH w [of "bs' @ [0]"] w [of "take n bs'"] c Cons by (simp add: algebra_simps)
  qed
qed simp

text \<open>C15: \<open>strlcpy\<close> with room for at least one byte always returns, copies as many bytes of
  the source string as fit before the terminator it always writes, changes nothing else, and
  returns the length of the whole source string, provided the destination does not overlap
  the source.\<close>

theorem strlcpy_correct:
  assumes "cstr m src bs" and "0 < dsize" and "dsize < 2 ^ 64" and "apart (dsize - 1) dst src (length bs)"
  shows "strlcpy m dst src dsize =
    Some (of_nat (length bs), mem_write m dst (take (dsize - 1) bs @ [0]))"
proof -
  let ?n = "dsize - 1"
  have n: "?n < 2 ^ 64 - 1" using assms by linarith
  have l: "length bs < 2 ^ 64" using assms(1) by (simp add: cstr_def)
  note cp = strlcpy_copy_eq [OF assms(1,4) n]
  show ?thesis
  proof (cases "length bs < ?n")
    case True
    then have "\<not> dsize \<le> Suc (length bs)" by simp
    then show ?thesis using cp True assms(2) by (simp add: strlcpy_def)
  next
    case False
    let ?m = "mem_write m dst (take ?n bs @ [0])"
    have lt: "length (take ?n bs) = ?n" using False by simp
    have m: "(mem_write m dst (take ?n bs))(dst + of_nat ?n := 0) = ?m"
      using mem_write_snoc [of "take ?n bs" m dst 0] n lt by simp
    have "cstr ?m src bs"
    proof (subst cstr_cong [of bs ?m src m])
      fix i assume "i \<le> length bs"
      then have "?n < unat (src + of_nat i - dst)" using assms(4) by (simp add: apart_def)
      then show "?m (src + of_nat i) = m (src + of_nat i)"
        using lt by (intro mem_write_outside) simp
    qed (rule assms(1))
    then have "strlcpy_skip ?m (src + of_nat ?n) = Some (src + of_nat ?n + of_nat (length bs - ?n) + 1)"
      using strlcpy_skip_cstr [OF cstr_drop [of ?m src bs ?n]] False by simp
    also have "src + of_nat ?n + of_nat (length bs - ?n) + 1 = src + of_nat (length bs) + 1"
    proof -
      have "?n + (length bs - ?n) = length bs" using False by simp
      then have "of_nat ?n + of_nat (length bs - ?n) = (of_nat (length bs) :: u64)"
        unfolding of_nat_add [symmetric] by (rule arg_cong)
      then show ?thesis unfolding add.assoc [of src] by (rule arg_cong)
    qed
    finally show ?thesis
      using cp False assms(2) m by (simp add: strlcpy_def Let_def)
  qed
qed

theorem strlcpy_correct_witness:
  "strlcpy (\<lambda>a. if a < 105 then 65 else 0) 200 100 4
     = Some (5, mem_write (\<lambda>a. if a < 105 then 65 else 0) 200 [65, 65, 65, 0])"
proof -
  let ?m = "\<lambda>a :: u64. if a < 105 then 65 else 0 :: u8"
  let ?bs = "[65, 65, 65, 65, 65] :: u8 list"
  have c: "cstr ?m 100 ?bs" by (simp add: cstr_Cons)
  have "3 < unat (100 + of_nat i - 200 :: u64)" if "i \<le> 5" for i
  proof -
    have "(100 + of_nat i - 200 :: u64) = of_nat (100 + i) - of_nat 200" by simp
    also have "unat (of_nat (100 + i) - of_nat 200 :: u64) = 2 ^ 64 - (200 - (100 + i))"
      using that by (subst unat_sub_of_nat) auto
    finally show ?thesis using that by simp
  qed
  then have a: "apart (4 - 1) 200 100 (length ?bs)" by (simp add: apart_def)
  show ?thesis using strlcpy_correct [OF c _ _ a] by simp
qed

end
