(* ===== verification/Tftf_Io.thy ===== *)
theory Tftf_Io
  imports Tftf_Libc
begin

text \<open>
  Loading images from a firmware image package (FIP) in memory: the IO abstraction \<open>io_storage.c\<close> with its pool of entities, the drivers
  \<open>io_memmap.c\<close> and \<open>io_fip.c\<close>, the policies of \<open>arm_fwu_io_storage.c\<close> and the image loader \<open>image_loader.c\<close>. A pointer to a device
  or to an entity is its name, a pointer to the file state of a driver says of which driver; \<open>None\<close> is the null pointer.

  The drivers call the IO functions of the device below them through function pointers. The device below the FIP driver is
  what the platform names for the package, a block of memory. So the IO functions are defined for any table of driver
  functions, first with the functions that have nothing below them, and then with all; a package inside a package is
  \<open>Unreachable\<close>.
\<close>

section \<open>UUIDs and packages\<close>

type_synonym uuid = "u8 list"

definition is_uuid_null :: "uuid \<Rightarrow> bool" where
  "is_uuid_null u \<longleftrightarrow> u = replicate 16 0"

definition uuid_equal :: "uuid \<Rightarrow> uuid \<Rightarrow> bool" where
  "uuid_equal u v \<longleftrightarrow> u = v"

text \<open>Integers in memory, least significant byte first.\<close>

fun le_nat :: "u8 list \<Rightarrow> nat" where
  "le_nat [] = 0"
| "le_nat (b # bs) = unat b + 256 * le_nat bs"

definition make_uuid_from_4words :: "u32 \<Rightarrow> u32 \<Rightarrow> u32 \<Rightarrow> u32 \<Rightarrow> uuid" where
  "make_uuid_from_4words w0 w1 w2 w3 =
     concat (map (\<lambda>w. map (\<lambda>i. ucast (drop_bit (8 * i) w)) [0..<4]) [w0, w1, w2, w3])"

record fip_toc_header =
  toc_name :: u32
  serial_number :: u32
  toc_flags :: u64

record fip_toc_entry =
  fe_uuid :: uuid
  offset_address :: u64
  fe_size :: u64
  fe_flags :: u64

definition decode_header :: "u8 list \<Rightarrow> fip_toc_header" where
  "decode_header bs = \<lparr>toc_name = of_nat (le_nat (take 4 bs)), serial_number = of_nat (le_nat (take 4 (drop 4 bs))),
     toc_flags = of_nat (le_nat (take 8 (drop 8 bs)))\<rparr>"

definition decode_entry :: "u8 list \<Rightarrow> fip_toc_entry" where
  "decode_entry bs = \<lparr>fe_uuid = take 16 bs, offset_address = of_nat (le_nat (take 8 (drop 16 bs))),
     fe_size = of_nat (le_nat (take 8 (drop 24 bs))), fe_flags = of_nat (le_nat (take 8 (drop 32 bs)))\<rparr>"

abbreviation (input) TOC_HEADER_NAME :: u32 where "TOC_HEADER_NAME \<equiv> 0xAA640001"

abbreviation (input) NS_BL1U_IMAGE_ID :: nat where "NS_BL1U_IMAGE_ID \<equiv> 16"
abbreviation (input) FWU_CERT_ID :: nat where "FWU_CERT_ID \<equiv> 17"
abbreviation (input) SCP_BL2U_IMAGE_ID :: nat where "SCP_BL2U_IMAGE_ID \<equiv> 18"
abbreviation (input) BL2U_IMAGE_ID :: nat where "BL2U_IMAGE_ID \<equiv> 19"
abbreviation (input) NS_BL2U_IMAGE_ID :: nat where "NS_BL2U_IMAGE_ID \<equiv> 20"
abbreviation (input) FWU_FIP_IMAGE_ID :: nat where "FWU_FIP_IMAGE_ID \<equiv> 21"

text \<open>There is no comma between the last two names.\<close>

definition image_names :: "string list" where
  "image_names = [''Non-Trusted Updater Firmware (NS_BL1U)'', ''Trusted FWU Certificate'', ''SCP Firmware (SCP_BL2U)'',
     ''Trusted Updater Firmware (BL2U)'', ''Non-Trusted Updater Firmware (NS_BL2U)'' @ ''FWU Firmware Image Package'']"

definition get_image_name :: "nat \<Rightarrow> string res" where
  "get_image_name image_id =
     andthen (assert_c (NS_BL1U_IMAGE_ID \<le> image_id \<and> image_id \<le> FWU_FIP_IMAGE_ID)) (\<lambda>_.
     aget image_names (image_id - NS_BL1U_IMAGE_ID))"

section \<open>Devices, entities and the state\<close>

abbreviation (input) IO_SUCCESS :: int where "IO_SUCCESS \<equiv> 0"
abbreviation (input) IO_FAIL :: int where "IO_FAIL \<equiv> - 1"
abbreviation (input) IO_NOT_SUPPORTED :: int where "IO_NOT_SUPPORTED \<equiv> - 2"
abbreviation (input) IO_RESOURCES_EXHAUSTED :: int where "IO_RESOURCES_EXHAUSTED \<equiv> - 3"

datatype io_type = IO_TYPE_INVALID | IO_TYPE_FLASH | IO_TYPE_MEMMAP | IO_TYPE_FIRMWARE_IMAGE_PACKAGE | IO_TYPE_MAX
datatype io_seek_mode = IO_SEEK_INVALID | IO_SEEK_SET | IO_SEEK_END | IO_SEEK_CUR | IO_SEEK_MAX

text \<open>The devices, by their \<open>io_dev_info_t\<close>; what is opened on them; and the file states entities point to.\<close>

datatype dev = Memmap | Fip
datatype io_spec = BlockSpec u64 u64 | UuidSpec uuid
datatype file_ptr = MemmapFile | FipFile

record io_entity =
  dev_handle :: "dev option"
  ent_info :: "file_ptr option"

text \<open>The macros of the platform.\<close>

record io_plat =
  MAX_IO_HANDLES :: nat
  MAX_IO_DEVICES :: nat
  PLAT_ARM_FWU_FIP_BASE :: u64
  PLAT_ARM_FWU_FIP_SIZE :: u64

record io_state =
  ram :: mem
  entity_pool :: "io_entity list"
  entity_map :: "nat option list"
  entity_count :: nat
  devices :: "dev option list"
  dev_count :: nat
  mm_in_use :: bool
  mm_base :: u64
  mm_file_pos :: u64
  fip_file_pos :: u32
  fip_entry :: fip_toc_entry
  backend_dev_handle :: "dev option"
  backend_image_spec :: "io_spec option"
  fwu_fip_dev_con :: "dev option"
  fwu_fip_dev_handle :: "dev option"
  memmap_dev_con :: "dev option"
  memmap_dev_handle :: "dev option"
  partial_dev :: "dev option"
  partial_image :: "nat option"

definition io_reset_state :: "io_plat \<Rightarrow> mem \<Rightarrow> io_state" where
  "io_reset_state P m = \<lparr>ram = m, entity_pool = replicate (MAX_IO_HANDLES P) \<lparr>dev_handle = None, ent_info = None\<rparr>,
     entity_map = replicate (MAX_IO_HANDLES P) None, entity_count = 0, devices = replicate (MAX_IO_DEVICES P) None, dev_count = 0,
     mm_in_use = False, mm_base = 0, mm_file_pos = 0, fip_file_pos = 0,
     fip_entry = \<lparr>fe_uuid = replicate 16 0, offset_address = 0, fe_size = 0, fe_flags = 0\<rparr>,
     backend_dev_handle = None, backend_image_spec = None, fwu_fip_dev_con = None, fwu_fip_dev_handle = None,
     memmap_dev_con = None, memmap_dev_handle = None, partial_dev = None, partial_image = None\<rparr>"

section \<open>The pool of entities\<close>

definition find_first_entity :: "nat option \<Rightarrow> io_state \<Rightarrow> nat option" where
  "find_first_entity entity S = find (\<lambda>i. entity_map S ! i = entity) [0..<length (entity_map S)]"

definition allocate_entity :: "io_state \<Rightarrow> (int \<times> nat option \<times> io_state) res" where
  "allocate_entity S =
     (if entity_count S < length (entity_map S)
      then case find_first_entity None S of
             None \<Rightarrow> Inl AssertFail
           | Some i \<Rightarrow> Inr (IO_SUCCESS, Some i, S\<lparr>entity_map := (entity_map S)[i := Some i], entity_count := entity_count S + 1\<rparr>)
      else Inr (IO_RESOURCES_EXHAUSTED, None, S))"

definition free_entity :: "nat \<Rightarrow> io_state \<Rightarrow> int \<times> io_state" where
  "free_entity entity S =
     (case find_first_entity (Some entity) S of
        Some i \<Rightarrow> (IO_SUCCESS, S\<lparr>entity_map := (entity_map S)[i := None], entity_count := entity_count S - 1\<rparr>)
      | None \<Rightarrow> (IO_FAIL, S))"

definition io_register_device :: "dev \<Rightarrow> io_state \<Rightarrow> int \<times> io_state" where
  "io_register_device d S =
     (if dev_count S < length (devices S)
      then (IO_SUCCESS, S\<lparr>devices := (devices S)[dev_count S := Some d], dev_count := dev_count S + 1\<rparr>)
      else (IO_RESOURCES_EXHAUSTED, S))"

definition set_info :: "nat \<Rightarrow> file_ptr option \<Rightarrow> io_state \<Rightarrow> io_state res" where
  "set_info e p S =
     andthen (aget (entity_pool S) e) (\<lambda>ent. andthen (aput (entity_pool S) e (ent\<lparr>ent_info := p\<rparr>)) (\<lambda>es. Inr (S\<lparr>entity_pool := es\<rparr>)))"

definition set_dev :: "nat \<Rightarrow> dev \<Rightarrow> io_state \<Rightarrow> io_state res" where
  "set_dev e d S =
     andthen (aget (entity_pool S) e) (\<lambda>ent. andthen (aput (entity_pool S) e (ent\<lparr>dev_handle := Some d\<rparr>)) (\<lambda>es. Inr (S\<lparr>entity_pool := es\<rparr>)))"

text \<open>The validation functions: a device, an entity and its device, a seek mode.\<close>

definition type_of_dev :: "dev \<Rightarrow> io_type" where
  "type_of_dev d = (case d of Memmap \<Rightarrow> IO_TYPE_MEMMAP | Fip \<Rightarrow> IO_TYPE_FIRMWARE_IMAGE_PACKAGE)"

definition is_valid_dev :: "dev option \<Rightarrow> bool" where
  "is_valid_dev d \<longleftrightarrow> (case d of None \<Rightarrow> False | Some d \<Rightarrow> type_of_dev d \<noteq> IO_TYPE_MAX)"

definition valid_entity :: "nat option \<Rightarrow> io_state \<Rightarrow> (nat \<times> dev) res" where
  "valid_entity handle S =
     (case handle of
        None \<Rightarrow> Inl AssertFail
      | Some e \<Rightarrow> andthen (aget (entity_pool S) e) (\<lambda>ent.
                 case dev_handle ent of None \<Rightarrow> Inl AssertFail
                 | Some d \<Rightarrow> andthen (assert_c (is_valid_dev (Some d))) (\<lambda>_. Inr (e, d))))"

definition is_valid_seek_mode :: "io_seek_mode \<Rightarrow> bool" where
  "is_valid_seek_mode mode \<longleftrightarrow> mode \<noteq> IO_SEEK_INVALID \<and> mode \<noteq> IO_SEEK_MAX"

section \<open>The IO functions over a table of drivers\<close>

text \<open>The destination of a read: an address, or a variable of the caller, which gets the bytes.\<close>

datatype buf = Mem u64 | Local

type_synonym drv_open = "dev \<Rightarrow> io_spec \<Rightarrow> nat \<Rightarrow> io_state \<Rightarrow> (int \<times> io_state) res"
type_synonym drv_read = "dev \<Rightarrow> nat \<Rightarrow> buf \<Rightarrow> u64 \<Rightarrow> io_state \<Rightarrow> (int \<times> u64 option \<times> u8 list \<times> io_state) res"

definition io_open_by :: "drv_open \<Rightarrow> dev option \<Rightarrow> io_spec option \<Rightarrow> io_state \<Rightarrow> (int \<times> nat option \<times> io_state) res" where
  "io_open_by op d spec S =
     (case (spec, d) of
        (Some spec, Some d) \<Rightarrow>
          andthen (assert_c (is_valid_dev (Some d))) (\<lambda>_.
          andthen (allocate_entity S) (\<lambda>(result, entity, S).
          case entity of
            None \<Rightarrow> Inr (result, None, S)
          | Some e \<Rightarrow>
              andthen (op d spec e S) (\<lambda>(result, S).
              if result = IO_SUCCESS then andthen (set_dev e d S) (\<lambda>S. Inr (result, Some e, S))
              else Inr (result, None, snd (free_entity e S)))))
      | _ \<Rightarrow> Inl AssertFail)"

definition io_read_by :: "drv_read \<Rightarrow> nat option \<Rightarrow> buf \<Rightarrow> u64 \<Rightarrow> io_state \<Rightarrow> (int \<times> u64 option \<times> u8 list \<times> io_state) res" where
  "io_read_by rd handle buffer len S =
     andthen (valid_entity handle S) (\<lambda>(e, d).
     andthen (assert_c (buffer \<noteq> Mem 0)) (\<lambda>_. rd d e buffer len S))"

section \<open>The memory-mapped driver\<close>

text \<open>The file state an entity of the driver points to.\<close>

definition memmap_fp :: "nat \<Rightarrow> io_state \<Rightarrow> unit res" where
  "memmap_fp e S =
     andthen (aget (entity_pool S) e) (\<lambda>ent. if ent_info ent = Some MemmapFile then Inr () else Inl Undefined)"

definition memmap_block_open :: "io_spec \<Rightarrow> nat \<Rightarrow> io_state \<Rightarrow> (int \<times> io_state) res" where
  "memmap_block_open spec e S =
     (if \<not> mm_in_use S
      then case spec of
             BlockSpec off len \<Rightarrow>
               andthen (set_info e (Some MemmapFile) (S\<lparr>mm_in_use := True, mm_base := off, mm_file_pos := 0\<rparr>)) (\<lambda>S. Inr (IO_SUCCESS, S))
           | UuidSpec _ \<Rightarrow> Inl Undefined
      else Inr (IO_RESOURCES_EXHAUSTED, S))"

definition memmap_block_seek :: "nat \<Rightarrow> io_seek_mode \<Rightarrow> u64 \<Rightarrow> io_state \<Rightarrow> (int \<times> io_state) res" where
  "memmap_block_seek e mode offset S =
     (if mode = IO_SEEK_SET then andthen (memmap_fp e S) (\<lambda>_. Inr (IO_SUCCESS, S\<lparr>mm_file_pos := offset\<rparr>))
      else Inr (IO_FAIL, S))"

definition memmap_block_read :: "nat \<Rightarrow> buf \<Rightarrow> u64 \<Rightarrow> io_state \<Rightarrow> (int \<times> u64 option \<times> u8 list \<times> io_state) res" where
  "memmap_block_read e buffer len S =
     andthen (assert_c (buffer \<noteq> Mem 0)) (\<lambda>_.
     andthen (memmap_fp e S) (\<lambda>_.
     let src = mm_base S + mm_file_pos S;
         m = (case buffer of Mem d \<Rightarrow> memcpy (ram S) d src (unat len) | Local \<Rightarrow> ram S)
     in Inr (IO_SUCCESS, Some len, mem_read (ram S) src (unat len), S\<lparr>ram := m, mm_file_pos := mm_file_pos S + len\<rparr>)))"

definition memmap_block_write :: "nat \<Rightarrow> u64 \<Rightarrow> u64 \<Rightarrow> io_state \<Rightarrow> (int \<times> u64 option \<times> io_state) res" where
  "memmap_block_write e buffer len S =
     andthen (assert_c (buffer \<noteq> 0)) (\<lambda>_.
     andthen (memmap_fp e S) (\<lambda>_.
     Inr (IO_SUCCESS, Some len, S\<lparr>ram := memcpy (ram S) (mm_base S + mm_file_pos S) buffer (unat len), mm_file_pos := mm_file_pos S + len\<rparr>)))"

definition memmap_block_close :: "nat \<Rightarrow> io_state \<Rightarrow> (int \<times> io_state) res" where
  "memmap_block_close e S =
     andthen (set_info e None S) (\<lambda>S. Inr (IO_SUCCESS, S\<lparr>mm_in_use := False, mm_base := 0, mm_file_pos := 0\<rparr>))"

definition register_io_dev_memmap :: "io_state \<Rightarrow> int \<times> io_state" where
  "register_io_dev_memmap S =
     (let (result, S) = io_register_device Memmap S
      in (result, if result = IO_SUCCESS then S\<lparr>memmap_dev_con := Some Memmap\<rparr> else S))"

section \<open>The other IO functions\<close>

definition null_entry :: fip_toc_entry where
  "null_entry = \<lparr>fe_uuid = replicate 16 0, offset_address = 0, fe_size = 0, fe_flags = 0\<rparr>"

definition fip_file_len :: "nat \<Rightarrow> io_state \<Rightarrow> (int \<times> u64 option) res" where
  "fip_file_len e S =
     andthen (aget (entity_pool S) e) (\<lambda>ent.
     if ent_info ent = Some FipFile then Inr (IO_SUCCESS, Some (fe_size (fip_entry S))) else Inl Undefined)"

definition fip_file_close :: "nat \<Rightarrow> io_state \<Rightarrow> (int \<times> io_state) res" where
  "fip_file_close e S =
     andthen (set_info e None (if offset_address (fip_entry S) \<noteq> 0 then S\<lparr>fip_file_pos := 0, fip_entry := null_entry\<rparr> else S)) (\<lambda>S.
     Inr (IO_SUCCESS, S))"

definition fip_dev_close :: "io_state \<Rightarrow> int \<times> io_state" where
  "fip_dev_close S = (IO_SUCCESS, S\<lparr>backend_dev_handle := None, backend_image_spec := None\<rparr>)"

definition memmap_dev_close :: "io_state \<Rightarrow> int \<times> io_state" where
  "memmap_dev_close S = (IO_SUCCESS, S)"

definition io_seek :: "nat option \<Rightarrow> io_seek_mode \<Rightarrow> u64 \<Rightarrow> io_state \<Rightarrow> (int \<times> io_state) res" where
  "io_seek handle mode offset S =
     andthen (valid_entity handle S) (\<lambda>(e, d).
     andthen (assert_c (is_valid_seek_mode mode)) (\<lambda>_.
     case d of Memmap \<Rightarrow> memmap_block_seek e mode offset S | Fip \<Rightarrow> Inr (IO_NOT_SUPPORTED, S)))"

definition io_size :: "nat option \<Rightarrow> io_state \<Rightarrow> (int \<times> u64 option) res" where
  "io_size handle S =
     andthen (valid_entity handle S) (\<lambda>(e, d).
     case d of Memmap \<Rightarrow> Inr (IO_NOT_SUPPORTED, None) | Fip \<Rightarrow> fip_file_len e S)"

definition io_write :: "nat option \<Rightarrow> u64 \<Rightarrow> u64 \<Rightarrow> io_state \<Rightarrow> (int \<times> u64 option \<times> io_state) res" where
  "io_write handle buffer len S =
     andthen (valid_entity handle S) (\<lambda>(e, d).
     andthen (assert_c (buffer \<noteq> 0)) (\<lambda>_.
     case d of Memmap \<Rightarrow> memmap_block_write e buffer len S | Fip \<Rightarrow> Inr (IO_NOT_SUPPORTED, None, S)))"

definition io_close :: "nat option \<Rightarrow> io_state \<Rightarrow> (int \<times> io_state) res" where
  "io_close handle S =
     andthen (valid_entity handle S) (\<lambda>(e, d).
     andthen (case d of Memmap \<Rightarrow> memmap_block_close e S | Fip \<Rightarrow> fip_file_close e S) (\<lambda>(result, S).
     Inr (result, snd (free_entity e S))))"

definition io_dev_open :: "dev option \<Rightarrow> io_state \<Rightarrow> (int \<times> dev option \<times> io_state) res" where
  "io_dev_open con S = (case con of None \<Rightarrow> Inl AssertFail | Some d \<Rightarrow> Inr (IO_SUCCESS, Some d, S))"

definition io_dev_close :: "dev option \<Rightarrow> io_state \<Rightarrow> (int \<times> io_state) res" where
  "io_dev_close d S =
     andthen (assert_c (is_valid_dev d)) (\<lambda>_.
     Inr (case the d of Memmap \<Rightarrow> memmap_dev_close S | Fip \<Rightarrow> fip_dev_close S))"

section \<open>The package driver\<close>

definition backend_open :: drv_open where
  "backend_open d spec e S = (case d of Memmap \<Rightarrow> memmap_block_open spec e S | Fip \<Rightarrow> Inl Unreachable)"

definition backend_read :: drv_read where
  "backend_read d e buffer len S = (case d of Memmap \<Rightarrow> memmap_block_read e buffer len S | Fip \<Rightarrow> Inl Unreachable)"

definition is_valid_header :: "fip_toc_header \<Rightarrow> bool" where
  "is_valid_header h \<longleftrightarrow> toc_name h = TOC_HEADER_NAME \<and> serial_number h \<noteq> 0"

text \<open>The loop over the table of contents; a table without an end may keep it running for ever.\<close>

partial_function (option) find_toc_entry :: "uuid \<Rightarrow> nat option \<Rightarrow> io_state \<Rightarrow> (int \<times> bool \<times> io_state) res option" where
  "find_toc_entry uuid handle S =
     (case io_read_by backend_read handle Local 40 S of
        Inl f \<Rightarrow> Some (Inl f)
      | Inr (result, _, bs, S) \<Rightarrow>
          if result = IO_SUCCESS
          then let S = S\<lparr>fip_entry := decode_entry bs\<rparr>
               in if uuid_equal (fe_uuid (fip_entry S)) uuid then Some (Inr (IO_SUCCESS, True, S))
                  else if is_uuid_null (fe_uuid (fip_entry S)) then Some (Inr (IO_SUCCESS, False, S))
                  else find_toc_entry uuid handle S
          else Some (Inr (result, False, S)))"

definition fip_file_open :: "io_spec \<Rightarrow> nat \<Rightarrow> io_state \<Rightarrow> (int \<times> io_state) res" where
  "fip_file_open spec e S =
     (case spec of
        BlockSpec _ _ \<Rightarrow> Inl Undefined
      | UuidSpec uuid \<Rightarrow>
          if offset_address (fip_entry S) \<noteq> 0 then Inr (IO_RESOURCES_EXHAUSTED, S)
          else andthen (io_open_by backend_open (backend_dev_handle S) (backend_image_spec S) S) (\<lambda>(result, handle, S).
               if result \<noteq> IO_SUCCESS then Inr (IO_FAIL, S)
               else andthen (io_seek handle IO_SEEK_SET 16 S) (\<lambda>(result, S).
                    if result \<noteq> IO_SUCCESS then andthen (io_close handle S) (\<lambda>(_, S). Inr (IO_FAIL, S))
                    else case find_toc_entry uuid handle S of
                           None \<Rightarrow> Inl Hang
                         | Some r \<Rightarrow> andthen r (\<lambda>(result, found_file, S).
                             andthen (if result \<noteq> IO_SUCCESS then Inr (result, S)
                                      else if found_file
                                      then andthen (set_info e (Some FipFile) (S\<lparr>fip_file_pos := 0\<rparr>)) (\<lambda>S. Inr (result, S))
                                      else Inr (IO_FAIL, S\<lparr>fip_entry := (fip_entry S)\<lparr>offset_address := 0\<rparr>\<rparr>)) (\<lambda>(result, S).
                             andthen (io_close handle S) (\<lambda>(_, S). Inr (result, S)))))))"

definition fip_file_read :: "nat \<Rightarrow> buf \<Rightarrow> u64 \<Rightarrow> io_state \<Rightarrow> (int \<times> u64 option \<times> u8 list \<times> io_state) res" where
  "fip_file_read e buffer len S =
     andthen (assert_c (buffer \<noteq> Mem 0)) (\<lambda>_.
     andthen (aget (entity_pool S) e) (\<lambda>ent.
     andthen (assert_c (ent_info ent \<noteq> None)) (\<lambda>_.
     andthen (io_open_by backend_open (backend_dev_handle S) (backend_image_spec S) S) (\<lambda>(result, handle, S).
     if result \<noteq> IO_SUCCESS then Inr (IO_FAIL, None, [], S)
     else if ent_info ent \<noteq> Some FipFile then Inl Undefined
     else andthen (io_seek handle IO_SEEK_SET (offset_address (fip_entry S) + ucast (fip_file_pos S)) S) (\<lambda>(result, S).
          if result \<noteq> IO_SUCCESS then andthen (io_close handle S) (\<lambda>(_, S). Inr (IO_FAIL, None, [], S))
          else andthen (io_read_by backend_read handle buffer len S) (\<lambda>(result, n, bs, S).
               case n of
                 Some n \<Rightarrow>
                   if result = IO_SUCCESS
                   then andthen (io_close handle (S\<lparr>fip_file_pos := ucast (ucast (fip_file_pos S) + n :: u64)\<rparr>)) (\<lambda>(_, S). Inr (result, Some n, bs, S))
                   else andthen (io_close handle S) (\<lambda>(_, S). Inr (IO_FAIL, None, [], S))
               | None \<Rightarrow> andthen (io_close handle S) (\<lambda>(_, S). Inr (IO_FAIL, None, [], S))))))))"

definition register_io_dev_fip :: "io_state \<Rightarrow> int \<times> io_state" where
  "register_io_dev_fip S =
     (let (result, S) = io_register_device Fip S
      in (result, if result = IO_SUCCESS then S\<lparr>fwu_fip_dev_con := Some Fip\<rparr> else S))"

text \<open>All drivers.\<close>

definition driver_open :: drv_open where
  "driver_open d spec e S = (case d of Memmap \<Rightarrow> memmap_block_open spec e S | Fip \<Rightarrow> fip_file_open spec e S)"

definition driver_read :: drv_read where
  "driver_read d e buffer len S = (case d of Memmap \<Rightarrow> memmap_block_read e buffer len S | Fip \<Rightarrow> fip_file_read e buffer len S)"

definition io_open :: "dev option \<Rightarrow> io_spec option \<Rightarrow> io_state \<Rightarrow> (int \<times> nat option \<times> io_state) res" where
  "io_open = io_open_by driver_open"

definition io_read :: "nat option \<Rightarrow> buf \<Rightarrow> u64 \<Rightarrow> io_state \<Rightarrow> (int \<times> u64 option \<times> u8 list \<times> io_state) res" where
  "io_read = io_read_by driver_read"

section \<open>The policies of the platform\<close>

definition UUID_FIRMWARE_UPDATE_SCP_BL2U :: uuid where
  "UUID_FIRMWARE_UPDATE_SCP_BL2U = [0x65, 0x92, 0x27, 0x03, 0x2f, 0x74, 0xe6, 0x44, 0x8d, 0xff, 0x57, 0x9a, 0xc1, 0xff, 0x06, 0x10]"
definition UUID_FIRMWARE_UPDATE_BL2U :: uuid where
  "UUID_FIRMWARE_UPDATE_BL2U = [0x60, 0xb3, 0xeb, 0x37, 0xc1, 0xe5, 0xea, 0x41, 0x9d, 0xf3, 0x19, 0xed, 0xa1, 0x1f, 0x68, 0x01]"
definition UUID_FIRMWARE_UPDATE_NS_BL2U :: uuid where
  "UUID_FIRMWARE_UPDATE_NS_BL2U = [0x4f, 0x51, 0x1d, 0x11, 0x2b, 0xe5, 0x4e, 0x49, 0xb4, 0xc5, 0x83, 0xc2, 0xf7, 0x15, 0x84, 0x0a]"
definition UUID_FIRMWARE_UPDATE_FWU_CERT :: uuid where
  "UUID_FIRMWARE_UPDATE_FWU_CERT = [0x71, 0x40, 0x8a, 0xb2, 0x18, 0xd6, 0x87, 0x4c, 0x8b, 0x2e, 0xc6, 0xdc, 0xcd, 0x50, 0xf0, 0x96]"

datatype io_check = Check_fwu_fip | Check_memmap

record plat_io_policy =
  pol_dev :: dev
  pol_spec :: io_spec
  pol_check :: io_check

definition policies :: "io_plat \<Rightarrow> plat_io_policy option list" where
  "policies P = replicate 17 None @
     map (\<lambda>u. Some \<lparr>pol_dev = Fip, pol_spec = UuidSpec u, pol_check = Check_fwu_fip\<rparr>)
       [UUID_FIRMWARE_UPDATE_FWU_CERT, UUID_FIRMWARE_UPDATE_SCP_BL2U, UUID_FIRMWARE_UPDATE_BL2U, UUID_FIRMWARE_UPDATE_NS_BL2U] @
     [Some \<lparr>pol_dev = Memmap, pol_spec = BlockSpec (PLAT_ARM_FWU_FIP_BASE P) (PLAT_ARM_FWU_FIP_SIZE P), pol_check = Check_memmap\<rparr>]"

text \<open>The handle variable a policy points to.\<close>

definition policy_handle :: "dev \<Rightarrow> io_state \<Rightarrow> dev option" where
  "policy_handle d S = (case d of Fip \<Rightarrow> fwu_fip_dev_handle S | Memmap \<Rightarrow> memmap_dev_handle S)"

definition open_memmap :: "io_spec \<Rightarrow> io_state \<Rightarrow> (int \<times> io_state) res" where
  "open_memmap spec S =
     andthen (assert_c (is_valid_dev (memmap_dev_handle S))) (\<lambda>_.
     andthen (case the (memmap_dev_handle S) of Memmap \<Rightarrow> Inr () | Fip \<Rightarrow> Inl Unreachable) (\<lambda>_.
     andthen (io_open_by backend_open (memmap_dev_handle S) (Some spec) S) (\<lambda>(result, handle, S).
     if result = IO_SUCCESS then andthen (io_close handle S) (\<lambda>(_, S). Inr (result, S)) else Inr (result, S))))"

text \<open>\<open>plat_get_image_source\<close> with the given check of packages.\<close>

definition image_source_by :: "io_plat \<Rightarrow> (io_spec \<Rightarrow> io_state \<Rightarrow> (int \<times> io_state) res) \<Rightarrow> nat \<Rightarrow> io_state
    \<Rightarrow> (int \<times> (dev option \<times> io_spec) option \<times> io_state) res" where
  "image_source_by P check_fip image_id S =
     andthen (assert_c (image_id < length (policies P))) (\<lambda>_.
     case policies P ! image_id of
       None \<Rightarrow> Inr (IO_FAIL, None, S)
     | Some p \<Rightarrow>
         andthen (case pol_check p of Check_fwu_fip \<Rightarrow> check_fip (pol_spec p) S | Check_memmap \<Rightarrow> open_memmap (pol_spec p) S) (\<lambda>(result, S).
         if result = IO_SUCCESS then Inr (result, Some (policy_handle (pol_dev p) S, pol_spec p), S) else Inr (result, None, S)))"

definition fip_dev_init :: "io_plat \<Rightarrow> nat \<Rightarrow> io_state \<Rightarrow> (int \<times> io_state) res" where
  "fip_dev_init P image_id S =
     andthen (image_source_by P (\<lambda>_ _. Inl Unreachable) image_id S) (\<lambda>(result, src, S).
     case src of
       None \<Rightarrow> Inr (IO_FAIL, S)
     | Some (d, spec) \<Rightarrow>
         let S = S\<lparr>backend_dev_handle := d, backend_image_spec := Some spec\<rparr>
         in andthen (io_open_by backend_open (backend_dev_handle S) (backend_image_spec S) S) (\<lambda>(result, handle, S).
            if result \<noteq> IO_SUCCESS then Inr (IO_FAIL, S)
            else andthen (io_read_by backend_read handle Local 16 S) (\<lambda>(result, _, bs, S).
                 let result = (if result = IO_SUCCESS \<and> \<not> is_valid_header (decode_header bs) then IO_FAIL else result)
                 in andthen (io_close handle S) (\<lambda>(_, S). Inr (result, S)))))"

definition io_dev_init :: "io_plat \<Rightarrow> dev option \<Rightarrow> nat \<Rightarrow> io_state \<Rightarrow> (int \<times> io_state) res" where
  "io_dev_init P d params S =
     andthen (assert_c (is_valid_dev d)) (\<lambda>_.
     case the d of Memmap \<Rightarrow> Inr (IO_SUCCESS, S) | Fip \<Rightarrow> fip_dev_init P params S)"

definition open_fwu_fip :: "io_plat \<Rightarrow> io_spec \<Rightarrow> io_state \<Rightarrow> (int \<times> io_state) res" where
  "open_fwu_fip P spec S =
     andthen (io_dev_init P (fwu_fip_dev_handle S) FWU_FIP_IMAGE_ID S) (\<lambda>(result, S).
     if result \<noteq> IO_SUCCESS then Inr (result, S)
     else andthen (io_open (fwu_fip_dev_handle S) (Some spec) S) (\<lambda>(result, handle, S).
          if result = IO_SUCCESS then andthen (io_close handle S) (\<lambda>(_, S). Inr (result, S)) else Inr (result, S)))"

definition plat_get_image_source :: "io_plat \<Rightarrow> nat \<Rightarrow> io_state \<Rightarrow> (int \<times> (dev option \<times> io_spec) option \<times> io_state) res" where
  "plat_get_image_source P = image_source_by P (open_fwu_fip P)"

definition plat_arm_fwu_io_setup :: "io_state \<Rightarrow> io_state res" where
  "plat_arm_fwu_io_setup S =
     (let (result, S) = register_io_dev_fip S
      in andthen (assert_c (result = IO_SUCCESS)) (\<lambda>_.
         let (result, S) = register_io_dev_memmap S
         in andthen (assert_c (result = IO_SUCCESS)) (\<lambda>_.
            andthen (io_dev_open (fwu_fip_dev_con S) S) (\<lambda>(result, d, S).
            andthen (assert_c (result = IO_SUCCESS)) (\<lambda>_.
            let S = S\<lparr>fwu_fip_dev_handle := d\<rparr>
            in andthen (io_dev_open (memmap_dev_con S) S) (\<lambda>(result, d, S).
               andthen (assert_c (result = IO_SUCCESS)) (\<lambda>_.
               Inr (S\<lparr>memmap_dev_handle := d\<rparr>))))))))"

section \<open>The image loader\<close>

definition get_image_offset :: "io_plat \<Rightarrow> nat \<Rightarrow> io_state \<Rightarrow> (u64 \<times> io_state) res" where
  "get_image_offset P image_id S =
     andthen (plat_get_image_source P image_id S) (\<lambda>(result, src, S).
     case src of
       None \<Rightarrow> Inr (0, S)
     | Some (d, spec) \<Rightarrow>
         andthen (io_open d (Some spec) S) (\<lambda>(result, handle, S).
         if result \<noteq> IO_SUCCESS then Inr (0, S)
         else andthen (aget (entity_pool S) (the handle)) (\<lambda>ent.
              if ent_info ent \<noteq> Some FipFile then Inl Undefined
              else let img_offset = PLAT_ARM_FWU_FIP_BASE P + offset_address (fip_entry S)
                   in andthen (io_close handle S) (\<lambda>(_, S).
                      andthen (io_dev_close d S) (\<lambda>(_, S). Inr (img_offset, S))))))"

definition get_image_size :: "io_plat \<Rightarrow> nat \<Rightarrow> io_state \<Rightarrow> (u64 \<times> io_state) res" where
  "get_image_size P image_id S =
     andthen (plat_get_image_source P image_id S) (\<lambda>(result, src, S).
     case src of
       None \<Rightarrow> Inr (0, S)
     | Some (d, spec) \<Rightarrow>
         andthen (io_open d (Some spec) S) (\<lambda>(result, handle, S).
         if result \<noteq> IO_SUCCESS then Inr (0, S)
         else andthen (io_size handle S) (\<lambda>(result, sz).
              andthen (io_close handle S) (\<lambda>(_, S).
              andthen (io_dev_close d S) (\<lambda>(_, S).
              case sz of None \<Rightarrow> Inl Uninitialised | Some sz \<Rightarrow> Inr (sz, S))))))"

definition load_image :: "io_plat \<Rightarrow> nat \<Rightarrow> u64 \<Rightarrow> io_state \<Rightarrow> (int \<times> io_state) res" where
  "load_image P image_id image_base S =
     andthen (plat_get_image_source P image_id S) (\<lambda>(result, src, S).
     case src of
       None \<Rightarrow> Inr (result, S)
     | Some (d, spec) \<Rightarrow>
         andthen (io_open d (Some spec) S) (\<lambda>(result, handle, S).
         if result \<noteq> IO_SUCCESS then Inr (result, S)
         else andthen (io_size handle S) (\<lambda>(result, sz).
              andthen (case sz of
                         Some sz \<Rightarrow>
                           if result = IO_SUCCESS \<and> sz \<noteq> 0
                           then andthen (io_read handle (Mem image_base) sz S) (\<lambda>(result, _, _, S). Inr (result, S))
                           else Inr (result, S)
                       | None \<Rightarrow> if result = IO_SUCCESS then Inl Uninitialised else Inr (result, S)) (\<lambda>(result, S).
              andthen (io_close handle S) (\<lambda>(_, S).
              andthen (io_dev_close d S) (\<lambda>(_, S). Inr (result, S)))))))"

definition load_partial_image :: "io_plat \<Rightarrow> nat \<Rightarrow> u64 \<Rightarrow> u64 \<Rightarrow> bool \<Rightarrow> io_state \<Rightarrow> (int \<times> io_state) res" where
  "load_partial_image P image_id image_base image_size is_last_block S =
     andthen (if partial_image S = None
              then andthen (plat_get_image_source P image_id S) (\<lambda>(result, src, S).
                   case src of
                     None \<Rightarrow> Inr (result, S)
                   | Some (d, spec) \<Rightarrow>
                       andthen (io_open d (Some spec) (S\<lparr>partial_dev := d\<rparr>)) (\<lambda>(result, handle, S).
                       if result \<noteq> IO_SUCCESS then Inr (result, S) else Inr (result, S\<lparr>partial_image := handle\<rparr>)))
              else Inr (IO_SUCCESS, S)) (\<lambda>(result, S).
     if result \<noteq> IO_SUCCESS then Inr (result, S)
     else andthen (io_read (partial_image S) (Mem image_base) image_size S) (\<lambda>(result, n, _, S).
          let ok = (result = IO_SUCCESS \<and> (case n of Some n \<Rightarrow> image_size \<le> n | None \<Rightarrow> False))
          in if \<not> is_last_block \<or> \<not> ok
             then andthen (io_close (partial_image S) S) (\<lambda>(_, S).
                  andthen (io_dev_close (partial_dev S) S) (\<lambda>(_, S). Inr (result, S\<lparr>partial_image := None\<rparr>)))
             else Inr (result, S)))"

end
