(* ===== verification/Tftf_Image_Load.thy ===== *)
theory Tftf_Image_Load
  imports Tftf_Io
begin

text \<open>
  Loading images: what the pool of entities, the memory-mapped driver, the package driver and the policies do from a state in
  which no file is open, up to \<open>load_image\<close>, which copies the right file of the package and leaves no file open.
\<close>

section \<open>The pool\<close>

definition emap :: "nat \<Rightarrow> nat \<Rightarrow> nat option list" where
  "emap n c = map Some [0..<c] @ replicate (n - c) None"

definition pool_ok :: "nat \<Rightarrow> nat \<Rightarrow> io_state \<Rightarrow> bool" where
  "pool_ok n c S \<longleftrightarrow> length (entity_pool S) = n \<and> entity_map S = emap n c \<and> entity_count S = c \<and> c \<le> n"

definition with_count :: "nat \<Rightarrow> nat \<Rightarrow> io_state \<Rightarrow> io_state" where
  "with_count n c S = S\<lparr>entity_map := emap n c, entity_count := c\<rparr>"

lemma length_emap: "c \<le> n \<Longrightarrow> length (emap n c) = n"
  by (simp add: emap_def)

lemma emap_nth: "i < n \<Longrightarrow> emap n c ! i = (if i < c then Some i else None)"
  by (auto simp: emap_def nth_append)

lemma emap_update: "c < n \<Longrightarrow> (emap n c)[c := Some c] = emap n (Suc c)" "c < n \<Longrightarrow> (emap n (Suc c))[c := None] = emap n c"
  by (rule nth_equalityI; auto simp: length_emap emap_nth nth_list_update)+

lemma find_upt:
  assumes "i < n" "P i" "\<And>j. j < i \<Longrightarrow> \<not> P j"
  shows "find P [0..<n] = Some i"
  using assms by (auto simp: find_Some_iff intro!: exI [of _ i])

lemma allocate_ok:
  assumes "pool_ok n c S" "c < n"
  shows "allocate_entity S = Inr (IO_SUCCESS, Some c, with_count n (Suc c) S)"
proof -
  have "find_first_entity None S = Some c"
    using assms unfolding find_first_entity_def pool_ok_def by (intro find_upt) (auto simp: length_emap emap_nth)
  then show ?thesis using assms by (simp add: allocate_entity_def pool_ok_def length_emap emap_update with_count_def)
qed

lemma free_ok:
  assumes "pool_ok n (Suc c) S"
  shows "free_entity c S = (IO_SUCCESS, with_count n c S)"
proof -
  have "find_first_entity (Some c) S = Some c"
    using assms unfolding find_first_entity_def pool_ok_def by (intro find_upt) (auto simp: length_emap emap_nth)
  then show ?thesis using assms by (simp add: free_entity_def pool_ok_def emap_update with_count_def)
qed

lemma with_count_fields [simp]:
  "ram (with_count n c S) = ram S" "entity_pool (with_count n c S) = entity_pool S" "mm_in_use (with_count n c S) = mm_in_use S"
  "mm_base (with_count n c S) = mm_base S" "mm_file_pos (with_count n c S) = mm_file_pos S" "fip_entry (with_count n c S) = fip_entry S"
  "fip_file_pos (with_count n c S) = fip_file_pos S" "backend_dev_handle (with_count n c S) = backend_dev_handle S"
  "backend_image_spec (with_count n c S) = backend_image_spec S" "fwu_fip_dev_handle (with_count n c S) = fwu_fip_dev_handle S"
  "memmap_dev_handle (with_count n c S) = memmap_dev_handle S" "partial_image (with_count n c S) = partial_image S"
  "partial_dev (with_count n c S) = partial_dev S"
  by (simp_all add: with_count_def)

lemma pool_ok_with_count: "length (entity_pool S) = n \<Longrightarrow> c \<le> n \<Longrightarrow> pool_ok n c (with_count n c S)"
  by (simp add: pool_ok_def with_count_def)

text \<open>\<open>keep c S S'\<close>: the first \<open>c\<close> entities, the package driver and the handles are as before.\<close>

definition keep :: "nat \<Rightarrow> io_state \<Rightarrow> io_state \<Rightarrow> bool" where
  "keep c S S' \<longleftrightarrow> take c (entity_pool S') = take c (entity_pool S) \<and> fip_entry S' = fip_entry S \<and> fip_file_pos S' = fip_file_pos S
     \<and> backend_dev_handle S' = backend_dev_handle S \<and> backend_image_spec S' = backend_image_spec S
     \<and> fwu_fip_dev_handle S' = fwu_fip_dev_handle S \<and> memmap_dev_handle S' = memmap_dev_handle S
     \<and> partial_dev S' = partial_dev S \<and> partial_image S' = partial_image S"

lemma keep_refl [simp]: "keep c S S"
  by (simp add: keep_def)

lemma keep_trans: "keep c S S1 \<Longrightarrow> keep c S1 S2 \<Longrightarrow> keep c S S2"
  by (simp add: keep_def)

lemma keep_nth:
  assumes "keep c S S'" "i < c"
  shows "entity_pool S' ! i = entity_pool S ! i"
proof -
  have "take c (entity_pool S') ! i = take c (entity_pool S) ! i" using assms(1) by (simp add: keep_def)
  then show ?thesis using assms(2) by simp
qed

text \<open>An open file of the memory-mapped driver, as the entity after the first \<open>c\<close>; and no such file.\<close>

definition mm_open :: "nat \<Rightarrow> nat \<Rightarrow> io_state \<Rightarrow> bool" where
  "mm_open n c S \<longleftrightarrow> c < n \<and> pool_ok n (Suc c) S \<and> entity_pool S ! c = \<lparr>dev_handle = Some Memmap, ent_info = Some MemmapFile\<rparr>"

definition quiet :: "nat \<Rightarrow> nat \<Rightarrow> io_state \<Rightarrow> bool" where
  "quiet n c S \<longleftrightarrow> pool_ok n c S \<and> \<not> mm_in_use S"

lemma valid_dev_any [simp]: "is_valid_dev (Some d)"
  by (cases d) (simp_all add: is_valid_dev_def type_of_dev_def)

lemma entity_eq: "(r :: io_entity)\<lparr>ent_info := i, dev_handle := d\<rparr> = \<lparr>dev_handle = d, ent_info = i\<rparr>"
  by (cases r) simp

lemma memmap_open_spec:
  assumes q: "quiet n c S" "c < n" and op: "\<And>e S. op Memmap (BlockSpec off len) e S = memmap_block_open (BlockSpec off len) e S"
  obtains T where "io_open_by op (Some Memmap) (Some (BlockSpec off len)) S = Inr (IO_SUCCESS, Some c, T)" "mm_open n c T" "keep c S T"
    "ram T = ram S" "mm_base T = off" "mm_file_pos T = 0"
proof -
  have l: "length (entity_pool S) = n" using q by (simp add: quiet_def pool_ok_def)
  define T where "T = (with_count n (Suc c) S)\<lparr>entity_pool := (entity_pool S)[c := \<lparr>dev_handle = Some Memmap, ent_info = Some MemmapFile\<rparr>],
    mm_in_use := True, mm_base := off, mm_file_pos := 0\<rparr>"
  have "io_open_by op (Some Memmap) (Some (BlockSpec off len)) S = Inr (IO_SUCCESS, Some c, T)"
    using q l allocate_ok [of n c S] unfolding T_def
    by (simp add: io_open_by_def op memmap_block_open_def set_info_def set_dev_def quiet_def aget_in aput_in nth_list_update with_count_def entity_eq)
  moreover have "mm_open n c T" using q(2) l by (simp add: mm_open_def pool_ok_def T_def with_count_def)
  ultimately show thesis using that [of T] by (simp add: T_def keep_def)
qed

lemma valid_entity_mm: "mm_open n c T \<Longrightarrow> valid_entity (Some c) T = Inr (c, Memmap)"
  by (simp add: valid_entity_def mm_open_def pool_ok_def aget_in)

lemma memmap_fp_mm: "mm_open n c T \<Longrightarrow> memmap_fp c T = Inr ()"
  by (simp add: memmap_fp_def mm_open_def pool_ok_def aget_in)

lemma memmap_seek_spec: "mm_open n c T \<Longrightarrow> io_seek (Some c) IO_SEEK_SET off T = Inr (IO_SUCCESS, T\<lparr>mm_file_pos := off\<rparr>)"
  by (simp add: io_seek_def valid_entity_mm memmap_block_seek_def memmap_fp_mm is_valid_seek_mode_def)

lemma memmap_read_spec:
  "mm_open n c T \<Longrightarrow> buffer \<noteq> Mem 0 \<Longrightarrow> io_read_by backend_read (Some c) buffer len T = Inr (IO_SUCCESS, Some len,
     mem_read (ram T) (mm_base T + mm_file_pos T) (unat len),
     T\<lparr>ram := (case buffer of Mem d \<Rightarrow> memcpy (ram T) d (mm_base T + mm_file_pos T) (unat len) | Local \<Rightarrow> ram T), mm_file_pos := mm_file_pos T + len\<rparr>)"
  by (simp add: io_read_by_def valid_entity_mm backend_read_def memmap_block_read_def memmap_fp_mm Let_def)

lemma memmap_close_spec:
  assumes "mm_open n c T"
  obtains S' where "io_close (Some c) T = Inr (IO_SUCCESS, S')" "quiet n c S'" "keep c T S'" "ram S' = ram T"
proof -
  have l: "length (entity_pool T) = n" "c < n" using assms by (simp_all add: mm_open_def pool_ok_def)
  define S1 where "S1 = T\<lparr>entity_pool := (entity_pool T)[c := \<lparr>dev_handle = Some Memmap, ent_info = None\<rparr>], mm_in_use := False, mm_base := 0, mm_file_pos := 0\<rparr>"
  have "pool_ok n (Suc c) S1" using assms by (simp add: S1_def mm_open_def pool_ok_def)
  note f = free_ok [OF this]
  have "memmap_block_close c T = Inr (IO_SUCCESS, S1)"
    using assms l by (simp add: memmap_block_close_def set_info_def aget_in aput_in S1_def mm_open_def)
  then have "io_close (Some c) T = Inr (IO_SUCCESS, with_count n c S1)" using assms f by (simp add: io_close_def valid_entity_mm)
  moreover have "quiet n c (with_count n c S1)" using l by (simp add: quiet_def pool_ok_with_count S1_def)
  ultimately show thesis using that [of "with_count n c S1"] by (simp add: keep_def S1_def)
qed

lemma mm_open_updates [simp]:
  "mm_open n c (T\<lparr>mm_file_pos := p\<rparr>) = mm_open n c T" "mm_open n c (T\<lparr>ram := m\<rparr>) = mm_open n c T"
  "mm_open n c (T\<lparr>fip_entry := e\<rparr>) = mm_open n c T" "mm_open n c (T\<lparr>fip_file_pos := q\<rparr>) = mm_open n c T"
  by (simp_all add: mm_open_def pool_ok_def)

section \<open>Reading a package\<close>

text \<open>
  What the table of contents at an address says about a UUID: the first of its entries with this UUID, or that an entry with a
  null UUID comes before. A table with neither has no end, and then no relation.
\<close>

inductive toc_at :: "uuid \<Rightarrow> mem \<Rightarrow> u64 \<Rightarrow> fip_toc_entry option \<Rightarrow> bool" for u m where
  found: "decode_entry (mem_read m a 40) = e \<Longrightarrow> fe_uuid e = u \<Longrightarrow> toc_at u m a (Some e)"
| ended: "is_uuid_null (fe_uuid (decode_entry (mem_read m a 40))) \<Longrightarrow> fe_uuid (decode_entry (mem_read m a 40)) \<noteq> u \<Longrightarrow> toc_at u m a None"
| later: "\<not> is_uuid_null (fe_uuid (decode_entry (mem_read m a 40))) \<Longrightarrow> fe_uuid (decode_entry (mem_read m a 40)) \<noteq> u
    \<Longrightarrow> toc_at u m (a + 40) eo \<Longrightarrow> toc_at u m a eo"

definition fip_header_ok :: "mem \<Rightarrow> u64 \<Rightarrow> bool" where
  "fip_header_ok m a \<longleftrightarrow> is_valid_header (decode_header (mem_read m a 16))"

text \<open>One round of the loop.\<close>

lemma find_toc_entry_round:
  fixes T :: io_state
  assumes "mm_open n c T"
  defines "e \<equiv> decode_entry (mem_read (ram T) (mm_base T + mm_file_pos T) 40)"
  defines "T' \<equiv> T\<lparr>mm_file_pos := mm_file_pos T + 40, fip_entry := e\<rparr>"
  shows "find_toc_entry u (Some c) T = (if fe_uuid e = u then Some (Inr (IO_SUCCESS, True, T'))
    else if is_uuid_null (fe_uuid e) then Some (Inr (IO_SUCCESS, False, T')) else find_toc_entry u (Some c) T')"
  using memmap_read_spec [OF assms(1), of Local 40]
  by (subst find_toc_entry.simps) (simp add: Let_def uuid_equal_def e_def T'_def)

lemma find_toc_entry_spec:
  assumes "toc_at u m a eo"
  shows "mm_open n c T \<Longrightarrow> ram T = m \<Longrightarrow> mm_base T + mm_file_pos T = a \<Longrightarrow>
    \<exists>T'. find_toc_entry u (Some c) T = Some (Inr (IO_SUCCESS, eo \<noteq> None, T')) \<and> mm_open n c T' \<and> keep c (T\<lparr>fip_entry := fip_entry T'\<rparr>) T'
      \<and> ram T' = ram T \<and> (case eo of Some e \<Rightarrow> fip_entry T' = e | None \<Rightarrow> True)"
  using assms
proof (induction arbitrary: T)
  case (found a e)
  then show ?case by (simp add: find_toc_entry_round keep_def)
next
  case (ended a)
  then show ?case by (simp add: find_toc_entry_round keep_def)
next
  case (later a eo)
  let ?T = "T\<lparr>mm_file_pos := mm_file_pos T + 40, fip_entry := decode_entry (mem_read m a 40)\<rparr>"
  have f: "find_toc_entry u (Some c) T = find_toc_entry u (Some c) ?T"
    using later.prems later.hyps by (simp add: find_toc_entry_round [OF later.prems(1)])
  have "\<exists>T'. find_toc_entry u (Some c) ?T = Some (Inr (IO_SUCCESS, eo \<noteq> None, T')) \<and> mm_open n c T' \<and> keep c (?T\<lparr>fip_entry := fip_entry T'\<rparr>) T'
      \<and> ram T' = ram ?T \<and> (case eo of Some e \<Rightarrow> fip_entry T' = e | None \<Rightarrow> True)"
    using later.prems by (intro later.IH) (simp_all add: add.assoc [symmetric])
  then show ?case unfolding f by (auto simp: keep_def)
qed

text \<open>If the loop ends, the table says something about the UUID.\<close>

lemma find_toc_entry_ends:
  assumes "find_toc_entry u (Some c) T = Some r" "mm_open n c T"
  shows "\<exists>eo. toc_at u (ram T) (mm_base T + mm_file_pos T) eo"
proof -
  have "h = Some c \<longrightarrow> mm_open n c T \<longrightarrow> (\<exists>eo. toc_at u (ram T) (mm_base T + mm_file_pos T) eo)" if "find_toc_entry u h T = Some r" for h
  proof (rule find_toc_entry.raw_induct [OF _ that], intro impI)
    fix f u h r and T :: io_state
    let ?e = "decode_entry (mem_read (ram T) (mm_base T + mm_file_pos T) 40)"
    let ?T = "T\<lparr>mm_file_pos := mm_file_pos T + 40, fip_entry := ?e\<rparr>"
    assume IH: "\<And>u h T r. f u h T = Some r \<Longrightarrow> h = Some c \<longrightarrow> mm_open n c T \<longrightarrow> (\<exists>eo. toc_at u (ram T) (mm_base T + mm_file_pos T) eo)"
      and h: "h = Some c" and o: "mm_open n c T"
      and body: "(case io_read_by backend_read h Local 40 T of
        Inl f \<Rightarrow> Some (Inl f)
      | Inr (result, _, bs, S) \<Rightarrow>
          if result = IO_SUCCESS
          then let S = S\<lparr>fip_entry := decode_entry bs\<rparr>
               in if uuid_equal (fe_uuid (fip_entry S)) u then Some (Inr (IO_SUCCESS, True, S))
                  else if is_uuid_null (fe_uuid (fip_entry S)) then Some (Inr (IO_SUCCESS, False, S))
                  else f u h S
          else Some (Inr (result, False, S))) = Some r"
    show "\<exists>eo. toc_at u (ram T) (mm_base T + mm_file_pos T) eo"
    proof (cases "fe_uuid ?e = u \<or> is_uuid_null (fe_uuid ?e)")
      case True
      then show ?thesis using toc_at.found toc_at.ended by blast
    next
      case False
      then have "f u h ?T = Some r"
        using body memmap_read_spec [OF o, of Local 40] unfolding h by (simp add: Let_def uuid_equal_def)
      from IH [OF this] obtain eo where "toc_at u (ram T) (mm_base T + mm_file_pos T + 40) eo"
        using h o by (auto simp: add.assoc)
      then show ?thesis using False toc_at.later by blast
    qed
  qed
  then show ?thesis using assms by blast
qed

text \<open>The package driver is ready: its backend is the block of memory with the package.\<close>

definition fip_ready :: "u64 \<Rightarrow> io_state \<Rightarrow> bool" where
  "fip_ready base S \<longleftrightarrow> backend_dev_handle S = Some Memmap \<and> (\<exists>len. backend_image_spec S = Some (BlockSpec base len))"

lemma backend_open_memmap: "backend_open Memmap spec e S = memmap_block_open spec e S"
  by (simp add: backend_open_def)

lemma set_info_ok: "e < length (entity_pool S) \<Longrightarrow> set_info e p S = Inr (S\<lparr>entity_pool := (entity_pool S)[e := (entity_pool S ! e)\<lparr>ent_info := p\<rparr>]\<rparr>)"
  by (simp add: set_info_def aget_in aput_in)

lemma fip_file_open_spec:
  assumes q: "quiet n 1 S" "2 \<le> n" and r: "fip_ready base S" and z: "offset_address (fip_entry S) = 0"
    and t: "toc_at u (ram S) (base + 16) eo" and u: "\<not> is_uuid_null u"
  shows "\<exists>S'. fip_file_open (UuidSpec u) 0 S = Inr (if eo = None then IO_FAIL else IO_SUCCESS, S') \<and> quiet n 1 S' \<and> ram S' = ram S
      \<and> fip_ready base S' \<and> fwu_fip_dev_handle S' = fwu_fip_dev_handle S \<and> memmap_dev_handle S' = memmap_dev_handle S \<and> partial_image S' = partial_image S
      \<and> (case eo of None \<Rightarrow> offset_address (fip_entry S') = 0
         | Some e \<Rightarrow> fip_entry S' = e \<and> fip_file_pos S' = 0 \<and> entity_pool S' ! 0 = (entity_pool S ! 0)\<lparr>ent_info := Some FipFile\<rparr>)"
proof -
  obtain len where b: "backend_dev_handle S = Some Memmap" "backend_image_spec S = Some (BlockSpec base len)" using r by (auto simp: fip_ready_def)
  obtain T where T: "io_open_by backend_open (Some Memmap) (Some (BlockSpec base len)) S = Inr (IO_SUCCESS, Some 1, T)" "mm_open n 1 T" "keep 1 S T"
    "ram T = ram S" "mm_base T = base" "mm_file_pos T = 0"
    using memmap_open_spec [OF q(1), of backend_open base len] q(2) backend_open_memmap by auto
  let ?T = "T\<lparr>mm_file_pos := 16\<rparr>"
  note sk = memmap_seek_spec [OF T(2), of 16]
  obtain T1 where T1: "find_toc_entry u (Some 1) ?T = Some (Inr (IO_SUCCESS, eo \<noteq> None, T1))" "mm_open n 1 T1"
    "keep 1 (?T\<lparr>fip_entry := fip_entry T1\<rparr>) T1" "ram T1 = ram S" "case eo of Some e \<Rightarrow> fip_entry T1 = e | None \<Rightarrow> True"
    using find_toc_entry_spec [OF t, of n 1 ?T] T by auto
  have l: "length (entity_pool T1) = n" "0 < length (entity_pool T1)" using T1(2) q(2) by (simp_all add: mm_open_def pool_ok_def)
  show ?thesis
  proof (cases "eo")
    case None
    let ?U = "T1\<lparr>fip_entry := (fip_entry T1)\<lparr>offset_address := 0\<rparr>\<rparr>"
    have "mm_open n 1 ?U" using T1(2) by simp
    then obtain S' where S': "io_close (Some 1) ?U = Inr (IO_SUCCESS, S')" "quiet n 1 S'" "keep 1 ?U S'" "ram S' = ram ?U"
      by (rule memmap_close_spec)
    have "fip_file_open (UuidSpec u) 0 S = Inr (IO_FAIL, S')" using z b T(1) sk T1(1) None S'(1) by (simp add: fip_file_open_def)
    then show ?thesis using S' T1(3,4) T(3) None r by (auto simp: keep_def fip_ready_def)
  next
    case (Some e)
    let ?U = "T1\<lparr>fip_file_pos := 0, entity_pool := (entity_pool T1)[0 := (entity_pool T1 ! 0)\<lparr>ent_info := Some FipFile\<rparr>]\<rparr>"
    have "mm_open n 1 ?U" using T1(2) by (simp add: mm_open_def pool_ok_def)
    then obtain S' where S': "io_close (Some 1) ?U = Inr (IO_SUCCESS, S')" "quiet n 1 S'" "keep 1 ?U S'" "ram S' = ram ?U"
      by (rule memmap_close_spec)
    have "fip_file_open (UuidSpec u) 0 S = Inr (IO_SUCCESS, S')" using z b T(1) sk T1(1) Some S'(1) l(2) by (simp add: fip_file_open_def set_info_ok)
    moreover have "entity_pool T1 ! 0 = entity_pool S ! 0" 
      using keep_nth [OF T1(3), of 0] keep_nth [OF T(3), of 0] by simp
    moreover have "entity_pool S' ! 0 = entity_pool ?U ! 0"
      by (rule keep_nth [OF S'(3)]) simp
    ultimately show ?thesis using S' T1 T(3) Some r l(2) by (auto simp: keep_def fip_ready_def)
  qed
qed

lemma fip_file_open_hangs:
  assumes q: "quiet n 1 S" "2 \<le> n" and r: "fip_ready base S" and z: "offset_address (fip_entry S) = 0"
    and t: "\<nexists>eo. toc_at u (ram S) (base + 16) eo"
  shows "fip_file_open (UuidSpec u) 0 S = Inl Hang"
proof -
  obtain len where b: "backend_dev_handle S = Some Memmap" "backend_image_spec S = Some (BlockSpec base len)" using r by (auto simp: fip_ready_def)
  obtain T where T: "io_open_by backend_open (Some Memmap) (Some (BlockSpec base len)) S = Inr (IO_SUCCESS, Some 1, T)" "mm_open n 1 T"
    "ram T = ram S" "mm_base T = base" "mm_file_pos T = 0"
    using memmap_open_spec [OF q(1), of backend_open base len] q(2) backend_open_memmap by auto
  let ?T = "T\<lparr>mm_file_pos := 16\<rparr>"
  have "find_toc_entry u (Some 1) ?T = None"
  proof (rule ccontr)
    assume "find_toc_entry u (Some 1) ?T \<noteq> None"
    then obtain r where "find_toc_entry u (Some 1) ?T = Some r" by blast
    then show False using find_toc_entry_ends [of u 1 ?T r n] T t by simp
  qed
  then show ?thesis using z b T(1) memmap_seek_spec [OF T(2), of 16] by (simp add: fip_file_open_def)
qed

section \<open>Files of a package\<close>

text \<open>No file is open, and the devices are set up.\<close>

definition idle :: "nat \<Rightarrow> io_state \<Rightarrow> bool" where
  "idle n S \<longleftrightarrow> 2 \<le> n \<and> quiet n 0 S \<and> offset_address (fip_entry S) = 0 \<and> fwu_fip_dev_handle S = Some Fip \<and> memmap_dev_handle S = Some Memmap"

text \<open>The file of the given entry is open, as the first entity.\<close>

definition fip_open :: "nat \<Rightarrow> u64 \<Rightarrow> fip_toc_entry \<Rightarrow> io_state \<Rightarrow> bool" where
  "fip_open n base e S \<longleftrightarrow> 2 \<le> n \<and> quiet n 1 S \<and> fip_ready base S \<and> fip_entry S = e \<and> entity_pool S ! 0 = \<lparr>dev_handle = Some Fip, ent_info = Some FipFile\<rparr>
     \<and> fwu_fip_dev_handle S = Some Fip \<and> memmap_dev_handle S = Some Memmap"

lemma fip_open_spec:
  assumes i: "idle n S" "fip_ready base S" and t: "toc_at u (ram S) (base + 16) eo" "\<not> is_uuid_null u"
  shows "\<exists>S'. io_open (Some Fip) (Some (UuidSpec u)) S
        = Inr (if eo = None then (IO_FAIL, None, S') else (IO_SUCCESS, Some 0, S')) \<and> ram S' = ram S
      \<and> (case eo of None \<Rightarrow> idle n S' \<and> fip_ready base S' | Some e \<Rightarrow> fip_open n base e S' \<and> fip_file_pos S' = 0)"
proof -
  let ?S = "with_count n 1 S"
  have q: "pool_ok n 0 S" "0 < n" "2 \<le> n" using i(1) by (auto simp: idle_def quiet_def)
  have l: "length (entity_pool S) = n" using q(1) by (simp add: pool_ok_def)
  have a: "allocate_entity S = Inr (IO_SUCCESS, Some 0, ?S)" using allocate_ok [OF q(1,2)] by simp
  have q1: "quiet n 1 ?S" using i(1) l q(2) pool_ok_with_count [of S n 1] by (simp add: idle_def quiet_def)
  have r1: "fip_ready base ?S" using i(2) by (simp add: fip_ready_def)
  have z1: "offset_address (fip_entry ?S) = 0" using i(1) by (simp add: idle_def)
  have t1: "toc_at u (ram ?S) (base + 16) eo" using t(1) by simp
  obtain S1 where S1: "fip_file_open (UuidSpec u) 0 ?S = Inr (if eo = None then IO_FAIL else IO_SUCCESS, S1)" "quiet n 1 S1" "ram S1 = ram S"
    "fip_ready base S1" "fwu_fip_dev_handle S1 = fwu_fip_dev_handle S" "memmap_dev_handle S1 = memmap_dev_handle S"
    "case eo of None \<Rightarrow> offset_address (fip_entry S1) = 0
         | Some e \<Rightarrow> fip_entry S1 = e \<and> fip_file_pos S1 = 0 \<and> entity_pool S1 ! 0 = (entity_pool S ! 0)\<lparr>ent_info := Some FipFile\<rparr>"
    using fip_file_open_spec [OF q1 q(3) r1 z1 t1 t(2), unfolded with_count_fields] by blast
  have l1: "length (entity_pool S1) = n" "pool_ok n (Suc 0) S1" using S1(2) by (simp_all add: quiet_def pool_ok_def)
  show ?thesis
  proof (cases "eo")
    case None
    have "io_open (Some Fip) (Some (UuidSpec u)) S = Inr (IO_FAIL, None, with_count n 0 S1)"
      using a S1(1) None free_ok [OF l1(2)] by (simp add: io_open_def io_open_by_def driver_open_def)
    moreover have "idle n (with_count n 0 S1)" "fip_ready base (with_count n 0 S1)"
      using S1 i(1) None l1(1) pool_ok_with_count [of S1 n 0] by (simp_all add: idle_def quiet_def fip_ready_def)
    ultimately show ?thesis using None S1(3) by simp
  next
    case (Some e)
    let ?S2 = "S1\<lparr>entity_pool := (entity_pool S1)[0 := (entity_pool S1 ! 0)\<lparr>dev_handle := Some Fip\<rparr>]\<rparr>"
    have "io_open (Some Fip) (Some (UuidSpec u)) S = Inr (IO_SUCCESS, Some 0, ?S2)"
      using a S1(1) Some l1 q(2) by (simp add: io_open_def io_open_by_def driver_open_def set_dev_def aget_in aput_in)
    moreover have "fip_open n base e ?S2"
      using S1 i(1) Some l1 q(2) by (simp add: fip_open_def idle_def quiet_def pool_ok_def fip_ready_def entity_eq)
    moreover have "fip_file_pos ?S2 = 0" "ram ?S2 = ram S" using S1(3,7) Some by simp_all
    ultimately show ?thesis using Some by auto
  qed
qed

lemma fip_open_hangs:
  assumes i: "idle n S" "fip_ready base S" and t: "\<nexists>eo. toc_at u (ram S) (base + 16) eo"
  shows "io_open (Some Fip) (Some (UuidSpec u)) S = Inl Hang"
proof -
  let ?S = "with_count n 1 S"
  have q: "pool_ok n 0 S" "0 < n" "2 \<le> n" using i(1) by (auto simp: idle_def quiet_def)
  have a: "allocate_entity S = Inr (IO_SUCCESS, Some 0, ?S)" using allocate_ok [OF q(1,2)] by simp
  have "quiet n 1 ?S" using i(1) q(1,2) pool_ok_with_count [of S n 1] by (simp add: idle_def quiet_def pool_ok_def)
  then have "fip_file_open (UuidSpec u) 0 ?S = Inl Hang"
    using i q(3) t by (intro fip_file_open_hangs) (simp_all add: fip_ready_def idle_def)
  then show ?thesis using a by (simp add: io_open_def io_open_by_def driver_open_def)
qed

lemma valid_entity_fip: "fip_open n base e S \<Longrightarrow> valid_entity (Some 0) S = Inr (0, Fip)"
  by (simp add: valid_entity_def fip_open_def quiet_def pool_ok_def aget_in)

lemma fip_size_spec: "fip_open n base e S \<Longrightarrow> io_size (Some 0) S = Inr (IO_SUCCESS, Some (fe_size e))"
  by (simp add: io_size_def valid_entity_fip fip_file_len_def) (simp add: fip_open_def quiet_def pool_ok_def aget_in)

lemma fip_close_spec:
  assumes "fip_open n base e S"
  shows "\<exists>S'. io_close (Some 0) S = Inr (IO_SUCCESS, S') \<and> idle n S' \<and> fip_ready base S' \<and> ram S' = ram S"
proof -
  let ?S1 = "(if offset_address (fip_entry S) \<noteq> 0 then S\<lparr>fip_file_pos := 0, fip_entry := null_entry\<rparr> else S)
    \<lparr>entity_pool := (entity_pool S)[0 := (entity_pool S ! 0)\<lparr>ent_info := None\<rparr>]\<rparr>"
  have l: "length (entity_pool S) = n" "0 < n" using assms by (auto simp: fip_open_def quiet_def pool_ok_def)
  have p: "pool_ok n (Suc 0) ?S1" using assms by (simp add: fip_open_def quiet_def pool_ok_def)
  have "io_close (Some 0) S = Inr (IO_SUCCESS, with_count n 0 ?S1)"
    using valid_entity_fip [OF assms] free_ok [OF p] l by (simp add: io_close_def fip_file_close_def set_info_ok split: if_splits)
  moreover have "idle n (with_count n 0 ?S1)" using assms l pool_ok_with_count [of ?S1 n 0] by (simp add: idle_def fip_open_def quiet_def null_entry_def)
  moreover have "fip_ready base (with_count n 0 ?S1)" using assms by (simp add: fip_open_def fip_ready_def)
  ultimately show ?thesis by auto
qed

lemma fip_read_spec:
  assumes f: "fip_open n base e S" "fip_file_pos S = 0" "d \<noteq> 0"
  shows "\<exists>S'. io_read (Some 0) (Mem d) len S = Inr (IO_SUCCESS, Some len, mem_read (ram S) (base + offset_address e) (unat len), S')
      \<and> fip_open n base e S' \<and> ram S' = memcpy (ram S) d (base + offset_address e) (unat len)"
proof -
  have q: "quiet n 1 S" "1 < n" and r: "fip_ready base S" and en: "fip_entry S = e"
    and p: "entity_pool S ! 0 = \<lparr>dev_handle = Some Fip, ent_info = Some FipFile\<rparr>" and l: "0 < length (entity_pool S)"
    using f(1) by (auto simp: fip_open_def quiet_def pool_ok_def)
  obtain bl where b: "backend_dev_handle S = Some Memmap" "backend_image_spec S = Some (BlockSpec base bl)" using r by (auto simp: fip_ready_def)
  obtain T where T: "io_open_by backend_open (Some Memmap) (Some (BlockSpec base bl)) S = Inr (IO_SUCCESS, Some 1, T)" "mm_open n 1 T" "keep 1 S T"
    "ram T = ram S" "mm_base T = base" "mm_file_pos T = 0"
    using memmap_open_spec [OF q, of backend_open base bl] backend_open_memmap by auto
  have ke: "fip_entry T = e" "fip_file_pos T = 0" using T(3) en f(2) by (simp_all add: keep_def)
  let ?T = "T\<lparr>mm_file_pos := offset_address e\<rparr>"
  let ?U = "?T\<lparr>ram := memcpy (ram S) d (base + offset_address e) (unat len), mm_file_pos := offset_address e + len, fip_file_pos := ucast len\<rparr>"
  have sk: "io_seek (Some 1) IO_SEEK_SET (offset_address e) T = Inr (IO_SUCCESS, ?T)" by (rule memmap_seek_spec [OF T(2)])
  have rd: "io_read_by backend_read (Some 1) (Mem d) len ?T = Inr (IO_SUCCESS, Some len, mem_read (ram S) (base + offset_address e) (unat len),
    ?T\<lparr>ram := memcpy (ram S) d (base + offset_address e) (unat len), mm_file_pos := offset_address e + len\<rparr>)"
    using memmap_read_spec [of n 1 ?T "Mem d" len] T f(3) by simp
  have "mm_open n 1 ?U" using T(2) by simp
  then obtain S' where S': "io_close (Some 1) ?U = Inr (IO_SUCCESS, S')" "quiet n 1 S'" "keep 1 ?U S'" "ram S' = ram ?U"
    by (rule memmap_close_spec)
  have "fip_file_read 0 (Mem d) len S = Inr (IO_SUCCESS, Some len, mem_read (ram S) (base + offset_address e) (unat len), S')"
    using f(3) p l b T(1) ke sk rd S'(1) by (simp add: fip_file_read_def aget_in)
  then have "io_read (Some 0) (Mem d) len S = Inr (IO_SUCCESS, Some len, mem_read (ram S) (base + offset_address e) (unat len), S')"
    using valid_entity_fip [OF f(1)] f(3) by (simp add: io_read_def io_read_by_def driver_read_def)
  moreover have "entity_pool S' ! 0 = entity_pool S ! 0" using keep_nth [OF S'(3), of 0] keep_nth [OF T(3), of 0] by simp
  then have "fip_open n base e S'" using f(1) S'(2,3) T(3) by (auto simp: fip_open_def keep_def fip_ready_def)
  ultimately show ?thesis using S'(4) by simp
qed

lemma fip_read_null: "fip_open n base e S \<Longrightarrow> io_read (Some 0) (Mem 0) len S = Inl AssertFail"
  by (simp add: io_read_def io_read_by_def driver_read_def valid_entity_fip fip_file_read_def)

section \<open>Images\<close>

lemma open_memmap_spec:
  assumes i: "idle n S"
  shows "\<exists>S'. open_memmap (BlockSpec off len) S = Inr (IO_SUCCESS, S') \<and> idle n S' \<and> ram S' = ram S"
proof -
  have q: "quiet n 0 S" "0 < n" and h: "memmap_dev_handle S = Some Memmap" using i by (auto simp: idle_def)
  obtain T where T: "io_open_by backend_open (Some Memmap) (Some (BlockSpec off len)) S = Inr (IO_SUCCESS, Some 0, T)" "mm_open n 0 T" "keep 0 S T"
    "ram T = ram S" using memmap_open_spec [OF q, of backend_open off len] backend_open_memmap by auto
  obtain S' where S': "io_close (Some 0) T = Inr (IO_SUCCESS, S')" "quiet n 0 S'" "keep 0 T S'" "ram S' = ram T" by (rule memmap_close_spec [OF T(2)])
  have "open_memmap (BlockSpec off len) S = Inr (IO_SUCCESS, S')" using h T(1) S'(1) by (simp add: open_memmap_def)
  then show ?thesis using S' T i by (auto simp: idle_def keep_def)
qed

lemma policies_nth:
  "policies P ! FWU_FIP_IMAGE_ID = Some \<lparr>pol_dev = Memmap, pol_spec = BlockSpec (PLAT_ARM_FWU_FIP_BASE P) (PLAT_ARM_FWU_FIP_SIZE P), pol_check = Check_memmap\<rparr>"
  "length (policies P) = 22"
  by (simp_all add: policies_def nth_append)

lemma fip_dev_init_spec:
  fixes P :: io_plat
  assumes i: "idle n S"
  defines "base \<equiv> PLAT_ARM_FWU_FIP_BASE P"
  shows "\<exists>S'. fip_dev_init P FWU_FIP_IMAGE_ID S
        = Inr (if is_valid_header (decode_header (mem_read (ram S) base 16)) then IO_SUCCESS else IO_FAIL, S') \<and> idle n S' \<and> fip_ready base S' \<and> ram S' = ram S"
proof -
  obtain S1 where S1: "open_memmap (BlockSpec base (PLAT_ARM_FWU_FIP_SIZE P)) S = Inr (IO_SUCCESS, S1)" "idle n S1" "ram S1 = ram S"
    using open_memmap_spec [OF i] by blast
  have src: "image_source_by P (\<lambda>_ _. Inl Unreachable) FWU_FIP_IMAGE_ID S
      = Inr (IO_SUCCESS, Some (Some Memmap, BlockSpec base (PLAT_ARM_FWU_FIP_SIZE P)), S1)"
    using S1 by (simp add: image_source_by_def policies_nth policy_handle_def base_def idle_def)
  let ?S = "S1\<lparr>backend_dev_handle := Some Memmap, backend_image_spec := Some (BlockSpec base (PLAT_ARM_FWU_FIP_SIZE P))\<rparr>"
  have q: "quiet n 0 ?S" "0 < n" using S1(2) by (auto simp: idle_def quiet_def pool_ok_def)
  obtain T where T: "io_open_by backend_open (Some Memmap) (Some (BlockSpec base (PLAT_ARM_FWU_FIP_SIZE P))) ?S = Inr (IO_SUCCESS, Some 0, T)" "mm_open n 0 T"
    "keep 0 ?S T" "ram T = ram S" "mm_base T = base" "mm_file_pos T = 0"
    using memmap_open_spec [OF q, of backend_open base "PLAT_ARM_FWU_FIP_SIZE P"] backend_open_memmap S1(3) by auto
  let ?U = "T\<lparr>mm_file_pos := 16\<rparr>"
  have rd: "io_read_by backend_read (Some 0) Local 16 T = Inr (IO_SUCCESS, Some 16, mem_read (ram S) base 16, ?U)"
    using memmap_read_spec [OF T(2), of Local 16] T by simp
  have "mm_open n 0 ?U" using T(2) by simp
  then obtain S' where S': "io_close (Some 0) ?U = Inr (IO_SUCCESS, S')" "quiet n 0 S'" "keep 0 ?U S'" "ram S' = ram ?U" by (rule memmap_close_spec)
  have "fip_dev_init P FWU_FIP_IMAGE_ID S = Inr (if is_valid_header (decode_header (mem_read (ram S) base 16)) then IO_SUCCESS else IO_FAIL, S')"
    using src T(1) rd S'(1) by (simp add: fip_dev_init_def Let_def)
  moreover have "idle n S'" "fip_ready base S'" using S' T(3) S1(2) by (auto simp: idle_def keep_def fip_ready_def)
  ultimately show ?thesis using S'(4) T(4) by auto
qed

lemma open_fwu_fip_spec:
  fixes P :: io_plat
  assumes i: "idle n S" and u: "\<not> is_uuid_null u"
  defines "base \<equiv> PLAT_ARM_FWU_FIP_BASE P"
  defines "ok \<equiv> is_valid_header (decode_header (mem_read (ram S) base 16))"
  assumes t: "ok \<Longrightarrow> toc_at u (ram S) (base + 16) eo"
  shows "\<exists>S'. open_fwu_fip P (UuidSpec u) S = Inr (if ok \<and> eo \<noteq> None then IO_SUCCESS else IO_FAIL, S')
      \<and> idle n S' \<and> fip_ready base S' \<and> ram S' = ram S"
proof -
  obtain S1 where S1: "fip_dev_init P FWU_FIP_IMAGE_ID S = Inr (if ok then IO_SUCCESS else IO_FAIL, S1)" "idle n S1" "fip_ready base S1" "ram S1 = ram S"
    using fip_dev_init_spec [OF i, of P] unfolding base_def [symmetric] ok_def [symmetric] by blast
  have h: "fwu_fip_dev_handle S = Some Fip" "fwu_fip_dev_handle S1 = Some Fip" using i S1(2) by (simp_all add: idle_def)
  have di: "io_dev_init P (Some Fip) FWU_FIP_IMAGE_ID S = Inr (if ok then IO_SUCCESS else IO_FAIL, S1)" using S1(1) by (simp add: io_dev_init_def)
  show ?thesis
  proof (cases ok)
    case False
    then show ?thesis using h di S1 by (auto simp: open_fwu_fip_def)
  next
    case True
    have t1: "toc_at u (ram S1) (base + 16) eo" using t [OF True] S1(4) by simp
    obtain S2 where S2: "io_open (Some Fip) (Some (UuidSpec u)) S1
        = Inr (if eo = None then (IO_FAIL, None, S2) else (IO_SUCCESS, Some 0, S2))" "ram S2 = ram S1"
      "case eo of None \<Rightarrow> idle n S2 \<and> fip_ready base S2 | Some e \<Rightarrow> fip_open n base e S2 \<and> fip_file_pos S2 = 0"
      using fip_open_spec [OF S1(2,3) t1 u] by blast
    show ?thesis
    proof (cases "eo")
      case None
      then show ?thesis using True h di S2 S1(4) by (auto simp: open_fwu_fip_def)
    next
      case (Some e)
      then have "fip_open n base e S2" using S2(3) by simp
      then obtain S3 where "io_close (Some 0) S2 = Inr (IO_SUCCESS, S3)" "idle n S3" "fip_ready base S3" "ram S3 = ram S2"
        using fip_close_spec by blast
      then show ?thesis using True Some h di S2 S1(4) by (auto simp: open_fwu_fip_def)
    qed
  qed
qed

text \<open>The image ids of the files of the package, and their UUIDs.\<close>

definition fip_image_uuid :: "nat \<Rightarrow> uuid option" where
  "fip_image_uuid image_id =
     (if image_id = FWU_CERT_ID then Some UUID_FIRMWARE_UPDATE_FWU_CERT else if image_id = SCP_BL2U_IMAGE_ID then Some UUID_FIRMWARE_UPDATE_SCP_BL2U
      else if image_id = BL2U_IMAGE_ID then Some UUID_FIRMWARE_UPDATE_BL2U
      else if image_id = NS_BL2U_IMAGE_ID then Some UUID_FIRMWARE_UPDATE_NS_BL2U else None)"

lemmas uuid_defs = UUID_FIRMWARE_UPDATE_FWU_CERT_def UUID_FIRMWARE_UPDATE_SCP_BL2U_def UUID_FIRMWARE_UPDATE_BL2U_def UUID_FIRMWARE_UPDATE_NS_BL2U_def

lemma uuid_not_null: "is_uuid_null u \<Longrightarrow> hd u = 0"
  by (simp add: is_uuid_null_def)

lemma fip_image_policy:
  assumes "fip_image_uuid image_id = Some u"
  shows "image_id < length (policies P)" "policies P ! image_id = Some \<lparr>pol_dev = Fip, pol_spec = UuidSpec u, pol_check = Check_fwu_fip\<rparr>" "\<not> is_uuid_null u"
  using assms uuid_not_null [of u] by (auto simp: fip_image_uuid_def policies_def nth_append uuid_defs split: if_splits)

lemma image_source_spec:
  fixes P :: io_plat
  assumes i: "idle n S" and u: "fip_image_uuid image_id = Some u"
  defines "base \<equiv> PLAT_ARM_FWU_FIP_BASE P"
  defines "ok \<equiv> is_valid_header (decode_header (mem_read (ram S) base 16))"
  assumes t: "ok \<Longrightarrow> toc_at u (ram S) (base + 16) eo"
  shows "\<exists>S'. plat_get_image_source P image_id S = Inr (if ok \<and> eo \<noteq> None then (IO_SUCCESS, Some (Some Fip, UuidSpec u), S') else (IO_FAIL, None, S'))
      \<and> idle n S' \<and> fip_ready base S' \<and> ram S' = ram S"
proof -
  note p = fip_image_policy(1,2) [OF u, of P] fip_image_policy(3) [OF u]
  obtain S' where "open_fwu_fip P (UuidSpec u) S = Inr (if ok \<and> eo \<noteq> None then IO_SUCCESS else IO_FAIL, S')"
      "idle n S'" "fip_ready base S'" "ram S' = ram S"
    using open_fwu_fip_spec [where P = P and eo = eo, OF i p(3)] t unfolding base_def ok_def by blast
  then show ?thesis using p by (auto simp: plat_get_image_source_def image_source_by_def policy_handle_def idle_def)
qed

lemma image_source_hangs:
  fixes P :: io_plat
  assumes i: "idle n S" and u: "fip_image_uuid image_id = Some u"
  defines "base \<equiv> PLAT_ARM_FWU_FIP_BASE P"
  assumes ok: "is_valid_header (decode_header (mem_read (ram S) base 16))" and t: "\<nexists>eo. toc_at u (ram S) (base + 16) eo"
  shows "plat_get_image_source P image_id S = Inl Hang"
proof -
  obtain S1 where S1: "fip_dev_init P FWU_FIP_IMAGE_ID S = Inr (IO_SUCCESS, S1)" "idle n S1" "fip_ready base S1" "ram S1 = ram S"
    using fip_dev_init_spec [OF i, of P] ok unfolding base_def [symmetric] by auto
  have h: "fwu_fip_dev_handle S = Some Fip" "fwu_fip_dev_handle S1 = Some Fip" using i S1(2) by (simp_all add: idle_def)
  have "io_open (Some Fip) (Some (UuidSpec u)) S1 = Inl Hang" using fip_open_hangs [OF S1(2,3)] t S1(4) by simp
  then have "open_fwu_fip P (UuidSpec u) S = Inl Hang" using h S1(1) by (simp add: open_fwu_fip_def io_dev_init_def)
  then show ?thesis using fip_image_policy(1,2) [OF u, of P] by (simp add: plat_get_image_source_def image_source_by_def)
qed

lemma load_image_found:
  fixes P :: io_plat
  assumes i: "idle n S" and u: "fip_image_uuid image_id = Some u"
  defines "base \<equiv> PLAT_ARM_FWU_FIP_BASE P"
  assumes ok: "is_valid_header (decode_header (mem_read (ram S) base 16))" and t: "toc_at u (ram S) (base + 16) (Some e)"
  shows "if dst = 0 \<and> fe_size e \<noteq> 0 then load_image P image_id dst S = Inl AssertFail
    else \<exists>S'. load_image P image_id dst S = Inr (IO_SUCCESS, S') \<and> idle n S' \<and> ram S' = memcpy (ram S) dst (base + offset_address e) (unat (fe_size e))"
proof -
  obtain S1 where S1: "plat_get_image_source P image_id S = Inr (IO_SUCCESS, Some (Some Fip, UuidSpec u), S1)"
    "idle n S1" "fip_ready base S1" "ram S1 = ram S"
    using image_source_spec [where P = P and eo = "Some e", OF i u] ok t unfolding base_def by auto
  have t1: "toc_at u (ram S1) (base + 16) (Some e)" using t S1(4) by simp
  obtain S2 where S2: "io_open (Some Fip) (Some (UuidSpec u)) S1 = Inr (IO_SUCCESS, Some 0, S2)" "ram S2 = ram S" "fip_open n base e S2" "fip_file_pos S2 = 0"
    using fip_open_spec [OF S1(2,3) t1 fip_image_policy(3) [OF u]] S1(4) by auto
  show ?thesis
  proof (cases "dst = 0 \<and> fe_size e \<noteq> 0")
    case True
    then have "load_image P image_id dst S = Inl AssertFail"
      using S1(1) S2(1) fip_size_spec [OF S2(3)] fip_read_null [OF S2(3)] by (simp add: load_image_def)
    then show ?thesis using True by simp
  next
    case False
    obtain S3 where S3: "(if fe_size e \<noteq> 0 then andthen (io_read (Some 0) (Mem dst) (fe_size e) S2) (\<lambda>(result, _, _, S). Inr (result, S)) else Inr (IO_SUCCESS, S2))
        = Inr (IO_SUCCESS, S3)" "fip_open n base e S3" "ram S3 = memcpy (ram S) dst (base + offset_address e) (unat (fe_size e))"
    proof (cases "fe_size e = 0")
      case True
      then show thesis using that [of S2] S2(2,3) by simp
    next
      case nz: False
      then show thesis using that fip_read_spec [OF S2(3,4), of dst "fe_size e"] S2(2) False by auto
    qed
    obtain S4 where S4: "io_close (Some 0) S3 = Inr (IO_SUCCESS, S4)" "idle n S4" "ram S4 = ram S3" using fip_close_spec [OF S3(2)] by blast
    let ?S5 = "S4\<lparr>backend_dev_handle := None, backend_image_spec := None\<rparr>"
    have "load_image P image_id dst S = Inr (IO_SUCCESS, ?S5)"
      using S1(1) S2(1) fip_size_spec [OF S2(3)] S3(1) S4(1)
      by (simp add: load_image_def io_dev_close_def fip_dev_close_def split: if_splits)
    moreover have "idle n ?S5" "ram ?S5 = ram S3" using S4(2,3) by (simp_all add: idle_def quiet_def pool_ok_def)
    ultimately show ?thesis unfolding if_not_P [OF False] using S3(3) by (intro exI [of _ ?S5]) simp
  qed
qed

text \<open>C9: what loading an image of the firmware update package does with the devices set up and no file open, for every content of the
  memory. Without a valid header, or if the table of contents ends with a null UUID before it names the image, it returns \<open>IO_FAIL\<close> and the
  memory stays as it was. If the table names the image, the bytes of its entry are copied to the given address and nothing else changes, except
  that a null address fails an assertion for an entry that is not empty. In all these cases no file is left open. If the header is valid and the table
  neither names the image nor ends, the search never returns.\<close>

theorem load_image_loads_file:
  fixes P :: io_plat
  assumes "idle n S" "fip_image_uuid image_id = Some u"
  defines "base \<equiv> PLAT_ARM_FWU_FIP_BASE P"
  shows "(\<not> fip_header_ok (ram S) base \<or> toc_at u (ram S) (base + 16) None \<longrightarrow>
        (\<exists>S'. load_image P image_id dst S = Inr (IO_FAIL, S') \<and> idle n S' \<and> ram S' = ram S))
    \<and> (\<forall>e. fip_header_ok (ram S) base \<and> toc_at u (ram S) (base + 16) (Some e) \<longrightarrow>
        (if dst = 0 \<and> fe_size e \<noteq> 0 then load_image P image_id dst S = Inl AssertFail
         else \<exists>S'. load_image P image_id dst S = Inr (IO_SUCCESS, S') \<and> idle n S'
           \<and> ram S' = memcpy (ram S) dst (base + offset_address e) (unat (fe_size e))))
    \<and> (fip_header_ok (ram S) base \<and> (\<nexists>eo. toc_at u (ram S) (base + 16) eo) \<longrightarrow> load_image P image_id dst S = Inl Hang)"
proof (intro conjI allI impI)
  assume "\<not> fip_header_ok (ram S) base \<or> toc_at u (ram S) (base + 16) None"
  then obtain S' where "plat_get_image_source P image_id S = Inr (IO_FAIL, None, S')" "idle n S'" "ram S' = ram S"
    using image_source_spec [where P = P and eo = None, OF assms(1,2)] unfolding base_def fip_header_ok_def by auto
  then show "\<exists>S'. load_image P image_id dst S = Inr (IO_FAIL, S') \<and> idle n S' \<and> ram S' = ram S" by (simp add: load_image_def)
next
  fix e assume "fip_header_ok (ram S) base \<and> toc_at u (ram S) (base + 16) (Some e)"
  then show "if dst = 0 \<and> fe_size e \<noteq> 0 then load_image P image_id dst S = Inl AssertFail
      else \<exists>S'. load_image P image_id dst S = Inr (IO_SUCCESS, S') \<and> idle n S' \<and> ram S' = memcpy (ram S) dst (base + offset_address e) (unat (fe_size e))"
    using load_image_found [OF assms(1,2), of P e dst] unfolding base_def fip_header_ok_def by blast
next
  assume "fip_header_ok (ram S) base \<and> (\<nexists>eo. toc_at u (ram S) (base + 16) eo)"
  then show "load_image P image_id dst S = Inl Hang"
    using image_source_hangs [OF assms(1,2)] by (simp add: base_def fip_header_ok_def load_image_def)
qed

section \<open>Setting up\<close>

lemma setup_idle:
  assumes "2 \<le> MAX_IO_DEVICES P" "2 \<le> MAX_IO_HANDLES P"
  shows "\<exists>S. plat_arm_fwu_io_setup (io_reset_state P m) = Inr S \<and> idle (MAX_IO_HANDLES P) S \<and> ram S = m"
  using assms
  by (simp add: plat_arm_fwu_io_setup_def register_io_dev_fip_def register_io_dev_memmap_def io_register_device_def io_dev_open_def io_reset_state_def Let_def
      idle_def quiet_def pool_ok_def emap_def)

lemma mem_read_blob:
  assumes "k + n \<le> length bs" "length bs < 2 ^ 64"
  shows "mem_read (mem_write m a bs) (a + of_nat k) n = take n (drop k bs)"
proof (rule nth_equalityI)
  show "length (mem_read (mem_write m a bs) (a + of_nat k) n) = length (take n (drop k bs))" using assms by simp
  fix i assume "i < length (mem_read (mem_write m a bs) (a + of_nat k) n)"
  then have i: "i < n" by simp
  have "mem_write m a bs (a + of_nat (k + i)) = bs ! (k + i)" using assms i by (intro mem_write_at) auto
  then show "mem_read (mem_write m a bs) (a + of_nat k) n ! i = take n (drop k bs) ! i" using assms i by (simp add: add.assoc)
qed

text \<open>The first stage updater of the FVP with a package that holds a BL2U image of four bytes.\<close>

definition fvp_io :: io_plat where
  "fvp_io = \<lparr>MAX_IO_HANDLES = 2, MAX_IO_DEVICES = 2, PLAT_ARM_FWU_FIP_BASE = 0x08400000, PLAT_ARM_FWU_FIP_SIZE = 0x100000\<rparr>"

definition demo_fip :: "u8 list" where
  "demo_fip = [1, 0, 0x64, 0xAA, 0x78, 0x56, 0x34, 0x12, 0, 0, 0, 0, 0, 0, 0, 0] @
     UUID_FIRMWARE_UPDATE_BL2U @ [0x60, 0, 0, 0, 0, 0, 0, 0] @ [4, 0, 0, 0, 0, 0, 0, 0] @ [0, 0, 0, 0, 0, 0, 0, 0] @ replicate 40 0 @ [0xDE, 0xAD, 0xBE, 0xEF]"

definition demo_fip_entry :: fip_toc_entry where
  "demo_fip_entry = \<lparr>fe_uuid = UUID_FIRMWARE_UPDATE_BL2U, offset_address = 0x60, fe_size = 4, fe_flags = 0\<rparr>"

abbreviation (input) demo_fip_mem :: mem where "demo_fip_mem \<equiv> mem_write (\<lambda>_. 0) 0x08400000 demo_fip"

lemma length_demo_fip: "length demo_fip = 100"
  by (simp add: demo_fip_def uuid_defs)

lemma demo_fip_read: "k + n \<le> 100 \<Longrightarrow> mem_read demo_fip_mem (0x08400000 + of_nat k) n = take n (drop k demo_fip)"
  by (rule mem_read_blob) (simp_all add: length_demo_fip)

lemma demo_fip_toc:
  "fip_header_ok demo_fip_mem 0x08400000" "toc_at UUID_FIRMWARE_UPDATE_BL2U demo_fip_mem (0x08400000 + 16) (Some demo_fip_entry)"
proof -
  have "mem_read demo_fip_mem 0x08400000 16 = take 16 demo_fip" using demo_fip_read [of 0 16] by simp
  also have "\<dots> = [1, 0, 0x64, 0xAA, 0x78, 0x56, 0x34, 0x12, 0, 0, 0, 0, 0, 0, 0, 0]" by (simp add: demo_fip_def)
  finally show "fip_header_ok demo_fip_mem 0x08400000" by (simp add: fip_header_ok_def is_valid_header_def decode_header_def)
  have "mem_read demo_fip_mem (0x08400000 + 16) 40 = take 40 (drop 16 demo_fip)" using demo_fip_read [of 16 40] by simp
  also have "\<dots> = UUID_FIRMWARE_UPDATE_BL2U @ [0x60, 0, 0, 0, 0, 0, 0, 0] @ [4, 0, 0, 0, 0, 0, 0, 0] @ [0, 0, 0, 0, 0, 0, 0, 0]" by (simp add: demo_fip_def uuid_defs)
  finally have e: "decode_entry (mem_read demo_fip_mem (0x08400000 + 16) 40) = demo_fip_entry" by (simp add: decode_entry_def demo_fip_entry_def uuid_defs)
  then show "toc_at UUID_FIRMWARE_UPDATE_BL2U demo_fip_mem (0x08400000 + 16) (Some demo_fip_entry)" by (intro toc_at.found) (simp_all add: demo_fip_entry_def)
qed

lemma demo_io: obtains S where "plat_arm_fwu_io_setup (io_reset_state fvp_io demo_fip_mem) = Inr S" "idle 2 S" "ram S = demo_fip_mem"
  using setup_idle [of fvp_io demo_fip_mem] by (auto simp: fvp_io_def)

theorem load_image_loads_file_witness:
  "\<exists>S S'. plat_arm_fwu_io_setup (io_reset_state fvp_io demo_fip_mem) = Inr S \<and> load_image fvp_io BL2U_IMAGE_ID 0x80000000 S = Inr (IO_SUCCESS, S')
     \<and> mem_read (ram S') 0x80000000 4 = [0xDE, 0xAD, 0xBE, 0xEF]"
proof -
  obtain S where S: "plat_arm_fwu_io_setup (io_reset_state fvp_io demo_fip_mem) = Inr S" "idle 2 S" "ram S = demo_fip_mem" by (rule demo_io)
  have u: "fip_image_uuid BL2U_IMAGE_ID = Some UUID_FIRMWARE_UPDATE_BL2U" by (simp add: fip_image_uuid_def)
  have b: "PLAT_ARM_FWU_FIP_BASE fvp_io = 0x08400000" by (simp add: fvp_io_def)
  obtain S' where S': "load_image fvp_io BL2U_IMAGE_ID 0x80000000 S = Inr (IO_SUCCESS, S')" "ram S' = memcpy demo_fip_mem 0x80000000 (0x08400000 + 0x60) 4"
    using load_image_loads_file [OF S(2) u, of fvp_io "0x80000000", unfolded b S(3)] demo_fip_toc
    by (auto simp: demo_fip_entry_def)
  have "memcpy demo_fip_mem 0x80000000 (0x08400000 + 0x60) 4 = mem_write demo_fip_mem 0x80000000 (mem_read demo_fip_mem (0x08400000 + 0x60) 4)"
    by (rule memcpy_eq) simp_all
  moreover have "mem_read demo_fip_mem (0x08400000 + 0x60) 4 = take 4 (drop 0x60 demo_fip)" using demo_fip_read [of "0x60" 4] by simp
  ultimately have "mem_read (ram S') 0x80000000 4 = take 4 (drop 0x60 demo_fip)"
    unfolding S'(2) using mem_read_write_same [of "take 4 (drop 0x60 demo_fip)"] by (simp add: length_demo_fip)
  then show ?thesis using S(1) S'(1) by (auto simp: demo_fip_def uuid_defs)
qed

text \<open>C39: for the firmware update package itself (image id 21) the loader has no answer: the query for its size returns a variable that was never
  set, because the memory-mapped driver has no size function; the query for its name reads past the end of the table of names; and loading it
  returns \<open>IO_NOT_SUPPORTED\<close>. The name of the image before it, NS_BL2U, has the name of the package appended.\<close>

theorem package_image_queries:
  assumes "idle n S"
  shows "get_image_size P FWU_FIP_IMAGE_ID S = Inl Uninitialised \<and> get_image_name FWU_FIP_IMAGE_ID = Inl OutOfBounds
    \<and> (\<exists>S'. load_image P FWU_FIP_IMAGE_ID dst S = Inr (IO_NOT_SUPPORTED, S') \<and> idle n S' \<and> ram S' = ram S)
    \<and> get_image_name NS_BL2U_IMAGE_ID = Inr ''Non-Trusted Updater Firmware (NS_BL2U)FWU Firmware Image Package''"
proof -
  obtain S1 where S1: "open_memmap (BlockSpec (PLAT_ARM_FWU_FIP_BASE P) (PLAT_ARM_FWU_FIP_SIZE P)) S = Inr (IO_SUCCESS, S1)" "idle n S1" "ram S1 = ram S"
    using open_memmap_spec [OF assms] by blast
  have src: "plat_get_image_source P FWU_FIP_IMAGE_ID S
      = Inr (IO_SUCCESS, Some (Some Memmap, BlockSpec (PLAT_ARM_FWU_FIP_BASE P) (PLAT_ARM_FWU_FIP_SIZE P)), S1)"
    using S1(1,2) by (simp add: plat_get_image_source_def image_source_by_def policies_nth policy_handle_def idle_def)
  have q: "quiet n 0 S1" "0 < n" using S1(2) by (auto simp: idle_def)
  obtain T where T: "io_open_by driver_open (Some Memmap) (Some (BlockSpec (PLAT_ARM_FWU_FIP_BASE P) (PLAT_ARM_FWU_FIP_SIZE P))) S1 = Inr (IO_SUCCESS, Some 0, T)"
    "mm_open n 0 T" "keep 0 S1 T" "ram T = ram S1"
    using memmap_open_spec [OF q, of driver_open "PLAT_ARM_FWU_FIP_BASE P" "PLAT_ARM_FWU_FIP_SIZE P"] by (auto simp: driver_open_def)
  obtain S' where S': "io_close (Some 0) T = Inr (IO_SUCCESS, S')" "quiet n 0 S'" "keep 0 T S'" "ram S' = ram T" by (rule memmap_close_spec [OF T(2)])
  note f = io_open_def io_size_def valid_entity_mm [OF T(2)] io_dev_close_def memmap_dev_close_def
  have 1: "get_image_size P FWU_FIP_IMAGE_ID S = Inl Uninitialised" using src T(1) S'(1) by (simp add: get_image_size_def f)
  have 2: "load_image P FWU_FIP_IMAGE_ID dst S = Inr (IO_NOT_SUPPORTED, S')" using src T(1) S'(1) by (simp add: load_image_def f)
  have "idle n S'" using S' T(3) S1(2) by (auto simp: idle_def keep_def)
  moreover have "get_image_name FWU_FIP_IMAGE_ID = Inl OutOfBounds"
    "get_image_name NS_BL2U_IMAGE_ID = Inr ''Non-Trusted Updater Firmware (NS_BL2U)FWU Firmware Image Package''"
    by (simp_all add: get_image_name_def image_names_def aget_def)
  ultimately show ?thesis using 1 2 S'(4) T(4) S1(3) by auto
qed

theorem package_image_queries_witness:
  "\<exists>S. plat_arm_fwu_io_setup (io_reset_state fvp_io demo_fip_mem) = Inr S \<and> get_image_size fvp_io FWU_FIP_IMAGE_ID S = Inl Uninitialised"
proof -
  obtain S where S: "plat_arm_fwu_io_setup (io_reset_state fvp_io demo_fip_mem) = Inr S" "idle 2 S" by (rule demo_io)
  show ?thesis using S(1) package_image_queries [OF S(2)] by blast
qed

end
