(* ===== verification/Tftf_Topology.thy ===== *)
theory Tftf_Topology
  imports Tftf_Prelude
begin

text \<open>
  The power domain tree (\<open>src/plat/common/plat_topology.c\<close>) and its FVP description
  (\<open>src/plat/arm/fvp/fvp_topology.c\<close>).

  The nodes are stored level by level, the highest first, so the CPUs come last.
  \<open>topo_env\<close> has the platform constants, the tree descriptor and the platform functions;
  \<open>topology\<close> the static data of the file. The indices handed out are 32-bit words, with
  \<open>PWR_DOMAIN_INIT\<close> (all ones) for none.
\<close>

abbreviation (input) PWR_DOMAIN_INIT :: u32 where "PWR_DOMAIN_INIT \<equiv> -1"
abbreviation (input) INVALID_MPID :: u32 where "INVALID_MPID \<equiv> 0xFFFFFFFF"

section \<open>State\<close>

record pd_node =
  cpu_start_node :: u32
  ncpus :: u32
  mpidr :: u32
  parent_node :: u32
  level :: u32
  is_present :: bool

record topology =
  topology_setup_done :: bool
  tftf_pwr_domain_start_idx :: "u32 list"
  tftf_pd_nodes :: "pd_node list"

record topo_env =
  PLATFORM_NUM_AFFS :: u32
  PLATFORM_CORE_COUNT :: u32
  PLATFORM_MAX_AFFLVL :: nat
  pwr_domain_tree_desc :: "u8 list"
  plat_get_mpidr :: "u32 \<Rightarrow> u64 res"
  platform_get_core_pos :: "u32 \<Rightarrow> u32"

section \<open>Building the tree\<close>

definition init_node :: "topo_env \<Rightarrow> nat \<Rightarrow> u32 \<Rightarrow> u32 \<Rightarrow> topology \<Rightarrow> topology res" where
  "init_node E lvl parent_idx j T =
     andthen (aget (tftf_pd_nodes T) (unat j)) (\<lambda>n.
     let n = n\<lparr>parent_node := parent_idx - 1, level := of_nat lvl\<rparr> in
     andthen
       (if lvl = 0
        then andthen (aget (tftf_pwr_domain_start_idx T) 0) (\<lambda>s.
             let cpu_id = j - s in
             andthen (assert_c (cpu_id < PLATFORM_CORE_COUNT E)) (\<lambda>_.
             andthen (plat_get_mpidr E cpu_id) (\<lambda>plat_mpidr.
             let mp = (ucast plat_mpidr :: u32);
                 n = n\<lparr>mpidr := mp\<rparr>;
                 n = (if mp \<noteq> INVALID_MPID then n\<lparr>is_present := True\<rparr> else n)
             in Inr (n\<lparr>cpu_start_node := j, ncpus := 1\<rparr>))))
        else Inr n) (\<lambda>n.
     andthen (aput (tftf_pd_nodes T) (unat j) n) (\<lambda>ns.
     Inr (T\<lparr>tftf_pd_nodes := ns\<rparr>))))"

fun init_children :: "topo_env \<Rightarrow> nat \<Rightarrow> u32 \<Rightarrow> u32 \<Rightarrow> nat \<Rightarrow> topology \<Rightarrow> topology res" where
  "init_children E lvl parent_idx j 0 T = Inr T"
| "init_children E lvl parent_idx j (Suc n) T =
     andthen (init_node E lvl parent_idx j T) (init_children E lvl parent_idx (j + 1) n)"

text \<open>The parents of one level: next free node, next parent, children so far.\<close>

fun init_parents ::
  "topo_env \<Rightarrow> nat \<Rightarrow> nat \<Rightarrow> u32 \<Rightarrow> u32 \<Rightarrow> u32 \<Rightarrow> topology \<Rightarrow> (u32 \<times> u32 \<times> u32 \<times> topology) res" where
  "init_parents E lvl 0 node_index parent_idx next_lvl T = Inr (node_index, parent_idx, next_lvl, T)"
| "init_parents E lvl (Suc n) node_index parent_idx next_lvl T =
     andthen (assert_c (parent_idx \<le> PLATFORM_NUM_AFFS E - PLATFORM_CORE_COUNT E)) (\<lambda>_.
     andthen (aget (pwr_domain_tree_desc E) (unat parent_idx)) (\<lambda>num_children.
     andthen (init_children E lvl parent_idx node_index (unat num_children) T) (\<lambda>T.
     init_parents E lvl n (node_index + ucast num_children) (parent_idx + 1)
       (next_lvl + ucast num_children) T)))"

definition init_level ::
  "topo_env \<Rightarrow> nat \<Rightarrow> u32 \<times> u32 \<times> u32 \<times> topology \<Rightarrow> (u32 \<times> u32 \<times> u32 \<times> topology) res" where
  "init_level E lvl = (\<lambda>(node_index, parent_idx, num_nodes, T).
     andthen (aput (tftf_pwr_domain_start_idx T) lvl node_index) (\<lambda>st.
     init_parents E lvl (unat num_nodes) node_index parent_idx 0 (T\<lparr>tftf_pwr_domain_start_idx := st\<rparr>)))"

fun init_levels ::
  "topo_env \<Rightarrow> nat \<Rightarrow> u32 \<times> u32 \<times> u32 \<times> topology \<Rightarrow> (u32 \<times> u32 \<times> u32 \<times> topology) res" where
  "init_levels E 0 X = init_level E 0 X"
| "init_levels E (Suc lvl) X = andthen (init_level E (Suc lvl) X) (init_levels E lvl)"

definition populate_power_domain_tree :: "topo_env \<Rightarrow> topology \<Rightarrow> topology res" where
  "populate_power_domain_tree E T =
     andthen (init_levels E (PLATFORM_MAX_AFFLVL E) (0, 0, 1, T)) (\<lambda>(j, _, _, T).
     andthen (assert_c (j = PLATFORM_NUM_AFFS E)) (\<lambda>_. Inr T))"

text \<open>The chain of parents, \<open>end_lvl\<close> of them.\<close>

fun parent_chain :: "pd_node list \<Rightarrow> u32 \<Rightarrow> nat \<Rightarrow> u32 list res" where
  "parent_chain ns parent 0 = Inr []"
| "parent_chain ns parent (Suc n) =
     andthen (aget ns (unat parent)) (\<lambda>p.
     andthen (parent_chain ns (parent_node p) n) (\<lambda>r. Inr (parent # r)))"

definition get_parent_pwr_domain_nodes :: "topology \<Rightarrow> u32 \<Rightarrow> nat \<Rightarrow> u32 list res" where
  "get_parent_pwr_domain_nodes T cpu_node end_lvl =
     andthen (aget (tftf_pd_nodes T) (unat cpu_node)) (\<lambda>c.
     parent_chain (tftf_pd_nodes T) (parent_node c) end_lvl)"

definition count_cpu :: "u32 \<Rightarrow> bool \<Rightarrow> u32 \<Rightarrow> u32 \<Rightarrow> pd_node list \<Rightarrow> pd_node list res" where
  "count_cpu cpu_node present temp node ns =
     andthen (aget ns (unat temp)) (\<lambda>p.
     let p = (if temp \<noteq> node
              then (let p = p\<lparr>cpu_start_node := cpu_node\<rparr>
                    in if \<not> is_present p then p\<lparr>is_present := present\<rparr> else p)
              else p)
     in aput ns (unat temp) (p\<lparr>ncpus := ncpus p + 1\<rparr>))"

text \<open>The inner loop runs from the highest level down; the argument lists are reversed.\<close>

fun count_levels :: "u32 \<Rightarrow> bool \<Rightarrow> u32 list \<Rightarrow> u32 list \<Rightarrow> pd_node list \<Rightarrow> pd_node list res" where
  "count_levels cpu_node present (t # ts) (n # ns) nodes =
     andthen (count_cpu cpu_node present t n nodes) (count_levels cpu_node present ts ns)"
| "count_levels cpu_node present _ _ nodes = Inr nodes"

fun count_cpus :: "topo_env \<Rightarrow> u32 \<Rightarrow> nat \<Rightarrow> u32 list \<Rightarrow> topology \<Rightarrow> topology res" where
  "count_cpus E cpu_node 0 nodes_idx T = Inr T"
| "count_cpus E cpu_node (Suc n) nodes_idx T =
     andthen (get_parent_pwr_domain_nodes T cpu_node (PLATFORM_MAX_AFFLVL E)) (\<lambda>temp_index.
     andthen (aget (tftf_pd_nodes T) (unat cpu_node)) (\<lambda>c.
     andthen (count_levels cpu_node (is_present c) (rev temp_index) (rev nodes_idx) (tftf_pd_nodes T)) (\<lambda>ns.
     count_cpus E (cpu_node + 1) n temp_index (T\<lparr>tftf_pd_nodes := ns\<rparr>))))"

definition update_pwrlvl_limits :: "topo_env \<Rightarrow> topology \<Rightarrow> topology res" where
  "update_pwrlvl_limits E T =
     andthen (aget (tftf_pwr_domain_start_idx T) 0) (\<lambda>cpu_node_offset.
     count_cpus E cpu_node_offset (unat (PLATFORM_CORE_COUNT E))
       (replicate (PLATFORM_MAX_AFFLVL E) (-1)) T)"

definition tftf_init_topology :: "topo_env \<Rightarrow> topology \<Rightarrow> topology res" where
  "tftf_init_topology E T =
     andthen (populate_power_domain_tree E T) (\<lambda>T.
     andthen (update_pwrlvl_limits E T) (\<lambda>T.
     Inr (T\<lparr>topology_setup_done := True\<rparr>)))"

section \<open>Queries\<close>

definition cpu_index_is_valid :: "topo_env \<Rightarrow> topology \<Rightarrow> u32 \<Rightarrow> bool res" where
  "cpu_index_is_valid E T cpu_idx =
     andthen (aget (tftf_pwr_domain_start_idx T) 0) (\<lambda>s. Inr (cpu_idx - s < PLATFORM_CORE_COUNT E))"

definition cpu_node_is_valid :: "topo_env \<Rightarrow> topology \<Rightarrow> u32 \<Rightarrow> bool res" where
  "cpu_node_is_valid E T cpu_node =
     andthen (cpu_index_is_valid E T cpu_node) (\<lambda>v.
     if v then andthen (aget (tftf_pd_nodes T) (unat cpu_node)) (\<lambda>n. Inr (level n = 0)) else Inr False)"

text \<open>Counting the present nodes of a level, from a start index.\<close>

fun count_present :: "pd_node list \<Rightarrow> u32 \<Rightarrow> u32 \<Rightarrow> u32" where
  "count_present [] lvl count = count"
| "count_present (n # ns) lvl count =
     (if level n = lvl then count_present ns lvl (if is_present n then count + 1 else count) else count)"

definition tftf_get_total_aff_count :: "topo_env \<Rightarrow> topology \<Rightarrow> u32 \<Rightarrow> u32 res" where
  "tftf_get_total_aff_count E T aff_lvl =
     andthen (assert_c (topology_setup_done T)) (\<lambda>_.
     if PLATFORM_MAX_AFFLVL E < unat aff_lvl then Inr 0
     else andthen (aget (tftf_pwr_domain_start_idx T) (unat aff_lvl)) (\<lambda>s.
          Inr (count_present (drop (unat s) (take (unat (PLATFORM_NUM_AFFS E)) (tftf_pd_nodes T))) aff_lvl 0)))"

text \<open>The first present node in a stretch of \<open>n\<close> nodes, while \<open>ok\<close> holds.\<close>

fun next_present :: "(pd_node \<Rightarrow> bool) \<Rightarrow> pd_node list \<Rightarrow> u32 \<Rightarrow> nat \<Rightarrow> u32 res" where
  "next_present ok ns j 0 = Inr PWR_DOMAIN_INIT"
| "next_present ok ns j (Suc n) =
     andthen (aget ns (unat j)) (\<lambda>x.
     if \<not> ok x then Inr PWR_DOMAIN_INIT
     else if is_present x then Inr j else next_present ok ns (j + 1) n)"

definition next_peer_from :: "topo_env \<Rightarrow> topology \<Rightarrow> u32 \<Rightarrow> u32 \<Rightarrow> u32 res" where
  "next_peer_from E T pwr_lvl idx =
     andthen (assert_c (idx < PLATFORM_NUM_AFFS E)) (\<lambda>_.
     andthen (aget (tftf_pd_nodes T) (unat idx)) (\<lambda>n.
     andthen (assert_c (level n = pwr_lvl)) (\<lambda>_.
     next_present (\<lambda>x. level x = pwr_lvl) (tftf_pd_nodes T) (idx + 1)
       (unat (PLATFORM_NUM_AFFS E) - unat (idx + 1)))))"

definition tftf_get_next_peer_domain :: "topo_env \<Rightarrow> topology \<Rightarrow> u32 \<Rightarrow> u32 \<Rightarrow> u32 res" where
  "tftf_get_next_peer_domain E T pwr_domain_idx pwr_lvl =
     andthen (assert_c (topology_setup_done T)) (\<lambda>_.
     andthen (assert_c (unat pwr_lvl \<le> PLATFORM_MAX_AFFLVL E)) (\<lambda>_.
     if pwr_domain_idx = PWR_DOMAIN_INIT
     then andthen (aget (tftf_pwr_domain_start_idx T) (unat pwr_lvl)) (\<lambda>s.
          andthen (aget (tftf_pd_nodes T) (unat s)) (\<lambda>n.
          if is_present n then Inr s else next_peer_from E T pwr_lvl s))
     else next_peer_from E T pwr_lvl pwr_domain_idx))"

definition next_cpu_in_from :: "topo_env \<Rightarrow> topology \<Rightarrow> pd_node \<Rightarrow> u32 \<Rightarrow> u32 res" where
  "next_cpu_in_from E T d cpu_node =
     andthen (cpu_node_is_valid E T cpu_node) (\<lambda>v.
     andthen (assert_c v) (\<lambda>_.
     let cpu_end_node = cpu_start_node d + ncpus d - 1 in
     andthen (assert_c (cpu_end_node < PLATFORM_NUM_AFFS E)) (\<lambda>_.
     next_present (\<lambda>_. True) (tftf_pd_nodes T) (cpu_node + 1)
       (unat cpu_end_node + 1 - unat (cpu_node + 1)))))"

definition tftf_get_next_cpu_in_pwr_domain :: "topo_env \<Rightarrow> topology \<Rightarrow> u32 \<Rightarrow> u32 \<Rightarrow> u32 res" where
  "tftf_get_next_cpu_in_pwr_domain E T pwr_domain_idx cpu_node =
     andthen (assert_c (topology_setup_done T)) (\<lambda>_.
     andthen (assert_c (pwr_domain_idx \<noteq> PWR_DOMAIN_INIT \<and> pwr_domain_idx < PLATFORM_NUM_AFFS E)) (\<lambda>_.
     andthen (aget (tftf_pd_nodes T) (unat pwr_domain_idx)) (\<lambda>d.
     if cpu_node = PWR_DOMAIN_INIT
     then andthen (aget (tftf_pd_nodes T) (unat (cpu_start_node d))) (\<lambda>n.
          if is_present n then Inr (cpu_start_node d)
          else next_cpu_in_from E T d (cpu_start_node d))
     else next_cpu_in_from E T d cpu_node)))"

definition next_cpu_from :: "topo_env \<Rightarrow> topology \<Rightarrow> u32 \<Rightarrow> u32 res" where
  "next_cpu_from E T cpu_node =
     andthen (cpu_node_is_valid E T cpu_node) (\<lambda>v.
     andthen (assert_c v) (\<lambda>_.
     next_present (\<lambda>_. True) (tftf_pd_nodes T) (cpu_node + 1)
       (unat (PLATFORM_NUM_AFFS E) - unat (cpu_node + 1))))"

definition tftf_topology_next_cpu :: "topo_env \<Rightarrow> topology \<Rightarrow> u32 \<Rightarrow> u32 res" where
  "tftf_topology_next_cpu E T cpu_node =
     andthen (assert_c (topology_setup_done T)) (\<lambda>_.
     if cpu_node = PWR_DOMAIN_INIT
     then andthen (aget (tftf_pwr_domain_start_idx T) 0) (\<lambda>s.
          andthen (aget (tftf_pd_nodes T) (unat s)) (\<lambda>n.
          if is_present n then Inr s else next_cpu_from E T s))
     else next_cpu_from E T cpu_node)"

text \<open>
  The nodes \<open>for_each_cpu\<close> visits, in order. The fuel is one more than the number of nodes;
  \<open>Hang\<close> stands for a loop that has not ended by then.
\<close>

fun for_each_cpu_from :: "topo_env \<Rightarrow> topology \<Rightarrow> nat \<Rightarrow> u32 \<Rightarrow> u32 list res" where
  "for_each_cpu_from E T 0 cpu = Inl Hang"
| "for_each_cpu_from E T (Suc fuel) cpu =
     (if cpu = PWR_DOMAIN_INIT then Inr []
      else andthen (tftf_topology_next_cpu E T cpu) (\<lambda>nxt.
           andthen (for_each_cpu_from E T fuel nxt) (\<lambda>rest. Inr (cpu # rest))))"

definition for_each_cpu :: "topo_env \<Rightarrow> topology \<Rightarrow> u32 list res" where
  "for_each_cpu E T =
     andthen (tftf_topology_next_cpu E T PWR_DOMAIN_INIT)
       (for_each_cpu_from E T (unat (PLATFORM_NUM_AFFS E) + 1))"

fun nth_parent :: "pd_node list \<Rightarrow> u32 \<Rightarrow> nat \<Rightarrow> u32 res" where
  "nth_parent ns node 0 = Inr node"
| "nth_parent ns node (Suc n) =
     andthen (aget ns (unat node)) (\<lambda>x. nth_parent ns (parent_node x) n)"

definition tftf_get_parent_node_from_mpidr :: "topo_env \<Rightarrow> topology \<Rightarrow> u32 \<Rightarrow> nat \<Rightarrow> u32 res" where
  "tftf_get_parent_node_from_mpidr E T mp pwrlvl =
     (let core_pos = platform_get_core_pos E mp
      in if PLATFORM_CORE_COUNT E \<le> core_pos then Inr PWR_DOMAIN_INIT
         else if PLATFORM_MAX_AFFLVL E < pwrlvl then Inr PWR_DOMAIN_INIT
         else andthen (aget (tftf_pwr_domain_start_idx T) 0) (\<lambda>s.
              nth_parent (tftf_pd_nodes T) (s + core_pos) pwrlvl))"

definition tftf_get_mpidr_from_node :: "topo_env \<Rightarrow> topology \<Rightarrow> u32 \<Rightarrow> u32 res" where
  "tftf_get_mpidr_from_node E T cpu_node =
     andthen (assert_c (topology_setup_done T)) (\<lambda>_.
     andthen (cpu_node_is_valid E T cpu_node) (\<lambda>v.
     andthen (assert_c v) (\<lambda>_.
     andthen (aget (tftf_pd_nodes T) (unat cpu_node)) (\<lambda>n.
     Inr (if is_present n then mpidr n else INVALID_MPID)))))"

fun find_other :: "topo_env \<Rightarrow> topology \<Rightarrow> u32 \<Rightarrow> u32 list \<Rightarrow> u32 res" where
  "find_other E T exclude_mpid [] = Inr INVALID_MPID"
| "find_other E T exclude_mpid (c # cs) =
     andthen (tftf_get_mpidr_from_node E T c) (\<lambda>mp.
     if mp \<noteq> exclude_mpid then Inr mp else find_other E T exclude_mpid cs)"

definition tftf_find_any_cpu_other_than :: "topo_env \<Rightarrow> topology \<Rightarrow> u32 \<Rightarrow> u32 res" where
  "tftf_find_any_cpu_other_than E T exclude_mpid =
     andthen (for_each_cpu E T) (find_other E T exclude_mpid)"

fun find_other_cluster :: "topo_env \<Rightarrow> topology \<Rightarrow> u32 \<Rightarrow> u32 list \<Rightarrow> u32 res" where
  "find_other_cluster E T exclude_cluster_node [] = Inr INVALID_MPID"
| "find_other_cluster E T exclude_cluster_node (c # cs) =
     andthen (tftf_get_mpidr_from_node E T c) (\<lambda>mp.
     andthen (tftf_get_parent_node_from_mpidr E T mp 1) (\<lambda>cluster_node.
     if cluster_node \<noteq> exclude_cluster_node then Inr mp
     else find_other_cluster E T exclude_cluster_node cs))"

definition tftf_find_any_cpu_in_other_cluster :: "topo_env \<Rightarrow> topology \<Rightarrow> u32 \<Rightarrow> u32 res" where
  "tftf_find_any_cpu_in_other_cluster E T exclude_mpid =
     andthen (tftf_get_parent_node_from_mpidr E T exclude_mpid 1) (\<lambda>exclude_cluster_node.
     andthen (for_each_cpu E T) (find_other_cluster E T exclude_cluster_node))"

fun possible_cpus :: "topo_env \<Rightarrow> topology \<Rightarrow> u32 \<Rightarrow> u32 list \<Rightarrow> u32 list res" where
  "possible_cpus E T exclude_mpid [] = Inr []"
| "possible_cpus E T exclude_mpid (c # cs) =
     andthen (tftf_get_mpidr_from_node E T c) (\<lambda>mp.
     andthen (possible_cpus E T exclude_mpid cs) (\<lambda>r.
     Inr (if mp \<noteq> exclude_mpid then mp # r else r)))"

text \<open>\<open>rnd\<close> is what \<open>rand()\<close> returns.\<close>

definition tftf_find_random_cpu_other_than :: "topo_env \<Rightarrow> topology \<Rightarrow> nat \<Rightarrow> u32 \<Rightarrow> u32 res" where
  "tftf_find_random_cpu_other_than E T rnd exclude_mpid =
     (if PLATFORM_CORE_COUNT E = 1 then Inr INVALID_MPID
      else andthen (for_each_cpu E T) (\<lambda>cs.
           andthen (possible_cpus E T exclude_mpid cs) (\<lambda>ps.
           if ps = [] then Inr INVALID_MPID else aget ps (rnd mod length ps))))"

section \<open>Iterating over the CPUs\<close>

definition topo_ok :: "topo_env \<Rightarrow> topology \<Rightarrow> bool" where
  "topo_ok E T \<longleftrightarrow> topology_setup_done T \<and> tftf_pwr_domain_start_idx T \<noteq> []
     \<and> length (tftf_pd_nodes T) = unat (PLATFORM_NUM_AFFS E) \<and> unat (PLATFORM_NUM_AFFS E) < 2 ^ 32 - 1
     \<and> 0 < PLATFORM_CORE_COUNT E
     \<and> unat (tftf_pwr_domain_start_idx T ! 0) + unat (PLATFORM_CORE_COUNT E) = unat (PLATFORM_NUM_AFFS E)
     \<and> (\<forall>i. unat (tftf_pwr_domain_start_idx T ! 0) \<le> i \<longrightarrow> i < unat (PLATFORM_NUM_AFFS E) \<longrightarrow>
          level (tftf_pd_nodes T ! i) = 0)"

text \<open>The present CPU nodes, in order.\<close>

definition present_cpus :: "topo_env \<Rightarrow> topology \<Rightarrow> nat \<Rightarrow> nat list" where
  "present_cpus E T k = filter (\<lambda>i. is_present (tftf_pd_nodes T ! i)) [k..<unat (PLATFORM_NUM_AFFS E)]"

definition first_or_init :: "nat list \<Rightarrow> u32" where
  "first_or_init is = (case is of [] \<Rightarrow> PWR_DOMAIN_INIT | i # _ \<Rightarrow> of_nat i)"

lemma unat_of_nat_word32: "n < 2 ^ 32 \<Longrightarrow> unat (of_nat n :: u32) = n"
  by (simp add: unat_of_nat take_bit_nat_eq_self)

lemma next_present_eq:
  assumes "unat j + n \<le> length ns" "length ns < 2 ^ 32"
  shows "next_present (\<lambda>_. True) ns j n
    = Inr (first_or_init (filter (\<lambda>i. is_present (ns ! i)) [unat j..<unat j + n]))"
  using assms
proof (induction n arbitrary: j)
  case 0
  then show ?case by (simp add: first_or_init_def)
next
  case (Suc n)
  have j: "unat j < length ns" using Suc.prems by simp
  have "unat (j + 1) = Suc (unat j)"
    using Suc.prems unat_add_no_wrap [of j 1] by simp
  then have IH: "next_present (\<lambda>_. True) ns (j + 1) n
      = Inr (first_or_init (filter (\<lambda>i. is_present (ns ! i)) [Suc (unat j)..<Suc (unat j) + n]))"
    using Suc.IH [of "j + 1"] Suc.prems by simp
  have up: "[unat j..<unat j + Suc n] = unat j # [Suc (unat j)..<Suc (unat j) + n]"
    by (simp add: upt_conv_Cons del: upt_Suc)
  show ?case using j IH unfolding up by (simp add: first_or_init_def del: upt_Suc)
qed

lemma next_cpu_from_eq:
  assumes ok: "topo_ok E T" and i: "unat (tftf_pwr_domain_start_idx T ! 0) \<le> i" "i < unat (PLATFORM_NUM_AFFS E)"
  shows "next_cpu_from E T (of_nat i) = Inr (first_or_init (present_cpus E T (Suc i)))"
proof -
  let ?s = "tftf_pwr_domain_start_idx T ! 0" and ?N = "unat (PLATFORM_NUM_AFFS E)"
  have N: "?N < 2 ^ 32 - 1" and len: "length (tftf_pd_nodes T) = ?N"
    and cnt: "unat ?s + unat (PLATFORM_CORE_COUNT E) = ?N"
    using ok by (auto simp: topo_ok_def)
  have u: "unat (of_nat i :: u32) = i" "unat (of_nat i + 1 :: u32) = Suc i"
  proof -
    show "unat (of_nat i :: u32) = i" using i N by (intro unat_of_nat_word32) simp
    have "unat (of_nat (Suc i) :: u32) = Suc i" using i N by (intro unat_of_nat_word32) simp
    then show "unat (of_nat i + 1 :: u32) = Suc i" by (simp add: add.commute)
  qed
  have "?s \<le> of_nat i" using i(1) u(1) by (simp add: word_le_nat_alt)
  then have "unat (of_nat i - ?s) = i - unat ?s" using u(1) by (simp add: unat_sub_le)
  then have "of_nat i - ?s < PLATFORM_CORE_COUNT E"
    using i cnt by (simp add: word_less_nat_alt)
  moreover have "tftf_pwr_domain_start_idx T \<noteq> []" "level (tftf_pd_nodes T ! i) = 0"
    using ok i by (auto simp: topo_ok_def)
  ultimately have "cpu_node_is_valid E T (of_nat i) = Inr True"
    using i len u by (simp add: cpu_node_is_valid_def cpu_index_is_valid_def)
  moreover have "next_present (\<lambda>_. True) (tftf_pd_nodes T) (of_nat i + 1) (?N - Suc i)
      = Inr (first_or_init (present_cpus E T (Suc i)))"
    using next_present_eq [of "of_nat i + 1" "?N - Suc i" "tftf_pd_nodes T"] u len N i
    by (simp add: present_cpus_def)
  ultimately show ?thesis using u by (simp add: next_cpu_from_def)
qed

lemma of_nat_not_init: "n < 2 ^ 32 - 1 \<Longrightarrow> (of_nat n :: u32) \<noteq> PWR_DOMAIN_INIT"
proof
  assume n: "n < 2 ^ 32 - 1" and "(of_nat n :: u32) = - 1"
  moreover have "unat (of_nat n :: u32) = n" using n by (intro unat_of_nat_word32) simp
  ultimately have "n = unat (- 1 :: u32)" by simp
  then show False using n by (simp add: unsigned_minus_1_eq_mask mask_eq_exp_minus_1)
qed

lemma for_each_cpu_from_eq:
  assumes ok: "topo_ok E T"
  shows "unat (tftf_pwr_domain_start_idx T ! 0) \<le> k \<Longrightarrow> length (present_cpus E T k) < fuel \<Longrightarrow>
    for_each_cpu_from E T fuel (first_or_init (present_cpus E T k))
      = Inr (map of_nat (present_cpus E T k))"
proof (induction fuel arbitrary: k)
  case (Suc fuel)
  show ?case
  proof (cases "present_cpus E T k")
    case Nil
    then show ?thesis by (simp add: first_or_init_def)
  next
    case (Cons i "is")
    note f = filter_upt_Cons [OF Cons [unfolded present_cpus_def]]
    have is_: "is = present_cpus E T (Suc i)" using f(4) by (simp add: present_cpus_def)
    have i: "unat (tftf_pwr_domain_start_idx T ! 0) \<le> i" "i < unat (PLATFORM_NUM_AFFS E)"
      using f Suc.prems by auto
    have ni: "(of_nat i :: u32) \<noteq> PWR_DOMAIN_INIT"
      using i ok by (intro of_nat_not_init) (auto simp: topo_ok_def)
    have "tftf_topology_next_cpu E T (of_nat i) = Inr (first_or_init is)"
      using next_cpu_from_eq [OF ok i] ni ok is_ by (simp add: tftf_topology_next_cpu_def topo_ok_def)
    moreover have "for_each_cpu_from E T fuel (first_or_init is) = Inr (map of_nat is)"
      unfolding is_ using Suc.prems Cons i is_ by (intro Suc.IH) auto
    ultimately show ?thesis using Cons ni by (simp add: first_or_init_def)
  qed
qed simp

lemma for_each_cpu_eq:
  assumes "topo_ok E T"
  shows "for_each_cpu E T
    = Inr (map of_nat (present_cpus E T (unat (tftf_pwr_domain_start_idx T ! 0))))"
proof -
  let ?s = "unat (tftf_pwr_domain_start_idx T ! 0)" and ?N = "unat (PLATFORM_NUM_AFFS E)"
  have s: "?s < ?N" "length (tftf_pd_nodes T) = ?N" "topology_setup_done T"
    "tftf_pwr_domain_start_idx T \<noteq> []"
    using assms by (auto simp: topo_ok_def word_less_nat_alt)
  have "next_cpu_from E T (of_nat ?s) = Inr (first_or_init (present_cpus E T (Suc ?s)))"
    using next_cpu_from_eq [OF assms _ s(1)] by simp
  then have "tftf_topology_next_cpu E T PWR_DOMAIN_INIT = Inr (first_or_init (present_cpus E T ?s))"
    using s by (simp add: tftf_topology_next_cpu_def present_cpus_def upt_conv_Cons first_or_init_def)
  moreover have "length (present_cpus E T ?s) \<le> ?N"
    unfolding present_cpus_def by (rule le_trans [OF length_filter_le]) simp
  ultimately show ?thesis
    using for_each_cpu_from_eq [OF assms, of ?s "?N + 1"] by (simp add: for_each_cpu_def)
qed

text \<open>C12: \<open>for_each_cpu\<close> terminates and visits exactly the present CPUs, each once and in
  increasing order, whichever of them are present.\<close>

theorem for_each_cpu_visits:
  assumes "topo_ok E T"
  shows "for_each_cpu E T
    = Inr (map of_nat (present_cpus E T (unat (tftf_pwr_domain_start_idx T ! 0))))"
  using assms by (rule for_each_cpu_eq)

end
