(* ===== verification/Tftf_Fvp.thy ===== *)
theory Tftf_Fvp
  imports Tftf_Topology
begin

text \<open>
  The FVP platform's CPU tables and its power domain tree (\<open>src/plat/arm/fvp/fvp_topology.c\<close>,
  \<open>src/plat/arm/fvp/aarch64/plat_helpers.S\<close>, \<open>make_mpid\<close> of \<open>src/include/lib/tftf_lib.h\<close>):
  what \<open>tftf_init_topology\<close> builds for any number of clusters and of CPUs and threads per
  cluster, and which of the CPUs are there.

  \<open>mt\<close> is the MT bit of the running CPU's MPIDR, \<open>psysr\<close> what the FVP power controller answers
  for an MPIDR.
\<close>

section \<open>The platform\<close>

record fvp_cfg =
  FVP_CLUSTER_COUNT :: nat
  FVP_MAX_CPUS_PER_CLUSTER :: nat
  FVP_MAX_PE_PER_CPU :: nat
  mt :: bool
  psysr :: "u32 \<Rightarrow> u32"

abbreviation (input) MPIDR_MT_MASK :: u32 where "MPIDR_MT_MASK \<equiv> push_bit 24 1"
abbreviation (input) MPIDR_AFFLVL_MASK :: u32 where "MPIDR_AFFLVL_MASK \<equiv> 0xff"
abbreviation (input) PSYSR_INVALID :: u32 where "PSYSR_INVALID \<equiv> 0xffffffff"

text \<open>The thread is left out of the MPID when there is one thread per CPU.\<close>

definition make_mpid :: "fvp_cfg \<Rightarrow> u32 \<Rightarrow> u32 \<Rightarrow> u32 \<Rightarrow> u32" where
  "make_mpid P clusterid coreid threadid =
     (if mt P
      then MPIDR_MT_MASK
        OR (if FVP_MAX_PE_PER_CPU P > 1 then push_bit 0 (threadid AND MPIDR_AFFLVL_MASK) else 0)
        OR push_bit 8 (coreid AND MPIDR_AFFLVL_MASK) OR push_bit 16 (clusterid AND MPIDR_AFFLVL_MASK)
      else push_bit 0 (coreid AND MPIDR_AFFLVL_MASK) OR push_bit 8 (clusterid AND MPIDR_AFFLVL_MASK))"

text \<open>\<open>CPU_DEF\<close>, \<open>CLUSTER_DEF\<close> and the table of cores.\<close>

definition cpu_def :: "fvp_cfg \<Rightarrow> nat \<Rightarrow> nat \<Rightarrow> (nat \<times> nat \<times> nat) list" where
  "cpu_def P cluster cpu = map (\<lambda>thread. (cluster, cpu, thread)) [0..<FVP_MAX_PE_PER_CPU P]"

definition cluster_def :: "fvp_cfg \<Rightarrow> nat \<Rightarrow> (nat \<times> nat \<times> nat) list" where
  "cluster_def P cluster = concat (map (cpu_def P cluster) [0..<FVP_MAX_CPUS_PER_CLUSTER P])"

definition fvp_base_aemv8a_aemv8a_cores :: "fvp_cfg \<Rightarrow> (nat \<times> nat \<times> nat) list" where
  "fvp_base_aemv8a_aemv8a_cores P = concat (map (cluster_def P) [0..<FVP_CLUSTER_COUNT P])"

abbreviation fvp_per_cluster :: "fvp_cfg \<Rightarrow> nat" where
  "fvp_per_cluster P \<equiv> FVP_MAX_CPUS_PER_CLUSTER P * FVP_MAX_PE_PER_CPU P"

definition fvp_core_count :: "fvp_cfg \<Rightarrow> nat" where
  "fvp_core_count P = FVP_CLUSTER_COUNT P * FVP_MAX_CPUS_PER_CLUSTER P * FVP_MAX_PE_PER_CPU P"

definition fvp_power_domain_tree_desc :: "fvp_cfg \<Rightarrow> u8 list" where
  "fvp_power_domain_tree_desc P =
     1 # of_nat (FVP_CLUSTER_COUNT P) # replicate (FVP_CLUSTER_COUNT P) (of_nat (fvp_per_cluster P))"

definition tftf_plat_get_mpidr :: "fvp_cfg \<Rightarrow> u32 \<Rightarrow> u64 res" where
  "tftf_plat_get_mpidr P core_pos =
     andthen (assert_c (unat core_pos < fvp_core_count P)) (\<lambda>_.
     andthen (aget (fvp_base_aemv8a_aemv8a_cores P) (unat core_pos)) (\<lambda>(cluster, cpu, thread).
     let mpid = make_mpid P (of_nat cluster) (of_nat cpu) (of_nat thread)
     in Inr (if psysr P mpid \<noteq> PSYSR_INVALID then ucast mpid else ucast INVALID_MPID)))"

definition fvp_platform_get_core_pos :: "fvp_cfg \<Rightarrow> u64 \<Rightarrow> u64" where
  "fvp_platform_get_core_pos P mpid =
     (let x3 = (if mpid AND push_bit 24 1 = 0 then push_bit 8 mpid else mpid);
          aff0 = x3 AND 0xff; aff1 = drop_bit 8 x3 AND 0xff; aff2 = drop_bit 16 x3 AND 0xff
      in (aff2 * of_nat (FVP_MAX_CPUS_PER_CLUSTER P) + aff1) * of_nat (FVP_MAX_PE_PER_CPU P) + aff0)"

text \<open>The weak definitions of \<open>plat_topology.c\<close> and FVP's own.\<close>

definition mpidr_aff_id :: "u32 \<Rightarrow> nat \<Rightarrow> u32" where
  "mpidr_aff_id mpid n = drop_bit (8 * n) mpid AND MPIDR_AFFLVL_MASK"

definition tftf_platform_get_cluster_id :: "fvp_cfg \<Rightarrow> u32 \<Rightarrow> u32" where
  "tftf_platform_get_cluster_id P mpid = (if mt P then mpidr_aff_id mpid 2 else mpidr_aff_id mpid 1)"

definition tftf_platform_get_core_id :: "fvp_cfg \<Rightarrow> u32 \<Rightarrow> u32" where
  "tftf_platform_get_core_id P mpid = (if mt P then mpidr_aff_id mpid 1 else mpidr_aff_id mpid 0)"

definition fvp_platform_get_cluster_id :: "u32 \<Rightarrow> u32" where
  "fvp_platform_get_cluster_id mpid = mpidr_aff_id mpid 1"

definition fvp_platform_get_core_id :: "u32 \<Rightarrow> u32" where
  "fvp_platform_get_core_id mpid = mpidr_aff_id mpid 0"

definition fvp_topo_env :: "fvp_cfg \<Rightarrow> topo_env" where
  "fvp_topo_env P = \<lparr>
     PLATFORM_NUM_AFFS = of_nat (1 + FVP_CLUSTER_COUNT P + fvp_core_count P),
     PLATFORM_CORE_COUNT = of_nat (fvp_core_count P),
     PLATFORM_MAX_AFFLVL = 2,
     pwr_domain_tree_desc = fvp_power_domain_tree_desc P,
     plat_get_mpidr = tftf_plat_get_mpidr P,
     platform_get_core_pos = (\<lambda>mp. ucast (fvp_platform_get_core_pos P (ucast mp)))\<rparr>"

text \<open>The configurations the table's macros cover.\<close>

definition fvp_ok :: "fvp_cfg \<Rightarrow> bool" where
  "fvp_ok P \<longleftrightarrow> 1 \<le> FVP_CLUSTER_COUNT P \<and> FVP_CLUSTER_COUNT P \<le> 4
     \<and> 1 \<le> FVP_MAX_CPUS_PER_CLUSTER P \<and> FVP_MAX_CPUS_PER_CLUSTER P \<le> 8
     \<and> 1 \<le> FVP_MAX_PE_PER_CPU P \<and> FVP_MAX_PE_PER_CPU P \<le> 2"

section \<open>Core positions and MPIDs\<close>

lemma concat_map_upt:
  assumes "0 < n"
  shows "concat (map (\<lambda>c. map (f c) [0..<n]) [0..<m]) = map (\<lambda>i. f (i div n) (i mod n)) [0..<m * n]"
proof (induction m)
  case (Suc m)
  have "[0..<Suc m * n] = [0..<m * n + n]" by (simp add: add.commute)
  also have "\<dots> = [0..<m * n] @ [m * n..<m * n + n]" by (rule upt_add_eq_append) simp
  also have "[m * n..<m * n + n] = map (\<lambda>j. j + m * n) [0..<n]"
    by (simp add: map_add_upt add.commute)
  finally have u: "[0..<Suc m * n] = [0..<m * n] @ map (\<lambda>j. j + m * n) [0..<n]" .
  have "map (\<lambda>i. f (i div n) (i mod n)) (map (\<lambda>j. j + m * n) [0..<n]) = map (f m) [0..<n]"
    using assms by simp
  then show ?case unfolding u using Suc by simp
qed simp

lemma fvp_cores_nth:
  assumes "fvp_ok P" "i < fvp_core_count P"
  shows "i < length (fvp_base_aemv8a_aemv8a_cores P)"
    and "fvp_base_aemv8a_aemv8a_cores P ! i =
      (i div fvp_per_cluster P, i mod fvp_per_cluster P div FVP_MAX_PE_PER_CPU P, i mod FVP_MAX_PE_PER_CPU P)"
proof -
  let ?K = "FVP_MAX_CPUS_PER_CLUSTER P" and ?T = "FVP_MAX_PE_PER_CPU P" and ?C = "FVP_CLUSTER_COUNT P"
  have p: "0 < ?T" "0 < ?K * ?T" using assms(1) by (auto simp: fvp_ok_def)
  have cd: "cluster_def P = (\<lambda>c. map (\<lambda>i. (c, i div ?T, i mod ?T)) [0..<?K * ?T])"
  proof
    fix c
    have "cpu_def P c = (\<lambda>k. map (\<lambda>t. (c, k, t)) [0..<?T])" by (rule ext) (simp add: cpu_def_def)
    then show "cluster_def P c = map (\<lambda>i. (c, i div ?T, i mod ?T)) [0..<?K * ?T]"
      unfolding cluster_def_def by (simp only: concat_map_upt [OF p(1)])
  qed
  have "fvp_base_aemv8a_aemv8a_cores P
      = map (\<lambda>i. (i div (?K * ?T), i mod (?K * ?T) div ?T, i mod (?K * ?T) mod ?T)) [0..<?C * (?K * ?T)]"
    unfolding fvp_base_aemv8a_aemv8a_cores_def cd by (rule concat_map_upt [OF p(2)])
  moreover have "i mod (?K * ?T) mod ?T = i mod ?T" by (simp add: mod_mod_cancel)
  moreover have "i < ?C * (?K * ?T)" using assms(2) by (simp add: fvp_core_count_def mult.assoc)
  ultimately show "i < length (fvp_base_aemv8a_aemv8a_cores P)"
    "fvp_base_aemv8a_aemv8a_cores P ! i = (i div (?K * ?T), i mod (?K * ?T) div ?T, i mod ?T)"
    by simp_all
qed

lemma mask_8: "(0xff :: 'a::len word) = mask 8"
  by (simp add: mask_eq_exp_minus_1)

abbreviation byte64 :: "u32 \<Rightarrow> u64" where "byte64 x \<equiv> ucast x AND mask 8"

lemma make_mpid_fields:
  obtains m where "\<And>n. bit (m :: u32) n \<longleftrightarrow> n = 24"
    and "\<And>c k t. make_mpid P c k t =
      (if mt P
       then m OR (if FVP_MAX_PE_PER_CPU P > 1 then t AND mask 8 else 0)
         OR push_bit 8 (k AND mask 8) OR push_bit 16 (c AND mask 8)
       else (k AND mask 8) OR push_bit 8 (c AND mask 8))"
proof
  have "(push_bit 24 1 :: u32) = 2 ^ 24" by simp
  then show "bit (push_bit 24 1 :: u32) n \<longleftrightarrow> n = 24" for n
    by (simp only: bit_exp_iff possible_bit_word) auto
  show "make_mpid P c k t =
      (if mt P
       then push_bit 24 1 OR (if FVP_MAX_PE_PER_CPU P > 1 then t AND mask 8 else 0)
         OR push_bit 8 (k AND mask 8) OR push_bit 16 (c AND mask 8)
       else (k AND mask 8) OR push_bit 8 (c AND mask 8))" for c k t
    unfolding make_mpid_def mask_8 by (simp add: or.assoc)
qed

lemma core_pos_make_mpid:
  "fvp_platform_get_core_pos P (ucast (make_mpid P c k t)) =
     (byte64 c * of_nat (FVP_MAX_CPUS_PER_CLUSTER P) + byte64 k) * of_nat (FVP_MAX_PE_PER_CPU P)
     + (if mt P \<and> FVP_MAX_PE_PER_CPU P > 1 then byte64 t else 0)"
proof -
  obtain m where bm: "\<And>n. bit (m :: u32) n \<longleftrightarrow> n = 24"
    and mp: "\<And>c k t. make_mpid P c k t =
      (if mt P
       then m OR (if FVP_MAX_PE_PER_CPU P > 1 then t AND mask 8 else 0)
         OR push_bit 8 (k AND mask 8) OR push_bit 16 (c AND mask 8)
       else (k AND mask 8) OR push_bit 8 (c AND mask 8))"
    by (rule make_mpid_fields [of P]) (rule that)
  let ?x = "if mt P then ucast (make_mpid P c k t) else push_bit 8 (ucast (make_mpid P c k t)) :: u64"
  have a0: "?x AND mask 8 = (if mt P \<and> FVP_MAX_PE_PER_CPU P > 1 then byte64 t else 0)"
    unfolding mp by (intro bit_word_eqI) (auto simp: bit_simps bm)
  have a1: "drop_bit 8 ?x AND mask 8 = byte64 k"
    unfolding mp by (intro bit_word_eqI) (auto simp: bit_simps bm)
  have a2: "drop_bit 16 ?x AND mask 8 = byte64 c"
    unfolding mp by (intro bit_word_eqI) (auto simp: bit_simps bm)
  have "(push_bit 24 1 :: u64) = 2 ^ 24" by simp
  moreover have "bit (ucast (make_mpid P c k t) :: u64) 24 \<longleftrightarrow> mt P"
    unfolding mp by (simp add: bit_simps bm)
  ultimately have x: "(if ucast (make_mpid P c k t) AND push_bit 24 1 = (0::u64) then push_bit 8 (ucast (make_mpid P c k t))
     else ucast (make_mpid P c k t)) = ?x" by (simp only: and_exp_eq_0_iff_not_bit) simp
  show ?thesis
    unfolding fvp_platform_get_core_pos_def Let_def x mask_8 a0 a1 a2 by (rule refl)
qed

text \<open>C13: on the FVP, the core position computed from the MPID of a present CPU is the position
  the MPID was looked up with, for every supported number of clusters, CPUs and threads, with
  and without the MT bit (with two threads per CPU the MT bit is set).\<close>

theorem fvp_core_pos_roundtrip:
  assumes "fvp_ok P" and "mt P \<or> FVP_MAX_PE_PER_CPU P = 1" and "i < fvp_core_count P"
    and "tftf_plat_get_mpidr P (of_nat i) = Inr mp" and "mp \<noteq> ucast INVALID_MPID"
  shows "fvp_platform_get_core_pos P mp = of_nat i"
proof -
  let ?K = "FVP_MAX_CPUS_PER_CLUSTER P" and ?T = "FVP_MAX_PE_PER_CPU P" and ?C = "FVP_CLUSTER_COUNT P"
  let ?c = "i div (?K * ?T)" and ?k = "i mod (?K * ?T) div ?T" and ?t = "i mod ?T"
  have b: "1 \<le> ?C" "?C \<le> 4" "1 \<le> ?K" "?K \<le> 8" "1 \<le> ?T" "?T \<le> 2"
    using assms(1) unfolding fvp_ok_def by blast+
  have il: "i < ?C * (?K * ?T)" using assms(3) by (simp add: fvp_core_count_def mult.assoc)
  have "?C * (?K * ?T) \<le> 4 * (8 * 2)" using b by (intro mult_le_mono) simp_all
  with il have "i < 64" by simp
  then have u: "unat (of_nat i :: u32) = i" by (intro unat_of_nat_word32) simp
  have c: "?c < 8" using less_mult_imp_div_less [OF il] b(2) by linarith
  have "0 < ?K * ?T" using b(3,5) by simp
  then have "i mod (?K * ?T) < ?K * ?T" by (rule mod_less_divisor)
  then have k: "?k < 8" using less_mult_imp_div_less b(4) less_le_trans by blast
  have "?t < ?T" using b(5) by (intro mod_less_divisor) linarith
  then have t: "?t < 8" using b(6) by linarith
  have pos: "(?c * ?K + ?k) * ?T + ?t = i"
  proof -
    have "?k * ?T + i mod (?K * ?T) mod ?T = i mod (?K * ?T)" by (rule div_mult_mod_eq)
    moreover have "i mod (?K * ?T) mod ?T = ?t" by (simp add: mod_mod_cancel)
    moreover have "?c * (?K * ?T) + i mod (?K * ?T) = i" by (rule div_mult_mod_eq)
    ultimately show ?thesis by (simp only: distrib_right mult.assoc add.assoc)
  qed
  have mp: "mp = ucast (make_mpid P (of_nat ?c) (of_nat ?k) (of_nat ?t))"
  proof (rule ccontr)
    assume n: "mp \<noteq> ucast (make_mpid P (of_nat ?c) (of_nat ?k) (of_nat ?t))"
    have "aget (fvp_base_aemv8a_aemv8a_cores P) i = Inr (?c, ?k, ?t)"
      using fvp_cores_nth [OF assms(1,3)] by (simp only: aget_def if_True)
    then have "tftf_plat_get_mpidr P (of_nat i) = Inr (if psysr P (make_mpid P (of_nat ?c) (of_nat ?k) (of_nat ?t)) \<noteq> PSYSR_INVALID
        then ucast (make_mpid P (of_nat ?c) (of_nat ?k) (of_nat ?t)) else ucast INVALID_MPID)"
      unfolding tftf_plat_get_mpidr_def u Let_def using assms(3) by simp
    with assms(4,5) n show False by (simp split: if_splits)
  qed
  have byte: "byte64 (of_nat n) = of_nat n" if "n < 8" for n
  proof -
    have "n < 2 ^ 8" using that by simp
    then show ?thesis
      by (simp add: word_unat_eq_iff take_bit_eq_mask [symmetric] unsigned_ucast_eq unsigned_take_bit_eq unsigned_of_nat take_bit_nat_eq_self)
  qed
  have e: "(if mt P \<and> ?T > 1 then byte64 (of_nat ?t) else 0) = of_nat ?t"
    proof (cases "?T = 1")
    case False
    with assms(2) b(5) have "mt P" "?T > 1" by simp_all
    then show ?thesis using byte [OF t] by simp
  qed simp
  have "fvp_platform_get_core_pos P mp = (of_nat ?c * of_nat ?K + of_nat ?k) * of_nat ?T + of_nat ?t"
    unfolding mp core_pos_make_mpid e byte [OF c] byte [OF k] by (rule refl)
  also have "\<dots> = of_nat ((?c * ?K + ?k) * ?T + ?t)" by (simp only: of_nat_add of_nat_mult)
  finally show ?thesis unfolding pos .
qed

definition demo_fvp :: fvp_cfg where
  "demo_fvp = \<lparr>FVP_CLUSTER_COUNT = 2, FVP_MAX_CPUS_PER_CLUSTER = 4, FVP_MAX_PE_PER_CPU = 1, mt = True,
     psysr = (\<lambda>mp. if mp = 0x1000000 then 0xffffffff else 0)\<rparr>"

lemma demo_fvp_ok: "fvp_ok demo_fvp"
  by (simp add: fvp_ok_def demo_fvp_def)

theorem fvp_core_pos_roundtrip_witness:
  "tftf_plat_get_mpidr demo_fvp 5 = Inr 0x1010100
   \<and> fvp_platform_get_core_pos demo_fvp 0x1010100 = 5"
proof
  have "fvp_base_aemv8a_aemv8a_cores demo_fvp ! 5 = (1, 1, 0)"
    "5 < length (fvp_base_aemv8a_aemv8a_cores demo_fvp)"
    using fvp_cores_nth [OF demo_fvp_ok, of 5] by (simp_all add: demo_fvp_def fvp_core_count_def)
  then show m: "tftf_plat_get_mpidr demo_fvp 5 = Inr 0x1010100"
    by (simp add: tftf_plat_get_mpidr_def fvp_core_count_def) (simp add: demo_fvp_def make_mpid_def)
  show "fvp_platform_get_core_pos demo_fvp 0x1010100 = 5"
    using fvp_core_pos_roundtrip [OF demo_fvp_ok _ _, of 5 "0x1010100"] m
    by (simp add: demo_fvp_def fvp_core_count_def)
qed

text \<open>C16: with the MT bit set, FVP's own \<open>tftf_platform_get_cluster_id\<close> returns the CPU number
  of an MPID, where the generic version it replaces returns the cluster.\<close>

theorem fvp_cluster_id_mt:
  assumes "mt P" and "c < 256" and "k < 256"
  shows "tftf_platform_get_cluster_id P (make_mpid P c k t) = c
    \<and> fvp_platform_get_cluster_id (make_mpid P c k t) = k"
proof -
  have m: "c AND mask 8 = c" "k AND mask 8 = k"
    using assms(2,3) by (simp_all add: take_bit_eq_mask [symmetric] word_less_nat_alt word_unat_eq_iff unsigned_take_bit_eq take_bit_nat_eq_self)
  obtain M where bm: "\<And>n. bit (M :: u32) n \<longleftrightarrow> n = 24"
    and mp: "\<And>c k t. make_mpid P c k t =
      (if mt P
       then M OR (if FVP_MAX_PE_PER_CPU P > 1 then t AND mask 8 else 0)
         OR push_bit 8 (k AND mask 8) OR push_bit 16 (c AND mask 8)
       else (k AND mask 8) OR push_bit 8 (c AND mask 8))"
    by (rule make_mpid_fields [of P]) (rule that)
  have "mpidr_aff_id (make_mpid P c k t) 2 = c AND mask 8"
    unfolding mpidr_aff_id_def mp mask_8 by (intro bit_word_eqI) (auto simp: assms(1) bit_simps bm)
  moreover have "mpidr_aff_id (make_mpid P c k t) 1 = k AND mask 8"
    unfolding mpidr_aff_id_def mp mask_8 by (intro bit_word_eqI) (auto simp: assms(1) bit_simps bm)
  ultimately show ?thesis
    unfolding tftf_platform_get_cluster_id_def fvp_platform_get_cluster_id_def m using assms(1) by simp
qed

theorem fvp_cluster_id_mt_witness:
  "fvp_platform_get_cluster_id (make_mpid demo_fvp 0 3 0) = 3"
  using fvp_cluster_id_mt [of demo_fvp 0 3 0] by (simp add: demo_fvp_def)

section \<open>The tree that is built\<close>

fun upd_range :: "(nat \<Rightarrow> 'a \<Rightarrow> 'a) \<Rightarrow> nat \<Rightarrow> nat \<Rightarrow> 'a list \<Rightarrow> 'a list" where
  "upd_range f k 0 xs = xs"
| "upd_range f k (Suc n) xs = upd_range f (Suc k) n (xs[k := f k (xs ! k)])"

lemma upd_range_length [simp]: "length (upd_range f k n xs) = length xs"
  by (induction n arbitrary: k xs) simp_all

lemma upd_range_nth:
  "k + n \<le> length xs \<Longrightarrow> i < length xs \<Longrightarrow>
   upd_range f k n xs ! i = (if k \<le> i \<and> i < k + n then f i (xs ! i) else xs ! i)"
  by (induction n arbitrary: k xs) (auto simp: nth_list_update)

lemma upd_range_append: "upd_range f k (m + n) xs = upd_range f (k + m) n (upd_range f k m xs)"
  by (induction m arbitrary: k xs) simp_all

lemma upd_range_cong:
  "(\<And>i. k \<le> i \<Longrightarrow> i < k + n \<Longrightarrow> f i = g i) \<Longrightarrow> upd_range f k n xs = upd_range g k n xs"
  by (induction n arbitrary: k xs) simp_all

lemma init_children_range:
  assumes "\<And>i T'. k \<le> i \<Longrightarrow> i < k + n \<Longrightarrow> length (tftf_pd_nodes T') = N \<Longrightarrow>
      tftf_pwr_domain_start_idx T' = S \<Longrightarrow>
      init_node E lvl p (of_nat i) T' = Inr (T'\<lparr>tftf_pd_nodes := (tftf_pd_nodes T')[i := f i (tftf_pd_nodes T' ! i)]\<rparr>)"
    and "length (tftf_pd_nodes T) = N" "tftf_pwr_domain_start_idx T = S"
  shows "init_children E lvl p (of_nat k) n T = Inr (T\<lparr>tftf_pd_nodes := upd_range f k n (tftf_pd_nodes T)\<rparr>)"
  using assms
proof (induction n arbitrary: k T)
  case (Suc n)
  let ?T = "T\<lparr>tftf_pd_nodes := (tftf_pd_nodes T)[k := f k (tftf_pd_nodes T ! k)]\<rparr>"
  have "init_node E lvl p (of_nat k) T = Inr ?T" using Suc.prems by simp
  moreover have "init_children E lvl p (of_nat (Suc k)) n ?T
      = Inr (?T\<lparr>tftf_pd_nodes := upd_range f (Suc k) n (tftf_pd_nodes ?T)\<rparr>)"
    by (rule Suc.IH) (use Suc.prems in simp_all)
  ultimately show ?case by (simp add: add.commute)
qed simp

text \<open>A level whose parents all have \<open>q\<close> children.\<close>

lemma init_parents_range:
  assumes "\<And>p i T'. p0 \<le> p \<Longrightarrow> p < p0 + n \<Longrightarrow> k \<le> i \<Longrightarrow> i < k + n * q \<Longrightarrow> length (tftf_pd_nodes T') = N \<Longrightarrow>
      tftf_pwr_domain_start_idx T' = S \<Longrightarrow> init_node E lvl (of_nat p) (of_nat i) T'
        = Inr (T'\<lparr>tftf_pd_nodes := (tftf_pd_nodes T')[i := f p i (tftf_pd_nodes T' ! i)]\<rparr>)"
    and "length (tftf_pd_nodes T) = N" "tftf_pwr_domain_start_idx T = S" "0 < q" "q < 256"
    and "\<And>p. p0 \<le> p \<Longrightarrow> p < p0 + n \<Longrightarrow> p < length (pwr_domain_tree_desc E) \<and> pwr_domain_tree_desc E ! p = of_nat q"
    and "p0 + n \<le> unat (PLATFORM_NUM_AFFS E - PLATFORM_CORE_COUNT E) + 1" "p0 + n < 2 ^ 32"
  shows "init_parents E lvl n (of_nat k) (of_nat p0) (of_nat a) T
    = Inr (of_nat (k + n * q), of_nat (p0 + n), of_nat (a + n * q),
           T\<lparr>tftf_pd_nodes := upd_range (\<lambda>i. f (p0 + (i - k) div q) i) k (n * q) (tftf_pd_nodes T)\<rparr>)"
  using assms
proof (induction n arbitrary: k p0 a T)
  case 0
  then show ?case by simp
next
  case (Suc n)
  let ?g = "\<lambda>i. f (p0 + (i - k) div q) i"
  let ?T = "T\<lparr>tftf_pd_nodes := upd_range (f p0) k q (tftf_pd_nodes T)\<rparr>"
  have u: "unat (of_nat p0 :: u32) = p0" using Suc.prems(8) by (intro unat_of_nat_word32) simp
  have q: "unat (of_nat q :: u8) = q" "ucast (of_nat q :: u8) = (of_nat q :: u32)"
    using Suc.prems(5) by (simp_all add: unat_of_nat take_bit_nat_eq_self word_unat_eq_iff unsigned_ucast_eq)
  have ch: "init_children E lvl (of_nat p0) (of_nat k) q T = Inr ?T"
  proof (rule init_children_range [where N = N and S = S])
    show "init_node E lvl (of_nat p0) (of_nat i) T' = Inr (T'\<lparr>tftf_pd_nodes := (tftf_pd_nodes T')[i := f p0 i (tftf_pd_nodes T' ! i)]\<rparr>)"
      if "k \<le> i" "i < k + q" "length (tftf_pd_nodes T') = N" "tftf_pwr_domain_start_idx T' = S" for i T'
      by (rule Suc.prems(1)) (use that in simp_all)
  qed (rule Suc.prems)+
  have le: "of_nat p0 \<le> PLATFORM_NUM_AFFS E - PLATFORM_CORE_COUNT E"
    using Suc.prems(7) u by (simp add: word_le_nat_alt)
  have IH: "init_parents E lvl n (of_nat (k + q)) (of_nat (Suc p0)) (of_nat (a + q)) ?T
    = Inr (of_nat (k + q + n * q), of_nat (Suc p0 + n), of_nat (a + q + n * q),
           ?T\<lparr>tftf_pd_nodes := upd_range (\<lambda>i. f (Suc p0 + (i - (k + q)) div q) i) (k + q) (n * q) (tftf_pd_nodes ?T)\<rparr>)"
  proof (rule Suc.IH)
    show "init_node E lvl (of_nat p) (of_nat i) T' = Inr (T'\<lparr>tftf_pd_nodes := (tftf_pd_nodes T')[i := f p i (tftf_pd_nodes T' ! i)]\<rparr>)"
      if "Suc p0 \<le> p" "p < Suc p0 + n" "k + q \<le> i" "i < k + q + n * q"
        "length (tftf_pd_nodes T') = N" "tftf_pwr_domain_start_idx T' = S" for p i T'
      by (rule Suc.prems(1)) (use that in simp_all)
    show "p < length (pwr_domain_tree_desc E) \<and> pwr_domain_tree_desc E ! p = of_nat q"
      if "Suc p0 \<le> p" "p < Suc p0 + n" for p
      by (rule Suc.prems(6)) (use that in simp_all)
  qed (use Suc.prems(2-5,7,8) in simp_all)
  have "upd_range (\<lambda>i. f (Suc p0 + (i - (k + q)) div q) i) (k + q) (n * q) (upd_range (f p0) k q (tftf_pd_nodes T))
      = upd_range ?g (k + q) (n * q) (upd_range ?g k q (tftf_pd_nodes T))"
  proof -
    have 0: "upd_range (f p0) k q (tftf_pd_nodes T) = upd_range ?g k q (tftf_pd_nodes T)"
      by (rule upd_range_cong) simp
    have "f (Suc p0 + (i - (k + q)) div q) i = ?g i" if "k + q \<le> i" for i
    proof -
      define d where "d = i - (k + q)"
      have "i - k = d + q" using that by (simp add: d_def)
      then show ?thesis using Suc.prems(4) unfolding d_def [symmetric] by (simp add: div_add_self2)
    qed
    then have "upd_range (\<lambda>i. f (Suc p0 + (i - (k + q)) div q) i) (k + q) (n * q) xs
        = upd_range ?g (k + q) (n * q) xs" for xs
      by (intro upd_range_cong)
    note 1 = this
    show ?thesis unfolding 1 0 by (rule refl)
  qed
  also have "\<dots> = upd_range ?g k (Suc n * q) (tftf_pd_nodes T)"
    by (simp add: upd_range_append [symmetric])
  finally have eq: "upd_range (\<lambda>i. f (Suc p0 + (i - (k + q)) div q) i) (k + q) (n * q) (upd_range (f p0) k q (tftf_pd_nodes T))
      = upd_range ?g k (Suc n * q) (tftf_pd_nodes T)" .
  have d: "aget (pwr_domain_tree_desc E) (unat (of_nat p0 :: u32)) = Inr (of_nat q)"
    using Suc.prems(6) [of p0] u by simp
  have "init_parents E lvl (Suc n) (of_nat k) (of_nat p0) (of_nat a) T
      = init_parents E lvl n (of_nat k + of_nat q) (of_nat p0 + 1) (of_nat a + of_nat q) ?T"
    unfolding init_parents.simps d q ch andthen_Inr using le by (simp only: assert_c_True andthen_Inr q ch)
  also have "\<dots> = init_parents E lvl n (of_nat (k + q)) (of_nat (Suc p0)) (of_nat (a + q)) ?T"
    by (simp only: of_nat_add of_nat_Suc add.commute [of 1])
  finally show ?case
    unfolding IH using eq by (simp add: add.assoc)
qed

text \<open>
  Before the tree is built the static data is zero. \<open>fvp_node P m i\<close> is node \<open>i\<close> once the
  first \<open>m\<close> CPUs have been counted: the system, then the clusters, then the CPUs.
\<close>

definition fvp_topology_zero :: "fvp_cfg \<Rightarrow> topology" where
  "fvp_topology_zero P = \<lparr>topology_setup_done = False, tftf_pwr_domain_start_idx = replicate 3 0,
     tftf_pd_nodes = replicate (1 + FVP_CLUSTER_COUNT P + fvp_core_count P)
       \<lparr>cpu_start_node = 0, ncpus = 0, mpidr = 0, parent_node = 0, level = 0, is_present = False\<rparr>\<rparr>"

definition fvp_cpu_mpid :: "fvp_cfg \<Rightarrow> nat \<Rightarrow> u32" where
  "fvp_cpu_mpid P i =
     (let mpid = make_mpid P (of_nat (i div fvp_per_cluster P))
        (of_nat (i mod fvp_per_cluster P div FVP_MAX_PE_PER_CPU P)) (of_nat (i mod FVP_MAX_PE_PER_CPU P))
      in if psysr P mpid \<noteq> PSYSR_INVALID then mpid else INVALID_MPID)"

definition fvp_cpu_present :: "fvp_cfg \<Rightarrow> nat \<Rightarrow> bool" where
  "fvp_cpu_present P i \<longleftrightarrow> fvp_cpu_mpid P i \<noteq> INVALID_MPID"

definition fvp_node :: "fvp_cfg \<Rightarrow> nat \<Rightarrow> nat \<Rightarrow> pd_node" where
  "fvp_node P m i =
     (let C = FVP_CLUSTER_COUNT P; Q = fvp_per_cluster P; c = i - 1; n = i - (1 + C) in
      if i = 0
      then \<lparr>cpu_start_node = (if 0 < m then of_nat (1 + C) else 0), ncpus = of_nat m, mpidr = 0,
            parent_node = - 1, level = 2, is_present = 0 < m \<and> fvp_cpu_present P 0\<rparr>
      else if i \<le> C
      then \<lparr>cpu_start_node = (if c * Q < m then of_nat (1 + C + c * Q) else 0),
            ncpus = of_nat (min Q (m - c * Q)), mpidr = 0, parent_node = 0, level = 1,
            is_present = c * Q < m \<and> fvp_cpu_present P (c * Q)\<rparr>
      else \<lparr>cpu_start_node = of_nat i, ncpus = 1, mpidr = fvp_cpu_mpid P n,
            parent_node = of_nat (1 + n div Q), level = 0, is_present = fvp_cpu_present P n\<rparr>)"

definition fvp_nodes :: "fvp_cfg \<Rightarrow> nat \<Rightarrow> pd_node list" where
  "fvp_nodes P m = map (fvp_node P m) [0..<1 + FVP_CLUSTER_COUNT P + fvp_core_count P]"

lemma fvp_bounds:
  assumes "fvp_ok P"
  shows "1 \<le> fvp_per_cluster P" "fvp_per_cluster P \<le> 16" "1 \<le> FVP_CLUSTER_COUNT P" "FVP_CLUSTER_COUNT P \<le> 4"
    "fvp_core_count P = FVP_CLUSTER_COUNT P * fvp_per_cluster P" "1 \<le> fvp_core_count P" "fvp_core_count P \<le> 64"
proof -
  have b: "1 \<le> FVP_CLUSTER_COUNT P" "FVP_CLUSTER_COUNT P \<le> 4" "1 \<le> FVP_MAX_CPUS_PER_CLUSTER P"
    "FVP_MAX_CPUS_PER_CLUSTER P \<le> 8" "1 \<le> FVP_MAX_PE_PER_CPU P" "FVP_MAX_PE_PER_CPU P \<le> 2"
    using assms unfolding fvp_ok_def by blast+
  show "1 \<le> fvp_per_cluster P" using b by (simp add: Suc_le_eq)
  show q: "fvp_per_cluster P \<le> 16" using mult_le_mono [OF b(4,6)] by simp
  show e: "fvp_core_count P = FVP_CLUSTER_COUNT P * fvp_per_cluster P"
    by (simp only: fvp_core_count_def mult.assoc)
  show "1 \<le> fvp_core_count P" using b unfolding e by (simp add: Suc_le_eq)
  show "fvp_core_count P \<le> 64" using mult_le_mono [OF b(2) q] unfolding e by simp
  show "1 \<le> FVP_CLUSTER_COUNT P" "FVP_CLUSTER_COUNT P \<le> 4" by (rule b)+
qed

lemma fvp_get_mpidr:
  assumes "fvp_ok P" "i < fvp_core_count P"
  shows "\<exists>mp. tftf_plat_get_mpidr P (of_nat i) = Inr mp \<and> ucast mp = fvp_cpu_mpid P i"
proof -
  have "i < 2 ^ 32" using fvp_bounds(7) [OF assms(1)] assms(2) by simp
  then have u: "unat (of_nat i :: u32) = i" by (rule unat_of_nat_word32)
  have a: "aget (fvp_base_aemv8a_aemv8a_cores P) i = Inr (i div fvp_per_cluster P,
      i mod fvp_per_cluster P div FVP_MAX_PE_PER_CPU P, i mod FVP_MAX_PE_PER_CPU P)"
    using fvp_cores_nth [OF assms] by (simp only: aget_def if_True)
  have uc: "ucast (ucast x :: u64) = x" for x :: u32
    by (rule bit_word_eqI) (simp add: bit_simps)
  show ?thesis
    unfolding tftf_plat_get_mpidr_def u a using assms(2) uc
    by (simp add: fvp_cpu_mpid_def Let_def)
qed

definition dom_node :: "nat \<Rightarrow> nat \<Rightarrow> pd_node \<Rightarrow> pd_node" where
  "dom_node lvl p n = n\<lparr>parent_node := of_nat p - 1, level := of_nat lvl\<rparr>"

definition fvp_cpu_node :: "fvp_cfg \<Rightarrow> nat \<Rightarrow> nat \<Rightarrow> nat \<Rightarrow> pd_node \<Rightarrow> pd_node" where
  "fvp_cpu_node P s p i n =
     (let n = (dom_node 0 p n)\<lparr>mpidr := fvp_cpu_mpid P (i - s)\<rparr>;
          n = (if fvp_cpu_present P (i - s) then n\<lparr>is_present := True\<rparr> else n)
      in n\<lparr>cpu_start_node := of_nat i, ncpus := 1\<rparr>)"

lemma init_node_dom:
  assumes "0 < lvl" "i < length (tftf_pd_nodes T)" "length (tftf_pd_nodes T) < 2 ^ 32"
  shows "init_node E lvl (of_nat p) (of_nat i) T
    = Inr (T\<lparr>tftf_pd_nodes := (tftf_pd_nodes T)[i := dom_node lvl p (tftf_pd_nodes T ! i)]\<rparr>)"
proof -
  have u: "unat (of_nat i :: u32) = i" using assms by (intro unat_of_nat_word32) simp
  show ?thesis unfolding init_node_def u using assms by (simp add: dom_node_def Let_def)
qed

lemma init_node_cpu:
  assumes "fvp_ok P" "s \<le> i" "i < s + fvp_core_count P" "i < length (tftf_pd_nodes T)" "length (tftf_pd_nodes T) < 2 ^ 32"
    and "tftf_pwr_domain_start_idx T = of_nat s # xs"
  shows "init_node (fvp_topo_env P) 0 (of_nat p) (of_nat i) T
    = Inr (T\<lparr>tftf_pd_nodes := (tftf_pd_nodes T)[i := fvp_cpu_node P s p i (tftf_pd_nodes T ! i)]\<rparr>)"
proof -
  have u: "unat (of_nat i :: u32) = i" using assms by (intro unat_of_nat_word32) simp
  have id: "of_nat i - of_nat s = (of_nat (i - s) :: u32)" using assms(2) by (simp add: of_nat_diff)
  have "unat (of_nat (i - s) :: u32) = i - s" using assms by (intro unat_of_nat_word32) simp
  moreover have "unat (of_nat (fvp_core_count P) :: u32) = fvp_core_count P"
    using fvp_bounds(7) [OF assms(1)] by (intro unat_of_nat_word32) simp
  ultimately have lt: "(of_nat (i - s) :: u32) < of_nat (fvp_core_count P)"
    using assms(2,3) by (simp add: word_less_nat_alt)
  have il: "i - s < fvp_core_count P" using assms(2,3) by linarith
  obtain mp where mp: "tftf_plat_get_mpidr P (of_nat (i - s)) = Inr mp" "ucast mp = fvp_cpu_mpid P (i - s)"
    using fvp_get_mpidr [OF assms(1) il] by blast
  show ?thesis
    unfolding init_node_def u using assms(4,6) lt mp
    by (simp add: fvp_cpu_node_def dom_node_def Let_def id fvp_topo_env_def fvp_cpu_present_def)
qed

lemma fvp_desc:
  "pwr_domain_tree_desc (fvp_topo_env P) = fvp_power_domain_tree_desc P"
  "length (fvp_power_domain_tree_desc P) = 2 + FVP_CLUSTER_COUNT P"
  "fvp_power_domain_tree_desc P ! 0 = 1"
  "fvp_power_domain_tree_desc P ! 1 = of_nat (FVP_CLUSTER_COUNT P)"
  "2 \<le> p \<Longrightarrow> p < 2 + FVP_CLUSTER_COUNT P \<Longrightarrow> fvp_power_domain_tree_desc P ! p = of_nat (fvp_per_cluster P)"
  by (simp_all add: fvp_topo_env_def fvp_power_domain_tree_desc_def nth_Cons' )

lemma fvp_affs:
  assumes "fvp_ok P"
  shows "unat (PLATFORM_NUM_AFFS (fvp_topo_env P)) = 1 + FVP_CLUSTER_COUNT P + fvp_core_count P"
    and "unat (PLATFORM_CORE_COUNT (fvp_topo_env P)) = fvp_core_count P"
    and "unat (PLATFORM_NUM_AFFS (fvp_topo_env P) - PLATFORM_CORE_COUNT (fvp_topo_env P)) = 1 + FVP_CLUSTER_COUNT P"
proof -
  note b = fvp_bounds [OF assms]
  have s: "1 + FVP_CLUSTER_COUNT P + fvp_core_count P < 2 ^ 32" using b by simp
  show "unat (PLATFORM_NUM_AFFS (fvp_topo_env P)) = 1 + FVP_CLUSTER_COUNT P + fvp_core_count P"
    using unat_of_nat_word32 [OF s] by (simp only: fvp_topo_env_def topo_env.simps)
  show "unat (PLATFORM_CORE_COUNT (fvp_topo_env P)) = fvp_core_count P"
    using s unat_of_nat_word32 [of "fvp_core_count P"] by (simp add: fvp_topo_env_def)
  have "PLATFORM_NUM_AFFS (fvp_topo_env P) - PLATFORM_CORE_COUNT (fvp_topo_env P)
      = of_nat (1 + FVP_CLUSTER_COUNT P)"
    by (simp add: fvp_topo_env_def)
  then show "unat (PLATFORM_NUM_AFFS (fvp_topo_env P) - PLATFORM_CORE_COUNT (fvp_topo_env P)) = 1 + FVP_CLUSTER_COUNT P"
    using s unat_of_nat_word32 [of "1 + FVP_CLUSTER_COUNT P"] by (simp only:)
qed

text \<open>The three levels, one lemma each.\<close>

lemma fvp_level:
  assumes ok: "fvp_ok P" and lvl: "lvl = 1 \<and> p0 = 1 \<and> n = 1 \<and> q = FVP_CLUSTER_COUNT P \<or> lvl = 2 \<and> p0 = 0 \<and> n = 1 \<and> q = 1"
    and len: "length (tftf_pd_nodes T) = 1 + FVP_CLUSTER_COUNT P + fvp_core_count P" "length (tftf_pwr_domain_start_idx T) = 3"
    and k: "k + q \<le> length (tftf_pd_nodes T)"
  shows "init_level (fvp_topo_env P) lvl (of_nat k, of_nat p0, 1, T)
    = Inr (of_nat (k + q), of_nat (p0 + 1), of_nat q,
        T\<lparr>tftf_pwr_domain_start_idx := (tftf_pwr_domain_start_idx T)[lvl := of_nat k],
          tftf_pd_nodes := upd_range (\<lambda>i. dom_node lvl p0) k q (tftf_pd_nodes T)\<rparr>)"
proof -
  note b = fvp_bounds [OF ok]
  let ?T = "T\<lparr>tftf_pwr_domain_start_idx := (tftf_pwr_domain_start_idx T)[lvl := of_nat k]\<rparr>"
  have q: "0 < q" "q < 256" "0 < lvl" "lvl < 3" "p0 \<le> 1" using lvl b by auto
  have "init_parents (fvp_topo_env P) lvl 1 (of_nat k) (of_nat p0) (of_nat 0) ?T
    = Inr (of_nat (k + 1 * q), of_nat (p0 + 1), of_nat (0 + 1 * q),
           ?T\<lparr>tftf_pd_nodes := upd_range (\<lambda>i. dom_node lvl (p0 + (i - k) div q)) k (1 * q) (tftf_pd_nodes ?T)\<rparr>)"
  proof (rule init_parents_range [where f = "\<lambda>p i. dom_node lvl p" and N = "length (tftf_pd_nodes T)"])
    show "init_node (fvp_topo_env P) lvl (of_nat p) (of_nat i) T'
        = Inr (T'\<lparr>tftf_pd_nodes := (tftf_pd_nodes T')[i := dom_node lvl p (tftf_pd_nodes T' ! i)]\<rparr>)"
      if "i < k + 1 * q" "length (tftf_pd_nodes T') = length (tftf_pd_nodes T)" for p i T'
      by (rule init_node_dom) (use that q k len b in simp_all)
    show "p < length (pwr_domain_tree_desc (fvp_topo_env P)) \<and> pwr_domain_tree_desc (fvp_topo_env P) ! p = of_nat q"
      if "p0 \<le> p" "p < p0 + 1" for p
    proof -
      have "p = p0" using that by simp
      then show ?thesis using lvl b fvp_desc by auto
    qed
  qed (use q fvp_affs [OF ok] in simp_all)
  moreover have "upd_range (\<lambda>i. dom_node lvl (p0 + (i - k) div q)) k q (tftf_pd_nodes T)
      = upd_range (\<lambda>i. dom_node lvl p0) k q (tftf_pd_nodes T)"
    by (rule upd_range_cong) simp
  ultimately show ?thesis using q len by (simp add: init_level_def)
qed

lemma fvp_level_cpu:
  assumes ok: "fvp_ok P"
    and len: "length (tftf_pd_nodes T) = 1 + FVP_CLUSTER_COUNT P + fvp_core_count P" "length (tftf_pwr_domain_start_idx T) = 3"
    and s: "s = 1 + FVP_CLUSTER_COUNT P"
  shows "init_level (fvp_topo_env P) 0 (of_nat s, 2, of_nat (FVP_CLUSTER_COUNT P), T)
    = Inr (of_nat (s + fvp_core_count P), of_nat (2 + FVP_CLUSTER_COUNT P), of_nat (fvp_core_count P),
        T\<lparr>tftf_pwr_domain_start_idx := (tftf_pwr_domain_start_idx T)[0 := of_nat s],
          tftf_pd_nodes := upd_range (\<lambda>i. fvp_cpu_node P s (2 + (i - s) div fvp_per_cluster P) i) s (fvp_core_count P) (tftf_pd_nodes T)\<rparr>)"
proof -
  note b = fvp_bounds [OF ok]
  let ?C = "FVP_CLUSTER_COUNT P" and ?q = "fvp_per_cluster P"
  let ?T = "T\<lparr>tftf_pwr_domain_start_idx := (tftf_pwr_domain_start_idx T)[0 := of_nat s]\<rparr>"
  have "init_parents (fvp_topo_env P) 0 ?C (of_nat s) (of_nat 2) (of_nat 0) ?T
    = Inr (of_nat (s + ?C * ?q), of_nat (2 + ?C), of_nat (0 + ?C * ?q),
           ?T\<lparr>tftf_pd_nodes := upd_range (\<lambda>i. fvp_cpu_node P s (2 + (i - s) div ?q) i) s (?C * ?q) (tftf_pd_nodes ?T)\<rparr>)"
  proof (rule init_parents_range [where f = "fvp_cpu_node P s" and N = "length (tftf_pd_nodes T)"
        and S = "(tftf_pwr_domain_start_idx T)[0 := of_nat s]"])
    show "init_node (fvp_topo_env P) 0 (of_nat p) (of_nat i) T'
        = Inr (T'\<lparr>tftf_pd_nodes := (tftf_pd_nodes T')[i := fvp_cpu_node P s p i (tftf_pd_nodes T' ! i)]\<rparr>)"
      if "s \<le> i" "i < s + ?C * ?q" "length (tftf_pd_nodes T') = length (tftf_pd_nodes T)"
        "tftf_pwr_domain_start_idx T' = (tftf_pwr_domain_start_idx T)[0 := of_nat s]" for p i T'
    proof (rule init_node_cpu [OF ok])
      obtain x xs where "tftf_pwr_domain_start_idx T = x # xs" using len(2) by (cases "tftf_pwr_domain_start_idx T") simp_all
      with that show "tftf_pwr_domain_start_idx T' = of_nat s # tl (tftf_pwr_domain_start_idx T)" by simp
    qed (use that len b s in simp_all)
    show "p < length (pwr_domain_tree_desc (fvp_topo_env P)) \<and> pwr_domain_tree_desc (fvp_topo_env P) ! p = of_nat ?q"
      if "2 \<le> p" "p < 2 + ?C" for p
      using fvp_desc(5) [OF that] that by (simp only: fvp_desc(1,2) simp_thms)
    show "2 + ?C < 2 ^ 32" using b(4) by simp
    show "?q < 256" using b(2) by linarith
    show "0 < ?q" using b(1) by linarith
  qed (use fvp_affs [OF ok] in simp_all)
  moreover have "unat (of_nat ?C :: u32) = ?C" using b by (intro unat_of_nat_word32) simp
  ultimately show ?thesis using len by (simp add: init_level_def b(5))
qed

lemma fvp_populate:
  assumes "fvp_ok P"
  shows "populate_power_domain_tree (fvp_topo_env P) (fvp_topology_zero P)
    = Inr \<lparr>topology_setup_done = False,
           tftf_pwr_domain_start_idx = [of_nat (1 + FVP_CLUSTER_COUNT P), 1, 0], tftf_pd_nodes = fvp_nodes P 0\<rparr>"
proof -
  note b = fvp_bounds [OF assms]
  let ?E = "fvp_topo_env P" and ?C = "FVP_CLUSTER_COUNT P" and ?Z = "fvp_topology_zero P"
  let ?s = "1 + ?C" and ?N = "1 + ?C + fvp_core_count P"
  let ?T1 = "?Z\<lparr>tftf_pwr_domain_start_idx := (tftf_pwr_domain_start_idx ?Z)[2 := of_nat 0],
      tftf_pd_nodes := upd_range (\<lambda>i. dom_node 2 0) 0 1 (tftf_pd_nodes ?Z)\<rparr>"
  let ?T2 = "?T1\<lparr>tftf_pwr_domain_start_idx := (tftf_pwr_domain_start_idx ?T1)[1 := of_nat 1],
      tftf_pd_nodes := upd_range (\<lambda>i. dom_node 1 1) 1 ?C (tftf_pd_nodes ?T1)\<rparr>"
  let ?T3 = "?T2\<lparr>tftf_pwr_domain_start_idx := (tftf_pwr_domain_start_idx ?T2)[0 := of_nat ?s],
      tftf_pd_nodes := upd_range (\<lambda>i. fvp_cpu_node P ?s (2 + (i - ?s) div fvp_per_cluster P) i) ?s
        (fvp_core_count P) (tftf_pd_nodes ?T2)\<rparr>"
  have lz: "length (tftf_pd_nodes ?Z) = ?N" "length (tftf_pwr_domain_start_idx ?Z) = 3"
    by (simp_all add: fvp_topology_zero_def)
  have "init_level ?E 2 (of_nat 0, of_nat 0, 1, ?Z) = Inr (of_nat (0 + 1), of_nat (0 + 1), of_nat 1, ?T1)"
    by (rule fvp_level [OF assms]) (use lz in simp_all)
  then have l2: "init_level ?E (Suc 1) (0, 0, 1, ?Z) = Inr (1, 1, 1, ?T1)" by (simp add: numeral_2_eq_2)
  have "init_level ?E 1 (of_nat 1, of_nat 1, 1, ?T1) = Inr (of_nat (1 + ?C), of_nat (1 + 1), of_nat ?C, ?T2)"
    by (rule fvp_level [OF assms]) (use lz in simp_all)
  then have l1: "init_level ?E (Suc 0) (1, 1, 1, ?T1) = Inr (of_nat ?s, 2, of_nat ?C, ?T2)" by simp
  have l0: "init_level ?E 0 (of_nat ?s, 2, of_nat ?C, ?T2)
      = Inr (of_nat (?s + fvp_core_count P), of_nat (2 + ?C), of_nat (fvp_core_count P), ?T3)"
    by (rule fvp_level_cpu [OF assms]) (use lz in simp_all)
  have lv: "init_levels ?E (PLATFORM_MAX_AFFLVL ?E) (0, 0, 1, ?Z)
      = Inr (of_nat ?N, of_nat (2 + ?C), of_nat (fvp_core_count P), ?T3)"
  proof -
    have "PLATFORM_MAX_AFFLVL ?E = Suc (Suc 0)" by (simp add: fvp_topo_env_def)
    then show ?thesis using l2 l1 l0 by (simp only: init_levels.simps andthen_Inr One_nat_def)
  qed
  have nodes: "tftf_pd_nodes ?T3 = fvp_nodes P 0"
  proof (rule nth_equalityI)
    show "length (tftf_pd_nodes ?T3) = length (fvp_nodes P 0)" using lz by (simp add: fvp_nodes_def)
    fix i assume "i < length (tftf_pd_nodes ?T3)"
    then have i: "i < ?N" using lz by simp
    have z: "tftf_pd_nodes ?Z ! i
        = \<lparr>cpu_start_node = 0, ncpus = 0, mpidr = 0, parent_node = 0, level = 0, is_present = False\<rparr>"
      using i unfolding fvp_topology_zero_def by (simp only: topology.simps nth_replicate)
    have "tftf_pd_nodes ?T3 ! i = (if ?s \<le> i then fvp_cpu_node P ?s (2 + (i - ?s) div fvp_per_cluster P) i (tftf_pd_nodes ?Z ! i)
        else if i = 0 then dom_node 2 0 (tftf_pd_nodes ?Z ! i) else dom_node 1 1 (tftf_pd_nodes ?Z ! i))"
      using i lz by (simp add: upd_range_nth)
    moreover have "fvp_nodes P 0 ! i = fvp_node P 0 i" using i unfolding fvp_nodes_def by (simp del: upt_Suc)
    ultimately show "tftf_pd_nodes ?T3 ! i = fvp_nodes P 0 ! i"
      using i unfolding z by (simp add: fvp_node_def fvp_cpu_node_def dom_node_def Let_def)
  qed
  have "tftf_pwr_domain_start_idx ?T3 = [of_nat ?s, 1, 0]"
    by (simp add: fvp_topology_zero_def numeral_3_eq_3 numeral_2_eq_2)
  moreover have "topology_setup_done ?T3 = False" by (simp add: fvp_topology_zero_def)
  ultimately have T3: "?T3 = \<lparr>topology_setup_done = False,
           tftf_pwr_domain_start_idx = [of_nat ?s, 1, 0], tftf_pd_nodes = fvp_nodes P 0\<rparr>"
    using nodes by (intro topology.equality) simp_all
  have "PLATFORM_NUM_AFFS ?E = of_nat ?N" by (simp add: fvp_topo_env_def)
  then show ?thesis unfolding populate_power_domain_tree_def lv T3 by simp
qed

lemma fvp_nodes_nth:
  assumes "i < 1 + FVP_CLUSTER_COUNT P + fvp_core_count P"
  shows "fvp_nodes P m ! i = fvp_node P m i" and "aget (fvp_nodes P m) i = Inr (fvp_node P m i)"
  using assms unfolding fvp_nodes_def by (simp_all del: upt_Suc)

lemma fvp_parents:
  assumes ok: "fvp_ok P" and m: "m < fvp_core_count P" and T: "tftf_pd_nodes T = fvp_nodes P l"
  shows "get_parent_pwr_domain_nodes T (of_nat (1 + FVP_CLUSTER_COUNT P + m)) 2
    = Inr [of_nat (1 + m div fvp_per_cluster P), 0]"
proof -
  note b = fvp_bounds [OF ok]
  let ?C = "FVP_CLUSTER_COUNT P"
  have d: "m div fvp_per_cluster P < ?C" using m unfolding b(5) by (rule less_mult_imp_div_less)
  have u: "unat (of_nat (1 + ?C + m) :: u32) = 1 + ?C + m" "unat (of_nat (1 + m div fvp_per_cluster P) :: u32) = 1 + m div fvp_per_cluster P"
    using b m d by (intro unat_of_nat_word32; simp)+
  have p: "parent_node (fvp_node P l (1 + ?C + m)) = of_nat (1 + m div fvp_per_cluster P)"
    "parent_node (fvp_node P l (1 + m div fvp_per_cluster P)) = 0"
    using d by (simp_all add: fvp_node_def Let_def)
  have a: "aget (fvp_nodes P l) (1 + ?C + m) = Inr (fvp_node P l (1 + ?C + m))"
    "aget (fvp_nodes P l) (1 + m div fvp_per_cluster P) = Inr (fvp_node P l (1 + m div fvp_per_cluster P))"
    "aget (fvp_nodes P l) 0 = Inr (fvp_node P l 0)"
    using m d by (intro fvp_nodes_nth; simp)+
  show ?thesis
    unfolding get_parent_pwr_domain_nodes_def T u a andthen_Inr p numeral_2_eq_2 parent_chain.simps
    by (simp only: unat_0 a andthen_Inr)
qed

text \<open>The parents of the CPU before CPU \<open>m\<close>, what \<open>nodes_idx\<close> holds when CPU \<open>m\<close> is counted.\<close>

definition fvp_previous :: "fvp_cfg \<Rightarrow> nat \<Rightarrow> u32 list" where
  "fvp_previous P m = (if m = 0 then [- 1, - 1] else [of_nat (1 + (m - 1) div fvp_per_cluster P), 0])"

lemma div_pred:
  assumes "0 < m" "0 < q"
  shows "(m - 1) div q \<noteq> m div q \<longleftrightarrow> m = m div q * (q :: nat)"
proof -
  have m: "m div q * q + m mod q = m" by simp
  show ?thesis
  proof (cases "m mod q = 0")
    case True
    then have "m div q * q = m" using m by simp
    moreover have "(m - 1) div q < m div q" using assms \<open>m div q * q = m\<close>
      by (intro less_mult_imp_div_less) simp
    ultimately show ?thesis by simp
  next
    case False
    then obtain s where s: "m mod q = Suc s" by (cases "m mod q") simp_all
    have "m mod q < q" using assms(2) by simp
    then have sq: "s < q" using s by simp
    have "m - 1 = s + m div q * q" using m s by linarith
    then have "(m - 1) div q = m div q" using sq assms(2) by (simp only: div_mult_self1_is_m div_mult_self1 div_less)
    moreover have "m \<noteq> m div q * q" using m False by linarith
    ultimately show ?thesis by simp
  qed
qed

lemma fvp_node_Suc_other:
  assumes "0 < fvp_per_cluster P" "i \<noteq> 0" "i \<noteq> 1 + m div fvp_per_cluster P"
  shows "fvp_node P (Suc m) i = fvp_node P m i"
proof -
  let ?q = "fvp_per_cluster P" and ?c = "i - 1"
  have "?c < m div ?q \<or> m div ?q < ?c" using assms(2,3) by auto
  then have c: "Suc ?c * ?q \<le> m \<or> m < ?c * ?q"
  proof
    assume "?c < m div ?q"
    then have "Suc ?c * ?q \<le> m div ?q * ?q" by (intro mult_le_mono1) simp
    also have "\<dots> \<le> m" by simp
    finally show ?thesis ..
  next
    assume "m div ?q < ?c"
    then have "Suc (m div ?q) * ?q \<le> ?c * ?q" by (intro mult_le_mono1) simp
    moreover have "m < Suc (m div ?q) * ?q" using assms(1) dividend_less_div_times by simp
    ultimately show ?thesis by linarith
  qed
  then have c': "?c * ?q + ?q \<le> m \<or> m < ?c * ?q" by (simp only: mult_Suc add.commute)
  have lt: "?c * ?q < Suc m \<longleftrightarrow> ?c * ?q < m" using c' assms(1) by linarith
  have mn: "min ?q (Suc m - ?c * ?q) = min ?q (m - ?c * ?q)" using c' assms(1) by linarith
  show ?thesis using assms(2) unfolding fvp_node_def Let_def lt mn by simp
qed

lemma fvp_count_cluster:
  assumes q: "0 < fvp_per_cluster P" and d: "m div fvp_per_cluster P < FVP_CLUSTER_COUNT P"
    and n: "n \<longleftrightarrow> m = 0 \<or> (m - 1) div fvp_per_cluster P \<noteq> m div fvp_per_cluster P"
  shows "(let p = fvp_node P m (1 + m div fvp_per_cluster P);
      p = (if n then (let p = p\<lparr>cpu_start_node := of_nat (1 + FVP_CLUSTER_COUNT P + m)\<rparr>
                      in if \<not> is_present p then p\<lparr>is_present := fvp_cpu_present P m\<rparr> else p) else p)
      in p\<lparr>ncpus := ncpus p + 1\<rparr>) = fvp_node P (Suc m) (1 + m div fvp_per_cluster P)"
proof -
  let ?q = "fvp_per_cluster P"
  define d where "d = m div ?q"
  define r where "r = m mod ?q"
  have m: "m = d * ?q + r" "r < ?q"
    unfolding d_def r_def by (rule div_mult_mod_eq [symmetric]) (rule mod_less_divisor [OF q])
  have nr: "n \<longleftrightarrow> r = 0"
  proof (cases "m = 0")
    case False
    then have "n \<longleftrightarrow> m = d * ?q" using n div_pred [of m ?q] q by (simp add: d_def)
    then show ?thesis using m by simp
  qed (simp add: n r_def)
  have mins: "min ?q r = r" "min ?q (Suc r) = Suc r" using m(2) by simp_all
  have "1 + d \<le> FVP_CLUSTER_COUNT P" using assms(2) by (simp add: d_def)
  then show ?thesis
    unfolding d_def [symmetric] unfolding fvp_node_def Let_def unfolding m(1) nr
    using mins by (cases "r = 0") (simp_all add: Suc_diff_le)
qed

lemma count_cpu_eq:
  "aget ns (unat temp) = Inr p \<Longrightarrow> count_cpu cpu_node present temp node ns
    = aput ns (unat temp)
      (let p = p; p = (if temp \<noteq> node then (let p = p\<lparr>cpu_start_node := cpu_node\<rparr>
                      in if \<not> is_present p then p\<lparr>is_present := present\<rparr> else p) else p)
      in p\<lparr>ncpus := ncpus p + 1\<rparr>)"
  by (simp add: count_cpu_def Let_def)

lemma fvp_count_step:
  assumes ok: "fvp_ok P" and m: "m < fvp_core_count P"
  shows "count_levels (of_nat (1 + FVP_CLUSTER_COUNT P + m)) (fvp_cpu_present P m)
      [0, of_nat (1 + m div fvp_per_cluster P)] (rev (fvp_previous P m)) (fvp_nodes P m)
    = Inr (fvp_nodes P (Suc m))"
proof -
  note b = fvp_bounds [OF ok]
  let ?q = "fvp_per_cluster P" and ?C = "FVP_CLUSTER_COUNT P" and ?N = "1 + FVP_CLUSTER_COUNT P + fvp_core_count P"
  let ?d = "m div ?q" and ?cpu = "of_nat (1 + ?C + m) :: u32"
  define nd where "nd = fvp_nodes P m"
  have q: "0 < ?q" using b(1) by linarith
  have d: "?d < ?C" using m unfolding b(5) by (rule less_mult_imp_div_less)
  have u: "unat (of_nat (1 + ?d) :: u32) = 1 + ?d" using d b(4) by (intro unat_of_nat_word32) simp
  have len: "length nd = ?N" by (simp add: nd_def fvp_nodes_def)
  have pv: "rev (fvp_previous P m) = [if m = 0 then - 1 else 0, if m = 0 then - 1 else of_nat (1 + (m - 1) div ?q)]"
    by (simp add: fvp_previous_def)
  have n1: "of_nat (1 + ?d) \<noteq> (if m = 0 then - 1 else of_nat (1 + (m - 1) div ?q) :: u32)
      \<longleftrightarrow> m = 0 \<or> (m - 1) div ?q \<noteq> ?d"
  proof (cases "m = 0")
    case True
    then show ?thesis using of_nat_not_init [of "1 + ?d"] d b(4) by simp
  next
    case False
    have "(m - 1) div ?q \<le> ?d" by (rule div_le_mono) simp
    then have "unat (of_nat (1 + (m - 1) div ?q) :: u32) = 1 + (m - 1) div ?q"
      using d b(4) by (intro unat_of_nat_word32) simp
    then show ?thesis using False u by (metis add_left_cancel)
  qed
  have s0: "count_cpu ?cpu (fvp_cpu_present P m) 0 (if m = 0 then - 1 else 0) nd = Inr (nd[0 := fvp_node P (Suc m) 0])"
    using len fvp_nodes_nth(1) [of 0 P m] unfolding count_cpu_def nd_def
    by (cases "m = 0") (simp_all add: fvp_node_def Let_def add.commute)
  have "count_cpu ?cpu (fvp_cpu_present P m) (of_nat (1 + ?d)) (if m = 0 then - 1 else of_nat (1 + (m - 1) div ?q)) (nd[0 := fvp_node P (Suc m) 0])
      = Inr (nd[0 := fvp_node P (Suc m) 0, 1 + ?d := fvp_node P (Suc m) (1 + ?d)])"
  proof -
    have "aget (nd[0 := fvp_node P (Suc m) 0]) (1 + ?d) = Inr (fvp_node P m (1 + ?d))"
      using len d fvp_nodes_nth(1) [of "1 + ?d" P m] by (simp add: nd_def)
    then have "aget (nd[0 := fvp_node P (Suc m) 0]) (unat (of_nat (1 + ?d) :: u32)) = Inr (fvp_node P m (1 + ?d))"
      by (simp only: u)
    note c = count_cpu_eq [OF this]
    show ?thesis
      unfolding c u fvp_count_cluster [OF q d n1] using len d by (simp only: aput_def length_list_update) simp
  qed
  moreover have "nd[0 := fvp_node P (Suc m) 0, 1 + ?d := fvp_node P (Suc m) (1 + ?d)] = fvp_nodes P (Suc m)"
  proof (rule nth_equalityI)
    show "length (nd[0 := fvp_node P (Suc m) 0, 1 + ?d := fvp_node P (Suc m) (1 + ?d)]) = length (fvp_nodes P (Suc m))"
      using len by (simp add: fvp_nodes_def)
    fix i assume "i < length (nd[0 := fvp_node P (Suc m) 0, 1 + ?d := fvp_node P (Suc m) (1 + ?d)])"
    then have i: "i < ?N" using len by simp
    then show "nd[0 := fvp_node P (Suc m) 0, 1 + ?d := fvp_node P (Suc m) (1 + ?d)] ! i = fvp_nodes P (Suc m) ! i"
      using len fvp_node_Suc_other [OF q, of i m] fvp_nodes_nth(1) [OF i]
      by (cases "i = 1 + ?d"; cases "i = 0") (simp_all add: nd_def)
  qed
  ultimately show ?thesis unfolding pv nd_def [symmetric] count_levels.simps s0 by simp
qed

lemma fvp_count:
  assumes ok: "fvp_ok P"
  shows "m + n = fvp_core_count P \<Longrightarrow> tftf_pd_nodes T = fvp_nodes P m \<Longrightarrow>
    count_cpus (fvp_topo_env P) (of_nat (1 + FVP_CLUSTER_COUNT P + m)) n (fvp_previous P m) T
    = Inr (T\<lparr>tftf_pd_nodes := fvp_nodes P (m + n)\<rparr>)"
proof (induction n arbitrary: m T)
  case 0
  then show ?case by simp
next
  case (Suc n)
  note b = fvp_bounds [OF ok]
  let ?C = "FVP_CLUSTER_COUNT P"
  have m: "m < fvp_core_count P" using Suc.prems by simp
  have u: "unat (of_nat (1 + ?C + m) :: u32) = 1 + ?C + m" using b m by (intro unat_of_nat_word32) simp
  have ml: "PLATFORM_MAX_AFFLVL (fvp_topo_env P) = 2" by (simp add: fvp_topo_env_def)
  have a: "aget (fvp_nodes P m) (1 + ?C + m) = Inr (fvp_node P m (1 + ?C + m))"
    using m by (intro fvp_nodes_nth) simp
  have pr: "is_present (fvp_node P m (1 + ?C + m)) = fvp_cpu_present P m" by (simp add: fvp_node_def Let_def)
  have pv: "[of_nat (1 + m div fvp_per_cluster P), 0] = fvp_previous P (Suc m)" by (simp add: fvp_previous_def)
  have rv: "rev [of_nat (1 + m div fvp_per_cluster P), 0 :: u32] = [0, of_nat (1 + m div fvp_per_cluster P)]" by simp
  have IH: "count_cpus (fvp_topo_env P) (of_nat (1 + ?C + Suc m)) n (fvp_previous P (Suc m)) (T\<lparr>tftf_pd_nodes := fvp_nodes P (Suc m)\<rparr>)
    = Inr (T\<lparr>tftf_pd_nodes := fvp_nodes P (m + Suc n)\<rparr>)"
    using Suc.IH [of "Suc m" "T\<lparr>tftf_pd_nodes := fvp_nodes P (Suc m)\<rparr>"] Suc.prems by simp
  have w: "of_nat (1 + ?C + m) + 1 = (of_nat (1 + ?C + Suc m) :: u32)" by simp
  show ?case
    unfolding count_cpus.simps ml fvp_parents [OF ok m Suc.prems(2)] andthen_Inr Suc.prems(2) u a pr rv
      fvp_count_step [OF ok m] w
    using IH unfolding pv .
qed

text \<open>C11: \<open>tftf_init_topology\<close> on the FVP: for every number of clusters, of CPUs and of threads
  no assertion fails, the levels start where the tree descriptor says, and each node has its level,
  parent, first CPU and number of CPUs. A CPU is present when the power controller knows its MPID;
  a cluster and the system are marked present exactly when their first CPU is.\<close>

theorem fvp_init_topology:
  assumes "fvp_ok P"
  shows "tftf_init_topology (fvp_topo_env P) (fvp_topology_zero P)
    = Inr \<lparr>topology_setup_done = True,
           tftf_pwr_domain_start_idx = [of_nat (1 + FVP_CLUSTER_COUNT P), 1, 0],
           tftf_pd_nodes = fvp_nodes P (fvp_core_count P)\<rparr>"
proof -
  let ?T = "\<lparr>topology_setup_done = False,
      tftf_pwr_domain_start_idx = [of_nat (1 + FVP_CLUSTER_COUNT P), 1, 0], tftf_pd_nodes = fvp_nodes P 0\<rparr>"
  have "replicate (PLATFORM_MAX_AFFLVL (fvp_topo_env P)) (- 1) = fvp_previous P 0"
    by (simp add: fvp_topo_env_def fvp_previous_def numeral_2_eq_2)
  then have "update_pwrlvl_limits (fvp_topo_env P) ?T
      = Inr (?T\<lparr>tftf_pd_nodes := fvp_nodes P (fvp_core_count P)\<rparr>)"
    using fvp_count [OF assms, of 0 "fvp_core_count P" ?T] fvp_affs(2) [OF assms]
    by (simp add: update_pwrlvl_limits_def)
  then show ?thesis unfolding tftf_init_topology_def fvp_populate [OF assms] by simp
qed

lemma small_cases:
  "(n :: nat) < 8 \<Longrightarrow> n = 0 \<or> n = 1 \<or> n = 2 \<or> n = 3 \<or> n = 4 \<or> n = 5 \<or> n = 6 \<or> n = 7"
  by auto

lemma demo_fvp_count: "FVP_CLUSTER_COUNT demo_fvp = 2" "fvp_core_count demo_fvp = 8" "fvp_per_cluster demo_fvp = 4"
  by (simp_all add: demo_fvp_def fvp_core_count_def)

lemma demo_fvp_present: "fvp_cpu_present demo_fvp 0 = False" "fvp_cpu_present demo_fvp 1 = True"
  by (simp_all add: fvp_cpu_present_def fvp_cpu_mpid_def make_mpid_def demo_fvp_def Let_def)

text \<open>The cluster of a machine whose first CPU is missing is reported absent, though other CPUs of
  it are there.\<close>

theorem fvp_init_topology_witness:
  "\<exists>T. tftf_init_topology (fvp_topo_env demo_fvp) (fvp_topology_zero demo_fvp) = Inr T
     \<and> is_present (tftf_pd_nodes T ! 1) = False \<and> is_present (tftf_pd_nodes T ! 4) = True"
proof -
  have "fvp_nodes demo_fvp 8 ! 1 = fvp_node demo_fvp 8 1" "fvp_nodes demo_fvp 8 ! 4 = fvp_node demo_fvp 8 4"
    by (rule fvp_nodes_nth(1); simp add: demo_fvp_count)+
  moreover have "is_present (fvp_node demo_fvp 8 1) = False"
    unfolding fvp_node_def Let_def demo_fvp_count using demo_fvp_present(1) by simp
  moreover have "is_present (fvp_node demo_fvp 8 4) = True"
    unfolding fvp_node_def Let_def demo_fvp_count using demo_fvp_present(2) by simp
  ultimately show ?thesis
    unfolding fvp_init_topology [OF demo_fvp_ok] demo_fvp_count by simp
qed

lemma fvp_topo_ok:
  assumes "fvp_ok P"
  shows "topo_ok (fvp_topo_env P) \<lparr>topology_setup_done = True,
           tftf_pwr_domain_start_idx = [of_nat (1 + FVP_CLUSTER_COUNT P), 1, 0],
           tftf_pd_nodes = fvp_nodes P (fvp_core_count P)\<rparr>"
proof -
  note b = fvp_bounds [OF assms]
  have s: "unat (of_nat (1 + FVP_CLUSTER_COUNT P) :: u32) = 1 + FVP_CLUSTER_COUNT P"
    using b by (intro unat_of_nat_word32) simp
  have "0 < PLATFORM_CORE_COUNT (fvp_topo_env P)"
    using fvp_affs(2) [OF assms] b(6) by (simp add: word_less_nat_alt)
  moreover have "level (fvp_nodes P (fvp_core_count P) ! i) = 0"
    if "1 + FVP_CLUSTER_COUNT P \<le> i" "i < 1 + FVP_CLUSTER_COUNT P + fvp_core_count P" for i
    using that fvp_nodes_nth(1) [OF that(2)] by (simp add: fvp_node_def Let_def)
  moreover have "length (fvp_nodes P m) = 1 + FVP_CLUSTER_COUNT P + fvp_core_count P" for m
    by (simp add: fvp_nodes_def)
  moreover have "1 + FVP_CLUSTER_COUNT P + fvp_core_count P < 2 ^ 32 - 1" using b(4,7) by simp
  ultimately show ?thesis
    unfolding topo_ok_def topology.simps fvp_affs [OF assms] nth_Cons_0 s by simp
qed

lemma demo_fvp_node_present: "i < 8 \<Longrightarrow> is_present (fvp_nodes demo_fvp 8 ! (3 + i)) \<longleftrightarrow> i \<noteq> 0"
proof -
  assume i: "i < 8"
  have "fvp_nodes demo_fvp 8 ! (3 + i) = fvp_node demo_fvp 8 (3 + i)"
    by (rule fvp_nodes_nth(1)) (use i in \<open>simp add: demo_fvp_count\<close>)
  then have "is_present (fvp_nodes demo_fvp 8 ! (3 + i)) \<longleftrightarrow> fvp_cpu_present demo_fvp i"
    unfolding fvp_node_def Let_def demo_fvp_count by simp
  moreover have "fvp_cpu_present demo_fvp i \<longleftrightarrow> i \<noteq> 0"
    using small_cases [OF i] unfolding fvp_cpu_present_def fvp_cpu_mpid_def make_mpid_def demo_fvp_def Let_def
    by (elim disjE) simp_all
  ultimately show ?thesis by simp
qed

theorem for_each_cpu_visits_witness:
  "for_each_cpu (fvp_topo_env demo_fvp) \<lparr>topology_setup_done = True,
     tftf_pwr_domain_start_idx = [of_nat (1 + FVP_CLUSTER_COUNT demo_fvp), 1, 0],
     tftf_pd_nodes = fvp_nodes demo_fvp (fvp_core_count demo_fvp)\<rparr> = Inr [4, 5, 6, 7, 8, 9, 10]"
proof -
  have "[3..<11] = [3 + 0, 3 + 1, 3 + 2, 3 + 3, 3 + 4, 3 + 5, 3 + 6, 3 + 7 :: nat]" by (simp add: upt_rec)
  then have "filter (\<lambda>i. is_present (fvp_nodes demo_fvp 8 ! i)) [3..<11] = [3 + 1, 3 + 2, 3 + 3, 3 + 4, 3 + 5, 3 + 6, 3 + 7]"
    by (simp only: filter.simps demo_fvp_node_present) simp
  then show ?thesis
    using for_each_cpu_visits [OF fvp_topo_ok [OF demo_fvp_ok]] fvp_affs(1) [OF demo_fvp_ok]
    by (simp add: demo_fvp_count present_cpus_def)
qed

end
