(* ===== verification/Tftf_Nvm.thy ===== *)
theory Tftf_Nvm
  imports Tftf_Libc
begin

text \<open>
  The non-volatile state of a test session: the accessors of
  \<open>src/plat/common/tftf_nvm_accessors.c\<close> (with \<open>USE_NVM=0\<close>, the default: the state lives in
  DRAM) and \<open>src/tftf/framework/nvm_results_helpers.c\<close>, at byte level. The layout is that of
  \<open>tftf_state_t\<close> (\<open>src/tftf/framework/include/nvm.h\<close>) under the AArch64 ABI:

    build message (32 bytes) at 0, test to run (2 words) at 32, progress at 40, scratch
    buffer (128 bytes) at 44, results (24 bytes each, 8-aligned) at 176, then the size of the
    result buffer and, 8-aligned, the result buffer itself.

  A result entry has the result at 0, the duration at 8, the output's offset at 16 and its
  size at 20. Padding bytes are written as zero; nothing reads them. The enumerations are
  32-bit values: \<open>TEST_RESULT_NA\<close> is -1.

  \<open>TFTF_NVM_SIZE\<close>, the address of the state, the number of tests and the build message come
  from the platform and the build, and are parameters. \<open>vsnprintf\<close> is represented by the
  text the format expands to.
\<close>

type_synonym status = u32

abbreviation (input) STATUS_SUCCESS :: status where "STATUS_SUCCESS \<equiv> 0"
abbreviation (input) STATUS_OUT_OF_RESOURCES :: status where "STATUS_OUT_OF_RESOURCES \<equiv> 3"

abbreviation (input) TEST_RESULT_NA :: u32 where "TEST_RESULT_NA \<equiv> -1"
abbreviation (input) TEST_RESULT_SKIPPED :: u32 where "TEST_RESULT_SKIPPED \<equiv> 0"
abbreviation (input) TEST_RESULT_SUCCESS :: u32 where "TEST_RESULT_SUCCESS \<equiv> 1"
abbreviation (input) TEST_RESULT_FAIL :: u32 where "TEST_RESULT_FAIL \<equiv> 2"
abbreviation (input) TEST_RESULT_CRASHED :: u32 where "TEST_RESULT_CRASHED \<equiv> 3"
abbreviation (input) TEST_RESULT_MAX :: nat where "TEST_RESULT_MAX \<equiv> 4"

definition test_result_is_valid :: "u32 \<Rightarrow> bool" where
  "test_result_is_valid result \<longleftrightarrow> 0 \<le> sint result \<and> sint result < int TEST_RESULT_MAX"

abbreviation (input) TEST_READY :: u32 where "TEST_READY \<equiv> 0"
abbreviation (input) TEST_IN_PROGRESS :: u32 where "TEST_IN_PROGRESS \<equiv> 1"
abbreviation (input) TEST_COMPLETE :: u32 where "TEST_COMPLETE \<equiv> 2"
abbreviation (input) TEST_REBOOTING :: u32 where "TEST_REBOOTING \<equiv> 3"

definition test_progress_is_valid :: "u32 \<Rightarrow> bool" where
  "test_progress_is_valid progress \<longleftrightarrow> progress < 4"

section \<open>Encoding of the fields\<close>

primrec le_bytes :: "nat \<Rightarrow> nat \<Rightarrow> u8 list" where
  "le_bytes 0 x = []"
| "le_bytes (Suc k) x = of_nat (x mod 256) # le_bytes k (x div 256)"

primrec le_nat :: "u8 list \<Rightarrow> nat" where
  "le_nat [] = 0"
| "le_nat (b # bs) = unat b + 256 * le_nat bs"

lemma length_le_bytes [simp]: "length (le_bytes k x) = k"
  by (induction k arbitrary: x) auto

lemma le_nat_bytes: "x < 256 ^ k \<Longrightarrow> le_nat (le_bytes k x) = x"
proof (induction k arbitrary: x)
  case (Suc k)
  have "x div 256 < 256 ^ k" using Suc.prems by (simp add: less_mult_imp_div_less mult.commute)
  moreover have "unat (of_nat (x mod 256) :: u8) = x mod 256"
    by (simp add: unat_of_nat take_bit_eq_mod)
  ultimately show ?case using Suc.IH by simp
qed simp

definition put_u32 :: "u32 \<Rightarrow> u8 list" where
  "put_u32 w = le_bytes 4 (unat w)"

definition get_u32 :: "u8 list \<Rightarrow> u32" where
  "get_u32 bs = of_nat (le_nat bs)"

definition put_u64 :: "u64 \<Rightarrow> u8 list" where
  "put_u64 w = le_bytes 8 (unat w)"

definition get_u64 :: "u8 list \<Rightarrow> u64" where
  "get_u64 bs = of_nat (le_nat bs)"

record test_ref =
  testsuite_idx :: u32
  testcase_idx :: u32

record testcase_result =
  result :: u32
  duration :: u64
  output_offset :: u32
  output_size :: u32

definition put_ref :: "test_ref \<Rightarrow> u8 list" where
  "put_ref r = put_u32 (testsuite_idx r) @ put_u32 (testcase_idx r)"

definition get_ref :: "u8 list \<Rightarrow> test_ref" where
  "get_ref bs = \<lparr>testsuite_idx = get_u32 (take 4 bs), testcase_idx = get_u32 (drop 4 bs)\<rparr>"

definition put_result :: "testcase_result \<Rightarrow> u8 list" where
  "put_result r = put_u32 (result r) @ replicate 4 0 @ put_u64 (duration r)
     @ put_u32 (output_offset r) @ put_u32 (output_size r)"

definition get_result :: "u8 list \<Rightarrow> testcase_result" where
  "get_result bs = \<lparr>result = get_u32 (take 4 bs), duration = get_u64 (take 8 (drop 8 bs)),
     output_offset = get_u32 (take 4 (drop 16 bs)), output_size = get_u32 (drop 20 bs)\<rparr>"

text \<open>A field of the state: its values have a fixed size and can be read back.\<close>

locale nvm_field =
  fixes put :: "'v \<Rightarrow> u8 list" and get :: "u8 list \<Rightarrow> 'v" and len :: nat
  assumes length_put: "length (put v) = len" and get_put: "get (put v) = v" and len_small: "len < 2 ^ 32"
begin

lemma read_back: "get (mem_read (mem_write m a (put v)) a len) = v"
  using mem_read_write_same [of "put v" m a] len_small by (simp add: length_put get_put)

lemma read_other:
  assumes "o1 + len \<le> 2 ^ 63" "o2 + n \<le> 2 ^ 63" "o2 + n \<le> o1 \<or> o1 + len \<le> o2"
  shows "mem_read (mem_write m (b + of_nat o1) (put v)) (b + of_nat o2) n = mem_read m (b + of_nat o2) n"
  using assms by (intro mem_write_other) (auto simp: length_put)

end

interpretation u32_field: nvm_field put_u32 get_u32 4
  by unfold_locales (simp_all add: put_u32_def get_u32_def le_nat_bytes unat_less_2p [THEN less_le_trans])

interpretation u64_field: nvm_field put_u64 get_u64 8
  by unfold_locales (simp_all add: put_u64_def get_u64_def le_nat_bytes unat_less_2p [THEN less_le_trans])

interpretation ref_field: nvm_field put_ref get_ref 8
  by unfold_locales (simp_all add: put_ref_def get_ref_def u32_field.length_put u32_field.get_put)

interpretation result_field: nvm_field put_result get_result 24
  by unfold_locales
    (simp_all add: put_result_def get_result_def u32_field.length_put u32_field.get_put
      u64_field.length_put u64_field.get_put)

section \<open>State and accessors\<close>

record nvm_env =
  TFTF_NVM_SIZE :: u64
  nvm_base :: u64
  TESTCASE_RESULT_COUNT :: nat
  build_message :: "u8 list"
  NEW_TEST_SESSION :: bool

record nvm_state =
  nvm :: mem
  testcase_output :: "u8 list"
  testcase_output_idx :: u32

abbreviation (input) BUILD_MESSAGE_SIZE :: nat where "BUILD_MESSAGE_SIZE \<equiv> 0x20"
abbreviation (input) TESTCASE_OUTPUT_MAX_SIZE :: nat where "TESTCASE_OUTPUT_MAX_SIZE \<equiv> 1024"

definition off_build_message :: nat where "off_build_message = 0"
definition off_test_to_run :: nat where "off_test_to_run = 32"
definition off_test_progress :: nat where "off_test_progress = 40"
definition off_testcase_results :: nat where "off_testcase_results = 176"

definition off_result_buffer_size :: "nvm_env \<Rightarrow> nat" where
  "off_result_buffer_size E = off_testcase_results + 24 * TESTCASE_RESULT_COUNT E"

definition off_result_buffer :: "nvm_env \<Rightarrow> nat" where
  "off_result_buffer E = off_result_buffer_size E + 8"

definition sizeof_tftf_state :: "nvm_env \<Rightarrow> nat" where
  "sizeof_tftf_state E = off_result_buffer E + 8"

definition tftf_nvm_write :: "nvm_env \<Rightarrow> u64 \<Rightarrow> u8 list \<Rightarrow> nvm_state \<Rightarrow> status \<times> nvm_state" where
  "tftf_nvm_write E offset buffer S =
     (if TFTF_NVM_SIZE E < offset + of_nat (length buffer) then (STATUS_OUT_OF_RESOURCES, S)
      else (STATUS_SUCCESS, S\<lparr>nvm := mem_write (nvm S) (nvm_base E + offset) buffer\<rparr>))"

text \<open>A failed read leaves the caller's buffer as it was: there is no value.\<close>

definition tftf_nvm_read :: "nvm_env \<Rightarrow> u64 \<Rightarrow> nat \<Rightarrow> nvm_state \<Rightarrow> status \<times> u8 list option" where
  "tftf_nvm_read E offset sz S =
     (if TFTF_NVM_SIZE E < offset + of_nat sz then (STATUS_OUT_OF_RESOURCES, None)
      else (STATUS_SUCCESS, Some (mem_read (nvm S) (nvm_base E + offset) sz)))"

section \<open>Session data\<close>

text \<open>\<open>strncmp\<close> of two byte buffers, as in \<open>src/lib/libc/strncmp.c\<close>.\<close>

fun buf_strncmp_differ :: "u8 list \<Rightarrow> u8 list \<Rightarrow> nat \<Rightarrow> bool" where
  "buf_strncmp_differ xs ys 0 = False"
| "buf_strncmp_differ xs ys (Suc n) =
     (let a = (case xs of [] \<Rightarrow> 0 | x # _ \<Rightarrow> x); b = (case ys of [] \<Rightarrow> 0 | y # _ \<Rightarrow> y)
      in if a \<noteq> b then True else if a = 0 then False else buf_strncmp_differ (tl xs) (tl ys) n)"

definition new_test_session :: "nvm_env \<Rightarrow> nvm_state \<Rightarrow> bool res" where
  "new_test_session E S =
     (if NEW_TEST_SESSION E then Inr True
      else case snd (tftf_nvm_read E (of_nat off_build_message) BUILD_MESSAGE_SIZE S) of
          None \<Rightarrow> Inl Uninitialised
        | Some saved_build_msg \<Rightarrow>
            Inr (buf_strncmp_differ (build_message E) saved_build_msg BUILD_MESSAGE_SIZE))"

text \<open>\<open>strncpy\<close> of the build message into its 32-byte field.\<close>

definition build_message_field :: "nvm_env \<Rightarrow> u8 list" where
  "build_message_field E = take BUILD_MESSAGE_SIZE (build_message E @ replicate BUILD_MESSAGE_SIZE 0)"

definition tftf_init_state :: "nvm_env \<Rightarrow> u8 list" where
  "tftf_init_state E =
     build_message_field E
     @ put_ref \<lparr>testsuite_idx = 0, testcase_idx = 0\<rparr>
     @ put_u32 TEST_READY
     @ replicate 128 0 @ replicate 4 0
     @ put_result \<lparr>result = TEST_RESULT_NA, duration = 0, output_offset = 0, output_size = 0\<rparr>
     @ replicate (24 * (TESTCASE_RESULT_COUNT E - 1)) 0
     @ put_u32 0 @ replicate 4 0 @ replicate 8 0"

definition tftf_init_nvm :: "nvm_env \<Rightarrow> nvm_state \<Rightarrow> status \<times> nvm_state" where
  "tftf_init_nvm E S = tftf_nvm_write E 0 (tftf_init_state E) S"

definition tftf_clean_nvm :: "nvm_env \<Rightarrow> nvm_state \<Rightarrow> status \<times> nvm_state" where
  "tftf_clean_nvm E S = tftf_nvm_write E (of_nat off_build_message) [0] S"

definition tftf_set_test_to_run :: "nvm_env \<Rightarrow> test_ref \<Rightarrow> nvm_state \<Rightarrow> status \<times> nvm_state" where
  "tftf_set_test_to_run E test_to_run S =
     tftf_nvm_write E (of_nat off_test_to_run) (put_ref test_to_run) S"

definition tftf_get_test_to_run :: "nvm_env \<Rightarrow> nvm_state \<Rightarrow> status \<times> test_ref option" where
  "tftf_get_test_to_run E S =
     (case tftf_nvm_read E (of_nat off_test_to_run) 8 S of (st, bs) \<Rightarrow> (st, map_option get_ref bs))"

definition tftf_set_test_progress :: "nvm_env \<Rightarrow> u32 \<Rightarrow> nvm_state \<Rightarrow> status \<times> nvm_state" where
  "tftf_set_test_progress E test_progress S =
     tftf_nvm_write E (of_nat off_test_progress) (put_u32 test_progress) S"

definition tftf_get_test_progress :: "nvm_env \<Rightarrow> nvm_state \<Rightarrow> status \<times> u32 option" where
  "tftf_get_test_progress E S =
     (case tftf_nvm_read E (of_nat off_test_progress) 4 S of (st, bs) \<Rightarrow> (st, map_option get_u32 bs))"

text \<open>\<open>strlen\<close> of the output buffer.\<close>

definition output_strlen :: "nvm_state \<Rightarrow> nat res" where
  "output_strlen S = (if 0 \<in> set (testcase_output S)
     then Inr (length (takeWhile (\<lambda>b. b \<noteq> 0) (testcase_output S))) else Inl OutOfBounds)"

definition reset_test_output :: "nvm_state \<Rightarrow> nvm_state res" where
  "reset_test_output S =
     andthen (aput (testcase_output S) 0 0) (\<lambda>buf.
     Inr (S\<lparr>testcase_output_idx := 0, testcase_output := buf\<rparr>))"

definition finish_set_result ::
  "nvm_env \<Rightarrow> u32 \<Rightarrow> testcase_result \<Rightarrow> nvm_state \<Rightarrow> (status \<times> nvm_state) res" where
  "finish_set_result E index test_result S =
     (let (status, S) = tftf_nvm_write E
            (of_nat off_testcase_results + (ucast index :: u64) * 24) (put_result test_result) S
      in andthen (reset_test_output S) (\<lambda>S. Inr (status, S)))"

text \<open>\<open>index\<close> is \<open>testcase->index\<close>.\<close>

definition tftf_testcase_set_result ::
  "nvm_env \<Rightarrow> u32 \<Rightarrow> u32 \<Rightarrow> u64 \<Rightarrow> nvm_state \<Rightarrow> (status \<times> nvm_state) res" where
  "tftf_testcase_set_result E index res dur S =
     andthen (output_strlen S) (\<lambda>len.
     let test_result = \<lparr>result = res, duration = dur, output_offset = 0, output_size = of_nat len\<rparr>
     in if output_size test_result \<noteq> 0
        then case tftf_nvm_read E (of_nat (off_result_buffer_size E)) 4 S of
            (status, None) \<Rightarrow> andthen (reset_test_output S) (\<lambda>S. Inr (status, S))
          | (_, Some bs) \<Rightarrow>
              let result_buffer_size = get_u32 bs;
                  test_result = test_result\<lparr>output_offset := result_buffer_size\<rparr>;
                  (status, S) = tftf_nvm_write E
                    (of_nat (off_result_buffer E) + (ucast result_buffer_size :: u64))
                    (take (unat (output_size test_result + 1)) (testcase_output S)) S
              in if status \<noteq> STATUS_SUCCESS
                 then andthen (reset_test_output S) (\<lambda>S. Inr (status, S))
                 else
                   let result_buffer_size = result_buffer_size + (output_size test_result + 1);
                       (status, S) = tftf_nvm_write E (of_nat (off_result_buffer_size E))
                         (put_u32 result_buffer_size) S
                   in if status \<noteq> STATUS_SUCCESS
                      then andthen (reset_test_output S) (\<lambda>S. Inr (status, S))
                      else finish_set_result E index test_result S
        else finish_set_result E index test_result S)"

text \<open>The result and the bytes stored in the caller's buffer of \<open>bufsize\<close> bytes.\<close>

definition tftf_testcase_get_result ::
  "nvm_env \<Rightarrow> nat \<Rightarrow> u32 \<Rightarrow> nvm_state \<Rightarrow> (status \<times> testcase_result option \<times> u8 list option) res" where
  "tftf_testcase_get_result E bufsize index S =
     (case tftf_nvm_read E (of_nat off_testcase_results + (ucast index :: u64) * 24) 24 S of
        (status, None) \<Rightarrow> Inr (status, None, None)
      | (_, Some bs) \<Rightarrow>
          let r = get_result bs; out_size = unat (output_size r)
          in if bufsize \<le> out_size then Inl OutOfBounds
             else if out_size \<noteq> 0
             then case tftf_nvm_read E (of_nat (off_result_buffer E) + (ucast (output_offset r) :: u64))
                         out_size S of
                 (status, None) \<Rightarrow> Inr (status, Some r, None)
               | (_, Some out) \<Rightarrow> Inr (STATUS_SUCCESS, Some r, Some (out @ [0]))
             else Inr (STATUS_SUCCESS, Some r, Some [0]))"

text \<open>
  \<open>text\<close> is what the format and its arguments expand to; \<open>vsnprintf\<close> stores as much of it as
  fits before the terminator and returns its full length.
\<close>

definition vsnprintf_into :: "u8 list \<Rightarrow> nat \<Rightarrow> nat \<Rightarrow> u8 list \<Rightarrow> u8 list" where
  "vsnprintf_into buf i room text =
     (let out = take (room - 1) text @ [0] in take i buf @ out @ drop (i + length out) buf)"

definition tftf_testcase_printf :: "u8 list \<Rightarrow> nvm_state \<Rightarrow> (int \<times> nvm_state) res" where
  "tftf_testcase_printf text S =
     (let i = unat (testcase_output_idx S); len = length (testcase_output S)
      in andthen (assert_c (i \<le> len)) (\<lambda>_.
         let available = len - i
         in if available = 0 then Inr (-1, S)
            else
              let S = S\<lparr>testcase_output := vsnprintf_into (testcase_output S) i available text\<rparr>;
                  written = (if available \<le> length text then available - 1 else length text)
              in Inr (int written, S\<lparr>testcase_output_idx := testcase_output_idx S + of_nat written\<rparr>)))"

text \<open>The check of the progress is compiled in debug builds, where assertions are on.\<close>

definition tftf_notify_reboot :: "nvm_env \<Rightarrow> nvm_state \<Rightarrow> nvm_state res" where
  "tftf_notify_reboot E S =
     (case snd (tftf_get_test_progress E S) of
        None \<Rightarrow> Inl Uninitialised
      | Some progress \<Rightarrow>
          andthen (assert_c (progress = TEST_IN_PROGRESS)) (\<lambda>_.
          Inr (snd (tftf_set_test_progress E TEST_REBOOTING S))))"

section \<open>The abstract session data\<close>

text \<open>The state fits into the storage, and offsets do not wrap.\<close>

definition nvm_fits :: "nvm_env \<Rightarrow> bool" where
  "nvm_fits E \<longleftrightarrow> 0 < TESTCASE_RESULT_COUNT E \<and> TESTCASE_RESULT_COUNT E < 2 ^ 32
     \<and> sizeof_tftf_state E \<le> unat (TFTF_NVM_SIZE E) \<and> unat (TFTF_NVM_SIZE E) < 2 ^ 62"

definition at :: "nvm_env \<Rightarrow> nvm_state \<Rightarrow> nat \<Rightarrow> nat \<Rightarrow> u8 list" where
  "at E S off n = mem_read (nvm S) (nvm_base E + of_nat off) n"

definition put_at :: "nvm_env \<Rightarrow> nat \<Rightarrow> u8 list \<Rightarrow> nvm_state \<Rightarrow> nvm_state" where
  "put_at E off bs S = S\<lparr>nvm := mem_write (nvm S) (nvm_base E + of_nat off) bs\<rparr>"

lemmas off_defs = off_build_message_def off_test_to_run_def off_test_progress_def
  off_testcase_results_def off_result_buffer_size_def off_result_buffer_def sizeof_tftf_state_def

lemma unat_range:
  assumes "nvm_fits E" "off + n \<le> unat (TFTF_NVM_SIZE E)"
  shows "\<not> TFTF_NVM_SIZE E < of_nat off + of_nat n"
proof -
  have "unat (of_nat (off + n) :: u64) = off + n"
    using assms by (intro unat_of_nat_u64) (simp add: nvm_fits_def)
  then have "\<not> TFTF_NVM_SIZE E < of_nat (off + n)" using assms(2) unfolding word_less_nat_alt by simp
  then show ?thesis by simp
qed

lemma nvm_write_in:
  assumes "nvm_fits E" "off + length bs \<le> unat (TFTF_NVM_SIZE E)"
  shows "tftf_nvm_write E (of_nat off) bs S = (STATUS_SUCCESS, put_at E off bs S)"
  using unat_range [OF assms] by (simp add: tftf_nvm_write_def put_at_def)

lemma nvm_read_in:
  assumes "nvm_fits E" "off + n \<le> unat (TFTF_NVM_SIZE E)"
  shows "tftf_nvm_read E (of_nat off) n S = (STATUS_SUCCESS, Some (at E S off n))"
  using unat_range [OF assms] by (simp add: tftf_nvm_read_def at_def)

lemma at_put_same: "length bs < 2 ^ 62 \<Longrightarrow> length bs = n \<Longrightarrow> at E (put_at E off bs S) off n = bs"
  using mem_read_write_same [of bs "nvm S" "nvm_base E + of_nat off"] by (auto simp: at_def put_at_def)

lemma at_put_other:
  assumes "o1 + length bs < 2 ^ 63" "o2 + n < 2 ^ 63" "o2 + n \<le> o1 \<or> o1 + length bs \<le> o2"
  shows "at E (put_at E o1 bs S) o2 n = at E S o2 n"
  using mem_write_other [of o1 bs o2 n "nvm S" "nvm_base E"] assms by (simp add: at_def put_at_def)

lemma put_at_sel [simp]:
  "testcase_output (put_at E off bs S) = testcase_output S"
  "testcase_output_idx (put_at E off bs S) = testcase_output_idx S"
  by (simp_all add: put_at_def)

lemma at_frame [simp]:
  "at E (S\<lparr>testcase_output := b\<rparr>) off n = at E S off n"
  "at E (S\<lparr>testcase_output_idx := i\<rparr>) off n = at E S off n"
  by (simp_all add: at_def)

definition sd_ref :: "nvm_env \<Rightarrow> nvm_state \<Rightarrow> test_ref" where
  "sd_ref E S = get_ref (at E S off_test_to_run 8)"

definition sd_progress :: "nvm_env \<Rightarrow> nvm_state \<Rightarrow> u32" where
  "sd_progress E S = get_u32 (at E S off_test_progress 4)"

definition sd_result :: "nvm_env \<Rightarrow> nvm_state \<Rightarrow> nat \<Rightarrow> testcase_result" where
  "sd_result E S i = get_result (at E S (off_testcase_results + 24 * i) 24)"

definition sd_used :: "nvm_env \<Rightarrow> nvm_state \<Rightarrow> u32" where
  "sd_used E S = get_u32 (at E S (off_result_buffer_size E) 4)"

definition sd_output :: "nvm_env \<Rightarrow> nvm_state \<Rightarrow> nat \<Rightarrow> u8 list" where
  "sd_output E S i = at E S (off_result_buffer E + unat (output_offset (sd_result E S i)))
     (unat (output_size (sd_result E S i)))"

lemmas sd_defs = sd_ref_def sd_progress_def sd_result_def sd_used_def

named_theorems fits_simps \<open>offsets of fields that fit\<close>

lemma fits_field [fits_simps]:
  assumes "nvm_fits E"
  shows "off_test_to_run + 8 \<le> unat (TFTF_NVM_SIZE E)" "off_test_progress + 4 \<le> unat (TFTF_NVM_SIZE E)"
    "off_result_buffer_size E + 4 \<le> unat (TFTF_NVM_SIZE E)"
    "off_build_message + 32 \<le> unat (TFTF_NVM_SIZE E)"
    "i < TESTCASE_RESULT_COUNT E \<Longrightarrow> off_testcase_results + 24 * i + 24 \<le> unat (TFTF_NVM_SIZE E)"
    "off_result_buffer E < 2 ^ 62"
  using assms by (auto simp: nvm_fits_def off_defs)

lemma test_to_run_access:
  assumes "nvm_fits E"
  shows "tftf_get_test_to_run E S = (STATUS_SUCCESS, Some (sd_ref E S))"
    and "tftf_set_test_to_run E r S = (STATUS_SUCCESS, put_at E off_test_to_run (put_ref r) S)"
  using nvm_read_in [OF assms fits_field(1) [OF assms]]
    nvm_write_in [OF assms, of off_test_to_run "put_ref r"] fits_field(1) [OF assms]
  by (simp_all add: tftf_get_test_to_run_def tftf_set_test_to_run_def sd_ref_def ref_field.length_put)

lemma test_progress_access:
  assumes "nvm_fits E"
  shows "tftf_get_test_progress E S = (STATUS_SUCCESS, Some (sd_progress E S))"
    and "tftf_set_test_progress E p S = (STATUS_SUCCESS, put_at E off_test_progress (put_u32 p) S)"
  using nvm_read_in [OF assms fits_field(2) [OF assms]]
    nvm_write_in [OF assms, of off_test_progress "put_u32 p"] fits_field(2) [OF assms]
  by (simp_all add: tftf_get_test_progress_def tftf_set_test_progress_def sd_progress_def
      u32_field.length_put)

lemma nvm_fits_count: "nvm_fits E \<Longrightarrow> 24 * TESTCASE_RESULT_COUNT E < 2 ^ 61"
  by (simp add: nvm_fits_def)

lemma put_ref_view:
  assumes "nvm_fits E"
  shows "sd_ref E (put_at E off_test_to_run (put_ref r) S) = r"
    and "sd_progress E (put_at E off_test_to_run (put_ref r) S) = sd_progress E S"
    and "i < TESTCASE_RESULT_COUNT E \<Longrightarrow>
      sd_result E (put_at E off_test_to_run (put_ref r) S) i = sd_result E S i"
    and "sd_used E (put_at E off_test_to_run (put_ref r) S) = sd_used E S"
  using nvm_fits_count [OF assms]
  by (simp_all add: sd_defs off_defs at_put_same at_put_other ref_field.length_put ref_field.get_put)

lemma put_progress_view:
  assumes "nvm_fits E"
  shows "sd_progress E (put_at E off_test_progress (put_u32 p) S) = p"
    and "sd_ref E (put_at E off_test_progress (put_u32 p) S) = sd_ref E S"
    and "i < TESTCASE_RESULT_COUNT E \<Longrightarrow>
      sd_result E (put_at E off_test_progress (put_u32 p) S) i = sd_result E S i"
    and "sd_used E (put_at E off_test_progress (put_u32 p) S) = sd_used E S"
  using nvm_fits_count [OF assms]
  by (simp_all add: sd_defs off_defs at_put_same at_put_other u32_field.length_put u32_field.get_put)

lemma put_result_view:
  assumes "nvm_fits E" and i: "i < TESTCASE_RESULT_COUNT E"
  shows "sd_progress E (put_at E (off_testcase_results + 24 * i) (put_result r) S) = sd_progress E S"
    and "sd_ref E (put_at E (off_testcase_results + 24 * i) (put_result r) S) = sd_ref E S"
    and "j < TESTCASE_RESULT_COUNT E \<Longrightarrow>
      sd_result E (put_at E (off_testcase_results + 24 * i) (put_result r) S) j
        = (if j = i then r else sd_result E S j)"
    and "sd_used E (put_at E (off_testcase_results + 24 * i) (put_result r) S) = sd_used E S"
    and "n < 2 ^ 33 \<Longrightarrow> off < 2 ^ 33 \<Longrightarrow>
      at E (put_at E (off_testcase_results + 24 * i) (put_result r) S) (off_result_buffer E + off) n
        = at E S (off_result_buffer E + off) n"
  using nvm_fits_count [OF assms(1)] i
  by (auto simp: sd_defs off_defs at_put_same at_put_other result_field.length_put
      result_field.get_put nat_neq_iff)

lemma at_take: "n \<le> k \<Longrightarrow> at E S off n = take n (at E S off k)"
  by (simp add: at_def mem_read_def take_map)

lemma put_used_view:
  assumes "nvm_fits E"
  shows "sd_progress E (put_at E (off_result_buffer_size E) (put_u32 u) S) = sd_progress E S"
    and "sd_ref E (put_at E (off_result_buffer_size E) (put_u32 u) S) = sd_ref E S"
    and "j < TESTCASE_RESULT_COUNT E \<Longrightarrow>
      sd_result E (put_at E (off_result_buffer_size E) (put_u32 u) S) j = sd_result E S j"
    and "sd_used E (put_at E (off_result_buffer_size E) (put_u32 u) S) = u"
    and "n < 2 ^ 33 \<Longrightarrow> off < 2 ^ 33 \<Longrightarrow>
      at E (put_at E (off_result_buffer_size E) (put_u32 u) S) (off_result_buffer E + off) n
        = at E S (off_result_buffer E + off) n"
  using nvm_fits_count [OF assms(1)]
  by (auto simp: sd_defs off_defs at_put_same at_put_other u32_field.length_put
      u32_field.get_put)

lemma put_output_view:
  assumes "nvm_fits E" and "length bs < 2 ^ 33" and "o1 < 2 ^ 33"
  shows "sd_progress E (put_at E (off_result_buffer E + o1) bs S) = sd_progress E S"
    and "sd_ref E (put_at E (off_result_buffer E + o1) bs S) = sd_ref E S"
    and "j < TESTCASE_RESULT_COUNT E \<Longrightarrow>
      sd_result E (put_at E (off_result_buffer E + o1) bs S) j = sd_result E S j"
    and "sd_used E (put_at E (off_result_buffer E + o1) bs S) = sd_used E S"
    and "o2 + n \<le> o1 \<Longrightarrow>
      at E (put_at E (off_result_buffer E + o1) bs S) (off_result_buffer E + o2) n
        = at E S (off_result_buffer E + o2) n"
    and "n \<le> length bs \<Longrightarrow>
      at E (put_at E (off_result_buffer E + o1) bs S) (off_result_buffer E + o1) n = take n bs"
proof -
  note c = nvm_fits_count [OF assms(1)]
  show "sd_progress E (put_at E (off_result_buffer E + o1) bs S) = sd_progress E S"
    "sd_ref E (put_at E (off_result_buffer E + o1) bs S) = sd_ref E S"
    "j < TESTCASE_RESULT_COUNT E \<Longrightarrow>
      sd_result E (put_at E (off_result_buffer E + o1) bs S) j = sd_result E S j"
    "sd_used E (put_at E (off_result_buffer E + o1) bs S) = sd_used E S"
    "o2 + n \<le> o1 \<Longrightarrow>
      at E (put_at E (off_result_buffer E + o1) bs S) (off_result_buffer E + o2) n
        = at E S (off_result_buffer E + o2) n"
    using c assms by (simp_all add: sd_defs off_defs at_put_other)
  have "at E (put_at E (off_result_buffer E + o1) bs S) (off_result_buffer E + o1) (length bs) = bs"
    using assms by (intro at_put_same) auto
  then show "n \<le> length bs \<Longrightarrow>
      at E (put_at E (off_result_buffer E + o1) bs S) (off_result_buffer E + o1) n = take n bs"
    using at_take [of n "length bs"] by metis
qed

section \<open>Storing and reading back a result\<close>

text \<open>
  The output buffer holds the text \<open>out\<close>, and the results recorded so far have their outputs in
  the used part of the result buffer.
\<close>

definition output_is :: "nvm_state \<Rightarrow> u8 list \<Rightarrow> bool" where
  "output_is S out \<longleftrightarrow> length (testcase_output S) = TESTCASE_OUTPUT_MAX_SIZE
     \<and> length out < TESTCASE_OUTPUT_MAX_SIZE \<and> 0 \<notin> set out
     \<and> take (length out + 1) (testcase_output S) = out @ [0]
     \<and> unat (testcase_output_idx S) = length out"

definition outputs_wf :: "nvm_env \<Rightarrow> nvm_state \<Rightarrow> bool" where
  "outputs_wf E S \<longleftrightarrow> (\<forall>j < TESTCASE_RESULT_COUNT E. output_size (sd_result E S j) \<noteq> 0 \<longrightarrow>
     unat (output_offset (sd_result E S j)) + unat (output_size (sd_result E S j)) \<le> unat (sd_used E S)
     \<and> unat (output_size (sd_result E S j)) < TESTCASE_OUTPUT_MAX_SIZE)"

text \<open>The room a text takes in the result buffer.\<close>

definition room :: "u8 list \<Rightarrow> nat" where
  "room out = (if out = [] then 0 else length out + 1)"

definition has_room :: "nvm_env \<Rightarrow> nvm_state \<Rightarrow> nat \<Rightarrow> bool" where
  "has_room E S n \<longleftrightarrow> off_result_buffer E + unat (sd_used E S) + n \<le> unat (TFTF_NVM_SIZE E)
     \<and> unat (sd_used E S) + n < 2 ^ 32"

lemma output_strlen_is: "output_is S out \<Longrightarrow> output_strlen S = Inr (length out)"
proof -
  assume o: "output_is S out"
  have "testcase_output S
      = take (length out + 1) (testcase_output S) @ drop (length out + 1) (testcase_output S)"
    by (rule append_take_drop_id [symmetric])
  also have "\<dots> = out @ 0 # drop (length out + 1) (testcase_output S)"
    using o by (simp add: output_is_def)
  finally have "testcase_output S = out @ 0 # drop (length out + 1) (testcase_output S)" .
  moreover have "takeWhile (\<lambda>b. b \<noteq> 0) (out @ 0 # xs) = out" for xs
    using o by (subst takeWhile_append2) (auto simp: output_is_def)
  ultimately show ?thesis unfolding output_strlen_def by (metis in_set_conv_decomp)
qed

lemma reset_output_is:
  assumes "output_is S out"
  obtains S' where "reset_test_output S = Inr S'" "nvm S' = nvm S" "output_is S' []"
  using assms by (auto simp: reset_test_output_def output_is_def take_Suc_conv_app_nth)

lemma at_nvm_cong: "nvm S' = nvm S \<Longrightarrow> at E S' off n = at E S off n"
  by (simp add: at_def)

text \<open>What a stored result looks like afterwards.\<close>

definition stored :: "nvm_env \<Rightarrow> nat \<Rightarrow> testcase_result \<Rightarrow> u8 list \<Rightarrow> nvm_state \<Rightarrow> nvm_state" where
  "stored E i r out S =
     (if out = [] then put_at E (off_testcase_results + 24 * i) (put_result r) S
      else put_at E (off_testcase_results + 24 * i) (put_result r)
        (put_at E (off_result_buffer_size E) (put_u32 (sd_used E S + (of_nat (length out) + 1)))
          (put_at E (off_result_buffer E + unat (sd_used E S)) (out @ [0]) S)))"

definition new_result :: "nvm_env \<Rightarrow> u32 \<Rightarrow> u64 \<Rightarrow> u8 list \<Rightarrow> nvm_state \<Rightarrow> testcase_result" where
  "new_result E res dur out S = \<lparr>result = res, duration = dur,
     output_offset = (if out = [] then 0 else sd_used E S), output_size = of_nat (length out)\<rparr>"

lemma result_index:
  assumes "nvm_fits E" "i < TESTCASE_RESULT_COUNT E"
  shows "of_nat off_testcase_results + (ucast (of_nat i :: u32) :: u64) * 24
    = of_nat (off_testcase_results + 24 * i)"
proof -
  have "(ucast (of_nat i :: u32) :: u64) = of_nat i"
    using assms by (intro word_unat_eq_iff [THEN iffD2])
      (simp add: nvm_fits_def unsigned_ucast_eq unat_of_nat take_bit_nat_eq_self)
  then show ?thesis by simp
qed

lemma finish_set_result_eq:
  assumes f: "nvm_fits E" and i: "i < TESTCASE_RESULT_COUNT E" and o: "output_is S out"
  obtains S' where "finish_set_result E (of_nat i) r S = Inr (STATUS_SUCCESS, S')"
    and "nvm S' = nvm (put_at E (off_testcase_results + 24 * i) (put_result r) S)"
    and "output_is S' []"
proof -
  let ?S = "put_at E (off_testcase_results + 24 * i) (put_result r) S"
  have w: "tftf_nvm_write E (of_nat (off_testcase_results + 24 * i)) (put_result r) S
      = (STATUS_SUCCESS, ?S)"
    using fits_field(5) [OF f i] by (intro nvm_write_in [OF f]) (simp add: result_field.length_put)
  have "output_is ?S out" using o by (simp add: output_is_def)
  then obtain S' where "reset_test_output ?S = Inr S'" "nvm S' = nvm ?S" "output_is S' []"
    by (rule reset_output_is)
  then show thesis
    using w result_index [OF f i] by (intro that [of S']) (simp_all add: finish_set_result_def)
qed

lemma set_result_eq:
  assumes f: "nvm_fits E" and i: "i < TESTCASE_RESULT_COUNT E" and o: "output_is S out"
    and r: "has_room E S (room out)"
  obtains S' where "tftf_testcase_set_result E (of_nat i) res dur S = Inr (STATUS_SUCCESS, S')"
    and "nvm S' = nvm (stored E i (new_result E res dur out S) out S)" and "output_is S' []"
proof (cases "out = []")
  case True
  obtain S' where "finish_set_result E (of_nat i) (new_result E res dur out S) S = Inr (STATUS_SUCCESS, S')"
    "nvm S' = nvm (put_at E (off_testcase_results + 24 * i) (put_result (new_result E res dur out S)) S)"
    "output_is S' []"
    by (rule finish_set_result_eq [OF f i o])
  then show thesis
    using True output_strlen_is [OF o]
    by (intro that [of S']) (simp_all add: tftf_testcase_set_result_def new_result_def stored_def)
next
  case False
  let ?u = "sd_used E S" and ?len = "of_nat (length out) :: u32"
  let ?S1 = "put_at E (off_result_buffer E + unat ?u) (out @ [0]) S"
  let ?S2 = "put_at E (off_result_buffer_size E) (put_u32 (?u + (?len + 1))) ?S1"
  have l: "length out < 1024" "take (length out + 1) (testcase_output S) = out @ [0]"
    using o by (auto simp: output_is_def)
  then have ul: "unat ?len = length out" "unat (?len + 1) = length out + 1"
    by (simp_all add: unat_of_nat take_bit_nat_eq_self unat_word_ariths)
  have len0: "?len \<noteq> 0" using ul(1) False by (metis length_0_conv unat_0)
  have rd: "tftf_nvm_read E (of_nat (off_result_buffer_size E)) 4 S
      = (STATUS_SUCCESS, Some (at E S (off_result_buffer_size E) 4))"
    using fits_field(3) [OF f] by (rule nvm_read_in [OF f])
  have off: "of_nat (off_result_buffer E) + (ucast ?u :: u64) = of_nat (off_result_buffer E + unat ?u)"
    by (simp add: of_nat_unat)
  have w1: "tftf_nvm_write E (of_nat (off_result_buffer E + unat ?u)) (out @ [0]) S = (STATUS_SUCCESS, ?S1)"
    using r False by (intro nvm_write_in [OF f]) (simp add: has_room_def room_def)
  have w2: "tftf_nvm_write E (of_nat (off_result_buffer_size E)) (put_u32 (?u + (?len + 1))) ?S1
      = (STATUS_SUCCESS, ?S2)"
    using fits_field(3) [OF f] by (intro nvm_write_in [OF f]) (simp add: u32_field.length_put)
  have "output_is ?S2 out" using o by (simp add: output_is_def)
  then obtain S' where "finish_set_result E (of_nat i) (new_result E res dur out S) ?S2 = Inr (STATUS_SUCCESS, S')"
    "nvm S' = nvm (put_at E (off_testcase_results + 24 * i) (put_result (new_result E res dur out S)) ?S2)"
    "output_is S' []"
    by (rule finish_set_result_eq [OF f i])
  then show thesis
    using False output_strlen_is [OF o] len0 rd off w1 w2 ul l
    by (intro that [of S'])
      (simp_all add: tftf_testcase_set_result_def new_result_def stored_def sd_used_def [symmetric])
qed

lemma sd_nvm_cong:
  assumes "nvm S' = nvm S"
  shows "sd_ref E S' = sd_ref E S" "sd_progress E S' = sd_progress E S" "sd_result E S' i = sd_result E S i"
    "sd_used E S' = sd_used E S" "sd_output E S' i = sd_output E S i"
  using assms by (simp_all add: sd_defs sd_output_def at_def)

lemma unat_u32_less: "unat (x :: u32) < 2 ^ 33"
  using unat_less_2p [of x] by simp

lemma stored_view:
  assumes f: "nvm_fits E" and i: "i < TESTCASE_RESULT_COUNT E" and r: "has_room E S (room out)"
    and l: "length out < 1024"
  shows "sd_ref E (stored E i r out S) = sd_ref E S"
    and "sd_progress E (stored E i r out S) = sd_progress E S"
    and "j < TESTCASE_RESULT_COUNT E \<Longrightarrow>
      sd_result E (stored E i r out S) j = (if j = i then r else sd_result E S j)"
    and "unat (sd_used E (stored E i r out S)) = unat (sd_used E S) + room out"
    and "o2 + n \<le> unat (sd_used E S) \<Longrightarrow>
      at E (stored E i r out S) (off_result_buffer E + o2) n = at E S (off_result_buffer E + o2) n"
    and "out \<noteq> [] \<Longrightarrow>
      at E (stored E i r out S) (off_result_buffer E + unat (sd_used E S)) (length out) = out"
proof -
  let ?u = "sd_used E S"
  have u: "unat ?u < 2 ^ 33" by (rule unat_u32_less)
  have uo: "length (out @ [0]) < 2 ^ 33" using l by simp
  note v = put_result_view [OF f i] put_used_view [OF f] put_output_view [OF f uo u]
  show "sd_ref E (stored E i r out S) = sd_ref E S"
    "sd_progress E (stored E i r out S) = sd_progress E S"
    "j < TESTCASE_RESULT_COUNT E \<Longrightarrow>
      sd_result E (stored E i r out S) j = (if j = i then r else sd_result E S j)"
    by (simp_all add: stored_def v)
  have "unat (?u + (of_nat (length out) + 1)) = unat ?u + room out" if "out \<noteq> []"
  proof -
    have e: "unat (of_nat (length out) + 1 :: u32) = length out + 1"
      using l by (simp add: unat_of_nat take_bit_nat_eq_self unat_word_ariths)
    have "unat ?u + unat (of_nat (length out) + 1 :: u32) < 2 ^ LENGTH(32)"
      using r that unfolding e by (simp add: has_room_def room_def)
    from unat_add_no_wrap [OF this] show ?thesis using that e by (simp add: room_def)
  qed
  then show "unat (sd_used E (stored E i r out S)) = unat ?u + room out"
    by (simp add: stored_def v room_def)
  show "o2 + n \<le> unat ?u \<Longrightarrow>
      at E (stored E i r out S) (off_result_buffer E + o2) n = at E S (off_result_buffer E + o2) n"
    using u by (simp add: stored_def v)
  show "out \<noteq> [] \<Longrightarrow> at E (stored E i r out S) (off_result_buffer E + unat ?u) (length out) = out"
    using u l by (simp add: stored_def v)
qed

lemma get_result_eq:
  assumes f: "nvm_fits E" and i: "i < TESTCASE_RESULT_COUNT E" and w: "outputs_wf E S" and r: "has_room E S 0"
  shows "tftf_testcase_get_result E TESTCASE_OUTPUT_MAX_SIZE (of_nat i) S
    = Inr (STATUS_SUCCESS, Some (sd_result E S i), Some (sd_output E S i @ [0]))"
proof -
  have rd: "tftf_nvm_read E (of_nat (off_testcase_results + 24 * i)) 24 S
      = (STATUS_SUCCESS, Some (at E S (off_testcase_results + 24 * i) 24))"
    using fits_field(5) [OF f i] by (rule nvm_read_in [OF f])
  let ?r = "sd_result E S i"
  have eq: "tftf_testcase_get_result E TESTCASE_OUTPUT_MAX_SIZE (of_nat i) S =
      (if 1024 \<le> unat (output_size ?r) then Inl OutOfBounds
       else if unat (output_size ?r) \<noteq> 0
       then case tftf_nvm_read E (of_nat (off_result_buffer E) + (ucast (output_offset ?r) :: u64))
                   (unat (output_size ?r)) S of
           (status, None) \<Rightarrow> Inr (status, Some ?r, None)
         | (_, Some out) \<Rightarrow> Inr (STATUS_SUCCESS, Some ?r, Some (out @ [0]))
       else Inr (STATUS_SUCCESS, Some ?r, Some [0]))"
    unfolding tftf_testcase_get_result_def result_index [OF f i] rd sd_result_def Let_def
    by (simp only: prod.case option.case)
  show ?thesis
  proof (cases "output_size ?r = 0")
    case True
    then show ?thesis unfolding eq by (simp add: sd_output_def at_def mem_read_def)
  next
    case False
    let ?o = "unat (output_offset ?r)" and ?n = "unat (output_size ?r)"
    have b: "?o + ?n \<le> unat (sd_used E S)" "?n < 1024" "?n \<noteq> 0"
      using w i False by (auto simp: outputs_wf_def unat_eq_zero)
    have rd2: "tftf_nvm_read E (of_nat (off_result_buffer E + ?o)) ?n S
        = (STATUS_SUCCESS, Some (sd_output E S i))"
      unfolding sd_output_def
      by (rule nvm_read_in [OF f]) (use b r in \<open>simp add: has_room_def\<close>)
    have off: "of_nat (off_result_buffer E) + (ucast (output_offset ?r) :: u64)
        = of_nat (off_result_buffer E + ?o)"
      by (simp add: of_nat_unat)
    show ?thesis unfolding eq off rd2 using b by simp
  qed
qed

lemma set_result_spec:
  assumes f: "nvm_fits E" and i: "i < TESTCASE_RESULT_COUNT E" and o: "output_is S out"
    and r: "has_room E S (room out)" and w: "outputs_wf E S"
  obtains S' where "tftf_testcase_set_result E (of_nat i) res dur S = Inr (STATUS_SUCCESS, S')"
    and "output_is S' []" "outputs_wf E S'" "unat (sd_used E S') = unat (sd_used E S) + room out"
    and "sd_ref E S' = sd_ref E S" "sd_progress E S' = sd_progress E S"
    and "result (sd_result E S' i) = res" "duration (sd_result E S' i) = dur" "sd_output E S' i = out"
    and "\<And>j. j < TESTCASE_RESULT_COUNT E \<Longrightarrow> j \<noteq> i \<Longrightarrow>
      sd_result E S' j = sd_result E S j \<and> sd_output E S' j = sd_output E S j"
proof -
  let ?r = "new_result E res dur out S"
  obtain S' where S': "tftf_testcase_set_result E (of_nat i) res dur S = Inr (STATUS_SUCCESS, S')"
    "nvm S' = nvm (stored E i ?r out S)" "output_is S' []"
    by (rule set_result_eq [OF f i o r])
  have l: "length out < 1024" using o by (simp add: output_is_def)
  note c = sd_nvm_cong [OF S'(2)] and v = stored_view [OF f i r l]
  have ul: "unat (of_nat (length out) :: u32) = length out"
    using l by (simp add: unat_of_nat take_bit_nat_eq_self)
  have res: "sd_result E S' j = (if j = i then ?r else sd_result E S j)"
    if "j < TESTCASE_RESULT_COUNT E" for j using that by (simp add: c v)
  have out: "sd_output E S' i = out"
  proof (cases "out = []")
    case True
    then show ?thesis using res [OF i] by (simp add: sd_output_def new_result_def at_def mem_read_def)
  next
    case False
    then show ?thesis
      using res [OF i] v(6) ul by (simp add: sd_output_def new_result_def at_nvm_cong [OF S'(2)])
  qed
  have other: "sd_output E S' j = sd_output E S j" if j: "j < TESTCASE_RESULT_COUNT E" "j \<noteq> i" for j
  proof (cases "output_size (sd_result E S j) = 0")
    case True
    then show ?thesis using res [OF j(1)] j(2) by (simp add: sd_output_def at_def mem_read_def)
  next
    case False
    then show ?thesis
      using w j res [OF j(1)] v(5) by (simp add: sd_output_def outputs_wf_def at_nvm_cong [OF S'(2)])
  qed
  have wf: "outputs_wf E S'"
    unfolding outputs_wf_def
  proof (intro allI impI)
    fix j assume j: "j < TESTCASE_RESULT_COUNT E" "output_size (sd_result E S' j) \<noteq> 0"
    show "unat (output_offset (sd_result E S' j)) + unat (output_size (sd_result E S' j))
          \<le> unat (sd_used E S') \<and> unat (output_size (sd_result E S' j)) < 1024"
    proof (cases "j = i")
      case True
      then have "out \<noteq> []" using j res by (auto simp: new_result_def)
      then show ?thesis using True res [OF i] ul l v(4) c(4) by (simp add: new_result_def room_def)
    next
      case False
      then show ?thesis using j w res [OF j(1)] v(4) c(4) by (auto simp: outputs_wf_def)
    qed
  qed
  have "sd_ref E S' = sd_ref E S" "sd_progress E S' = sd_progress E S"
    "unat (sd_used E S') = unat (sd_used E S) + room out"
    using c v by simp_all
  moreover have "result (sd_result E S' i) = res" "duration (sd_result E S' i) = dur"
    using res [OF i] by (simp_all add: new_result_def)
  moreover have "sd_result E S' j = sd_result E S j \<and> sd_output E S' j = sd_output E S j"
    if "j < TESTCASE_RESULT_COUNT E" "j \<noteq> i" for j
    using res [OF that(1)] other [OF that] that by simp
  ultimately show thesis using that [OF S'(1,3) wf] out by blast
qed

lemma printf_appends:
  assumes o: "output_is S out" and t: "0 \<notin> set msg"
  shows "\<exists>S'. tftf_testcase_printf msg S = Inr (int (min (length msg) (1023 - length out)), S')
    \<and> nvm S' = nvm S \<and> output_is S' (out @ take (1023 - length out) msg)"
proof -
  let ?b = "testcase_output S" and ?i = "unat (testcase_output_idx S)"
  let ?out = "take (1023 - length out) msg" and ?w = "min (length msg) (1023 - length out)"
  have i: "?i = length out" "length ?b = 1024" "length out < 1024" "0 \<notin> set out"
    "take (length out + 1) ?b = out @ [0]"
    using o by (auto simp: output_is_def)
  have "take (length out) ?b = take (length out) (take (length out + 1) ?b)" by (simp add: min_def)
  then have to: "take (length out) ?b = out" unfolding i(5) by simp
  have wr: "(if 1024 - length out \<le> length msg then 1024 - length out - 1 else length msg) = ?w"
    using i(3) by auto
  let ?buf = "vsnprintf_into ?b (length out) (1024 - length out) msg"
  have buf: "?buf = out @ (?out @ [0]) @ drop (length out + (length ?out + 1)) ?b"
    using to i(3) by (simp add: vsnprintf_into_def Let_def)
  let ?S = "S\<lparr>testcase_output := ?buf, testcase_output_idx := testcase_output_idx S + of_nat ?w\<rparr>"
  have eq: "tftf_testcase_printf msg S = Inr (int ?w, ?S)"
    using i(1-3) wr by (simp add: tftf_testcase_printf_def Let_def)
  have lb: "length ?buf = 1024" unfolding buf using i(2,3) by (simp add: min_def)
  have "unat (of_nat ?w :: u32) = ?w" by (simp add: unat_of_nat take_bit_nat_eq_self min_def)
  then have "unat (testcase_output_idx S + of_nat ?w) = length out + ?w"
    using i(1,3) by (subst unat_add_no_wrap) auto
  moreover have "take (length (out @ ?out) + 1) ?buf = (out @ ?out) @ [0]"
  proof -
    let ?X = "(out @ ?out) @ [0]"
    have "?buf = ?X @ drop (length out + (length ?out + 1)) ?b" unfolding buf by simp
    moreover have "length (out @ ?out) + 1 = length ?X" by simp
    ultimately show ?thesis by (metis append_eq_conv_conj)
  qed
  moreover have "0 \<notin> set (out @ ?out)" using i(4) t by (auto dest: in_set_takeD)
  moreover have "length out + ?w < 1024" using i(3) by (auto simp: min_def)
  ultimately have "output_is ?S (out @ ?out)"
    using lb unfolding output_is_def by simp
  then show ?thesis using eq by auto
qed

section \<open>A fresh session\<close>

lemma at_put_sub:
  assumes "o2 + n \<le> length bs" "length bs < 2 ^ 62"
  shows "at E (put_at E 0 bs S) o2 n = take n (drop o2 bs)"
proof (rule nth_equalityI)
  fix k assume "k < length (at E (put_at E 0 bs S) o2 n)"
  then have k: "k < n" by (simp add: at_def)
  have "at E (put_at E 0 bs S) o2 n ! k = at E (put_at E 0 bs S) 0 (length bs) ! (o2 + k)"
    using k assms(1) by (simp add: at_def add.assoc)
  then show "at E (put_at E 0 bs S) o2 n ! k = take n (drop o2 bs) ! k"
    using k assms at_put_same [of bs "length bs" E 0 S] by simp
qed (use assms in \<open>simp add: at_def\<close>)

lemma length_init_state:
  "0 < TESTCASE_RESULT_COUNT E \<Longrightarrow> length (tftf_init_state E) = sizeof_tftf_state E"
  by (simp add: tftf_init_state_def build_message_field_def off_defs ref_field.length_put
      u32_field.length_put result_field.length_put)

lemma le_nat_zeros: "le_nat (replicate n 0) = 0"
  by (induction n) auto

lemma drop_past: "length xs = n \<Longrightarrow> drop (n + k) (xs @ ys) = drop k ys"
  by simp

lemma init_drop:
  assumes "0 < TESTCASE_RESULT_COUNT E"
  shows "take 8 (drop off_test_to_run (tftf_init_state E)) = put_ref \<lparr>testsuite_idx = 0, testcase_idx = 0\<rparr>"
    and "take 4 (drop off_test_progress (tftf_init_state E)) = put_u32 TEST_READY"
    and "take 24 (drop off_testcase_results (tftf_init_state E))
      = put_result \<lparr>result = TEST_RESULT_NA, duration = 0, output_offset = 0, output_size = 0\<rparr>"
  by (simp_all add: tftf_init_state_def build_message_field_def off_defs ref_field.length_put
      u32_field.length_put result_field.length_put)

lemma init_drop_tail:
  assumes "0 < TESTCASE_RESULT_COUNT E"
  shows "drop 200 (tftf_init_state E)
    = replicate (24 * (TESTCASE_RESULT_COUNT E - 1)) 0 @ put_u32 0 @ replicate 4 0 @ replicate 8 0"
  by (simp add: tftf_init_state_def build_message_field_def off_defs ref_field.length_put
      u32_field.length_put result_field.length_put)

lemma init_view:
  assumes f: "nvm_fits E"
  shows "tftf_init_nvm E S = (STATUS_SUCCESS, put_at E 0 (tftf_init_state E) S)"
    and "sd_ref E (put_at E 0 (tftf_init_state E) S) = \<lparr>testsuite_idx = 0, testcase_idx = 0\<rparr>"
    and "sd_progress E (put_at E 0 (tftf_init_state E) S) = TEST_READY"
    and "sd_used E (put_at E 0 (tftf_init_state E) S) = 0"
    and "i < TESTCASE_RESULT_COUNT E \<Longrightarrow> sd_result E (put_at E 0 (tftf_init_state E) S) i
      = \<lparr>result = (if i = 0 then TEST_RESULT_NA else TEST_RESULT_SKIPPED), duration = 0,
         output_offset = 0, output_size = 0\<rparr>"
proof -
  let ?I = "tftf_init_state E" and ?C = "TESTCASE_RESULT_COUNT E"
  have c: "0 < ?C" and l: "length ?I = 176 + 24 * ?C + 16" "length ?I < 2 ^ 62"
    using f length_init_state [of E] by (auto simp: nvm_fits_def off_defs)
  have sub: "o2 + n \<le> length ?I \<Longrightarrow> at E (put_at E 0 ?I S) o2 n = take n (drop o2 ?I)" for o2 n
    using l(2) by (intro at_put_sub)
  show "tftf_init_nvm E S = (STATUS_SUCCESS, put_at E 0 ?I S)"
    using nvm_write_in [OF f, of 0 ?I] l f c
    by (simp add: tftf_init_nvm_def nvm_fits_def off_defs)
  show "sd_ref E (put_at E 0 ?I S) = \<lparr>testsuite_idx = 0, testcase_idx = 0\<rparr>"
    "sd_progress E (put_at E 0 ?I S) = TEST_READY"
    using sub [of off_test_to_run 8] sub [of off_test_progress 4] l(1) init_drop [OF c]
    by (simp_all add: sd_defs ref_field.get_put u32_field.get_put)
      (simp_all add: off_defs ref_field.get_put u32_field.get_put)
  have dd: "drop (200 + k) ?I = drop k (drop 200 ?I)" for k by (simp add: add.commute)
  have tail: "take n (drop (200 + k) ?I) = replicate n 0" if "k + n \<le> 24 * (?C - 1)" for k n
    using that unfolding dd init_drop_tail [OF c] by simp
  have "take 4 (drop (200 + 24 * (?C - 1)) ?I) = put_u32 0"
    unfolding dd init_drop_tail [OF c] by (simp add: u32_field.length_put)
  moreover have "off_result_buffer_size E = 200 + 24 * (?C - 1)"
    using c by (simp add: off_defs algebra_simps)
  ultimately show "sd_used E (put_at E 0 ?I S) = 0"
    using sub [of "off_result_buffer_size E" 4] l(1) by (simp add: sd_used_def u32_field.get_put off_defs)
  assume i: "i < ?C"
  show "sd_result E (put_at E 0 ?I S) i
      = \<lparr>result = (if i = 0 then TEST_RESULT_NA else TEST_RESULT_SKIPPED), duration = 0,
         output_offset = 0, output_size = 0\<rparr>"
  proof (cases "i = 0")
    case True
    then show ?thesis
      using sub [of off_testcase_results 24] l(1) init_drop(3) [OF c] c
      by (simp add: sd_result_def result_field.get_put) (simp add: off_defs result_field.get_put Suc_le_eq)
  next
    case False
    then have "take 24 (drop (off_testcase_results + 24 * i) ?I) = replicate 24 0"
      using tail [of "24 * (i - 1)" 24] i by (simp add: off_defs algebra_simps)
    then show ?thesis
      using False sub [of "off_testcase_results + 24 * i" 24] l(1) i
      by (simp add: sd_result_def off_defs get_result_def get_u32_def get_u64_def le_nat_zeros)
  qed
qed

section \<open>A whole session's results\<close>

text \<open>
  Recording the results of a sequence of tests: each test prints its text and its result is
  stored under its index.
\<close>

fun record_results ::
  "nvm_env \<Rightarrow> (nat \<times> u32 \<times> u64 \<times> u8 list) list \<Rightarrow> nvm_state \<Rightarrow> nvm_state res" where
  "record_results E [] S = Inr S"
| "record_results E ((i, res, dur, msg) # ts) S =
     andthen (tftf_testcase_printf msg S) (\<lambda>(_, S).
     andthen (tftf_testcase_set_result E (of_nat i) res dur S) (\<lambda>(_, S).
     record_results E ts S))"

definition text_ok :: "u8 list \<Rightarrow> bool" where
  "text_ok msg \<longleftrightarrow> 0 \<notin> set msg \<and> length msg < TESTCASE_OUTPUT_MAX_SIZE"

definition texts_room :: "(nat \<times> u32 \<times> u64 \<times> u8 list) list \<Rightarrow> nat" where
  "texts_room ts = sum_list (map (\<lambda>(_, _, _, msg). room msg) ts)"

lemma has_room_mono: "has_room E S m \<Longrightarrow> n \<le> m \<Longrightarrow> has_room E S n"
  by (auto simp: has_room_def)

lemma record_results_spec:
  assumes f: "nvm_fits E" and o: "output_is S []" and w: "outputs_wf E S"
    and r: "has_room E S (texts_room ts)" and d: "distinct (map fst ts)"
    and ok: "\<forall>(i, res, dur, msg) \<in> set ts. i < TESTCASE_RESULT_COUNT E \<and> text_ok msg"
  shows "\<exists>S'. record_results E ts S = Inr S' \<and> outputs_wf E S' \<and> has_room E S' 0
    \<and> sd_ref E S' = sd_ref E S \<and> sd_progress E S' = sd_progress E S
    \<and> (\<forall>(i, res, dur, msg) \<in> set ts. result (sd_result E S' i) = res
        \<and> duration (sd_result E S' i) = dur \<and> sd_output E S' i = msg)
    \<and> (\<forall>j < TESTCASE_RESULT_COUNT E. j \<notin> fst ` set ts \<longrightarrow>
        sd_result E S' j = sd_result E S j \<and> sd_output E S' j = sd_output E S j)"
  using o w r d ok
proof (induction ts arbitrary: S)
  case Nil
  then show ?case by (auto simp: texts_room_def)
next
  case (Cons t ts)
  obtain i res dur msg where t: "t = (i, res, dur, msg)" by (cases t)
  have i: "i < TESTCASE_RESULT_COUNT E" and x: "0 \<notin> set msg" "length msg < 1024"
    using Cons.prems(5) t by (auto simp: text_ok_def)
  obtain S1 where p: "tftf_testcase_printf msg S = Inr (int (length msg), S1)"
    and n1: "nvm S1 = nvm S" and o1: "output_is S1 msg"
    using printf_appends [OF Cons.prems(1) x(1)] x(2) by (auto simp: min_def)
  note c = sd_nvm_cong [OF n1]
  have hr: "has_room E S (room msg + texts_room ts)"
    using Cons.prems(3) t by (simp add: texts_room_def)
  then have r1: "has_room E S1 (room msg)" by (simp add: has_room_def c)
  have w1: "outputs_wf E S1" using Cons.prems(2) by (simp add: outputs_wf_def c)
  obtain S2 where s2: "tftf_testcase_set_result E (of_nat i) res dur S1 = Inr (STATUS_SUCCESS, S2)"
    and o2: "output_is S2 []" and w2: "outputs_wf E S2"
    and u2: "unat (sd_used E S2) = unat (sd_used E S1) + room msg"
    and v2: "sd_ref E S2 = sd_ref E S1" "sd_progress E S2 = sd_progress E S1"
    and q2: "result (sd_result E S2 i) = res" "duration (sd_result E S2 i) = dur" "sd_output E S2 i = msg"
    and k2: "\<And>j. j < TESTCASE_RESULT_COUNT E \<Longrightarrow> j \<noteq> i \<Longrightarrow>
      sd_result E S2 j = sd_result E S1 j \<and> sd_output E S2 j = sd_output E S1 j"
    by (rule set_result_spec [OF f i o1 r1 w1, of res dur]) blast
  have r2: "has_room E S2 (texts_room ts)" using hr u2 c by (simp add: has_room_def)
  have d2: "distinct (map fst ts)" "i \<notin> fst ` set ts" using Cons.prems(4) t by auto
  obtain S' where S': "record_results E ts S2 = Inr S'" "outputs_wf E S'" "has_room E S' 0"
    "sd_ref E S' = sd_ref E S2" "sd_progress E S' = sd_progress E S2"
    "\<forall>(i, res, dur, msg) \<in> set ts. result (sd_result E S' i) = res
        \<and> duration (sd_result E S' i) = dur \<and> sd_output E S' i = msg"
    "\<forall>j < TESTCASE_RESULT_COUNT E. j \<notin> fst ` set ts \<longrightarrow>
        sd_result E S' j = sd_result E S2 j \<and> sd_output E S' j = sd_output E S2 j"
    using Cons.IH [OF o2 w2 r2 d2(1)] Cons.prems(5) by auto
  have "record_results E (t # ts) S = Inr S'" using t p s2 S'(1) by simp
  moreover have "\<forall>j < TESTCASE_RESULT_COUNT E. j \<notin> fst ` set (t # ts) \<longrightarrow>
      sd_result E S' j = sd_result E S j \<and> sd_output E S' j = sd_output E S j"
    using S'(7) k2 c t by simp
  moreover have "result (sd_result E S' i) = res \<and> duration (sd_result E S' i) = dur \<and> sd_output E S' i = msg"
    using S'(7) i d2(2) q2 by simp
  ultimately show ?case using S'(2-6) v2 c t by (intro exI [of _ S']) auto
qed

text \<open>C7: after a session has been initialised and the results of any sequence of different
  tests have been recorded, each with the text it printed, reading the result of a test gives
  back exactly its result, duration and text, as long as the texts fit into the storage. A
  test that was never recorded reads as not run (-1) when it is the first of the list, but as
  skipped (0) when it is any other.\<close>

theorem nvm_results_roundtrip:
  assumes "nvm_fits E" and "output_is S []" and "distinct (map fst ts)"
    and "\<forall>(i, res, dur, msg) \<in> set ts. i < TESTCASE_RESULT_COUNT E \<and> text_ok msg"
    and "off_result_buffer E + texts_room ts \<le> unat (TFTF_NVM_SIZE E)" and "texts_room ts < 2 ^ 32"
  shows "\<exists>S'. record_results E ts (snd (tftf_init_nvm E S)) = Inr S'
    \<and> (\<forall>(i, res, dur, msg) \<in> set ts. \<exists>r.
        tftf_testcase_get_result E TESTCASE_OUTPUT_MAX_SIZE (of_nat i) S'
          = Inr (STATUS_SUCCESS, Some r, Some (msg @ [0])) \<and> result r = res \<and> duration r = dur)
    \<and> (\<forall>j < TESTCASE_RESULT_COUNT E. j \<notin> fst ` set ts \<longrightarrow> (\<exists>r.
        tftf_testcase_get_result E TESTCASE_OUTPUT_MAX_SIZE (of_nat j) S'
          = Inr (STATUS_SUCCESS, Some r, Some [0])
        \<and> result r = (if j = 0 then TEST_RESULT_NA else TEST_RESULT_SKIPPED)))"
proof -
  note v = init_view [OF assms(1)]
  let ?S = "put_at E 0 (tftf_init_state E) S"
  have "output_is ?S []" using assms(2) by (simp add: output_is_def)
  moreover have "outputs_wf E ?S" by (simp add: outputs_wf_def v)
  moreover have "has_room E ?S (texts_room ts)" using assms(5,6) by (simp add: has_room_def v)
  ultimately obtain S' where S': "record_results E ts ?S = Inr S'" "outputs_wf E S'" "has_room E S' 0"
    "\<forall>(i, res, dur, msg) \<in> set ts. result (sd_result E S' i) = res
        \<and> duration (sd_result E S' i) = dur \<and> sd_output E S' i = msg"
    "\<forall>j < TESTCASE_RESULT_COUNT E. j \<notin> fst ` set ts \<longrightarrow>
        sd_result E S' j = sd_result E ?S j \<and> sd_output E S' j = sd_output E ?S j"
    using record_results_spec [OF assms(1), of ?S ts] assms(3,4) by blast
  note g = get_result_eq [OF assms(1) _ S'(2,3)]
  have "sd_output E ?S j = []" if "j < TESTCASE_RESULT_COUNT E" for j
    using that by (simp add: sd_output_def v at_def mem_read_def)
  then have "\<forall>j < TESTCASE_RESULT_COUNT E. j \<notin> fst ` set ts \<longrightarrow> (\<exists>r.
        tftf_testcase_get_result E TESTCASE_OUTPUT_MAX_SIZE (of_nat j) S'
          = Inr (STATUS_SUCCESS, Some r, Some [0])
        \<and> result r = (if j = 0 then TEST_RESULT_NA else TEST_RESULT_SKIPPED))"
    using S'(5) g v(5) by auto
  moreover have "\<forall>(i, res, dur, msg) \<in> set ts. \<exists>r.
        tftf_testcase_get_result E TESTCASE_OUTPUT_MAX_SIZE (of_nat i) S'
          = Inr (STATUS_SUCCESS, Some r, Some (msg @ [0])) \<and> result r = res \<and> duration r = dur"
    using S'(4) assms(4) g by fastforce
  ultimately show ?thesis using S'(1) v(1) by simp
qed

definition demo_nvm_env :: nvm_env where
  "demo_nvm_env = \<lparr>TFTF_NVM_SIZE = 0x10000, nvm_base = 0x88000000, TESTCASE_RESULT_COUNT = 3,
     build_message = [66, 49], NEW_TEST_SESSION = False\<rparr>"

definition demo_nvm_state :: nvm_state where
  "demo_nvm_state = \<lparr>nvm = (\<lambda>_. 0xff), testcase_output = replicate 1024 0, testcase_output_idx = 0\<rparr>"

lemma demo_nvm_fits: "nvm_fits demo_nvm_env"
  by (simp add: nvm_fits_def demo_nvm_env_def off_defs)

lemma demo_output: "output_is demo_nvm_state []"
  by (simp add: output_is_def demo_nvm_state_def take_Suc_conv_app_nth)

theorem nvm_results_roundtrip_witness:
  "\<exists>S'. record_results demo_nvm_env [(1, 2, 7, [72, 105]), (0, 1, 5, [])]
       (snd (tftf_init_nvm demo_nvm_env demo_nvm_state)) = Inr S'
     \<and> (\<exists>r. tftf_testcase_get_result demo_nvm_env 1024 1 S' = Inr (0, Some r, Some [72, 105, 0])
          \<and> result r = 2 \<and> duration r = 7)
     \<and> (\<exists>r. tftf_testcase_get_result demo_nvm_env 1024 2 S' = Inr (0, Some r, Some [0]) \<and> result r = 0)"
proof -
  let ?ts = "[(1, 2, 7, [72, 105]), (0, 1, 5, [])] :: (nat \<times> u32 \<times> u64 \<times> u8 list) list"
  have "\<forall>(i, res, dur, msg) \<in> set ?ts. i < TESTCASE_RESULT_COUNT demo_nvm_env \<and> text_ok msg"
    by (simp add: demo_nvm_env_def text_ok_def)
  moreover have "off_result_buffer demo_nvm_env + texts_room ?ts \<le> unat (TFTF_NVM_SIZE demo_nvm_env)"
    "texts_room ?ts < 2 ^ 32" "TESTCASE_RESULT_COUNT demo_nvm_env = 3"
    by (simp_all add: demo_nvm_env_def off_defs texts_room_def room_def)
  ultimately obtain S' where S': "record_results demo_nvm_env ?ts
        (snd (tftf_init_nvm demo_nvm_env demo_nvm_state)) = Inr S'"
    "\<forall>(i, res, dur, msg) \<in> set ?ts. \<exists>r.
        tftf_testcase_get_result demo_nvm_env 1024 (of_nat i) S' = Inr (0, Some r, Some (msg @ [0]))
        \<and> result r = res \<and> duration r = dur"
    "\<forall>j < 3. j \<notin> fst ` set ?ts \<longrightarrow> (\<exists>r.
        tftf_testcase_get_result demo_nvm_env 1024 (of_nat j) S' = Inr (0, Some r, Some [0])
        \<and> result r = (if j = 0 then TEST_RESULT_NA else TEST_RESULT_SKIPPED))"
    using nvm_results_roundtrip [OF demo_nvm_fits demo_output, of ?ts] by auto
  from S'(2) have "\<exists>r. tftf_testcase_get_result demo_nvm_env 1024 1 S' = Inr (0, Some r, Some [72, 105, 0])
        \<and> result r = 2 \<and> duration r = 7" by simp
  moreover from S'(3) [rule_format, of 2]
  have "\<exists>r. tftf_testcase_get_result demo_nvm_env 1024 2 S' = Inr (0, Some r, Some [0]) \<and> result r = 0"
    by simp
  ultimately show ?thesis using S'(1) by blast
qed

end
