(* ===== verification/Tftf_Pstate.thy ===== *)
theory Tftf_Pstate
  imports Tftf_Irq
begin

text \<open>
  PSCI calls and power states: \<open>src/lib/psci/psci.c\<close>, \<open>src/plat/common/plat_state_id.c\<close> and the
  FVP's state tables (\<open>src/plat/arm/fvp/fvp_pwr_state.c\<close>).

  The firmware behind \<open>tftf_smc\<close> is a function from the call's arguments to the first return
  register; \<open>cpu_suspend\<close> is the return value of \<open>tftf_cpu_suspend\<close>. A platform's array of local
  states is a list that includes its terminator, an entry with state ID 0.
\<close>

section \<open>PSCI calls\<close>

type_synonym smc = "u64 list \<Rightarrow> u64"

abbreviation (input) SMC_PSCI_VERSION :: u64 where "SMC_PSCI_VERSION \<equiv> 0x84000000"
abbreviation (input) SMC_PSCI_CPU_SUSPEND :: u64 where "SMC_PSCI_CPU_SUSPEND \<equiv> 0xc4000001"
abbreviation (input) SMC_PSCI_CPU_OFF :: u64 where "SMC_PSCI_CPU_OFF \<equiv> 0x84000002"
abbreviation (input) SMC_PSCI_CPU_ON :: u64 where "SMC_PSCI_CPU_ON \<equiv> 0xc4000003"
abbreviation (input) SMC_PSCI_AFFINITY_INFO :: u64 where "SMC_PSCI_AFFINITY_INFO \<equiv> 0xc4000004"
abbreviation (input) SMC_PSCI_FEATURES :: u64 where "SMC_PSCI_FEATURES \<equiv> 0x8400000a"
abbreviation (input) SMC_PSCI_CPU_HW_STATE :: u64 where "SMC_PSCI_CPU_HW_STATE \<equiv> 0xc400000d"
abbreviation (input) SMC_PSCI_SET_SUSPEND_MODE :: u64 where "SMC_PSCI_SET_SUSPEND_MODE \<equiv> 0x8400000f"
abbreviation (input) SMC_PSCI_STAT_RESIDENCY :: u64 where "SMC_PSCI_STAT_RESIDENCY \<equiv> 0xc4000010"
abbreviation (input) SMC_PSCI_STAT_COUNT :: u64 where "SMC_PSCI_STAT_COUNT \<equiv> 0xc4000011"

abbreviation (input) PSCI_E_SUCCESS :: u32 where "PSCI_E_SUCCESS \<equiv> 0"
abbreviation (input) PSCI_E_NOT_SUPPORTED :: u32 where "PSCI_E_NOT_SUPPORTED \<equiv> -1"
abbreviation (input) PSCI_E_INVALID_PARAMS :: u32 where "PSCI_E_INVALID_PARAMS \<equiv> -2"
abbreviation (input) PSCI_E_DENIED :: u32 where "PSCI_E_DENIED \<equiv> -3"
abbreviation (input) PSCI_E_ALREADY_ON :: u32 where "PSCI_E_ALREADY_ON \<equiv> -4"
abbreviation (input) PSCI_E_ON_PENDING :: u32 where "PSCI_E_ON_PENDING \<equiv> -5"
abbreviation (input) PSCI_STATE_ON :: u32 where "PSCI_STATE_ON \<equiv> 0"

definition psci_target_cpu_from_mpid :: "u64 \<Rightarrow> u64" where
  "psci_target_cpu_from_mpid mp = mp AND 0x000000FF00FFFFFF"

definition tftf_psci_cpu_on :: "smc \<Rightarrow> u64 \<Rightarrow> u64 \<Rightarrow> u64 \<Rightarrow> u32" where
  "tftf_psci_cpu_on smc target_cpu entry_point_address context_id =
     ucast (smc [SMC_PSCI_CPU_ON, psci_target_cpu_from_mpid target_cpu, entry_point_address, context_id])"

definition tftf_psci_cpu_off :: "smc \<Rightarrow> u32" where
  "tftf_psci_cpu_off smc = ucast (smc [SMC_PSCI_CPU_OFF])"

definition tftf_psci_set_suspend_mode :: "smc \<Rightarrow> u32 \<Rightarrow> u32" where
  "tftf_psci_set_suspend_mode smc mode = ucast (smc [SMC_PSCI_SET_SUSPEND_MODE, ucast mode])"

definition tftf_psci_stat_residency :: "smc \<Rightarrow> u64 \<Rightarrow> u32 \<Rightarrow> u64" where
  "tftf_psci_stat_residency smc target_cpu power_state =
     smc [SMC_PSCI_STAT_RESIDENCY, psci_target_cpu_from_mpid target_cpu, ucast power_state]"

definition tftf_psci_stat_count :: "smc \<Rightarrow> u64 \<Rightarrow> u32 \<Rightarrow> u64" where
  "tftf_psci_stat_count smc target_cpu power_state =
     smc [SMC_PSCI_STAT_COUNT, psci_target_cpu_from_mpid target_cpu, ucast power_state]"

definition tftf_psci_affinity_info :: "smc \<Rightarrow> u64 \<Rightarrow> u32 \<Rightarrow> u32" where
  "tftf_psci_affinity_info smc target_affinity lowest_affinity_level =
     ucast (smc [SMC_PSCI_AFFINITY_INFO, psci_target_cpu_from_mpid target_affinity, ucast lowest_affinity_level])"

definition tftf_psci_node_hw_state :: "smc \<Rightarrow> u64 \<Rightarrow> u32 \<Rightarrow> u32" where
  "tftf_psci_node_hw_state smc target_cpu power_level =
     ucast (smc [SMC_PSCI_CPU_HW_STATE, psci_target_cpu_from_mpid target_cpu, ucast power_level])"

definition tftf_get_psci_feature_info :: "smc \<Rightarrow> u32 \<Rightarrow> u32" where
  "tftf_get_psci_feature_info smc psci_func_id = ucast (smc [SMC_PSCI_FEATURES, ucast psci_func_id])"

definition tftf_get_psci_version :: "smc \<Rightarrow> u32" where
  "tftf_get_psci_version smc = ucast (smc [SMC_PSCI_VERSION])"

definition psci_version :: "u32 \<Rightarrow> u32 \<Rightarrow> u32" where
  "psci_version major minor = push_bit 16 major OR minor"

definition tftf_is_valid_psci_version :: "u32 \<Rightarrow> bool" where
  "tftf_is_valid_psci_version version \<longleftrightarrow>
     \<not> (version \<noteq> psci_version 1 3 \<and> version \<noteq> psci_version 1 2 \<and> version \<noteq> psci_version 1 1
        \<and> version \<noteq> psci_version 1 0 \<and> version \<noteq> psci_version 0 2 \<and> version \<noteq> psci_version 0 1)"

section \<open>State\<close>

record plat_state_prop =
  suspend_depth :: u32
  state_ID :: u32
  is_pwrdown :: u32

record pstate_env =
  PLAT_MAX_PWR_LEVEL :: nat
  PLAT_LOCAL_PSTATE_WIDTH :: nat
  plat_get_state_prop :: "nat \<Rightarrow> plat_state_prop list option"

text \<open>The static data of both files, and the mask of the calling CPU's interrupts.\<close>

record pstate =
  pstate_initialized :: bool
  plat_state_ptr :: "plat_state_prop list list"
  power_states_per_level :: "u32 list"
  pstate_format_detected :: bool
  pstate_format :: u32
  is_state_id_null :: bool
  irq_masked :: bool

abbreviation (input) CPU_SUSPEND_FEAT_PSTATE_FORMAT_ORIGINAL :: u32 where
  "CPU_SUSPEND_FEAT_PSTATE_FORMAT_ORIGINAL \<equiv> 0"
abbreviation (input) CPU_SUSPEND_FEAT_PSTATE_FORMAT_EXTENDED :: u32 where
  "CPU_SUSPEND_FEAT_PSTATE_FORMAT_EXTENDED \<equiv> 1"
abbreviation (input) CPU_SUSPEND_FEAT_VALID_MASK :: u32 where "CPU_SUSPEND_FEAT_VALID_MASK \<equiv> 3"
abbreviation (input) PLAT_PSCI_DUMMY_STATE_ID :: u32 where "PLAT_PSCI_DUMMY_STATE_ID \<equiv> 0xF"
abbreviation (input) PWR_STATE_INIT_INDEX :: u32 where "PWR_STATE_INIT_INDEX \<equiv> -1"
abbreviation (input) IRQ_NS_SGI_0 :: u32 where "IRQ_NS_SGI_0 \<equiv> 0"
abbreviation (input) GIC_HIGHEST_NS_PRIORITY :: u8 where "GIC_HIGHEST_NS_PRIORITY \<equiv> 0"

section \<open>Power state parameters\<close>

definition psci_state_type_valid :: "u32 \<Rightarrow> bool" where
  "psci_state_type_valid state_type \<longleftrightarrow> state_type AND NOT 1 = 0"

definition psci_state_id_valid :: "u32 \<Rightarrow> bool" where
  "psci_state_id_valid state_id \<longleftrightarrow> state_id AND NOT 0xFFFF = 0"

definition psci_affinity_level_valid :: "u32 \<Rightarrow> bool" where
  "psci_affinity_level_valid aff_level \<longleftrightarrow> aff_level AND NOT 3 = 0"

definition psci_state_id_ext_valid :: "u32 \<Rightarrow> bool" where
  "psci_state_id_ext_valid state_id \<longleftrightarrow> state_id AND NOT 0xFFFFFFF = 0"

definition psci_make_local_state_id :: "pstate_env \<Rightarrow> nat \<Rightarrow> u32 \<Rightarrow> u32" where
  "psci_make_local_state_id E level local_state =
     push_bit (PLAT_LOCAL_PSTATE_WIDTH E * level)
       (local_state AND (push_bit (PLAT_LOCAL_PSTATE_WIDTH E) 1 - 1))"

text \<open>The first local state of the wanted type, up to the terminator.\<close>

fun find_state :: "u32 \<Rightarrow> plat_state_prop list \<Rightarrow> u32 option res" where
  "find_state state_type [] = Inl OutOfBounds"
| "find_state state_type (p # ps) =
     (if state_ID p = 0 then Inr None
      else if state_type = is_pwrdown p then Inr (Some (state_ID p))
      else find_state state_type ps)"

fun composite_levels :: "pstate_env \<Rightarrow> u32 \<Rightarrow> nat list \<Rightarrow> u32 \<times> u32 \<Rightarrow> (u32 \<times> u32) res" where
  "composite_levels E state_type [] (state_id, ret) = Inr (state_id, ret)"
| "composite_levels E state_type (i # is) (state_id, ret) =
     (case plat_get_state_prop E i of
        None \<Rightarrow> composite_levels E state_type is
          (state_id OR psci_make_local_state_id E i PLAT_PSCI_DUMMY_STATE_ID, PSCI_E_INVALID_PARAMS)
      | Some props \<Rightarrow>
          andthen (find_state state_type props) (\<lambda>found.
          case found of
            Some sid \<Rightarrow> composite_levels E state_type is (state_id OR psci_make_local_state_id E i sid, ret)
          | None \<Rightarrow> composite_levels E state_type is
              (state_id OR psci_make_local_state_id E i PLAT_PSCI_DUMMY_STATE_ID, PSCI_E_INVALID_PARAMS)))"

definition tftf_psci_make_composite_state_id :: "pstate_env \<Rightarrow> u32 \<Rightarrow> u32 \<Rightarrow> (u32 \<times> u32) res" where
  "tftf_psci_make_composite_state_id E affinity_level state_type =
     andthen (composite_levels E state_type [0..<Suc (unat affinity_level)] (0, PSCI_E_SUCCESS)) (\<lambda>(state_id, ret).
     Inr (state_id OR psci_make_local_state_id E (PLAT_MAX_PWR_LEVEL E + 1) affinity_level, ret))"

definition tftf_psci_get_pstate_format :: "smc \<Rightarrow> u32" where
  "tftf_psci_get_pstate_format smc =
     (let ret = tftf_get_psci_feature_info smc (ucast SMC_PSCI_CPU_SUSPEND)
      in if ret = PSCI_E_NOT_SUPPORTED then CPU_SUSPEND_FEAT_PSTATE_FORMAT_ORIGINAL
         else if ret AND NOT CPU_SUSPEND_FEAT_VALID_MASK \<noteq> 0 then CPU_SUSPEND_FEAT_PSTATE_FORMAT_ORIGINAL
         else drop_bit 1 ret AND 1)"

definition tftf_make_psci_pstate :: "u32 \<Rightarrow> u32 \<Rightarrow> u32 \<Rightarrow> pstate \<Rightarrow> u32 res" where
  "tftf_make_psci_pstate affinity_level state_type state_id S =
     andthen (assert_c (psci_state_type_valid state_type)) (\<lambda>_.
     andthen (assert_c (pstate_format_detected S)) (\<lambda>_.
     if pstate_format S = CPU_SUSPEND_FEAT_PSTATE_FORMAT_EXTENDED
     then andthen (assert_c (psci_state_id_ext_valid state_id)) (\<lambda>_.
          Inr (push_bit 30 state_type OR push_bit 0 state_id))
     else andthen (assert_c (psci_affinity_level_valid affinity_level)) (\<lambda>_.
          andthen (assert_c (psci_state_id_valid state_id)) (\<lambda>_.
          let power_state = push_bit 24 affinity_level OR push_bit 16 state_type
          in Inr (if \<not> is_state_id_null S then power_state OR push_bit 0 state_id else power_state)))))"

section \<open>Detecting the format\<close>

definition tftf_detect_psci_pstate_format ::
  "smc \<Rightarrow> (u32 \<Rightarrow> u32) \<Rightarrow> (u32 \<Rightarrow> bool) \<Rightarrow> u32 \<Rightarrow> gic \<Rightarrow> pstate \<Rightarrow> (gic \<times> pstate) res" where
  "tftf_detect_psci_pstate_format smc cpu_suspend online core g S =
     (let S = S\<lparr>pstate_format := tftf_psci_get_pstate_format smc\<rparr>
      in if pstate_format S = CPU_SUSPEND_FEAT_PSTATE_FORMAT_EXTENDED
         then Inr (g, S\<lparr>pstate_format_detected := True\<rparr>)
         else
           let g = tftf_irq_enable_sgi core IRQ_NS_SGI_0 GIC_HIGHEST_NS_PRIORITY g;
               S = S\<lparr>irq_masked := True\<rparr>
           in andthen (tftf_send_sgi online IRQ_NS_SGI_0 core g) (\<lambda>g.
              let ret = cpu_suspend (push_bit 24 0 OR push_bit 16 0);
                  S = S\<lparr>irq_masked := False\<rparr>;
                  g = tftf_irq_disable_sgi core IRQ_NS_SGI_0 g;
                  S = (if ret = PSCI_E_SUCCESS then S\<lparr>is_state_id_null := True\<rparr> else S)
              in Inr (g, S\<lparr>pstate_format_detected := True\<rparr>)))"

definition tftf_is_psci_state_id_null :: "pstate \<Rightarrow> bool res" where
  "tftf_is_psci_state_id_null S =
     andthen (assert_c (pstate_format_detected S)) (\<lambda>_.
     Inr (if pstate_format S = CPU_SUSPEND_FEAT_PSTATE_FORMAT_ORIGINAL then is_state_id_null S else False))"

definition tftf_is_psci_pstate_format_original :: "pstate \<Rightarrow> bool res" where
  "tftf_is_psci_pstate_format_original S =
     andthen (assert_c (pstate_format_detected S)) (\<lambda>_.
     Inr (pstate_format S = CPU_SUSPEND_FEAT_PSTATE_FORMAT_ORIGINAL))"

section \<open>Local states of every level\<close>

fun count_states :: "plat_state_prop list \<Rightarrow> nat res" where
  "count_states [] = Inl OutOfBounds"
| "count_states (p # ps) = (if state_ID p = 0 then Inr 0 else andthen (count_states ps) (\<lambda>n. Inr (Suc n)))"

fun init_pstate_levels :: "pstate_env \<Rightarrow> nat list \<Rightarrow> pstate \<Rightarrow> pstate res" where
  "init_pstate_levels E [] S = Inr S"
| "init_pstate_levels E (i # is) S =
     (case plat_get_state_prop E i of
        None \<Rightarrow> Inl AssertFail
      | Some props \<Rightarrow>
          andthen (aput (plat_state_ptr S) i props) (\<lambda>ptrs.
          andthen (count_states props) (\<lambda>j.
          andthen (aput (power_states_per_level S) i (of_nat j)) (\<lambda>cnt.
          init_pstate_levels E is (S\<lparr>plat_state_ptr := ptrs, power_states_per_level := cnt\<rparr>)))))"

definition tftf_init_pstate_framework ::
  "pstate_env \<Rightarrow> smc \<Rightarrow> (u32 \<Rightarrow> u32) \<Rightarrow> (u32 \<Rightarrow> bool) \<Rightarrow> u32 \<Rightarrow> gic \<Rightarrow> pstate \<Rightarrow> (gic \<times> pstate) res" where
  "tftf_init_pstate_framework E smc cpu_suspend online core g S =
     (if pstate_initialized S then Inr (g, S)
      else andthen (tftf_detect_psci_pstate_format smc cpu_suspend online core g S) (\<lambda>(g, S).
           andthen (init_pstate_levels E [0..<Suc (PLAT_MAX_PWR_LEVEL E)] S) (\<lambda>S.
           Inr (g, S\<lparr>pstate_initialized := True\<rparr>))))"

section \<open>Combinations of local states\<close>

text \<open>The check that no level above an unset one is set.\<close>

definition init_above :: "nat \<Rightarrow> u32 list \<Rightarrow> bool" where
  "init_above power_level idx \<longleftrightarrow>
     (\<forall>i < power_level. idx ! i = PWR_STATE_INIT_INDEX \<longrightarrow>
        (\<forall>j \<le> power_level. i \<le> j \<longrightarrow> idx ! j = PWR_STATE_INIT_INDEX))"

text \<open>
  Incrementing from level \<open>i\<close> up, \<open>n\<close> levels left; \<open>None\<close> when every level wrapped around.
\<close>

fun inc_levels :: "u32 list \<Rightarrow> nat \<Rightarrow> nat \<Rightarrow> u32 list \<Rightarrow> u32 list \<times> bool" where
  "inc_levels counts i 0 idx = (idx, True)"
| "inc_levels counts i (Suc n) idx =
     (let v = idx ! i + 1
      in if v = counts ! i then inc_levels counts (Suc i) n (idx[i := 0]) else (idx[i := v], False))"

definition tftf_set_next_state_id_idx :: "pstate_env \<Rightarrow> pstate \<Rightarrow> nat \<Rightarrow> u32 list \<Rightarrow> u32 list res" where
  "tftf_set_next_state_id_idx E S power_level idx =
     andthen (assert_c (power_level \<le> PLAT_MAX_PWR_LEVEL E)) (\<lambda>_.
     if length idx \<le> power_level \<or> length (power_states_per_level S) \<le> power_level then Inl OutOfBounds
     else andthen (assert_c (init_above power_level idx)) (\<lambda>_.
     let (idx, wrapped) = inc_levels (power_states_per_level S) 0 (Suc power_level) idx
     in Inr (if wrapped then replicate (Suc power_level) PWR_STATE_INIT_INDEX @ drop (Suc power_level) idx
             else idx)))"

definition tftf_set_deepest_pstate_idx :: "pstate_env \<Rightarrow> pstate \<Rightarrow> nat \<Rightarrow> u32 list \<Rightarrow> u32 list res" where
  "tftf_set_deepest_pstate_idx E S power_level idx =
     andthen (assert_c (power_level \<le> PLAT_MAX_PWR_LEVEL E)) (\<lambda>_.
     if length idx \<le> power_level \<or> length (power_states_per_level S) \<le> power_level then Inl OutOfBounds
     else Inr (map (\<lambda>c. c - 1) (take (Suc power_level) (power_states_per_level S)) @ drop (Suc power_level) idx))"

text \<open>The loop of \<open>tftf_get_pstate_vars\<close>: state ID, suspend type, depth, return value, level.\<close>

fun pstate_vars_from ::
  "pstate_env \<Rightarrow> pstate \<Rightarrow> u32 list \<Rightarrow> nat \<Rightarrow> nat \<Rightarrow> u32 \<times> u32 \<times> u32 \<times> u32 \<Rightarrow> (u32 \<times> u32 \<times> u32 \<times> u32 \<times> nat) res" where
  "pstate_vars_from E S idx i 0 (state_id, ty, depth, ret) = Inr (state_id, ty, depth, ret, i)"
| "pstate_vars_from E S idx i (Suc n) (state_id, ty, depth, ret) =
     andthen (aget idx i) (\<lambda>k.
     if k = PWR_STATE_INIT_INDEX then Inr (state_id, ty, depth, ret, i)
     else
       andthen (aget (power_states_per_level S) i) (\<lambda>c.
       andthen (assert_c (k \<le> c)) (\<lambda>_.
       andthen (aget (plat_state_ptr S) i) (\<lambda>props.
       andthen (aget props (unat k)) (\<lambda>p.
       pstate_vars_from E S idx (Suc i) n
         (state_id OR push_bit (i * PLAT_LOCAL_PSTATE_WIDTH E) (state_ID p),
          if ty < is_pwrdown p then is_pwrdown p else ty,
          if depth < suspend_depth p then depth else suspend_depth p,
          if depth < suspend_depth p then PSCI_E_INVALID_PARAMS else ret))))))"

text \<open>Power level, suspend type, state ID and return value.\<close>

definition tftf_get_pstate_vars :: "pstate_env \<Rightarrow> pstate \<Rightarrow> u32 list \<Rightarrow> (u32 \<times> u32 \<times> u32 \<times> u32) res" where
  "tftf_get_pstate_vars E S idx =
     andthen (aget idx 0) (\<lambda>k.
     andthen (aget (power_states_per_level S) 0) (\<lambda>c.
     andthen (assert_c (k \<noteq> PWR_STATE_INIT_INDEX \<and> k \<le> c)) (\<lambda>_.
     andthen (aget (plat_state_ptr S) 0) (\<lambda>props.
     andthen (aget props (unat k)) (\<lambda>p.
     andthen (pstate_vars_from E S idx 0 (Suc (PLAT_MAX_PWR_LEVEL E)) (0, is_pwrdown p, suspend_depth p, PSCI_E_SUCCESS))
       (\<lambda>(state_id, ty, depth, ret, i). Inr (of_nat i - 1, ty, state_id, ret)))))))"

definition tftf_set_next_local_state_id_idx :: "pstate_env \<Rightarrow> pstate \<Rightarrow> nat \<Rightarrow> u32 list \<Rightarrow> u32 list res" where
  "tftf_set_next_local_state_id_idx E S power_level idx =
     andthen (assert_c (power_level \<le> PLAT_MAX_PWR_LEVEL E)) (\<lambda>_.
     andthen (aget idx power_level) (\<lambda>k.
     andthen (aget (power_states_per_level S) power_level) (\<lambda>c.
     if c \<le> k + 1 then aput idx power_level PWR_STATE_INIT_INDEX else aput idx power_level (k + 1))))"

section \<open>The FVP's states\<close>

definition core_state_prop :: "plat_state_prop list" where
  "core_state_prop =
     [\<lparr>suspend_depth = 1, state_ID = 1, is_pwrdown = 0\<rparr>,
      \<lparr>suspend_depth = 2, state_ID = 2, is_pwrdown = 1\<rparr>,
      \<lparr>suspend_depth = 0, state_ID = 0, is_pwrdown = 0\<rparr>]"

definition cluster_state_prop :: "plat_state_prop list" where
  "cluster_state_prop =
     [\<lparr>suspend_depth = 2, state_ID = 2, is_pwrdown = 1\<rparr>,
      \<lparr>suspend_depth = 0, state_ID = 0, is_pwrdown = 0\<rparr>]"

definition system_state_prop :: "plat_state_prop list" where
  "system_state_prop =
     [\<lparr>suspend_depth = 2, state_ID = 2, is_pwrdown = 1\<rparr>,
      \<lparr>suspend_depth = 0, state_ID = 0, is_pwrdown = 0\<rparr>]"

definition fvp_get_state_prop :: "nat \<Rightarrow> plat_state_prop list option" where
  "fvp_get_state_prop level =
     (if level = 0 then Some core_state_prop
      else if level = 1 then Some cluster_state_prop
      else if level = 2 then Some system_state_prop
      else None)"

definition fvp_pstate_env :: pstate_env where
  "fvp_pstate_env = \<lparr>PLAT_MAX_PWR_LEVEL = 2, PLAT_LOCAL_PSTATE_WIDTH = 4, plat_get_state_prop = fvp_get_state_prop\<rparr>"

lemma unat_plus_1:
  fixes x :: "'a::len word"
  assumes "x \<noteq> - 1"
  shows "unat (x + 1) = Suc (unat x)"
proof -
  have "unat x < unat (- 1 :: 'a word)"
    using assms by (simp add: word_neq_max_less word_less_nat_alt)
  then have "unat x + 1 < 2 ^ LENGTH('a)" by (simp add: unsigned_minus_1_eq_mask mask_eq_exp_minus_1)
  then show ?thesis using unat_add_no_wrap [of x 1] by simp
qed

section \<open>The enumeration of combinations\<close>

text \<open>
  A combination as a number: digit \<open>e\<close> of a level is its index plus one, 0 when the level is
  unset. The digits run from 1 to the number of states, so each carry adds exactly one.
\<close>

fun digits_wf :: "nat list \<Rightarrow> nat list \<Rightarrow> bool" where
  "digits_wf [] [] = True"
| "digits_wf (n # ns) (e # es) =
     (1 \<le> e \<and> e \<le> n \<and> digits_wf ns es \<or> e = 0 \<and> es = replicate (length ns) 0)"
| "digits_wf _ _ = False"

fun rank :: "nat list \<Rightarrow> nat list \<Rightarrow> nat" where
  "rank (n # ns) (e # es) = e + n * rank ns es"
| "rank _ _ = 0"

fun rank_max :: "nat list \<Rightarrow> nat" where
  "rank_max [] = 0"
| "rank_max (n # ns) = n + n * rank_max ns"

fun inc_digits :: "nat list \<Rightarrow> nat list \<Rightarrow> nat list \<times> bool" where
  "inc_digits (n # ns) (e # es) =
     (if e = n then (let (r, w) = inc_digits ns es in (1 # r, w)) else (Suc e # es, False))"
| "inc_digits _ es = (es, True)"

lemma digits_wf_length: "digits_wf ns es \<Longrightarrow> length es = length ns"
  by (induction ns es rule: digits_wf.induct) auto

lemma rank_zeros: "rank ns (replicate (length ns) 0) = 0"
  by (induction ns) simp_all

lemma digits_wf_zeros: "digits_wf ns (replicate (length ns) 0)"
  by (induction ns) simp_all

lemma rank_full: "rank ns ns = rank_max ns"
  by (induction ns) simp_all

lemma inc_digits_rank:
  assumes "digits_wf ns es" "\<forall>n \<in> set ns. 1 \<le> n"
  shows "if es = ns then snd (inc_digits ns es) \<and> length (fst (inc_digits ns es)) = length ns
    else \<not> snd (inc_digits ns es) \<and> digits_wf ns (fst (inc_digits ns es))
      \<and> rank ns (fst (inc_digits ns es)) = Suc (rank ns es)"
  using assms
proof (induction ns es rule: digits_wf.induct)
  case (2 n ns e es)
  show ?case
  proof (cases "e = n")
    case True
    then have wf: "digits_wf ns es" "1 \<le> n" using "2.prems" by auto
    then show ?thesis using "2.IH" "2.prems" True by (auto simp: split_beta Let_def split: if_splits)
  next
    case False
    then show ?thesis using "2.prems" by (auto simp: digits_wf_zeros)
  qed
qed auto

lemma rank_Cons_0:
  assumes "digits_wf (n # ns) (e # es)"
  shows "rank (n # ns) (e # es) = 0 \<longleftrightarrow> e = 0" and "e = 0 \<Longrightarrow> es = replicate (length ns) 0"
    and "e \<noteq> 0 \<Longrightarrow> 1 \<le> e \<and> e \<le> n \<and> digits_wf ns es"
proof -
  show z: "e = 0 \<Longrightarrow> es = replicate (length ns) 0" using assms by simp
  show "e \<noteq> 0 \<Longrightarrow> 1 \<le> e \<and> e \<le> n \<and> digits_wf ns es" using assms by simp
  show "rank (n # ns) (e # es) = 0 \<longleftrightarrow> e = 0"
  proof (cases "e = 0")
    case True
    with z show ?thesis by (simp add: rank_zeros)
  qed simp
qed

lemma rank_inj:
  "digits_wf ns es \<Longrightarrow> digits_wf ns es' \<Longrightarrow> rank ns es = rank ns es' \<Longrightarrow> es = es'"
proof (induction ns arbitrary: es es')
  case Nil
  then show ?case by (cases es; cases es') simp_all
next
  case (Cons n ns)
  obtain e es1 where es: "es = e # es1" using Cons.prems(1) by (cases es) simp_all
  obtain e' es1' where es': "es' = e' # es1'" using Cons.prems(2) by (cases es') simp_all
  note c = rank_Cons_0 [OF Cons.prems(1) [unfolded es]] and c' = rank_Cons_0 [OF Cons.prems(2) [unfolded es']]
  have z: "e = 0 \<longleftrightarrow> e' = 0" using Cons.prems(3) unfolding es es' c(1) [symmetric] c'(1) [symmetric] by (simp only:)
  show ?case
  proof (cases "e = 0")
    case True
    then show ?thesis using c(2) c'(2) z es es' by simp
  next
    case False
    then have r: "1 \<le> e" "e \<le> n" "digits_wf ns es1" "1 \<le> e'" "e' \<le> n" "digits_wf ns es1'"
      using c(3) c'(3) z by simp_all
    have eq: "(e - 1) + n * rank ns es1 = (e' - 1) + n * rank ns es1'"
      using Cons.prems(3) r unfolding es es' by simp
    have dm: "(a + n * b) mod n = a \<and> (a + n * b) div n = b" if "a < n" for a b
      using that by simp
    have "e - 1 < n" "e' - 1 < n" using r by simp_all
    from dm [OF this(1), of "rank ns es1"] dm [OF this(2), of "rank ns es1'"]
    have m: "e - 1 = e' - 1" "rank ns es1 = rank ns es1'" unfolding eq by simp_all
    then have "es1 = es1'" using r by (intro Cons.IH)
    moreover have "e = e'" using m(1) r by linarith
    ultimately show ?thesis using es es' by simp
  qed
qed

lemma rank_le_max: "digits_wf ns es \<Longrightarrow> rank ns es \<le> rank_max ns"
proof (induction ns es rule: digits_wf.induct)
  case (2 n ns e es)
  then show ?case using rank_zeros [of ns] by (auto intro!: add_le_mono mult_le_mono)
qed auto

lemma rank_pos: "digits_wf ns es \<Longrightarrow> rank ns es = 0 \<longleftrightarrow> es = replicate (length ns) 0"
  using rank_inj [OF _ digits_wf_zeros] rank_zeros by metis

text \<open>Index arrays and their digits.\<close>

definition digits :: "u32 list \<Rightarrow> nat list" where
  "digits idx = map (\<lambda>x. unat (x + 1)) idx"

lemma digits_inj: "digits xs = digits ys \<Longrightarrow> xs = ys"
  unfolding digits_def by (rule map_injective) (auto simp: inj_def word_unat_eq_iff [symmetric])

lemma digits_init: "digits (replicate n PWR_STATE_INIT_INDEX) = replicate n 0"
  by (simp add: digits_def map_replicate_const)

lemma inc_levels_digits:
  assumes "i + n = length idx" "length idx \<le> length counts" "\<forall>j < length idx. counts ! j \<noteq> - 1"
    and "digits_wf (map unat (drop i (take (length idx) counts))) (digits (drop i idx))"
  shows "length (fst (inc_levels counts i n idx)) = length idx
    \<and> take i (fst (inc_levels counts i n idx)) = take i idx
    \<and> (digits (drop i (fst (inc_levels counts i n idx))), snd (inc_levels counts i n idx))
      = inc_digits (map unat (drop i (take (length idx) counts))) (digits (drop i idx))"
  using assms
proof (induction n arbitrary: i idx)
  case 0
  then show ?case by (simp add: digits_def)
next
  case (Suc n)
  have i: "i < length idx" "i < length counts" using Suc.prems(1,2) by simp_all
  let ?v = "idx ! i + 1" and ?c = "counts ! i"
  let ?ns = "map unat (drop (Suc i) (take (length idx) counts))"
  have dc: "drop i (take (length idx) counts) = ?c # drop (Suc i) (take (length idx) counts)"
    using Cons_nth_drop_Suc [of i "take (length idx) counts"] i by simp
  have di: "digits (drop i xs) = unat (xs ! i + 1) # digits (drop (Suc i) xs)" if "i < length xs" for xs
  proof -
    have "drop i xs = xs ! i # drop (Suc i) xs" using that by (simp add: Cons_nth_drop_Suc)
    then show ?thesis by (simp add: digits_def)
  qed
  have wf: "1 \<le> unat ?v \<and> unat ?v \<le> unat ?c \<and> digits_wf ?ns (digits (drop (Suc i) idx))
      \<or> unat ?v = 0 \<and> digits (drop (Suc i) idx) = replicate (length ?ns) 0"
    using Suc.prems(4) unfolding dc di [OF i(1)] by simp
  show ?case
  proof (cases "?v = ?c")
    case True
    let ?idx = "idx[i := 0]"
    let ?r = "inc_levels counts (Suc i) n ?idx"
    have "digits_wf ?ns (digits (drop (Suc i) idx))" using wf digits_wf_zeros by metis
    then have IH: "length (fst ?r) = length idx \<and> take (Suc i) (fst ?r) = take (Suc i) ?idx
      \<and> (digits (drop (Suc i) (fst ?r)), snd ?r) = inc_digits ?ns (digits (drop (Suc i) idx))"
      using Suc.IH [of "Suc i" ?idx] Suc.prems(1,2,3) by simp
    have res: "inc_levels counts i (Suc n) idx = ?r" using True by (simp add: Let_def)
    have "fst ?r ! i = 0"
      using IH i(1) nth_take [of i "Suc i" "fst ?r"] by simp
    moreover have "take i (fst ?r) = take i idx"
      using IH take_take [of i "Suc i" "fst ?r"] by (simp add: min_def)
    moreover have "inc_digits ?ns (digits (drop (Suc i) idx)) = (digits (drop (Suc i) (fst ?r)), snd ?r)"
      using IH by simp
    moreover have "length (fst ?r) = length idx" using IH by simp
    ultimately show ?thesis
      using i(1) True unfolding res dc by (simp add: di)
  next
    case False
    have "?v \<noteq> - 1"
    proof
      assume m: "?v = - 1"
      have "unat (- 1 :: u32) \<noteq> 0" by (simp add: unsigned_minus_1_eq_mask mask_eq_exp_minus_1)
      then have "unat (- 1 :: u32) \<le> unat ?c" using wf m by simp
      then have "?c = - 1" unfolding word_le_nat_alt [symmetric] by (rule antisym [OF word_max_le])
      then show False using Suc.prems(3) i(1) by simp
    qed
    then have "unat (?v + 1) = Suc (unat ?v)" by (rule unat_plus_1)
    moreover have "unat ?v \<noteq> unat ?c" using False by (simp add: word_unat_eq_iff [symmetric])
    ultimately show ?thesis using False i unfolding dc by (simp add: di Let_def)
  qed
qed

text \<open>The states \<open>tftf_set_next_state_id_idx\<close> goes through, starting with every level unset.\<close>

fun nth_state :: "pstate_env \<Rightarrow> pstate \<Rightarrow> nat \<Rightarrow> nat \<Rightarrow> u32 list res" where
  "nth_state E S level 0 = Inr (replicate (Suc level) PWR_STATE_INIT_INDEX)"
| "nth_state E S level (Suc k) = andthen (nth_state E S level k) (tftf_set_next_state_id_idx E S level)"

text \<open>A combination sets the levels below some \<open>d\<close> to one of their states and no other level.\<close>

definition combination :: "u32 list \<Rightarrow> nat \<Rightarrow> u32 list \<Rightarrow> bool" where
  "combination counts level idx \<longleftrightarrow> length idx = Suc level
     \<and> (\<exists>d \<in> {1..Suc level}. (\<forall>i < d. idx ! i < counts ! i)
          \<and> (\<forall>i \<in> {d..level}. idx ! i = PWR_STATE_INIT_INDEX))"

definition counts_ok :: "pstate_env \<Rightarrow> pstate \<Rightarrow> nat \<Rightarrow> bool" where
  "counts_ok E S level \<longleftrightarrow> level \<le> PLAT_MAX_PWR_LEVEL E \<and> level < length (power_states_per_level S)
     \<and> (\<forall>i \<le> level. power_states_per_level S ! i \<noteq> 0 \<and> power_states_per_level S ! i \<noteq> - 1)"

definition count_nats :: "pstate \<Rightarrow> nat \<Rightarrow> nat list" where
  "count_nats S level = map unat (take (Suc level) (power_states_per_level S))"

lemma digits_wf_iff:
  "digits_wf ns es \<longleftrightarrow> length es = length ns
    \<and> (\<exists>d \<le> length ns. (\<forall>i < d. 1 \<le> es ! i \<and> es ! i \<le> ns ! i) \<and> (\<forall>i < length ns. d \<le> i \<longrightarrow> es ! i = 0))"
proof (induction ns es rule: digits_wf.induct)
  case (2 n ns e es)
  show ?case
  proof
    assume wf: "digits_wf (n # ns) (e # es)"
    show "length (e # es) = length (n # ns) \<and> (\<exists>d \<le> length (n # ns). (\<forall>i < d. 1 \<le> (e # es) ! i \<and> (e # es) ! i \<le> (n # ns) ! i)
        \<and> (\<forall>i < length (n # ns). d \<le> i \<longrightarrow> (e # es) ! i = 0))" (is "?l \<and> ?d")
    proof
      show ?l using digits_wf_length [OF wf] .
      show ?d
      proof (cases "e = 0")
        case True
        then have "es = replicate (length ns) 0" using wf by simp
        then show ?thesis using True by (intro exI [of _ 0]) (auto simp: nth_Cons split: nat.splits)
      next
        case False
        then have "digits_wf ns es" "1 \<le> e" "e \<le> n" using wf by auto
        then obtain d where "d \<le> length ns" "\<forall>i < d. 1 \<le> es ! i \<and> es ! i \<le> ns ! i"
          "\<forall>i < length ns. d \<le> i \<longrightarrow> es ! i = 0" using "2.IH" by blast
        then show ?thesis using \<open>1 \<le> e\<close> \<open>e \<le> n\<close>
          by (intro exI [of _ "Suc d"]) (auto simp: nth_Cons split: nat.splits)
      qed
    qed
  next
    assume r: "length (e # es) = length (n # ns) \<and> (\<exists>d \<le> length (n # ns). (\<forall>i < d. 1 \<le> (e # es) ! i \<and> (e # es) ! i \<le> (n # ns) ! i)
        \<and> (\<forall>i < length (n # ns). d \<le> i \<longrightarrow> (e # es) ! i = 0))"
    then obtain d where d: "d \<le> Suc (length ns)" "\<forall>i < d. 1 \<le> (e # es) ! i \<and> (e # es) ! i \<le> (n # ns) ! i"
      "\<forall>i < Suc (length ns). d \<le> i \<longrightarrow> (e # es) ! i = 0" by auto
    show "digits_wf (n # ns) (e # es)"
    proof (cases d)
      case 0
      then have "es = replicate (length ns) 0" 
      proof (intro nth_equalityI)
        show "length es = length (replicate (length ns) 0)" using r by simp
        fix i assume "i < length es"
        then have "Suc i < Suc (length ns)" using r by simp
        then have "(e # es) ! Suc i = 0" using d(3) 0 by blast
        then show "es ! i = replicate (length ns) 0 ! i" using \<open>Suc i < Suc (length ns)\<close> by simp
      qed
      moreover have "(e # es) ! 0 = 0" using d(3) 0 by blast
      ultimately show ?thesis by simp
    next
      case (Suc d')
      have "digits_wf ns es"
        unfolding "2.IH"
      proof (intro conjI exI [of _ d'] allI impI)
        show "length es = length ns" "d' \<le> length ns" using r d(1) Suc by simp_all
        show "1 \<le> es ! i" "es ! i \<le> ns ! i" if "i < d'" for i
          using d(2) [rule_format, of "Suc i"] that Suc by simp_all
        show "es ! i = 0" if "i < length ns" "d' \<le> i" for i
          using d(3) [rule_format, of "Suc i"] that Suc by simp
      qed
      moreover have "1 \<le> e \<and> e \<le> n" using d(2) Suc by (metis nth_Cons_0 zero_less_Suc)
      ultimately show ?thesis by simp
    qed
  qed
qed auto

lemma count_nats_length: "counts_ok E S level \<Longrightarrow> length (count_nats S level) = Suc level"
  by (simp add: counts_ok_def count_nats_def)

lemma count_nats_nth: "counts_ok E S level \<Longrightarrow> i \<le> level \<Longrightarrow> count_nats S level ! i = unat (power_states_per_level S ! i)"
  by (simp add: counts_ok_def count_nats_def)

lemma digit_less:
  fixes x c :: u32
  assumes "c \<noteq> - 1"
  shows "1 \<le> unat (x + 1) \<and> unat (x + 1) \<le> unat c \<longleftrightarrow> x < c"
proof (cases "x = - 1")
  case True
  then show ?thesis using word_max_le [of c] by (simp add: linorder_not_less)
next
  case False
  then have "unat (x + 1) = Suc (unat x)" by (rule unat_plus_1)
  then show ?thesis by (simp add: word_less_nat_alt Suc_le_eq)
qed

lemma combination_digits:
  assumes ok: "counts_ok E S level" and len: "length idx = Suc level"
  shows "combination (power_states_per_level S) level idx
    \<longleftrightarrow> digits_wf (count_nats S level) (digits idx) \<and> digits idx \<noteq> replicate (Suc level) 0"
proof -
  let ?c = "power_states_per_level S" and ?ns = "count_nats S level"
  have d: "digits idx ! i = unat (idx ! i + 1)" if "i \<le> level" for i using that len by (simp add: digits_def)
  have lt: "1 \<le> digits idx ! i \<and> digits idx ! i \<le> ?ns ! i \<longleftrightarrow> idx ! i < ?c ! i" if "i \<le> level" for i
    using that ok digit_less [of "?c ! i"] by (simp add: d count_nats_nth [OF ok] counts_ok_def)
  have z: "digits idx ! i = 0 \<longleftrightarrow> idx ! i = PWR_STATE_INIT_INDEX" if "i \<le> level" for i
    using d [OF that] by (simp add: unat_eq_zero eq_neg_iff_add_eq_0)
  have wf: "digits_wf ?ns (digits idx) \<longleftrightarrow>
      (\<exists>d \<le> Suc level. (\<forall>i < d. idx ! i < ?c ! i) \<and> (\<forall>i < Suc level. d \<le> i \<longrightarrow> idx ! i = PWR_STATE_INIT_INDEX))"
    unfolding digits_wf_iff count_nats_length [OF ok]
  proof (intro iffI; elim conjE exE)
    fix d assume "d \<le> Suc level" "\<forall>i < d. 1 \<le> digits idx ! i \<and> digits idx ! i \<le> ?ns ! i"
      "\<forall>i < Suc level. d \<le> i \<longrightarrow> digits idx ! i = 0"
    then show "\<exists>d \<le> Suc level. (\<forall>i < d. idx ! i < ?c ! i) \<and> (\<forall>i < Suc level. d \<le> i \<longrightarrow> idx ! i = PWR_STATE_INIT_INDEX)"
      using lt z by (intro exI [of _ d]) simp
  next
    fix d assume "d \<le> Suc level" "\<forall>i < d. idx ! i < ?c ! i"
      "\<forall>i < Suc level. d \<le> i \<longrightarrow> idx ! i = PWR_STATE_INIT_INDEX"
    then show "length (digits idx) = Suc level \<and> (\<exists>d \<le> Suc level. (\<forall>i < d. 1 \<le> digits idx ! i \<and> digits idx ! i \<le> ?ns ! i)
        \<and> (\<forall>i < Suc level. d \<le> i \<longrightarrow> digits idx ! i = 0))"
      using lt z len by (intro conjI exI [of _ d]) (simp_all add: digits_def)
  qed
  have nz: "digits idx \<noteq> replicate (Suc level) 0 \<longleftrightarrow> (\<exists>i \<le> level. idx ! i \<noteq> PWR_STATE_INIT_INDEX)"
  proof -
    have "digits idx = replicate (Suc level) 0 \<longleftrightarrow> (\<forall>i < Suc level. digits idx ! i = 0)"
      using len by (simp add: list_eq_iff_nth_eq digits_def del: replicate_Suc)
    then show ?thesis using z by (simp add: less_Suc_eq_le)
  qed
  have ninit: "idx ! i < ?c ! i \<Longrightarrow> idx ! i \<noteq> PWR_STATE_INIT_INDEX" for i
    using word_max_le [of "?c ! i"] by (metis linorder_not_less)
  show ?thesis
  proof
    assume "combination ?c level idx"
    then obtain d where "1 \<le> d" "d \<le> Suc level" "\<forall>i < d. idx ! i < ?c ! i" "\<forall>i. d \<le> i \<and> i \<le> level \<longrightarrow> idx ! i = PWR_STATE_INIT_INDEX"
      by (auto simp: combination_def)
    moreover from this have "idx ! 0 \<noteq> PWR_STATE_INIT_INDEX" using ninit [of 0] by simp
    ultimately show "digits_wf ?ns (digits idx) \<and> digits idx \<noteq> replicate (Suc level) 0"
      unfolding wf nz by (auto simp: less_Suc_eq_le)
  next
    assume "digits_wf ?ns (digits idx) \<and> digits idx \<noteq> replicate (Suc level) 0"
    then obtain d i where d: "d \<le> Suc level" "\<forall>i < d. idx ! i < ?c ! i"
      "\<forall>i < Suc level. d \<le> i \<longrightarrow> idx ! i = PWR_STATE_INIT_INDEX" and "i \<le> level" "idx ! i \<noteq> PWR_STATE_INIT_INDEX"
      unfolding wf nz by auto
    then have "1 \<le> d" by (cases d) auto
    then show "combination ?c level idx" using d len by (auto simp: combination_def)
  qed
qed

lemma digits_wf_init_above:
  assumes ok: "counts_ok E S level" and len: "length idx = Suc level"
    and wf: "digits_wf (count_nats S level) (digits idx)"
  shows "init_above level idx"
proof -
  have nz: "digits idx ! i = 0 \<longleftrightarrow> idx ! i = PWR_STATE_INIT_INDEX" if "i \<le> level" for i
    using that len by (simp add: digits_def unat_eq_zero eq_neg_iff_add_eq_0)
  obtain d where d: "\<forall>i < d. 1 \<le> digits idx ! i \<and> digits idx ! i \<le> count_nats S level ! i"
    "\<forall>i < Suc level. d \<le> i \<longrightarrow> digits idx ! i = 0"
    using wf unfolding digits_wf_iff count_nats_length [OF ok] by blast
  show ?thesis
    unfolding init_above_def
  proof (intro allI impI)
    fix i j assume i: "i < level" "idx ! i = PWR_STATE_INIT_INDEX" "j \<le> level" "i \<le> j"
    then have "digits idx ! i = 0" using nz by simp
    then have "d \<le> i" using d(1) by (metis not_less not_one_le_zero)
    then show "idx ! j = PWR_STATE_INIT_INDEX" using d(2) i nz by simp
  qed
qed

lemma set_next_digits:
  assumes ok: "counts_ok E S level" and len: "length idx = Suc level"
    and wf: "digits_wf (count_nats S level) (digits idx)"
  obtains idx' where "tftf_set_next_state_id_idx E S level idx = Inr idx'" "length idx' = Suc level"
    "digits idx = count_nats S level \<Longrightarrow> idx' = replicate (Suc level) PWR_STATE_INIT_INDEX"
    "digits idx \<noteq> count_nats S level \<Longrightarrow> digits_wf (count_nats S level) (digits idx')
      \<and> rank (count_nats S level) (digits idx') = Suc (rank (count_nats S level) (digits idx))"
proof -
  let ?c = "power_states_per_level S" and ?ns = "count_nats S level"
  let ?r = "inc_levels ?c 0 (Suc level) idx"
  let ?res = "if snd ?r then replicate (Suc level) PWR_STATE_INIT_INDEX @ drop (Suc level) (fst ?r) else fst ?r"
  have c: "level \<le> PLAT_MAX_PWR_LEVEL E" "level < length ?c" "\<forall>j < length idx. ?c ! j \<noteq> - 1"
    using ok len by (auto simp: counts_ok_def)
  have ns: "map unat (take (length idx) ?c) = ?ns" using len by (simp add: count_nats_def)
  have inc: "length (fst ?r) = length idx \<and> (digits (fst ?r), snd ?r) = inc_digits ?ns (digits idx)"
    using inc_levels_digits [of 0 "Suc level" idx ?c] c len wf ns by (simp del: inc_levels.simps)
  have one: "\<forall>n \<in> set ?ns. 1 \<le> n"
    using ok by (auto simp: counts_ok_def count_nats_def in_set_conv_nth unat_gt_0 Suc_le_eq)
  note rk = inc_digits_rank [OF wf one]
  have dg: "digits (fst ?r) = fst (inc_digits ?ns (digits idx))" "snd ?r = snd (inc_digits ?ns (digits idx))"
    "length (fst ?r) = Suc level"
    using inc len by (simp_all add: prod_eq_iff)
  have "tftf_set_next_state_id_idx E S level idx = Inr ?res"
    unfolding tftf_set_next_state_id_idx_def
    using c len digits_wf_init_above [OF ok len wf] by (simp add: split_beta Let_def)
  moreover have "length ?res = Suc level" using dg(3) by simp
  moreover have "digits idx = ?ns \<Longrightarrow> ?res = replicate (Suc level) PWR_STATE_INIT_INDEX"
    using rk dg by simp
  moreover have "digits idx \<noteq> ?ns \<Longrightarrow> digits_wf ?ns (digits ?res) \<and> rank ?ns (digits ?res) = Suc (rank ?ns (digits idx))"
    using rk dg by simp
  ultimately show ?thesis by (rule that)
qed

lemma nth_state_rank:
  assumes ok: "counts_ok E S level"
  shows "k \<le> rank_max (count_nats S level) \<Longrightarrow> \<exists>idx. nth_state E S level k = Inr idx \<and> length idx = Suc level
    \<and> digits_wf (count_nats S level) (digits idx) \<and> rank (count_nats S level) (digits idx) = k"
proof (induction k)
  case 0
  show ?case
    using digits_wf_zeros [of "count_nats S level"] rank_zeros [of "count_nats S level"]
    by (simp add: digits_init count_nats_length [OF ok] del: replicate_Suc)
next
  case (Suc k)
  then obtain idx where i: "nth_state E S level k = Inr idx" "length idx = Suc level"
    "digits_wf (count_nats S level) (digits idx)" "rank (count_nats S level) (digits idx) = k" by auto
  have "digits idx \<noteq> count_nats S level" using i(4) Suc.prems rank_full [of "count_nats S level"] by auto
  then show ?case using set_next_digits [OF ok i(2,3)] i(1,4) by (metis nth_state.simps(2) andthen_Inr)
qed

text \<open>C17: \<open>tftf_set_next_state_id_idx\<close>, called again and again from the unset state, goes through every
  combination of local states exactly once, those that set only the lower levels included, and is
  then back at the unset state. With \<open>ni\<close> states of level \<open>i\<close> the number of
  steps is \<open>n0 + n0 n1 + n0 n1 n2 + ...\<close>, up to the highest level.\<close>

theorem set_next_state_id_enumerates:
  assumes "counts_ok E S level"
  shows "(\<forall>idx. combination (power_states_per_level S) level idx \<longleftrightarrow>
        (\<exists>!k. 1 \<le> k \<and> k \<le> rank_max (count_nats S level) \<and> nth_state E S level k = Inr idx))
    \<and> (\<forall>k. 1 \<le> k \<and> k \<le> rank_max (count_nats S level) \<longrightarrow>
        (\<exists>idx. nth_state E S level k = Inr idx \<and> combination (power_states_per_level S) level idx))
    \<and> nth_state E S level (Suc (rank_max (count_nats S level))) = Inr (replicate (Suc level) PWR_STATE_INIT_INDEX)"
proof -
  let ?ns = "count_nats S level" and ?c = "power_states_per_level S"
  have comb: "combination ?c level idx \<longleftrightarrow> 1 \<le> k"
    if "length idx = Suc level" "digits_wf ?ns (digits idx)" "rank ?ns (digits idx) = k" for idx k
    using combination_digits [OF assms that(1)] rank_pos [OF that(2)] that(2,3) count_nats_length [OF assms]
    by (metis One_nat_def Suc_le_eq neq0_conv)
  have uniq: "k = rank ?ns (digits idx)" if "k \<le> rank_max ?ns" "nth_state E S level k = Inr idx" for k idx
    using nth_state_rank [OF assms that(1)] that(2) by auto
  have all: "\<exists>idx. nth_state E S level k = Inr idx \<and> combination ?c level idx" if "1 \<le> k" "k \<le> rank_max ?ns" for k
    using nth_state_rank [OF assms that(2)] comb that(1) by blast
  have fwd: "(\<exists>!k. 1 \<le> k \<and> k \<le> rank_max ?ns \<and> nth_state E S level k = Inr idx)" if c: "combination ?c level idx" for idx
  proof -
    have len: "length idx = Suc level" using c by (simp add: combination_def)
    have wf: "digits_wf ?ns (digits idx)" using c combination_digits [OF assms len] by simp
    obtain idx' where i: "nth_state E S level (rank ?ns (digits idx)) = Inr idx'"
      "digits_wf ?ns (digits idx')" "rank ?ns (digits idx') = rank ?ns (digits idx)"
      using nth_state_rank [OF assms rank_le_max [OF wf]] by blast
    then have "idx' = idx" using rank_inj [OF i(2) wf i(3)] digits_inj by blast
    then have n: "nth_state E S level (rank ?ns (digits idx)) = Inr idx" using i(1) by simp
    show ?thesis
    proof (intro ex1I conjI)
      show "1 \<le> rank ?ns (digits idx)" using comb [OF len wf refl] c by blast
      show "k = rank ?ns (digits idx)" if "1 \<le> k \<and> k \<le> rank_max ?ns \<and> nth_state E S level k = Inr idx" for k
        using uniq that by blast
    qed (rule n rank_le_max [OF wf])+
  qed
  have bwd: "combination ?c level idx" if "\<exists>!k. 1 \<le> k \<and> k \<le> rank_max ?ns \<and> nth_state E S level k = Inr idx" for idx
  proof -
    note ex = that
    obtain k where k: "1 \<le> k" "k \<le> rank_max ?ns" "nth_state E S level k = Inr idx"
      using ex1_implies_ex [OF ex] by blast
    with all [OF k(1,2)] show ?thesis by simp
  qed
  have wrap: "nth_state E S level (Suc (rank_max ?ns)) = Inr (replicate (Suc level) PWR_STATE_INIT_INDEX)"
  proof -
    obtain idx where i: "nth_state E S level (rank_max ?ns) = Inr idx" "length idx = Suc level"
      "digits_wf ?ns (digits idx)" "rank ?ns (digits idx) = rank_max ?ns"
      using nth_state_rank [OF assms order_refl] by blast
    have "digits_wf ?ns ?ns"
      unfolding digits_wf_iff
    proof (intro conjI refl exI [of _ "length ?ns"] allI impI)
      show "1 \<le> ?ns ! i" if "i < length ?ns" for i
      proof -
        have "i \<le> level" using that count_nats_length [OF assms] by simp
        then show ?thesis using assms count_nats_nth [OF assms] by (simp add: counts_ok_def unat_gt_0 Suc_le_eq)
      qed
    qed simp_all
    then have "digits idx = ?ns" using rank_inj [OF i(3)] i(4) rank_full [of ?ns] by simp
    moreover obtain idx' where "tftf_set_next_state_id_idx E S level idx = Inr idx'"
      "digits idx = ?ns \<Longrightarrow> idx' = replicate (Suc level) PWR_STATE_INIT_INDEX"
      by (rule set_next_digits [OF assms i(2,3)]) (rule that)
    ultimately show ?thesis using i(1) by simp
  qed
  show ?thesis
  proof (intro conjI allI iffI impI)
    show "\<exists>!k. 1 \<le> k \<and> k \<le> rank_max ?ns \<and> nth_state E S level k = Inr idx" if "combination ?c level idx" for idx
      by (rule fwd [OF that])
    show "combination ?c level idx" if "\<exists>!k. 1 \<le> k \<and> k \<le> rank_max ?ns \<and> nth_state E S level k = Inr idx" for idx
      by (rule bwd [OF that])
    show "\<exists>idx. nth_state E S level k = Inr idx \<and> combination ?c level idx" if "1 \<le> k \<and> k \<le> rank_max ?ns" for k
      by (rule all) (use that in simp_all)
  qed (rule wrap)
qed

text \<open>On the FVP: 2 states for a CPU, 1 for a cluster and 1 for the system give 6 combinations.\<close>

definition demo_pstate :: pstate where
  "demo_pstate = \<lparr>pstate_initialized = True, plat_state_ptr = [core_state_prop, cluster_state_prop, system_state_prop],
     power_states_per_level = [2, 1, 1], pstate_format_detected = True, pstate_format = 0,
     is_state_id_null = False, irq_masked = False\<rparr>"

lemma le_2_cases: "(i :: nat) \<le> 2 \<Longrightarrow> i = 0 \<or> i = 1 \<or> i = 2"
  by linarith

lemma demo_counts_ok: "counts_ok fvp_pstate_env demo_pstate 2"
  unfolding counts_ok_def
proof (intro conjI allI impI)
  fix i :: nat assume "i \<le> 2"
  then show "power_states_per_level demo_pstate ! i \<noteq> 0" "power_states_per_level demo_pstate ! i \<noteq> - 1"
    using le_2_cases [of i] by (auto simp: demo_pstate_def)
qed (simp_all add: fvp_pstate_env_def demo_pstate_def)

theorem set_next_state_id_enumerates_witness:
  "nth_state fvp_pstate_env demo_pstate 2 7 = Inr [-1, -1, -1]
   \<and> (\<exists>!k. 1 \<le> k \<and> k \<le> 6 \<and> nth_state fvp_pstate_env demo_pstate 2 k = Inr [1, 0, -1])"
proof -
  have m: "rank_max (count_nats demo_pstate 2) = 6"
    by (simp add: count_nats_def demo_pstate_def)
  have r: "replicate (Suc 2) (- 1 :: u32) = [-1, -1, -1]" "Suc 6 = 7" by (simp_all add: numeral_eq_Suc)
  have "combination (power_states_per_level demo_pstate) 2 [1, 0, -1]"
    unfolding combination_def demo_pstate_def
  proof (intro conjI bexI [of _ 2] allI ballI impI)
    show "[1, 0, - 1] ! i < power_states_per_level \<lparr>pstate_initialized = True, plat_state_ptr = [core_state_prop, cluster_state_prop, system_state_prop],
     power_states_per_level = [2, 1, 1], pstate_format_detected = True, pstate_format = 0,
     is_state_id_null = False, irq_masked = False\<rparr> ! i" if "i < 2" for i
      using that le_2_cases [of i] by auto
  qed auto
  then show ?thesis
    using set_next_state_id_enumerates [OF demo_counts_ok] unfolding m r by blast
qed

lemma bit_less_2p:
  fixes x :: u32
  assumes "x < 2 ^ n" "bit x i" "n < 32"
  shows "i < n"
proof -
  have "take_bit n x = x"
    using assms by (simp add: take_bit_eq_mod unat_less_2p word_unat_eq_iff unat_mod_distrib unat_exp_word word_less_nat_alt)
  then have "bit (take_bit n x) i" using assms(2) by simp
  then show ?thesis by (simp add: bit_simps)
qed

lemma and_not_mask_eq_0:
  fixes x :: u32
  assumes "n < 32"
  shows "x AND NOT (mask n) = 0 \<longleftrightarrow> x < 2 ^ n"
proof
  assume z: "x AND NOT (mask n) = 0"
  have "bit (x AND NOT (mask n)) i = bit (0 :: u32) i" for i unfolding z by (rule refl)
  then have "take_bit n x = x" by (intro bit_word_eqI) (auto simp: bit_simps)
  then have "unat x = take_bit n (unat x)" using unsigned_take_bit_eq [of n x] by simp
  then have "unat x < 2 ^ n" by (metis take_bit_nat_less_exp)
  then show "x < 2 ^ n" using assms by (simp add: word_less_nat_alt unat_exp_word)
next
  assume "x < 2 ^ n"
  then show "x AND NOT (mask n) = 0" using bit_less_2p assms by (intro bit_word_eqI) (auto simp: bit_simps)
qed

lemma pstate_fields_ext:
  assumes "ty < 2" "sid < 2 ^ 28"
  shows "drop_bit 30 (push_bit 30 ty OR sid) AND 1 = (ty :: u32)" "(push_bit 30 ty OR sid) AND mask 28 = sid"
proof -
  have b: "bit ty i \<Longrightarrow> i = 0" "bit sid i \<Longrightarrow> i < 28" for i
    using bit_less_2p [of ty 1 i] bit_less_2p [of sid 28 i] assms by auto
  show "drop_bit 30 (push_bit 30 ty OR sid) AND 1 = (ty :: u32)" "(push_bit 30 ty OR sid) AND mask 28 = sid"
    by (intro bit_word_eqI; use b in \<open>auto simp: bit_simps bit_1_iff dest: b\<close>)+
qed

lemma pstate_fields_orig:
  assumes "aff < 4" "ty < 2" "sid < 2 ^ 16"
  shows "drop_bit 24 (push_bit 24 aff OR push_bit 16 ty OR sid) AND 3 = (aff :: u32)"
    "drop_bit 16 (push_bit 24 aff OR push_bit 16 ty OR sid) AND 1 = ty"
    "(push_bit 24 aff OR push_bit 16 ty OR sid) AND mask 16 = sid"
proof -
  have b: "bit aff i \<Longrightarrow> i < 2" "bit ty i \<Longrightarrow> i = 0" "bit sid i \<Longrightarrow> i < 16" for i
    using bit_less_2p [of aff 2 i] bit_less_2p [of ty 1 i] bit_less_2p [of sid 16 i] assms by auto
  have m: "(3 :: u32) = mask 2" by (simp add: mask_eq_exp_minus_1)
  show "drop_bit 24 (push_bit 24 aff OR push_bit 16 ty OR sid) AND 3 = (aff :: u32)"
    "drop_bit 16 (push_bit 24 aff OR push_bit 16 ty OR sid) AND 1 = ty"
    "(push_bit 24 aff OR push_bit 16 ty OR sid) AND mask 16 = sid"
    unfolding m by (intro bit_word_eqI; auto simp: bit_simps bit_1_iff dest: b)+
qed

text \<open>C19: the power state parameter round trips: in the original format the affinity level, type and
  state ID are read back from bits 24 to 25, 16 and 0 to 15, in the extended format the type and
  state ID from bits 30 and 0 to 27, and the assertions accept exactly the values that fit.\<close>

theorem make_psci_pstate_roundtrip:
  assumes "pstate_format_detected S"
  shows "tftf_make_psci_pstate aff ty sid S =
      (if ty < 2 \<and> (if pstate_format S = 1 then sid < 2 ^ 28 else aff < 4 \<and> sid < 2 ^ 16)
       then Inr (if pstate_format S = 1 then push_bit 30 ty OR sid
                 else push_bit 24 aff OR push_bit 16 ty OR (if is_state_id_null S then 0 else sid))
       else Inl AssertFail)
    \<and> (\<forall>ps. tftf_make_psci_pstate aff ty sid S = Inr ps \<longrightarrow>
        (if pstate_format S = 1 then drop_bit 30 ps AND 1 = ty \<and> ps AND mask 28 = sid
         else drop_bit 24 ps AND 3 = aff \<and> drop_bit 16 ps AND 1 = ty
           \<and> ps AND mask 16 = (if is_state_id_null S then 0 else sid)))"
proof -
  have f: "ty AND NOT 1 = 0 \<longleftrightarrow> ty < 2" "sid AND NOT 0xFFFF = 0 \<longleftrightarrow> sid < 2 ^ 16"
    "aff AND NOT 3 = 0 \<longleftrightarrow> aff < 4" "sid AND NOT 0xFFFFFFF = 0 \<longleftrightarrow> sid < 2 ^ 28"
    using and_not_mask_eq_0 [of 1 ty] and_not_mask_eq_0 [of 16 sid] and_not_mask_eq_0 [of 2 aff]
      and_not_mask_eq_0 [of 28 sid] by (simp_all add: mask_eq_exp_minus_1)
  have e: "tftf_make_psci_pstate aff ty sid S =
      (if ty < 2 \<and> (if pstate_format S = 1 then sid < 2 ^ 28 else aff < 4 \<and> sid < 2 ^ 16)
       then Inr (if pstate_format S = 1 then push_bit 30 ty OR sid
                 else push_bit 24 aff OR push_bit 16 ty OR (if is_state_id_null S then 0 else sid))
       else Inl AssertFail)"
    using assms unfolding tftf_make_psci_pstate_def psci_state_type_valid_def psci_state_id_valid_def
      psci_affinity_level_valid_def psci_state_id_ext_valid_def f
    by (cases "ty < 2"; cases "pstate_format S = 1"; cases "sid < 2 ^ 28"; cases "aff < 4"; cases "sid < 2 ^ 16")
      (simp_all add: Let_def or.assoc)
  show ?thesis
    using pstate_fields_ext [of ty sid] pstate_fields_orig [of aff ty "if is_state_id_null S then 0 else sid"]
    unfolding e by (auto split: if_splits)
qed

theorem make_psci_pstate_roundtrip_witness:
  "tftf_make_psci_pstate 1 1 0x22 demo_pstate = Inr 0x1010022"
  using make_psci_pstate_roundtrip [of demo_pstate 1 1 "0x22"]
  by (simp add: demo_pstate_def)

section \<open>The parameters of a combination\<close>

abbreviation local_state :: "pstate \<Rightarrow> u32 list \<Rightarrow> nat \<Rightarrow> plat_state_prop" where
  "local_state S idx i \<equiv> plat_state_ptr S ! i ! unat (idx ! i)"

text \<open>The first \<open>d\<close> levels are set, each to an entry of its array (the terminator included).\<close>

definition vars_ok :: "pstate_env \<Rightarrow> pstate \<Rightarrow> u32 list \<Rightarrow> nat \<Rightarrow> bool" where
  "vars_ok E S idx d \<longleftrightarrow> 1 \<le> d \<and> d \<le> Suc (PLAT_MAX_PWR_LEVEL E)
     \<and> length idx = Suc (PLAT_MAX_PWR_LEVEL E) \<and> length (plat_state_ptr S) = Suc (PLAT_MAX_PWR_LEVEL E)
     \<and> length (power_states_per_level S) = Suc (PLAT_MAX_PWR_LEVEL E)
     \<and> (\<forall>i < d. idx ! i \<noteq> PWR_STATE_INIT_INDEX \<and> idx ! i \<le> power_states_per_level S ! i
          \<and> unat (idx ! i) < length (plat_state_ptr S ! i)
          \<and> state_ID (local_state S idx i) < 2 ^ PLAT_LOCAL_PSTATE_WIDTH E)
     \<and> (d < Suc (PLAT_MAX_PWR_LEVEL E) \<longrightarrow> idx ! d = PWR_STATE_INIT_INDEX)
     \<and> d * PLAT_LOCAL_PSTATE_WIDTH E \<le> 31"

definition depths_ok :: "pstate \<Rightarrow> u32 list \<Rightarrow> nat \<Rightarrow> bool" where
  "depths_ok S idx d \<longleftrightarrow> (\<forall>i. Suc i < d \<longrightarrow>
     suspend_depth (local_state S idx (Suc i)) \<le> suspend_depth (local_state S idx i))"

definition vars_inv :: "pstate_env \<Rightarrow> pstate \<Rightarrow> u32 list \<Rightarrow> nat \<Rightarrow> u32 \<times> u32 \<times> u32 \<times> u32 \<Rightarrow> bool" where
  "vars_inv E S idx i = (\<lambda>(sid, ty, dep, ret).
     (\<forall>b. bit sid b \<longrightarrow> b < i * PLAT_LOCAL_PSTATE_WIDTH E)
     \<and> (\<forall>j < i. \<forall>b < PLAT_LOCAL_PSTATE_WIDTH E.
          bit sid (j * PLAT_LOCAL_PSTATE_WIDTH E + b) = bit (state_ID (local_state S idx j)) b)
     \<and> ty = Max ((\<lambda>j. is_pwrdown (local_state S idx j)) ` {..<max 1 i})
     \<and> ret = (if depths_ok S idx i then PSCI_E_SUCCESS else PSCI_E_INVALID_PARAMS)
     \<and> (depths_ok S idx i \<longrightarrow> dep = suspend_depth (local_state S idx (i - 1))))"

lemma vars_inv_step:
  assumes inv: "vars_inv E S idx i (sid, ty, dep, ret)" and W: "Suc i * PLAT_LOCAL_PSTATE_WIDTH E \<le> 31"
    and st: "state_ID (local_state S idx i) < 2 ^ PLAT_LOCAL_PSTATE_WIDTH E"
  shows "vars_inv E S idx (Suc i)
    (sid OR push_bit (i * PLAT_LOCAL_PSTATE_WIDTH E) (state_ID (local_state S idx i)),
     if ty < is_pwrdown (local_state S idx i) then is_pwrdown (local_state S idx i) else ty,
     if dep < suspend_depth (local_state S idx i) then dep else suspend_depth (local_state S idx i),
     if dep < suspend_depth (local_state S idx i) then PSCI_E_INVALID_PARAMS else ret)"
proof -
  let ?W = "PLAT_LOCAL_PSTATE_WIDTH E" and ?s = "state_ID (local_state S idx i)"
  have low: "bit sid b \<Longrightarrow> b < i * ?W" for b using inv by (simp add: vars_inv_def)
  have field: "bit sid (j * ?W + b) = bit (state_ID (local_state S idx j)) b" if "j < i" "b < ?W" for j b
    using inv that by (simp add: vars_inv_def)
  have s: "bit ?s b \<Longrightarrow> b < ?W" for b using bit_less_2p [OF st] W by simp
  have "b < Suc i * ?W" if "bit (sid OR push_bit (i * ?W) ?s) b" for b
  proof (cases "bit sid b")
    case True
    then show ?thesis using low [of b] by simp
  next
    case False
    then have "i * ?W \<le> b" "b - i * ?W < ?W" using that s by (auto simp: bit_simps)
    then show ?thesis by simp
  qed
  moreover have "bit (sid OR push_bit (i * ?W) ?s) (j * ?W + b) = bit (state_ID (local_state S idx j)) b"
    if j: "j < Suc i" "b < ?W" for j b
  proof (cases "j < i")
    case True
    then have "Suc j * ?W \<le> i * ?W" by (intro mult_le_mono1) simp
    then have "j * ?W + b < i * ?W" using j(2) by simp
    then show ?thesis using field [OF True j(2)] by (simp add: bit_simps)
  next
    case False
    then have "j = i" using j(1) by simp
    moreover have "i * ?W + b < 32" using W j(2) by simp
    ultimately show ?thesis using low [of "i * ?W + b"] by (auto simp: bit_simps)
  qed
  moreover have "(if ty < is_pwrdown (local_state S idx i) then is_pwrdown (local_state S idx i) else ty)
      = Max ((\<lambda>j. is_pwrdown (local_state S idx j)) ` {..<max 1 (Suc i)})"
  proof (cases i)
    case 0
    then show ?thesis using inv by (simp add: vars_inv_def lessThan_Suc)
  next
    case (Suc k)
    let ?A = "(\<lambda>j. is_pwrdown (local_state S idx j)) ` {..<i}"
    have "ty = Max ?A" using inv Suc by (simp add: vars_inv_def)
    moreover have "?A \<noteq> {}" using Suc by auto
    moreover have "(\<lambda>j. is_pwrdown (local_state S idx j)) ` {..<max 1 (Suc i)} = insert (is_pwrdown (local_state S idx i)) ?A"
      by (simp add: lessThan_Suc)
    moreover have "(if t < x then x else t) = max x t" for t x :: u32 by (auto simp: max_def)
    moreover have "Max (insert (is_pwrdown (local_state S idx i)) ?A) = max (is_pwrdown (local_state S idx i)) (Max ?A)"
      using Suc by (intro Max_insert) auto
    ultimately show ?thesis by (simp only:)
  qed
  moreover have d: "depths_ok S idx (Suc i) \<longleftrightarrow> depths_ok S idx i \<and> \<not> dep < suspend_depth (local_state S idx i)"
    if "depths_ok S idx i"
  proof -
    have "dep = suspend_depth (local_state S idx (i - 1))" using inv that by (simp add: vars_inv_def)
    then show ?thesis using that by (cases i) (auto simp: depths_ok_def less_Suc_eq not_less)
  qed
  moreover have "depths_ok S idx (Suc i) \<Longrightarrow> depths_ok S idx i" by (auto simp: depths_ok_def)
  ultimately show ?thesis using inv by (auto simp: vars_inv_def)
qed

lemma vars_from:
  assumes ok: "vars_ok E S idx d"
  shows "i \<le> d \<Longrightarrow> i + n = Suc (PLAT_MAX_PWR_LEVEL E) \<Longrightarrow> vars_inv E S idx i (sid, ty, dep, ret) \<Longrightarrow>
    \<exists>sid' ty' dep' ret'. pstate_vars_from E S idx i n (sid, ty, dep, ret) = Inr (sid', ty', dep', ret', d)
      \<and> vars_inv E S idx d (sid', ty', dep', ret')"
proof (induction n arbitrary: i sid ty dep ret)
  case 0
  then have "i = d" using ok by (simp add: vars_ok_def)
  then show ?case using 0 by simp
next
  case (Suc n)
  have l: "i < length idx" "i < length (plat_state_ptr S)" "i < length (power_states_per_level S)"
    using ok Suc.prems(2) by (simp_all add: vars_ok_def)
  show ?case
  proof (cases "i = d")
    case True
    then have "idx ! i = PWR_STATE_INIT_INDEX" using ok Suc.prems(2) by (simp add: vars_ok_def)
    then show ?thesis using l Suc.prems(3) True by simp
  next
    case False
    then have i: "i < d" using Suc.prems(1) by simp
    then have o: "idx ! i \<noteq> PWR_STATE_INIT_INDEX" "idx ! i \<le> power_states_per_level S ! i"
      "unat (idx ! i) < length (plat_state_ptr S ! i)" "state_ID (local_state S idx i) < 2 ^ PLAT_LOCAL_PSTATE_WIDTH E"
      "d * PLAT_LOCAL_PSTATE_WIDTH E \<le> 31"
      using ok by (auto simp: vars_ok_def)
    have "Suc i * PLAT_LOCAL_PSTATE_WIDTH E \<le> d * PLAT_LOCAL_PSTATE_WIDTH E" using i by (intro mult_le_mono1) simp
    then have W: "Suc i * PLAT_LOCAL_PSTATE_WIDTH E \<le> 31" using o(5) by simp
    show ?thesis
      using Suc.IH [OF _ _ vars_inv_step [OF Suc.prems(3) W o(4)]] i Suc.prems(2) l o by simp
  qed
qed

text \<open>C18: the parameters \<open>tftf_get_pstate_vars\<close> computes for a combination of the first \<open>d\<close> levels: the
  power level is \<open>d - 1\<close>, the suspend type the deepest of the local types, each local state ID is in
  its field of the state ID, which has nothing else, and the expected result is success exactly
  when no level is in a deeper state than the level below it. The index one past the last state,
  which the assertions let through, selects the terminator and gives the local state ID 0.\<close>

theorem get_pstate_vars_spec:
  assumes "vars_ok E S idx d"
  shows "\<exists>sid. tftf_get_pstate_vars E S idx = Inr (of_nat (d - 1),
        Max ((\<lambda>i. is_pwrdown (local_state S idx i)) ` {..<d}), sid,
        if depths_ok S idx d then PSCI_E_SUCCESS else PSCI_E_INVALID_PARAMS)
    \<and> (\<forall>i < d. drop_bit (i * PLAT_LOCAL_PSTATE_WIDTH E) sid AND mask (PLAT_LOCAL_PSTATE_WIDTH E)
          = state_ID (local_state S idx i))
    \<and> drop_bit (d * PLAT_LOCAL_PSTATE_WIDTH E) sid = 0"
proof -
  let ?W = "PLAT_LOCAL_PSTATE_WIDTH E"
  have o: "1 \<le> d" "d \<le> Suc (PLAT_MAX_PWR_LEVEL E)" "d * ?W \<le> 31"
    "0 < length idx" "0 < length (plat_state_ptr S)" "0 < length (power_states_per_level S)"
    "idx ! 0 \<noteq> PWR_STATE_INIT_INDEX" "idx ! 0 \<le> power_states_per_level S ! 0"
    "unat (idx ! 0) < length (plat_state_ptr S ! 0)"
    "\<And>i. i < d \<Longrightarrow> state_ID (local_state S idx i) < 2 ^ ?W"
    using assms by (auto simp: vars_ok_def)
  have "vars_inv E S idx 0 (0, is_pwrdown (local_state S idx 0), suspend_depth (local_state S idx 0), PSCI_E_SUCCESS)"
    by (simp add: vars_inv_def depths_ok_def lessThan_Suc)
  from vars_from [OF assms _ _ this, of "Suc (PLAT_MAX_PWR_LEVEL E)"]
  obtain sid ty dep ret where f: "pstate_vars_from E S idx 0 (Suc (PLAT_MAX_PWR_LEVEL E))
        (0, is_pwrdown (local_state S idx 0), suspend_depth (local_state S idx 0), PSCI_E_SUCCESS) = Inr (sid, ty, dep, ret, d)"
    and inv: "vars_inv E S idx d (sid, ty, dep, ret)" by auto
  have "tftf_get_pstate_vars E S idx = Inr (of_nat d - 1, ty, sid, ret)"
    using o f by (simp add: tftf_get_pstate_vars_def del: pstate_vars_from.simps)
  moreover have "of_nat d - 1 = (of_nat (d - 1) :: u32)" using o(1) by (simp add: of_nat_diff)
  moreover have "max 1 d = d" using o(1) by simp
  moreover have "drop_bit (i * ?W) sid AND mask ?W = state_ID (local_state S idx i)" if i: "i < d" for i
  proof (rule bit_word_eqI)
    fix b :: nat assume b: "b < LENGTH(32)"
    have "Suc i * ?W \<le> d * ?W" using i by (intro mult_le_mono1) simp
    then have W: "?W < 32" "i * ?W + ?W \<le> 31" using o(3) by simp_all
    have s: "bit (state_ID (local_state S idx i)) b \<Longrightarrow> b < ?W" using bit_less_2p [OF o(10) [OF i] _ W(1)] .
    show "bit (drop_bit (i * ?W) sid AND mask ?W) b = bit (state_ID (local_state S idx i)) b"
      using inv i s b W by (auto simp: vars_inv_def bit_simps)
  qed
  moreover have "drop_bit (d * ?W) sid = 0"
  proof (rule bit_word_eqI)
    have "\<forall>b. bit sid b \<longrightarrow> b < d * ?W" using inv by (simp add: vars_inv_def)
    then show "bit (drop_bit (d * ?W) sid) b = bit 0 b" for b by (auto simp: bit_simps)
  qed
  moreover have "ty = Max ((\<lambda>i. is_pwrdown (local_state S idx i)) ` {..<max 1 d})"
    "ret = (if depths_ok S idx d then PSCI_E_SUCCESS else PSCI_E_INVALID_PARAMS)"
    using inv unfolding vars_inv_def prod.case by blast+
  ultimately show ?thesis by (intro exI [of _ sid] conjI allI impI) (simp_all only:)
qed

text \<open>Index 2 of the CPU level, past its two states, gives the state ID 0 with result success.\<close>

theorem get_pstate_vars_spec_witness:
  "tftf_get_pstate_vars fvp_pstate_env demo_pstate [2, -1, -1] = Inr (0, 0, 0, 0)"
proof -
  let ?idx = "[2, -1, -1] :: u32 list"
  have ok: "vars_ok fvp_pstate_env demo_pstate ?idx 1"
    by (simp add: vars_ok_def fvp_pstate_env_def demo_pstate_def core_state_prop_def)
  have l: "local_state demo_pstate ?idx 0 = \<lparr>suspend_depth = 0, state_ID = 0, is_pwrdown = 0\<rparr>"
    by (simp add: demo_pstate_def core_state_prop_def)
  have d: "depths_ok demo_pstate ?idx 1" by (simp add: depths_ok_def)
  have m: "Max ((\<lambda>i. is_pwrdown (local_state demo_pstate ?idx i)) ` {..<1}) = 0"
    using l by (simp add: lessThan_Suc)
  have w: "PLAT_LOCAL_PSTATE_WIDTH fvp_pstate_env = 4" by (simp add: fvp_pstate_env_def)
  obtain sid where "tftf_get_pstate_vars fvp_pstate_env demo_pstate ?idx = Inr (of_nat (1 - 1), 0, sid, 0)"
    and f: "\<forall>i < 1. drop_bit (i * 4) sid AND mask 4 = state_ID (local_state demo_pstate ?idx i)"
    and z: "drop_bit (1 * 4) sid = 0"
    using get_pstate_vars_spec [OF ok] unfolding m w if_P [OF d] by (elim exE conjE)
  moreover have s: "drop_bit (0 * 4) sid AND mask 4 = state_ID (local_state demo_pstate ?idx 0)" "drop_bit 4 sid = 0"
    using f z by simp_all
  moreover have "sid = 0"
    using s l bits_ident [of 4 sid] by (simp add: take_bit_eq_mask [symmetric])
  ultimately show ?thesis by simp
qed

end
