(* ===== verification/Tftf_Hotplug.thy ===== *)
theory Tftf_Hotplug
  imports Tftf_Topology Tftf_Pstate
begin

text \<open>
  CPU hotplug (\<open>src/lib/power_management/hotplug/hotplug.c\<close>): the framework's view of which CPUs are
  on, the number of CPUs in the current test, and powering CPUs up and down.

  The first part has one definition per function, run by the CPU with MPID \<open>mp\<close> while no other CPU
  changes the state; waiting for a state nobody sets is \<open>Hang\<close>. \<open>rets\<close> are the answers of
  the firmware to successive calls of CPU_ON. The second part is the interleaving of these functions
  on several CPUs during one test, cut into the sections between which other CPUs can run, with the
  reference count as \<open>run_tests\<close> (\<open>src/tftf/framework/main.c\<close>) keeps it.
\<close>

section \<open>State\<close>

datatype affinity = TFTF_AFFINITY_STATE_OFF | TFTF_AFFINITY_STATE_ON_PENDING | TFTF_AFFINITY_STATE_ON

record hotplug =
  cpus_status_map :: "affinity list"
  cpus_status_init_done :: bool
  ref_cnt :: u32
  test_entrypoint :: "u64 list"
  tftf_primary_core :: u64
  local_irqs :: "bool list"

abbreviation (input) MPID_MASK :: u32 where "MPID_MASK \<equiv> 0x1FFFFFF"

definition pos :: "topo_env \<Rightarrow> u32 \<Rightarrow> nat" where
  "pos E mp = unat (platform_get_core_pos E mp)"

section \<open>Reference count\<close>

definition tftf_inc_ref_cnt :: "topo_env \<Rightarrow> hotplug \<Rightarrow> (u32 \<times> hotplug) res" where
  "tftf_inc_ref_cnt E H =
     andthen (assert_c (ref_cnt H < PLATFORM_CORE_COUNT E)) (\<lambda>_.
     let cnt = ref_cnt H + 1 in Inr (cnt, H\<lparr>ref_cnt := cnt\<rparr>))"

definition tftf_dec_ref_cnt :: "hotplug \<Rightarrow> (u32 \<times> hotplug) res" where
  "tftf_dec_ref_cnt H =
     andthen (assert_c (ref_cnt H \<noteq> 0)) (\<lambda>_.
     let cnt = ref_cnt H - 1 in Inr (cnt, H\<lparr>ref_cnt := cnt\<rparr>))"

definition tftf_get_ref_cnt :: "hotplug \<Rightarrow> u32" where
  "tftf_get_ref_cnt H = ref_cnt H"

section \<open>Status map\<close>

definition set_state :: "nat \<Rightarrow> affinity \<Rightarrow> hotplug \<Rightarrow> hotplug res" where
  "set_state i a H = andthen (aput (cpus_status_map H) i a) (\<lambda>map. Inr (H\<lparr>cpus_status_map := map\<rparr>))"

definition tftf_init_cpus_status_map :: "topo_env \<Rightarrow> u32 \<Rightarrow> hotplug \<Rightarrow> hotplug res" where
  "tftf_init_cpus_status_map E mp H =
     andthen (assert_c (ucast (mp AND MPID_MASK) = tftf_primary_core H)) (\<lambda>_.
     andthen (assert_c (\<not> cpus_status_init_done H)) (\<lambda>_.
     set_state (pos E mp) TFTF_AFFINITY_STATE_ON (H\<lparr>cpus_status_init_done := True\<rparr>)))"

definition tftf_set_cpu_online :: "topo_env \<Rightarrow> u32 \<Rightarrow> hotplug \<Rightarrow> hotplug res" where
  "tftf_set_cpu_online E mp H =
     andthen (aget (cpus_status_map H) (pos E mp)) (\<lambda>st.
     if st = TFTF_AFFINITY_STATE_OFF then Inl Hang
     else andthen (assert_c (st = TFTF_AFFINITY_STATE_ON_PENDING)) (\<lambda>_.
          set_state (pos E mp) TFTF_AFFINITY_STATE_ON H))"

definition tftf_is_core_pos_online :: "nat \<Rightarrow> hotplug \<Rightarrow> bool res" where
  "tftf_is_core_pos_online core_pos H =
     andthen (aget (cpus_status_map H) core_pos) (\<lambda>st. Inr (st = TFTF_AFFINITY_STATE_ON))"

definition tftf_is_cpu_online :: "topo_env \<Rightarrow> u32 \<Rightarrow> hotplug \<Rightarrow> bool res" where
  "tftf_is_cpu_online E mp H =
     andthen (aget (cpus_status_map H) (pos E mp)) (\<lambda>st. Inr (st = TFTF_AFFINITY_STATE_ON))"

definition tftf_set_cpu_offline :: "topo_env \<Rightarrow> u32 \<Rightarrow> hotplug \<Rightarrow> hotplug res" where
  "tftf_set_cpu_offline E mp H =
     andthen (tftf_is_cpu_online E mp H) (\<lambda>on.
     andthen (assert_c on) (\<lambda>_.
     set_state (pos E mp) TFTF_AFFINITY_STATE_OFF H))"

section \<open>Powering a CPU up\<close>

text \<open>The loop around CPU_ON: no value when the firmware answers \<open>ALREADY_ON\<close> for ever.\<close>

partial_function (option) cpu_on_loop :: "(nat \<Rightarrow> u32) \<Rightarrow> nat \<Rightarrow> u32 res option" where
  "cpu_on_loop rets k =
     (if rets k = PSCI_E_ON_PENDING then Some (Inl AssertFail)
      else if rets k = PSCI_E_ALREADY_ON then cpu_on_loop rets (Suc k)
      else Some (Inr (rets k)))"

definition tftf_cpu_on :: "topo_env \<Rightarrow> (nat \<Rightarrow> u32) \<Rightarrow> u32 \<Rightarrow> u64 \<Rightarrow> hotplug \<Rightarrow> (u32 \<times> hotplug) res option" where
  "tftf_cpu_on E rets target_cpu entrypoint H =
     (let core_pos = pos E target_cpu
      in case aget (cpus_status_map H) core_pos of
           Inl e \<Rightarrow> Some (Inl e)
         | Inr TFTF_AFFINITY_STATE_ON \<Rightarrow> Some (Inr (PSCI_E_ALREADY_ON, H))
         | Inr TFTF_AFFINITY_STATE_ON_PENDING \<Rightarrow> Some (Inr (PSCI_E_SUCCESS, H))
         | Inr TFTF_AFFINITY_STATE_OFF \<Rightarrow>
             map_option (\<lambda>r. andthen r (\<lambda>ret.
               if ret = PSCI_E_SUCCESS
               then andthen (aput (test_entrypoint H) core_pos entrypoint) (\<lambda>eps.
                    andthen (set_state core_pos TFTF_AFFINITY_STATE_ON_PENDING (H\<lparr>test_entrypoint := eps\<rparr>)) (\<lambda>H.
                    Inr (ret, H)))
               else Inr (ret, H))) (cpu_on_loop rets 0))"

definition tftf_try_cpu_on :: "topo_env \<Rightarrow> u32 \<Rightarrow> u32 \<Rightarrow> u64 \<Rightarrow> hotplug \<Rightarrow> (u32 \<times> hotplug) res" where
  "tftf_try_cpu_on E ret target_cpu entrypoint H =
     (let core_pos = pos E target_cpu
      in if ret = PSCI_E_SUCCESS
         then andthen (aget (cpus_status_map H) core_pos) (\<lambda>st.
              andthen (assert_c (st = TFTF_AFFINITY_STATE_OFF)) (\<lambda>_.
              andthen (set_state core_pos TFTF_AFFINITY_STATE_ON_PENDING H) (\<lambda>H.
              andthen (aput (test_entrypoint H) core_pos entrypoint) (\<lambda>eps.
              Inr (ret, H\<lparr>test_entrypoint := eps\<rparr>)))))
         else Inr (ret, H))"

section \<open>Powering a CPU down\<close>

text \<open>\<open>local_irqs\<close>: whether the CPU takes interrupts (its mask and its GIC CPU interface).\<close>

definition tftf_prepare_cpu_off :: "topo_env \<Rightarrow> u32 \<Rightarrow> hotplug \<Rightarrow> hotplug res" where
  "tftf_prepare_cpu_off E mp H =
     andthen (aput (local_irqs H) (pos E mp) False) (\<lambda>l. Inr (H\<lparr>local_irqs := l\<rparr>))"

definition tftf_revert_cpu_off :: "topo_env \<Rightarrow> u32 \<Rightarrow> hotplug \<Rightarrow> hotplug res" where
  "tftf_revert_cpu_off E mp H =
     andthen (aput (local_irqs H) (pos E mp) True) (\<lambda>l. Inr (H\<lparr>local_irqs := l\<rparr>))"

text \<open>
  \<open>ret\<close> is what CPU_OFF returns, \<open>None\<close> when it does not return because the CPU is off. The
  result is the returned code, or \<open>None\<close> with the state the CPU left behind.
\<close>

definition tftf_cpu_off :: "topo_env \<Rightarrow> u32 option \<Rightarrow> u32 \<Rightarrow> hotplug \<Rightarrow> (u32 option \<times> hotplug) res" where
  "tftf_cpu_off E ret mp H =
     andthen (tftf_prepare_cpu_off E mp H) (\<lambda>H.
     andthen (tftf_set_cpu_offline E mp H) (\<lambda>H.
     case ret of
       None \<Rightarrow> Inr (None, H)
     | Some r \<Rightarrow>
         andthen (assert_c (r = PSCI_E_DENIED)) (\<lambda>_.
         andthen (tftf_set_cpu_online E mp H) (\<lambda>H.
         andthen (tftf_revert_cpu_off E mp H) (\<lambda>H.
         Inr (Some r, H))))))"

section \<open>What the sequential functions do\<close>

lemma cpu_on_loop_returns:
  assumes "rets (k + n) \<noteq> PSCI_E_ALREADY_ON" and "\<forall>i < n. rets (k + i) = PSCI_E_ALREADY_ON"
  shows "cpu_on_loop rets k = Some (if rets (k + n) = PSCI_E_ON_PENDING then Inl AssertFail else Inr (rets (k + n)))"
  using assms
proof (induction n arbitrary: k)
  case 0
  then show ?case by (subst cpu_on_loop.simps) simp
next
  case (Suc n)
  have "rets k = PSCI_E_ALREADY_ON" using Suc.prems(2) by force
  moreover have "cpu_on_loop rets (Suc k)
      = Some (if rets (Suc k + n) = PSCI_E_ON_PENDING then Inl AssertFail else Inr (rets (Suc k + n)))"
    using Suc.prems by (intro Suc.IH) force+
  ultimately show ?case by (subst cpu_on_loop.simps) simp
qed

text \<open>C23: a CPU_OFF call the firmware denies leaves the CPU stuck: \<open>tftf_set_cpu_online\<close> waits for its
  own state, just set to off, to change. The comment in \<open>tftf_cpu_off\<close> says it is marked online
  again.\<close>

theorem cpu_off_denied_hangs:
  assumes "pos E mp < length (cpus_status_map H)" and "pos E mp < length (local_irqs H)"
    and "cpus_status_map H ! pos E mp = TFTF_AFFINITY_STATE_ON"
  shows "tftf_cpu_off E (Some PSCI_E_DENIED) mp H = Inl Hang"
  using assms
  by (simp add: tftf_cpu_off_def tftf_prepare_cpu_off_def tftf_set_cpu_offline_def tftf_is_cpu_online_def
      set_state_def tftf_set_cpu_online_def)

definition demo_hp_env :: topo_env where
  "demo_hp_env = \<lparr>PLATFORM_NUM_AFFS = 3, PLATFORM_CORE_COUNT = 2, PLATFORM_MAX_AFFLVL = 1,
     pwr_domain_tree_desc = [1, 2], plat_get_mpidr = (\<lambda>i. Inr (ucast i)), platform_get_core_pos = (\<lambda>mp. mp)\<rparr>"

definition demo_hp :: hotplug where
  "demo_hp = \<lparr>cpus_status_map = [TFTF_AFFINITY_STATE_ON, TFTF_AFFINITY_STATE_ON], cpus_status_init_done = True,
     ref_cnt = 0, test_entrypoint = [0, 0], tftf_primary_core = 0, local_irqs = [True, True]\<rparr>"

theorem cpu_off_denied_hangs_witness: "tftf_cpu_off demo_hp_env (Some PSCI_E_DENIED) 1 demo_hp = Inl Hang"
  by (rule cpu_off_denied_hangs) (simp_all add: demo_hp_env_def demo_hp_def pos_def)

section \<open>Interleavings\<close>

text \<open>
  Where a CPU is: off; in \<open>tftf_warm_boot_main\<close> before it is online; in \<open>run_tests\<close> before
  \<open>tftf_inc_ref_cnt\<close>, and after it, before its entry point; in the test; in \<open>tftf_cpu_on\<close> with the
  target's lock before and after CPU_ON; in \<open>tftf_try_cpu_on\<close> after CPU_ON and after publishing the
  state; back from the test, before \<open>tftf_dec_ref_cnt\<close>; after it, about to power off, or the last CPU of the
  test, which closes it; in \<open>tftf_cpu_off\<close> before CPU_OFF, called by the test or by the framework; back from a
  denied CPU_OFF; at a failed assertion on the state of a CPU; at a failed assertion on the
  reference count; at the panic after a \<open>tftf_cpu_off\<close> of the framework that returned.
\<close>

datatype cpu_pc = Down | Boot | Session | Counted | InTest | OnLocked nat u64 | OnPublish nat u64
  | TryPublish nat u64 | TryEntry nat u64 | Returned | Leaving | Last | GoingDown bool | Denied bool
  | Failed | RefFailed | Panicked

datatype fw_state = FwOff | FwPending | FwOn

text \<open>
  \<open>cnt\<close> is \<open>ref_cnt\<close>. \<open>running\<close> is the function a CPU entered, \<open>asked\<close> the entry point of the last
  successful CPU_ON for it; nothing in the program reads these two.
\<close>

record cpus =
  stat :: "nat \<Rightarrow> affinity"
  entryp :: "nat \<Rightarrow> u64"
  holder :: "nat \<Rightarrow> nat option"
  cnt :: nat
  fw :: "nat \<Rightarrow> fw_state"
  pc :: "nat \<Rightarrow> cpu_pc"
  running :: "nat \<Rightarrow> u64"
  asked :: "nat \<Rightarrow> u64"

text \<open>
  The steps of \<open>N\<close> CPUs during one test. \<open>tries\<close>: the test calls \<open>tftf_try_cpu_on\<close>; \<open>quits\<close>: the
  test function of a CPU calls \<open>tftf_cpu_off\<close> itself. Calls that return at once with no effect, and
  repeated calls of CPU_ON, are no steps.
\<close>

inductive hp_step :: "bool \<Rightarrow> bool \<Rightarrow> nat \<Rightarrow> cpus \<Rightarrow> cpus \<Rightarrow> bool" for tries quits N where
  on_lock: "pc s a = InTest \<Longrightarrow> t < N \<Longrightarrow> holder s t = None \<Longrightarrow> stat s t = TFTF_AFFINITY_STATE_OFF \<Longrightarrow>
    hp_step tries quits N s (s\<lparr>holder := (holder s)(t := Some a), pc := (pc s)(a := OnLocked t ep)\<rparr>)"
| on_pending: "pc s a = OnLocked t ep \<Longrightarrow> fw s t = FwPending \<Longrightarrow>
    hp_step tries quits N s (s\<lparr>pc := (pc s)(a := Failed)\<rparr>)"
| on_error: "pc s a = OnLocked t ep \<Longrightarrow>
    hp_step tries quits N s (s\<lparr>holder := (holder s)(t := None), pc := (pc s)(a := InTest)\<rparr>)"
| on_success: "pc s a = OnLocked t ep \<Longrightarrow> fw s t = FwOff \<Longrightarrow>
    hp_step tries quits N s (s\<lparr>fw := (fw s)(t := FwPending), pc := (pc s)(a := OnPublish t ep, t := Boot),
      asked := (asked s)(t := ep)\<rparr>)"
| on_publish: "pc s a = OnPublish t ep \<Longrightarrow>
    hp_step tries quits N s (s\<lparr>entryp := (entryp s)(t := ep), stat := (stat s)(t := TFTF_AFFINITY_STATE_ON_PENDING),
      holder := (holder s)(t := None), pc := (pc s)(a := InTest)\<rparr>)"
| boot: "pc s t = Boot \<Longrightarrow> fw s t = FwPending \<Longrightarrow> hp_step tries quits N s (s\<lparr>fw := (fw s)(t := FwOn)\<rparr>)"
| online: "pc s t = Boot \<Longrightarrow> fw s t = FwOn \<Longrightarrow> stat s t \<noteq> TFTF_AFFINITY_STATE_OFF \<Longrightarrow> holder s t = None \<Longrightarrow>
    hp_step tries quits N s (if stat s t = TFTF_AFFINITY_STATE_ON_PENDING
      then s\<lparr>stat := (stat s)(t := TFTF_AFFINITY_STATE_ON), pc := (pc s)(t := Session)\<rparr>
      else s\<lparr>pc := (pc s)(t := Failed)\<rparr>)"
| inc: "pc s t = Session \<Longrightarrow>
    hp_step tries quits N s (if cnt s < N then s\<lparr>cnt := cnt s + 1, pc := (pc s)(t := Counted)\<rparr>
      else s\<lparr>pc := (pc s)(t := RefFailed)\<rparr>)"
| enter: "pc s t = Counted \<Longrightarrow> entryp s t \<noteq> 0 \<Longrightarrow>
    hp_step tries quits N s (s\<lparr>pc := (pc s)(t := InTest), running := (running s)(t := entryp s t)\<rparr>)"
| return: "pc s t = InTest \<Longrightarrow>
    hp_step tries quits N s (s\<lparr>entryp := (entryp s)(t := 0), pc := (pc s)(t := Returned)\<rparr>)"
| dec: "pc s t = Returned \<Longrightarrow>
    hp_step tries quits N s (if cnt s \<noteq> 0 then s\<lparr>cnt := cnt s - 1, pc := (pc s)(t := (if cnt s = 1 then Last else Leaving))\<rparr>
      else s\<lparr>pc := (pc s)(t := RefFailed)\<rparr>)"
| off: "pc s t = Leaving \<or> quits \<and> pc s t = InTest \<Longrightarrow> holder s t = None \<Longrightarrow>
    hp_step tries quits N s (if stat s t = TFTF_AFFINITY_STATE_ON
      then s\<lparr>stat := (stat s)(t := TFTF_AFFINITY_STATE_OFF), pc := (pc s)(t := GoingDown (pc s t = InTest))\<rparr>
      else s\<lparr>pc := (pc s)(t := Failed)\<rparr>)"
| off_done: "pc s t = GoingDown q \<Longrightarrow>
    hp_step tries quits N s (s\<lparr>fw := (fw s)(t := FwOff), pc := (pc s)(t := Down)\<rparr>)"
| off_denied: "pc s t = GoingDown q \<Longrightarrow> hp_step tries quits N s (s\<lparr>pc := (pc s)(t := Denied q)\<rparr>)"
| denied_online: "pc s t = Denied q \<Longrightarrow> stat s t \<noteq> TFTF_AFFINITY_STATE_OFF \<Longrightarrow> holder s t = None \<Longrightarrow>
    hp_step tries quits N s (if stat s t = TFTF_AFFINITY_STATE_ON_PENDING
      then s\<lparr>stat := (stat s)(t := TFTF_AFFINITY_STATE_ON), pc := (pc s)(t := (if q then InTest else Panicked))\<rparr>
      else s\<lparr>pc := (pc s)(t := Failed)\<rparr>)"
| try_on: "tries \<Longrightarrow> pc s a = InTest \<Longrightarrow> t < N \<Longrightarrow> fw s t = FwOff \<Longrightarrow>
    hp_step tries quits N s (s\<lparr>fw := (fw s)(t := FwPending), pc := (pc s)(a := TryPublish t ep, t := Boot),
      asked := (asked s)(t := ep)\<rparr>)"
| try_publish: "tries \<Longrightarrow> pc s a = TryPublish t ep \<Longrightarrow> holder s t = None \<Longrightarrow>
    hp_step tries quits N s (if stat s t = TFTF_AFFINITY_STATE_OFF
      then s\<lparr>stat := (stat s)(t := TFTF_AFFINITY_STATE_ON_PENDING), pc := (pc s)(a := TryEntry t ep)\<rparr>
      else s\<lparr>pc := (pc s)(a := Failed)\<rparr>)"
| try_entry: "tries \<Longrightarrow> pc s a = TryEntry t ep \<Longrightarrow>
    hp_step tries quits N s (s\<lparr>entryp := (entryp s)(t := ep), pc := (pc s)(a := InTest)\<rparr>)"

text \<open>The lead CPU, number 0, is in its test with entry point \<open>e\<close>; the others are off.\<close>

definition hp_init :: "u64 \<Rightarrow> cpus" where
  "hp_init e = \<lparr>stat = (\<lambda>_. TFTF_AFFINITY_STATE_OFF)(0 := TFTF_AFFINITY_STATE_ON), entryp = (\<lambda>_. 0)(0 := e),
     holder = (\<lambda>_. None), cnt = 1, fw = (\<lambda>_. FwOff)(0 := FwOn), pc = (\<lambda>_. Down)(0 := InTest),
     running = (\<lambda>_. 0)(0 := e), asked = (\<lambda>_. 0)(0 := e)\<rparr>"

inductive hp_reach :: "bool \<Rightarrow> bool \<Rightarrow> nat \<Rightarrow> u64 \<Rightarrow> cpus \<Rightarrow> bool" for tries quits N e where
  init: "0 < N \<Longrightarrow> hp_reach tries quits N e (hp_init e)"
| step: "hp_reach tries quits N e s \<Longrightarrow> hp_step tries quits N s s' \<Longrightarrow> hp_reach tries quits N e s'"

text \<open>The CPU runs code of the test: in it, or in a function it called.\<close>

fun in_test :: "cpu_pc \<Rightarrow> bool" where
  "in_test InTest = True"
| "in_test (OnLocked _ _) = True"
| "in_test (OnPublish _ _) = True"
| "in_test (TryPublish _ _) = True"
| "in_test (TryEntry _ _) = True"
| "in_test _ = False"

section \<open>Invariants\<close>

text \<open>The lock a CPU holds, the CPU it is about to publish the state of, and what a place says of the CPU.\<close>

fun target :: "cpu_pc \<Rightarrow> nat option" where
  "target (OnLocked t _) = Some t"
| "target (OnPublish t _) = Some t"
| "target _ = None"

fun publ :: "cpu_pc \<Rightarrow> (nat \<times> u64) option" where
  "publ (OnPublish t ep) = Some (t, ep)"
| "publ (TryPublish t ep) = Some (t, ep)"
| "publ _ = None"

fun ok_at :: "cpu_pc \<Rightarrow> affinity \<Rightarrow> fw_state \<Rightarrow> bool" where
  "ok_at Down a f \<longleftrightarrow> a = TFTF_AFFINITY_STATE_OFF \<and> f = FwOff"
| "ok_at Boot a f \<longleftrightarrow> a \<noteq> TFTF_AFFINITY_STATE_ON \<and> f \<noteq> FwOff"
| "ok_at (GoingDown q) a f \<longleftrightarrow> a = TFTF_AFFINITY_STATE_OFF \<and> f = FwOn"
| "ok_at (Denied q) a f \<longleftrightarrow> a = TFTF_AFFINITY_STATE_OFF \<and> f = FwOn"
| "ok_at Failed a f \<longleftrightarrow> f = FwOn"
| "ok_at RefFailed a f \<longleftrightarrow> f = FwOn"
| "ok_at Panicked a f \<longleftrightarrow> f = FwOn"
| "ok_at _ a f \<longleftrightarrow> a = TFTF_AFFINITY_STATE_ON \<and> f = FwOn"

text \<open>
  What holds whatever the test does: every CPU is at a place its state allows; a CPU whose state is about to be published is
  booting, marked off, and has one publisher; a lock is held by the CPU in the section it protects, and the
  target of a CPU_ON stays off while its lock is held.
\<close>

definition hp_inv :: "cpus \<Rightarrow> bool" where
  "hp_inv s \<longleftrightarrow> (\<forall>t. ok_at (pc s t) (stat s t) (fw s t))
     \<and> (\<forall>a t ep. publ (pc s a) = Some (t, ep) \<longrightarrow> pc s t = Boot \<and> stat s t = TFTF_AFFINITY_STATE_OFF \<and> asked s t = ep)
     \<and> (\<forall>a b t e e'. publ (pc s a) = Some (t, e) \<and> publ (pc s b) = Some (t, e') \<longrightarrow> a = b)
     \<and> (\<forall>a t. target (pc s a) = Some t \<longrightarrow> holder s t = Some a \<and> stat s t = TFTF_AFFINITY_STATE_OFF)
     \<and> (\<forall>t. pc s t = Boot \<and> stat s t = TFTF_AFFINITY_STATE_OFF \<longrightarrow> (\<exists>a ep. publ (pc s a) = Some (t, ep)))"

lemma hp_invI:
  assumes "\<And>t. ok_at (pc s t) (stat s t) (fw s t)"
    and "\<And>a t ep. publ (pc s a) = Some (t, ep) \<Longrightarrow> pc s t = Boot \<and> stat s t = TFTF_AFFINITY_STATE_OFF \<and> asked s t = ep"
    and "\<And>a b t e e'. publ (pc s a) = Some (t, e) \<Longrightarrow> publ (pc s b) = Some (t, e') \<Longrightarrow> a = b"
    and "\<And>a t. target (pc s a) = Some t \<Longrightarrow> holder s t = Some a \<and> stat s t = TFTF_AFFINITY_STATE_OFF"
    and "\<And>t. pc s t = Boot \<Longrightarrow> stat s t = TFTF_AFFINITY_STATE_OFF \<Longrightarrow> \<exists>a ep. publ (pc s a) = Some (t, ep)"
  shows "hp_inv s"
  using assms unfolding hp_inv_def by blast

lemma hp_inv_at:
  assumes "hp_inv s"
  shows "ok_at (pc s t) (stat s t) (fw s t)"
    and "publ (pc s a) = Some (t, ep) \<Longrightarrow> pc s t = Boot \<and> stat s t = TFTF_AFFINITY_STATE_OFF \<and> asked s t = ep"
    and "publ (pc s a) = Some (t, e) \<Longrightarrow> publ (pc s b) = Some (t, e') \<Longrightarrow> a = b"
    and "target (pc s a) = Some t \<Longrightarrow> holder s t = Some a \<and> stat s t = TFTF_AFFINITY_STATE_OFF"
    and "pc s t = Boot \<Longrightarrow> stat s t = TFTF_AFFINITY_STATE_OFF \<Longrightarrow> \<exists>a ep. publ (pc s a) = Some (t, ep)"
  using assms unfolding hp_inv_def by blast+

lemma hp_inv_init: "hp_inv (hp_init e)"
  by (rule hp_invI) (auto simp: hp_init_def split: if_splits)

text \<open>A CPU moves from a place where it neither holds a lock nor publishes to another such place.\<close>

lemma hp_inv_move:
  assumes inv: "hp_inv s" and "publ (pc s t) = None" "publ p = None" "target p = None" "pc s t \<noteq> Boot" "p \<noteq> Boot"
    and "pc s' = (pc s)(t := p)" "holder s' = holder s" "asked s' = asked s"
    and st: "\<And>u. u \<noteq> t \<Longrightarrow> stat s' u = stat s u \<and> fw s' u = fw s u"
    and "ok_at p (stat s' t) (fw s' t)"
    and "stat s t = TFTF_AFFINITY_STATE_OFF \<Longrightarrow> holder s t \<noteq> None \<Longrightarrow> stat s' t = TFTF_AFFINITY_STATE_OFF"
  shows "hp_inv s'"
proof (rule hp_invI)
  note i = hp_inv_at [OF inv]
  show "ok_at (pc s' u) (stat s' u) (fw s' u)" for u using i(1) [of u] assms by (cases "u = t") simp_all
  have p: "publ (pc s' a) = publ (pc s a)" for a using assms by simp
  show "pc s' u = Boot \<and> stat s' u = TFTF_AFFINITY_STATE_OFF \<and> asked s' u = ep" if "publ (pc s' a) = Some (u, ep)" for a u ep
    using i(2) that assms unfolding p by (cases "u = t") auto
  show "a = b" if "publ (pc s' a) = Some (u, e)" "publ (pc s' b) = Some (u, e')" for a b u e e'
    using i(3) that unfolding p by blast
  show "holder s' u = Some a \<and> stat s' u = TFTF_AFFINITY_STATE_OFF" if "target (pc s' a) = Some u" for a u
    using i(4) [of a u] that assms by (cases "a = t"; cases "u = t") auto
  show "\<exists>a ep. publ (pc s' a) = Some (u, ep)" if "pc s' u = Boot" "stat s' u = TFTF_AFFINITY_STATE_OFF" for u
    using i(5) [of u] that assms unfolding p by (cases "u = t") auto
qed

lemma fw_off_down:
  assumes "hp_inv s" "fw s t = FwOff"
  shows "pc s t = Down" "stat s t = TFTF_AFFINITY_STATE_OFF"
proof -
  show "pc s t = Down" using hp_inv_at(1) [OF assms(1), of t] assms(2) by (cases "pc s t") auto
  then show "stat s t = TFTF_AFFINITY_STATE_OFF" using hp_inv_at(1) [OF assms(1), of t] by simp
qed

lemma on_lock_inv:
  assumes inv: "hp_inv s" and c: "pc s a = InTest" "holder s t = None" "stat s t = TFTF_AFFINITY_STATE_OFF"
  shows "hp_inv (s\<lparr>holder := (holder s)(t := Some a), pc := (pc s)(a := OnLocked t ep)\<rparr>)" (is "hp_inv ?s")
proof (rule hp_invI)
  note i = hp_inv_at [OF inv]
  show "ok_at (pc ?s u) (stat ?s u) (fw ?s u)" for u using i(1) [of u] c by (cases "u = a") simp_all
  have p: "publ (pc ?s b) = publ (pc s b)" for b using c by simp
  show "pc ?s u = Boot \<and> stat ?s u = TFTF_AFFINITY_STATE_OFF \<and> asked ?s u = ep" if "publ (pc ?s b) = Some (u, ep)" for b u ep
    using i(2) [OF that [unfolded p]] c by auto
  show "b = d" if "publ (pc ?s b) = Some (u, e)" "publ (pc ?s d) = Some (u, e')" for b d u e e'
    using i(3) that unfolding p by blast
  show "holder ?s u = Some b \<and> stat ?s u = TFTF_AFFINITY_STATE_OFF" if "target (pc ?s b) = Some u" for b u
    using i(4) [of b u] that c by (cases "b = a") auto
  show "\<exists>b ep. publ (pc ?s b) = Some (u, ep)" if "pc ?s u = Boot" "stat ?s u = TFTF_AFFINITY_STATE_OFF" for u
    using i(5) [of u] that unfolding p by (cases "u = a") auto
qed

lemma on_error_inv:
  assumes inv: "hp_inv s" and c: "pc s a = OnLocked t ep"
  shows "hp_inv (s\<lparr>holder := (holder s)(t := None), pc := (pc s)(a := InTest)\<rparr>)" (is "hp_inv ?s")
proof (rule hp_invI)
  note i = hp_inv_at [OF inv]
  have h: "holder s t = Some a" using i(4) [of a t] c by simp
  show "ok_at (pc ?s u) (stat ?s u) (fw ?s u)" for u using i(1) [of u] c by (cases "u = a") simp_all
  have p: "publ (pc ?s b) = publ (pc s b)" for b using c by simp
  show "pc ?s u = Boot \<and> stat ?s u = TFTF_AFFINITY_STATE_OFF \<and> asked ?s u = ep" if "publ (pc ?s b) = Some (u, ep)" for b u ep
    using i(2) [OF that [unfolded p]] c by auto
  show "b = d" if "publ (pc ?s b) = Some (u, e)" "publ (pc ?s d) = Some (u, e')" for b d u e e'
    using i(3) that unfolding p by blast
  show "holder ?s u = Some b \<and> stat ?s u = TFTF_AFFINITY_STATE_OFF" if "target (pc ?s b) = Some u" for b u
    using i(4) [of b u] that h by (cases "b = a") auto
  show "\<exists>b ep. publ (pc ?s b) = Some (u, ep)" if "pc ?s u = Boot" "stat ?s u = TFTF_AFFINITY_STATE_OFF" for u
    using i(5) [of u] that unfolding p by (cases "u = a") auto
qed

text \<open>A successful CPU_ON, of either function.\<close>

lemma power_on_inv:
  assumes inv: "hp_inv s" and c: "in_test (pc s a)" "publ (pc s a) = None" "fw s t = FwOff"
    and p: "publ p = Some (t, ep)" "\<And>u. target p = Some u \<Longrightarrow> target (pc s a) = Some u" "in_test p"
  shows "hp_inv (s\<lparr>fw := (fw s)(t := FwPending), pc := (pc s)(a := p, t := Boot), asked := (asked s)(t := ep)\<rparr>)" (is "hp_inv ?s")
proof (rule hp_invI)
  note i = hp_inv_at [OF inv]
  note d = fw_off_down [OF inv c(3)]
  have at: "a \<noteq> t" using d(1) c(1) by auto
  have okp: "ok_at p x y \<longleftrightarrow> x = TFTF_AFFINITY_STATE_ON \<and> y = FwOn" for x y using p(3) by (cases p) simp_all
  have oka: "ok_at (pc s a) x y \<longleftrightarrow> x = TFTF_AFFINITY_STATE_ON \<and> y = FwOn" for x y using c(1) by (cases "pc s a") simp_all
  show "ok_at (pc ?s u) (stat ?s u) (fw ?s u)" for u
    using i(1) [of u] d okp oka at by (cases "u = a"; cases "u = t") simp_all
  have q: "publ (pc ?s b) = (if b = a then Some (t, ep) else publ (pc s b))" for b using at d p(1) by auto
  have old: "u \<noteq> t" if "publ (pc s b) = Some (u, e)" for b u e using i(2) [OF that] d by auto
  show "pc ?s u = Boot \<and> stat ?s u = TFTF_AFFINITY_STATE_OFF \<and> asked ?s u = x" if "publ (pc ?s b) = Some (u, x)" for b u x
  proof (cases "b = a")
    case True
    then show ?thesis using that d unfolding q by auto
  next
    case False
    then have b: "publ (pc s b) = Some (u, x)" using that unfolding q by simp
    then show ?thesis using i(2) [OF b] old [OF b] c(1) by auto
  qed
  show "b = b'" if "publ (pc ?s b) = Some (u, e)" "publ (pc ?s b') = Some (u, e')" for b b' u e e'
    using i(3) [of b u e b' e'] old that unfolding q by (auto split: if_splits)
  show "holder ?s u = Some b \<and> stat ?s u = TFTF_AFFINITY_STATE_OFF" if "target (pc ?s b) = Some u" for b u
    using i(4) [of b u] that p(2) [of u] by (cases "b = t"; cases "b = a") auto
  show "\<exists>b e. publ (pc ?s b) = Some (u, e)" if "pc ?s u = Boot" "stat ?s u = TFTF_AFFINITY_STATE_OFF" for u
  proof (cases "u = t")
    case True
    then show ?thesis using q [of a] by (intro exI [of _ a] exI [of _ ep]) simp
  next
    case False
    then have "pc s u = Boot" using that(1) p(3) by (cases "u = a") auto
    moreover have "stat s u = TFTF_AFFINITY_STATE_OFF" using that(2) by simp
    ultimately obtain b e where b: "publ (pc s b) = Some (u, e)" using i(5) by blast
    then have "b \<noteq> a" using c(2) by auto
    then show ?thesis using b unfolding q by (intro exI [of _ b]) simp
  qed
qed

text \<open>Publishing the state, by either function.\<close>

lemma publish_inv:
  assumes inv: "hp_inv s" and c: "publ (pc s a) = Some (t, ep)" and p: "publ p = None" "target p = None" "in_test p"
    and l: "\<And>b. target (pc s b) = Some t \<Longrightarrow> b = a"
    and s': "pc s' = (pc s)(a := p)" "stat s' = (stat s)(t := TFTF_AFFINITY_STATE_ON_PENDING)" "fw s' = fw s" "asked s' = asked s"
    and h: "\<And>u. u \<noteq> t \<Longrightarrow> holder s' u = holder s u"
  shows "hp_inv s'"
proof (rule hp_invI)
  note i = hp_inv_at [OF inv]
  note d = i(2) [OF c]
  have at: "a \<noteq> t" using d c by auto
  have okp: "ok_at p x y \<longleftrightarrow> x = TFTF_AFFINITY_STATE_ON \<and> y = FwOn" for x y using p(3) by (cases p) simp_all
  have oka: "ok_at (pc s a) x y \<longleftrightarrow> x = TFTF_AFFINITY_STATE_ON \<and> y = FwOn" for x y using c by (cases "pc s a") simp_all
  show "ok_at (pc s' u) (stat s' u) (fw s' u)" for u
    using i(1) [of u] d okp oka at s' by (cases "u = a"; cases "u = t") simp_all
  have q: "publ (pc s' b) = (if b = a then None else publ (pc s b))" for b using s'(1) p(1) by simp
  have old: "u \<noteq> t" if "publ (pc s b) = Some (u, e)" "b \<noteq> a" for b u e using i(3) [of b u e a ep] c that by auto
  show "pc s' u = Boot \<and> stat s' u = TFTF_AFFINITY_STATE_OFF \<and> asked s' u = x" if "publ (pc s' b) = Some (u, x)" for b u x
  proof -
    have b: "publ (pc s b) = Some (u, x)" "b \<noteq> a" using that unfolding q by (auto split: if_splits)
    have "u \<noteq> a" using i(2) [OF b(1)] c by auto
    then show ?thesis using i(2) [OF b(1)] old [OF b] s' by simp
  qed
  show "b = b'" if "publ (pc s' b) = Some (u, e)" "publ (pc s' b') = Some (u, e')" for b b' u e e'
    using i(3) [of b u e b' e'] that unfolding q by (auto split: if_splits)
  show "holder s' u = Some b \<and> stat s' u = TFTF_AFFINITY_STATE_OFF" if "target (pc s' b) = Some u" for b u
  proof -
    have b: "target (pc s b) = Some u" "b \<noteq> a" using that s'(1) p(2) by (auto split: if_splits)
    then have "u \<noteq> t" using l by auto
    then show ?thesis using i(4) [OF b(1)] h s'(2) by simp
  qed
  show "\<exists>b e. publ (pc s' b) = Some (u, e)" if "pc s' u = Boot" "stat s' u = TFTF_AFFINITY_STATE_OFF" for u
  proof -
    have "pc s u = Boot" "u \<noteq> t" using that s' p(3) by (auto split: if_splits)
    moreover from this have "stat s u = TFTF_AFFINITY_STATE_OFF" using that(2) s'(2) by simp
    ultimately obtain b e where b: "publ (pc s b) = Some (u, e)" using i(5) by blast
    then have "b \<noteq> a" using c \<open>u \<noteq> t\<close> by auto
    then show ?thesis using b unfolding q by (intro exI [of _ b]) simp
  qed
qed

lemma hp_inv_same:
  assumes "hp_inv s" "pc s' = pc s" "stat s' = stat s" "holder s' = holder s" "asked s' = asked s"
    and "\<And>u. ok_at (pc s u) (stat s u) (fw s' u)"
  shows "hp_inv s'"
  using assms unfolding hp_inv_def by simp

lemma online_inv:
  assumes inv: "hp_inv s" and c: "pc s t = Boot" "fw s t = FwOn" "stat s t = TFTF_AFFINITY_STATE_ON_PENDING"
  shows "hp_inv (s\<lparr>stat := (stat s)(t := TFTF_AFFINITY_STATE_ON), pc := (pc s)(t := Session)\<rparr>)" (is "hp_inv ?s")
proof (rule hp_invI)
  note i = hp_inv_at [OF inv]
  show "ok_at (pc ?s u) (stat ?s u) (fw ?s u)" for u using i(1) [of u] c by (cases "u = t") simp_all
  have p: "publ (pc ?s b) = publ (pc s b)" for b using c by simp
  have old: "u \<noteq> t" if "publ (pc s b) = Some (u, e)" for b u e using i(2) [OF that] c by auto
  show "pc ?s u = Boot \<and> stat ?s u = TFTF_AFFINITY_STATE_OFF \<and> asked ?s u = ep" if "publ (pc ?s b) = Some (u, ep)" for b u ep
    using i(2) [OF that [unfolded p]] old [OF that [unfolded p]] by simp
  show "b = d" if "publ (pc ?s b) = Some (u, e)" "publ (pc ?s d) = Some (u, e')" for b d u e e'
    using i(3) that unfolding p by blast
  show "holder ?s u = Some b \<and> stat ?s u = TFTF_AFFINITY_STATE_OFF" if "target (pc ?s b) = Some u" for b u
    using i(4) [of b u] that c by (cases "b = t"; cases "u = t") auto
  show "\<exists>b ep. publ (pc ?s b) = Some (u, ep)" if "pc ?s u = Boot" "stat ?s u = TFTF_AFFINITY_STATE_OFF" for u
    using i(5) [of u] that unfolding p by (cases "u = t") auto
qed

lemma denied_off: "hp_inv s \<Longrightarrow> pc s t = Denied q \<Longrightarrow> stat s t = TFTF_AFFINITY_STATE_OFF"
  using hp_inv_at(1) [of s t] by simp

lemma in_test_on: "hp_inv s \<Longrightarrow> in_test (pc s t) \<Longrightarrow> stat s t = TFTF_AFFINITY_STATE_ON \<and> fw s t = FwOn"
  using hp_inv_at(1) [of s t] by (cases "pc s t") simp_all

lemma hp_step_inv:
  assumes "hp_step tries quits N s s'" and inv: "hp_inv s"
  shows "hp_inv s'"
  using assms(1)
proof cases
  case (on_lock a t ep)
  then show ?thesis using on_lock_inv [OF inv] by simp
next
  case (on_pending a t ep)
  then show ?thesis using hp_inv_at(1) [OF inv, of a] by (intro hp_inv_move [OF inv, of a Failed]) simp_all
next
  case (on_error a t ep)
  then show ?thesis using on_error_inv [OF inv] by simp
next
  case (on_success a t ep)
  then show ?thesis using power_on_inv [OF inv, of a t "OnPublish t ep" ep] by simp
next
  case (on_publish a t ep)
  have "holder s t = Some a" using hp_inv_at(4) [OF inv, of a t] on_publish by simp
  then have "b = a" if "target (pc s b) = Some t" for b using hp_inv_at(4) [OF inv that] by simp
  then show ?thesis using on_publish by (intro publish_inv [OF inv, of a t ep InTest]) simp_all
next
  case (boot t)
  then show ?thesis using hp_inv_at(1) [OF inv] by (intro hp_inv_same [OF inv]) (simp_all, metis ok_at.simps(2))
next
  case (online t)
  then have "stat s t = TFTF_AFFINITY_STATE_ON_PENDING" using hp_inv_at(1) [OF inv, of t] by (cases "stat s t") simp_all
  then show ?thesis using online online_inv [OF inv] by simp
next
  case (inc t)
  then show ?thesis using hp_inv_at(1) [OF inv, of t]
    by (intro hp_inv_move [OF inv, of t "if cnt s < N then Counted else RefFailed"]) (simp_all split: if_splits)
next
  case (enter t)
  then show ?thesis using hp_inv_at(1) [OF inv, of t] by (intro hp_inv_move [OF inv, of t InTest]) simp_all
next
  case (return t)
  then show ?thesis using hp_inv_at(1) [OF inv, of t] by (intro hp_inv_move [OF inv, of t Returned]) simp_all
next
  case (dec t)
  then show ?thesis using hp_inv_at(1) [OF inv, of t]
    by (intro hp_inv_move [OF inv, of t "if cnt s = 0 then RefFailed else if cnt s = 1 then Last else Leaving"]) simp_all
next
  case (off t)
  then show ?thesis using hp_inv_at(1) [OF inv, of t]
    by (intro hp_inv_move [OF inv, of t "GoingDown (pc s t = InTest)"]) auto
next
  case (off_done t q)
  then show ?thesis using hp_inv_at(1) [OF inv, of t] by (intro hp_inv_move [OF inv, of t Down]) simp_all
next
  case (off_denied t q)
  then show ?thesis using hp_inv_at(1) [OF inv, of t] by (intro hp_inv_move [OF inv, of t "Denied q"]) simp_all
next
  case (denied_online t q)
  then show ?thesis using denied_off [OF inv] by simp
next
  case (try_on a t ep)
  then show ?thesis using power_on_inv [OF inv, of a t "TryPublish t ep" ep] by simp
next
  case (try_publish a t ep)
  have st: "stat s t = TFTF_AFFINITY_STATE_OFF" using hp_inv_at(2) [OF inv, of a t ep] try_publish by simp
  have "b = a" if "target (pc s b) = Some t" for b using hp_inv_at(4) [OF inv that] try_publish by simp
  then show ?thesis using try_publish st by (intro publish_inv [OF inv, of a t ep "TryEntry t ep"]) simp_all
next
  case (try_entry a t ep)
  then show ?thesis using hp_inv_at(1) [OF inv, of a] by (intro hp_inv_move [OF inv, of a InTest]) simp_all
qed

lemma hp_reach_inv: "hp_reach tries quits N e s \<Longrightarrow> hp_inv s"
  by (induct rule: hp_reach.induct) (simp_all add: hp_inv_init hp_step_inv)

section \<open>Entry points\<close>

text \<open>Without \<open>tftf_try_cpu_on\<close> the entry point is there before the CPU can see that it may go on.\<close>

definition entry_at :: "cpus \<Rightarrow> nat \<Rightarrow> bool" where
  "entry_at s t \<longleftrightarrow> (pc s t = Boot \<and> stat s t = TFTF_AFFINITY_STATE_ON_PENDING \<or> pc s t = Session \<or> pc s t = Counted
       \<longrightarrow> entryp s t = asked s t)
     \<and> (in_test (pc s t) \<longrightarrow> running s t = asked s t)
     \<and> pc s t \<noteq> Failed \<and> (\<forall>u ep. pc s t \<noteq> TryPublish u ep \<and> pc s t \<noteq> TryEntry u ep)"

lemma entry_at_frame:
  assumes "entry_at s u" "pc s' u = pc s u" "stat s' u = stat s u" "entryp s' u = entryp s u"
    "running s' u = running s u" "asked s' u = asked s u"
  shows "entry_at s' u"
  using assms by (simp add: entry_at_def)

lemma no_pending:
  assumes inv: "hp_inv s" and ent: "\<And>t. entry_at s t" and c: "pc s a = OnLocked t ep"
  shows "fw s t \<noteq> FwPending"
proof
  assume f: "fw s t = FwPending"
  note i = hp_inv_at [OF inv]
  have st: "stat s t = TFTF_AFFINITY_STATE_OFF" "holder s t = Some a" using i(4) [of a t] c by simp_all
  have "pc s t = Boot" using i(1) [of t] f by (cases "pc s t") auto
  then obtain b e where b: "publ (pc s b) = Some (t, e)" using i(5) st(1) by blast
  then have "pc s b = OnPublish t e" using ent [of b] by (cases "pc s b") (auto simp: entry_at_def)
  then show False using i(4) [of b t] st(2) c by simp
qed

lemma entry_step:
  assumes "hp_step False quits N s s'" and inv: "hp_inv s" and ent: "\<And>t. entry_at s t"
  shows "entry_at s' u"
  using assms(1)
proof cases
  case (on_lock a t ep)
  then show ?thesis using ent [of u] by (cases "u = a") (auto simp: entry_at_def)
next
  case (on_pending a t ep)
  then show ?thesis using no_pending [OF inv ent] by simp
next
  case (on_error a t ep)
  then show ?thesis using ent [of u] by (cases "u = a") (auto simp: entry_at_def)
next
  case (on_success a t ep)
  note d = fw_off_down [OF inv on_success(3)]
  show ?thesis using on_success d ent [of u] by (cases "u = a"; cases "u = t") (auto simp: entry_at_def)
next
  case (on_publish a t ep)
  have "pc s t = Boot" "asked s t = ep" using hp_inv_at(2) [OF inv, of a t ep] on_publish by simp_all
  then show ?thesis using on_publish ent [of u] by (cases "u = a"; cases "u = t") (auto simp: entry_at_def)
next
  case (boot t)
  then show ?thesis using ent [of u] by (simp add: entry_at_def)
next
  case (online t)
  then have "stat s t = TFTF_AFFINITY_STATE_ON_PENDING" using hp_inv_at(1) [OF inv, of t] by (cases "stat s t") simp_all
  then show ?thesis using online ent [of u] by (cases "u = t") (auto simp: entry_at_def)
next
  case (inc t)
  then show ?thesis using ent [of u] by (cases "u = t") (auto simp: entry_at_def)
next
  case (enter t)
  then show ?thesis using ent [of u] by (cases "u = t") (auto simp: entry_at_def)
next
  case (return t)
  then show ?thesis using ent [of u] by (cases "u = t") (auto simp: entry_at_def)
next
  case (dec t)
  then show ?thesis using ent [of u] by (cases "u = t") (auto simp: entry_at_def)
next
  case (off t)
  then have "stat s t = TFTF_AFFINITY_STATE_ON" using hp_inv_at(1) [OF inv, of t] by auto
  then show ?thesis using off ent [of u] by (cases "u = t") (auto simp: entry_at_def)
next
  case (off_done t q)
  then show ?thesis using ent [of u] by (cases "u = t") (auto simp: entry_at_def)
next
  case (off_denied t q)
  then show ?thesis using ent [of u] by (cases "u = t") (auto simp: entry_at_def)
next
  case (denied_online t q)
  then show ?thesis using denied_off [OF inv] by simp
qed simp_all

lemma entry_reach: "hp_reach False quits N e s \<Longrightarrow> entry_at s u"
proof (induct arbitrary: u rule: hp_reach.induct)
  case init
  then show ?case by (simp add: entry_at_def hp_init_def)
next
  case (step s s')
  then show ?case by (intro entry_step [OF step(3) hp_reach_inv [OF step(1)]])
qed

section \<open>The reference count\<close>

text \<open>
  The CPUs between \<open>tftf_inc_ref_cnt\<close> and \<open>tftf_dec_ref_cnt\<close>. If no test calls \<open>tftf_cpu_off\<close>, the count is
  their number; CPUs stopped by an assertion may be among them or not.
\<close>

fun counted :: "cpu_pc \<Rightarrow> bool" where
  "counted Counted = True"
| "counted Returned = True"
| "counted p = in_test p"

definition number :: "nat \<Rightarrow> (cpu_pc \<Rightarrow> bool) \<Rightarrow> (nat \<Rightarrow> cpu_pc) \<Rightarrow> nat" where
  "number N P f = card {t. t < N \<and> P (f t)}"

lemma number_upd:
  assumes "a < N"
  shows "number N P (f(a := p)) + (if P (f a) then 1 else 0) = number N P f + (if P p then 1 else 0)"
proof -
  let ?R = "{t. t < N \<and> t \<noteq> a \<and> P (f t)}"
  have e: "{t. t < N \<and> P (g t)} = (if P (g a) then insert a ?R else ?R)" if "\<And>t. t \<noteq> a \<Longrightarrow> g t = f t" for g
    using assms that by (auto, metis+)
  have "card {t. t < N \<and> P (g t)} = card ?R + (if P (g a) then 1 else 0)" if "\<And>t. t \<noteq> a \<Longrightarrow> g t = f t" for g
  proof -
    have "card (if P (g a) then insert a ?R else ?R) = card ?R + (if P (g a) then 1 else 0)" by simp
    moreover have "{t. t < N \<and> P (g t)} = (if P (g a) then insert a ?R else ?R)" by (rule e) (rule that)
    ultimately show ?thesis by (simp only:)
  qed
  from this [of f] this [of "f(a := p)"] show ?thesis by (simp add: number_def)
qed

lemma number_le:
  assumes "a < N" "\<not> P (f a)"
  shows "number N P f < N"
proof -
  have "{t. t < N \<and> P (f t)} \<subseteq> {..<N} - {a}" using assms by auto
  then have "number N P f \<le> card ({..<N} - {a})" unfolding number_def by (intro card_mono) simp_all
  then show ?thesis using assms(1) by simp
qed

lemma number_pos:
  assumes "a < N" "P (f a)"
  shows "0 < number N P f"
proof -
  have "a \<in> {t. t < N \<and> P (f t)}" using assms by simp
  then show ?thesis unfolding number_def by (auto simp: card_gt_0_iff)
qed

definition maybe :: "cpu_pc \<Rightarrow> bool" where
  "maybe p \<longleftrightarrow> counted p \<or> p = Failed"

definition cnt_inv :: "nat \<Rightarrow> cpus \<Rightarrow> bool" where
  "cnt_inv N s \<longleftrightarrow> number N counted (pc s) \<le> cnt s \<and> cnt s \<le> number N maybe (pc s)
     \<and> (\<forall>t. pc s t \<noteq> Down \<longrightarrow> t < N) \<and> (\<forall>t. pc s t \<noteq> RefFailed) \<and> (\<forall>a t ep. pc s a = OnLocked t ep \<longrightarrow> t < N)"

text \<open>A CPU moves without being counted or discounted.\<close>

lemma cnt_inv_move:
  assumes "cnt_inv N s" "a < N" "counted p \<longrightarrow> counted (pc s a)" "maybe (pc s a) \<longrightarrow> maybe p" "p \<noteq> RefFailed"
    and "pc s' = (pc s)(a := p)" "cnt s' = cnt s" "\<And>t ep. p = OnLocked t ep \<Longrightarrow> t < N"
  shows "cnt_inv N s'"
proof -
  have "number N counted (pc s') \<le> number N counted (pc s)" "number N maybe (pc s) \<le> number N maybe (pc s')"
    using number_upd [OF assms(2), of counted "pc s" p] number_upd [OF assms(2), of maybe "pc s" p] assms(3,4)
    unfolding assms(6) by (auto split: if_splits)
  then show ?thesis using assms(1,2,5-8) unfolding cnt_inv_def by (auto split: if_splits)
qed

lemma cnt_step:
  assumes "hp_step tries False N s s'" and inv: "hp_inv s" and c: "cnt_inv N s"
  shows "cnt_inv N s'"
proof -
  have lt: "t < N" if "pc s t \<noteq> Down" for t using c that by (simp add: cnt_inv_def)
  show ?thesis
    using assms(1)
  proof cases
    case (on_lock a t ep)
    then show ?thesis using lt [of a] by (intro cnt_inv_move [OF c, of a "OnLocked t ep"]) (auto simp: maybe_def)
  next
    case (on_pending a t ep)
    then show ?thesis using lt [of a] by (intro cnt_inv_move [OF c, of a Failed]) (auto simp: maybe_def)
  next
    case (on_error a t ep)
    then show ?thesis using lt [of a] by (intro cnt_inv_move [OF c, of a InTest]) (auto simp: maybe_def)
  next
    case (on_success a t ep)
    note d = fw_off_down [OF inv on_success(3)]
    have "t < N" using c on_success(2) unfolding cnt_inv_def by blast
    moreover have "a \<noteq> t" using on_success(2) d by auto
    ultimately have t: "t < N" "a \<noteq> t" by simp_all
    have 1: "cnt_inv N (s\<lparr>pc := (pc s)(a := OnPublish t ep)\<rparr>)"
      using lt [of a] on_success by (intro cnt_inv_move [OF c, of a "OnPublish t ep"]) (auto simp: maybe_def)
    show ?thesis using on_success d t by (intro cnt_inv_move [OF 1, of t Boot]) (auto simp: maybe_def)
  next
    case (on_publish a t ep)
    then show ?thesis using lt [of a] by (intro cnt_inv_move [OF c, of a InTest]) (auto simp: maybe_def)
  next
    case (boot t)
    then show ?thesis using c by (simp add: cnt_inv_def)
  next
    case (online t)
    then have "stat s t = TFTF_AFFINITY_STATE_ON_PENDING" using hp_inv_at(1) [OF inv, of t] by (cases "stat s t") simp_all
    then show ?thesis using online lt [of t] by (intro cnt_inv_move [OF c, of t Session]) (auto simp: maybe_def)
  next
    case (inc t)
    have "number N maybe (pc s) < N" using inc lt [of t] by (intro number_le [of t]) (simp_all add: maybe_def)
    then have n: "cnt s < N" using c by (simp add: cnt_inv_def)
    show ?thesis using inc n lt [of t] c number_upd [of t N counted "pc s" Counted] number_upd [of t N maybe "pc s" Counted]
      by (auto simp: cnt_inv_def maybe_def split: if_splits)
  next
    case (enter t)
    then show ?thesis using lt [of t] by (intro cnt_inv_move [OF c, of t InTest]) (auto simp: maybe_def)
  next
    case (return t)
    then show ?thesis using lt [of t] by (intro cnt_inv_move [OF c, of t Returned]) (auto simp: maybe_def)
  next
    case (dec t)
    have "0 < number N counted (pc s)" using dec lt [of t] by (intro number_pos [of t]) simp_all
    then have n: "cnt s \<noteq> 0" using c by (simp add: cnt_inv_def)
    let ?p = "if cnt s = 1 then Last else Leaving"
    show ?thesis using dec n lt [of t] c number_upd [of t N counted "pc s" ?p] number_upd [of t N maybe "pc s" ?p]
      by (auto simp: cnt_inv_def maybe_def split: if_splits)
  next
    case (off t)
    then have "stat s t = TFTF_AFFINITY_STATE_ON" using hp_inv_at(1) [OF inv, of t] by auto
    then show ?thesis using off lt [of t] by (intro cnt_inv_move [OF c, of t "GoingDown (pc s t = InTest)"]) (auto simp: maybe_def)
  next
    case (off_done t q)
    then show ?thesis using lt [of t] by (intro cnt_inv_move [OF c, of t Down]) (auto simp: maybe_def)
  next
    case (off_denied t q)
    then show ?thesis using lt [of t] by (intro cnt_inv_move [OF c, of t "Denied q"]) (auto simp: maybe_def)
  next
    case (denied_online t q)
    then show ?thesis using denied_off [OF inv] by simp
  next
    case (try_on a t ep)
    note d = fw_off_down [OF inv try_on(5)]
    have 1: "cnt_inv N (s\<lparr>pc := (pc s)(a := TryPublish t ep)\<rparr>)"
      using lt [of a] try_on by (intro cnt_inv_move [OF c, of a "TryPublish t ep"]) (auto simp: maybe_def)
    show ?thesis using try_on d by (intro cnt_inv_move [OF 1, of t Boot]) (auto simp: maybe_def)
  next
    case (try_publish a t ep)
    have st: "stat s t = TFTF_AFFINITY_STATE_OFF" using hp_inv_at(2) [OF inv, of a t ep] try_publish by simp
    then show ?thesis using try_publish lt [of a] by (intro cnt_inv_move [OF c, of a "TryEntry t ep"]) (auto simp: maybe_def)
  next
    case (try_entry a t ep)
    then show ?thesis using lt [of a] by (intro cnt_inv_move [OF c, of a InTest]) (auto simp: maybe_def)
  qed
qed

lemma cnt_inv_init: "0 < N \<Longrightarrow> cnt_inv N (hp_init e)"
proof -
  assume "0 < N"
  then have "{t. t < N \<and> counted (pc (hp_init e) t)} = {0}" "{t. t < N \<and> maybe (pc (hp_init e) t)} = {0}"
    by (auto simp: hp_init_def maybe_def split: if_splits)
  then show ?thesis using \<open>0 < N\<close> by (simp add: cnt_inv_def number_def) (simp add: hp_init_def)
qed

lemma cnt_reach: "hp_reach tries False N e s \<Longrightarrow> cnt_inv N s"
proof (induct rule: hp_reach.induct)
  case init
  then show ?case by (rule cnt_inv_init)
next
  case (step s s')
  then show ?case by (intro cnt_step [OF step(3) hp_reach_inv [OF step(1)] step(2)])
qed

section \<open>Runs\<close>

inductive hp_steps :: "bool \<Rightarrow> bool \<Rightarrow> nat \<Rightarrow> cpus \<Rightarrow> cpus \<Rightarrow> bool" for tries quits N where
  refl: "hp_steps tries quits N s s"
| step: "hp_step tries quits N s s' \<Longrightarrow> hp_steps tries quits N s' s'' \<Longrightarrow> hp_steps tries quits N s s''"

lemma reach_steps: "hp_steps tries quits N s s' \<Longrightarrow> hp_reach tries quits N e s \<Longrightarrow> hp_reach tries quits N e s'"
  by (induct rule: hp_steps.induct) (simp_all add: hp_reach.step)

lemma denied_step:
  assumes "hp_step tries quits N s s'" and inv: "hp_inv s" and d: "pc s t = Denied q"
  shows "pc s' t = Denied q"
  using assms(1)
proof cases
  case (on_success a u ep)
  then show ?thesis using d fw_off_down [OF inv, of u] by auto
next
  case (try_on a u ep)
  then show ?thesis using d fw_off_down [OF inv, of u] by auto
next
  case (denied_online u)
  then show ?thesis using denied_off [OF inv] by simp
qed (use d in auto)

lemma denied_steps:
  "hp_steps tries quits N s s' \<Longrightarrow> hp_inv s \<Longrightarrow> pc s t = Denied q \<Longrightarrow> hp_inv s' \<and> pc s' t = Denied q"
  by (induct rule: hp_steps.induct) (simp_all add: hp_step_inv denied_step)

text \<open>CPU 0 powers on CPU 1 with entry point \<open>f\<close>, which comes online and is about to be counted.\<close>

lemma run_boot:
  assumes "pc s 0 = InTest" "pc s 1 = Down" "holder s = (\<lambda>_. None)" "stat s 1 = TFTF_AFFINITY_STATE_OFF"
    and "fw s 1 = FwOff" "1 < N"
  shows "\<exists>s'. hp_steps tries quits N s s' \<and> pc s' 0 = InTest \<and> pc s' 1 = Session \<and> holder s' = (\<lambda>_. None)
    \<and> stat s' 1 = TFTF_AFFINITY_STATE_ON \<and> fw s' 1 = FwOn \<and> entryp s' 1 = f \<and> cnt s' = cnt s \<and> (\<forall>t > 1. pc s' t = pc s t)"
proof -
  let ?s1 = "s\<lparr>holder := (holder s)(1 := Some 0), pc := (pc s)(0 := OnLocked 1 f)\<rparr>"
  let ?s2 = "?s1\<lparr>fw := (fw ?s1)(1 := FwPending), pc := (pc ?s1)(0 := OnPublish 1 f, 1 := Boot), asked := (asked ?s1)(1 := f)\<rparr>"
  let ?s3 = "?s2\<lparr>entryp := (entryp ?s2)(1 := f), stat := (stat ?s2)(1 := TFTF_AFFINITY_STATE_ON_PENDING),
      holder := (holder ?s2)(1 := None), pc := (pc ?s2)(0 := InTest)\<rparr>"
  let ?s4 = "?s3\<lparr>fw := (fw ?s3)(1 := FwOn)\<rparr>"
  let ?s5 = "?s4\<lparr>stat := (stat ?s4)(1 := TFTF_AFFINITY_STATE_ON), pc := (pc ?s4)(1 := Session)\<rparr>"
  have 1: "hp_step tries quits N s ?s1" using assms by (intro hp_step.on_lock) simp_all
  have 2: "hp_step tries quits N ?s1 ?s2" using assms by (intro hp_step.on_success) simp_all
  have 3: "hp_step tries quits N ?s2 ?s3" by (intro hp_step.on_publish) simp
  have 4: "hp_step tries quits N ?s3 ?s4" by (intro hp_step.boot) simp_all
  have 5: "hp_step tries quits N ?s4 ?s5" using hp_step.online [of ?s4 1 tries quits N] by simp
  have "hp_steps tries quits N s ?s5"
    using 1 2 3 4 5 by (meson hp_steps.intros)
  moreover have "holder ?s5 = (\<lambda>_. None)" using assms by auto
  ultimately show ?thesis by (intro exI [of _ ?s5]) simp
qed

text \<open>A state with the lead CPU and CPU 1 in the test, which CPU 1 entered at \<open>f\<close>.\<close>

definition both_in :: "u64 \<Rightarrow> nat \<Rightarrow> cpus \<Rightarrow> bool" where
  "both_in f n s \<longleftrightarrow> pc s 0 = InTest \<and> pc s 1 = InTest \<and> holder s = (\<lambda>_. None)
     \<and> stat s 1 = TFTF_AFFINITY_STATE_ON \<and> fw s 1 = FwOn \<and> running s 1 = f \<and> entryp s 1 = f \<and> cnt s = n \<and> (\<forall>t > 1. pc s t = Down)"

lemma run_enter:
  assumes "pc s 0 = InTest" "pc s 1 = Session" "holder s = (\<lambda>_. None)" "stat s 1 = TFTF_AFFINITY_STATE_ON" "fw s 1 = FwOn"
    and "entryp s 1 = f" "\<forall>t > 1. pc s t = Down" "f \<noteq> 0" "cnt s < N"
  shows "\<exists>s'. hp_steps tries quits N s s' \<and> both_in f (cnt s + 1) s'"
proof -
  let ?s1 = "s\<lparr>cnt := cnt s + 1, pc := (pc s)(1 := Counted)\<rparr>"
  let ?s2 = "?s1\<lparr>pc := (pc ?s1)(1 := InTest), running := (running ?s1)(1 := entryp ?s1 1)\<rparr>"
  have 1: "hp_step tries quits N s ?s1" using assms hp_step.inc [of s 1 tries quits N] by simp
  have 2: "hp_step tries quits N ?s1 ?s2" using assms by (intro hp_step.enter) simp_all
  have "hp_steps tries quits N s ?s2" using 1 2 by (meson hp_steps.intros)
  moreover have "both_in f (cnt s + 1) ?s2" using assms by (simp add: both_in_def)
  ultimately show ?thesis by blast
qed

lemma reach_on:
  assumes "f \<noteq> 0" "1 < N"
  obtains s where "hp_reach tries quits N e s" "both_in f 2 s"
proof -
  have h: "hp_reach tries quits N e (hp_init e)" using assms by (intro hp_reach.init) simp
  obtain s where s: "hp_steps tries quits N (hp_init e) s" "pc s 0 = InTest" "pc s 1 = Session" "holder s = (\<lambda>_. None)"
    "stat s 1 = TFTF_AFFINITY_STATE_ON" "fw s 1 = FwOn" "entryp s 1 = f" "\<forall>t > 1. pc s t = Down" "cnt s = 1"
    using run_boot [of "hp_init e" N tries quits f] assms by (auto simp: hp_init_def)
  obtain s' where "hp_steps tries quits N s s'" "both_in f 2 s'"
    using run_enter [OF s(2-8) assms(1), of N tries quits] s(9) assms(2) by (auto simp: numeral_2_eq_2)
  then show thesis using that reach_steps [OF _ reach_steps [OF s(1) h]] by blast
qed

text \<open>CPU 1 powers itself off inside the test.\<close>

lemma run_quit:
  assumes "both_in f n s"
  shows "\<exists>s'. hp_steps tries True N s s' \<and> pc s' 0 = InTest \<and> pc s' 1 = Down \<and> holder s' = (\<lambda>_. None)
    \<and> stat s' 1 = TFTF_AFFINITY_STATE_OFF \<and> fw s' 1 = FwOff \<and> entryp s' 1 = f \<and> cnt s' = n \<and> (\<forall>t > 1. pc s' t = Down)"
proof -
  let ?s1 = "s\<lparr>stat := (stat s)(1 := TFTF_AFFINITY_STATE_OFF), pc := (pc s)(1 := GoingDown True)\<rparr>"
  let ?s2 = "?s1\<lparr>fw := (fw ?s1)(1 := FwOff), pc := (pc ?s1)(1 := Down)\<rparr>"
  have 1: "hp_step tries True N s ?s1" using assms hp_step.off [of s 1 True tries N] by (simp add: both_in_def)
  have 2: "hp_step tries True N ?s1 ?s2" by (rule hp_step.off_done) simp
  have "hp_steps tries True N s ?s2" using 1 2 by (meson hp_steps.intros)
  then show ?thesis using assms by (intro exI [of _ ?s2]) (simp add: both_in_def)
qed

lemma reach_denied: "1 < N \<Longrightarrow> \<exists>s. hp_reach tries True N e s \<and> pc s 1 = Denied True"
proof -
  assume "1 < N"
  then obtain s where s: "hp_reach tries True N e s" "both_in 1 2 s"
    using reach_on [of 1 N tries True e] by auto
  let ?s1 = "s\<lparr>stat := (stat s)(1 := TFTF_AFFINITY_STATE_OFF), pc := (pc s)(1 := GoingDown True)\<rparr>"
  have 1: "hp_step tries True N s ?s1" using s(2) hp_step.off [of s 1 True tries N] by (simp add: both_in_def)
  have 2: "hp_step tries True N ?s1 (?s1\<lparr>pc := (pc ?s1)(1 := Denied True)\<rparr>)" by (rule hp_step.off_denied) simp
  have "pc (?s1\<lparr>pc := (pc ?s1)(1 := Denied True)\<rparr>) 1 = Denied True" by simp
  then show ?thesis using hp_reach.step [OF hp_reach.step [OF s(1) 1] 2] by blast
qed

text \<open>Each round of powering CPU 1 on and off inside the test leaves the count one higher.\<close>

lemma reach_count:
  assumes "1 < N" "2 \<le> n" "n \<le> N"
  shows "\<exists>s. hp_reach tries True N e s \<and> both_in 1 n s"
  using assms(2,3)
proof (induction n rule: nat_induct_at_least)
  case base
  then show ?case using reach_on [of 1 N tries True e] assms(1) by auto
next
  case (Suc n)
  then obtain s where s: "hp_reach tries True N e s" "both_in 1 n s" by auto
  obtain s1 where s1: "hp_steps tries True N s s1" "pc s1 0 = InTest" "pc s1 1 = Down" "holder s1 = (\<lambda>_. None)"
    "stat s1 1 = TFTF_AFFINITY_STATE_OFF" "fw s1 1 = FwOff" "cnt s1 = n" "\<forall>t > 1. pc s1 t = Down"
    using run_quit [OF s(2)] by blast
  obtain s2 where s2: "hp_steps tries True N s1 s2" "pc s2 0 = InTest" "pc s2 1 = Session" "holder s2 = (\<lambda>_. None)"
    "stat s2 1 = TFTF_AFFINITY_STATE_ON" "fw s2 1 = FwOn" "entryp s2 1 = 1" "\<forall>t > 1. pc s2 t = Down" "cnt s2 = n"
    using run_boot [OF s1(2-6) assms(1), of tries True 1] s1(7,8) by auto
  obtain s3 where s3: "hp_steps tries True N s2 s3" "both_in 1 (n + 1) s3"
    using run_enter [OF s2(2-8), of N tries True] s2(9) Suc.prems by auto
  show ?case
    using s3(2) reach_steps [OF s3(1) reach_steps [OF s2(1) reach_steps [OF s1(1) s(1)]]] by auto
qed

section \<open>Properties of the interleavings\<close>

text \<open>C20: in every interleaving of the CPUs of a test in which CPUs are powered on by \<^const>\<open>tftf_cpu_on\<close> only (not by
  \<open>tftf_try_cpu_on\<close>), no assertion of the module on the state of a CPU fails, and a CPU that runs the code of a test
  entered the function which the CPU_ON that powered it on named. In every interleaving, a CPU that runs the code of a test is marked online. If
  no test function calls \<^const>\<open>tftf_cpu_off\<close> itself, the assertions on the reference count hold too.\<close>

theorem cpu_on_enters_asked:
  assumes "hp_reach tries quits N e s"
  shows "(\<not> tries \<longrightarrow> pc s t \<noteq> Failed \<and> (in_test (pc s t) \<longrightarrow> running s t = asked s t))
    \<and> (in_test (pc s t) \<longrightarrow> stat s t = TFTF_AFFINITY_STATE_ON)
    \<and> (\<not> quits \<longrightarrow> pc s t \<noteq> RefFailed)"
proof -
  have "pc s t \<noteq> Failed \<and> (in_test (pc s t) \<longrightarrow> running s t = asked s t)" if "\<not> tries"
    using entry_reach [of quits N e s t] assms that by (simp add: entry_at_def)
  moreover have "pc s t \<noteq> RefFailed" if "\<not> quits"
    using cnt_reach [of tries N e s] assms that by (simp add: cnt_inv_def)
  ultimately show ?thesis using in_test_on [OF hp_reach_inv [OF assms]] by blast
qed

theorem cpu_on_enters_asked_witness:
  "\<exists>s. hp_reach False False 2 5 s \<and> pc s 1 = InTest \<and> running s 1 = 9 \<and> asked s 1 = 9 \<and> pc s 0 \<noteq> RefFailed"
proof -
  obtain s where s: "hp_reach False False 2 5 s" "both_in 9 2 s" by (rule reach_on [of 9 2 False False 5]) simp_all
  then show ?thesis using cpu_on_enters_asked [OF s(1), of 1] cpu_on_enters_asked [OF s(1), of 0]
    by (intro exI [of _ s]) (simp add: both_in_def)
qed

text \<open>C22: A CPU whose CPU_OFF the firmware denied stays in the loop of \<^const>\<open>tftf_set_cpu_online\<close> whatever the
  other CPUs do, be it with \<open>tftf_try_cpu_on\<close>: its status stays OFF, and no CPU can make it ON_PENDING,
  since CPU_ON for it does not succeed.\<close>

theorem denied_cpu_stuck:
  assumes "hp_reach tries quits N e s" "pc s t = Denied q" "hp_steps tries quits N s s'"
  shows "pc s' t = Denied q \<and> stat s' t = TFTF_AFFINITY_STATE_OFF"
  using denied_steps [OF assms(3) hp_reach_inv [OF assms(1)] assms(2)] denied_off by blast

theorem denied_cpu_stuck_witness:
  "\<exists>s. hp_reach True True 2 5 s \<and> pc s 1 = Denied True \<and> (\<forall>s'. hp_steps True True 2 s s' \<longrightarrow> pc s' 1 = Denied True)"
proof -
  obtain s where s: "hp_reach True True 2 5 s" "pc s 1 = Denied True" using reach_denied [of 2 True 5] by auto
  then show ?thesis using denied_cpu_stuck [OF s] by (intro exI [of _ s]) simp
qed

text \<open>C24: With \<open>tftf_try_cpu_on\<close>, which publishes ON_PENDING before it writes the entry point, a CPU can enter
  the function of an earlier CPU_ON: powered off inside a test its old entry point is still there.\<close>

theorem try_cpu_on_stale_entry:
  "\<exists>s. hp_reach True True 3 5 s \<and> pc s 1 = InTest \<and> running s 1 = 7 \<and> asked s 1 = 9"
proof -
  obtain s0 where s0: "hp_reach True True 3 5 s0" "both_in 7 2 s0" by (rule reach_on [of 7 3 True True 5]) simp_all
  obtain s where s: "hp_steps True True 3 s0 s" "pc s 0 = InTest" "pc s 1 = Down" "holder s = (\<lambda>_. None)"
    "stat s 1 = TFTF_AFFINITY_STATE_OFF" "fw s 1 = FwOff" "entryp s 1 = 7" "cnt s = 2"
    using run_quit [OF s0(2)] by blast
  let ?s3 = "s\<lparr>fw := (fw s)(1 := FwPending), pc := (pc s)(0 := TryPublish 1 9, 1 := Boot), asked := (asked s)(1 := 9)\<rparr>"
  let ?s4 = "?s3\<lparr>stat := (stat ?s3)(1 := TFTF_AFFINITY_STATE_ON_PENDING), pc := (pc ?s3)(0 := TryEntry 1 9)\<rparr>"
  let ?s5 = "?s4\<lparr>fw := (fw ?s4)(1 := FwOn)\<rparr>"
  let ?s6 = "?s5\<lparr>stat := (stat ?s5)(1 := TFTF_AFFINITY_STATE_ON), pc := (pc ?s5)(1 := Session)\<rparr>"
  let ?s7 = "?s6\<lparr>cnt := cnt ?s6 + 1, pc := (pc ?s6)(1 := Counted)\<rparr>"
  let ?s8 = "?s7\<lparr>pc := (pc ?s7)(1 := InTest), running := (running ?s7)(1 := entryp ?s7 1)\<rparr>"
  have 3: "hp_step True True 3 s ?s3" using s by (intro hp_step.try_on) simp_all
  have 4: "hp_step True True 3 ?s3 ?s4" using s hp_step.try_publish [of True ?s3 0 1 9 True 3] by simp
  have 5: "hp_step True True 3 ?s4 ?s5" by (intro hp_step.boot) simp_all
  have 6: "hp_step True True 3 ?s5 ?s6" using s hp_step.online [of ?s5 1 True True 3] by simp
  have 7: "hp_step True True 3 ?s6 ?s7" using s hp_step.inc [of ?s6 1 True True 3] by simp
  have 8: "hp_step True True 3 ?s7 ?s8" using s by (intro hp_step.enter) simp_all
  have "hp_steps True True 3 s ?s8" using 3 4 5 6 7 8 by (meson hp_steps.intros)
  from reach_steps [OF this reach_steps [OF s(1) s0(1)]] show ?thesis using s by (intro exI [of _ ?s8]) simp
qed

text \<open>C38: a CPU that a test powers off with \<^const>\<open>tftf_cpu_off\<close> is not taken out of the reference count, although it
  can be powered on and counted again. On every platform with at least two CPUs, a test in which the lead CPU
  powers CPU 1 on again after each such power-off, and no other CPU takes part, reaches the assertion of
  \<^const>\<open>tftf_inc_ref_cnt\<close>, which then fails.\<close>

theorem cpu_off_leaks_ref_cnt:
  assumes "1 < N"
  shows "\<exists>s. hp_reach False True N e s \<and> pc s 0 = InTest \<and> pc s 1 = RefFailed \<and> (\<forall>t > 1. pc s t = Down)"
proof -
  obtain s where s: "hp_reach False True N e s" "both_in 1 N s"
    using reach_count [OF assms, of N False e] assms by auto
  obtain s1 where s1: "hp_steps False True N s s1" "pc s1 0 = InTest" "pc s1 1 = Down" "holder s1 = (\<lambda>_. None)"
    "stat s1 1 = TFTF_AFFINITY_STATE_OFF" "fw s1 1 = FwOff" "cnt s1 = N" "\<forall>t > 1. pc s1 t = Down"
    using run_quit [OF s(2)] by blast
  obtain s2 where s2: "hp_steps False True N s1 s2" "pc s2 0 = InTest" "pc s2 1 = Session" "\<forall>t > 1. pc s2 t = Down" "cnt s2 = N"
    using run_boot [OF s1(2-6) assms, of False True 1] s1(7,8) by auto
  have "hp_step False True N s2 (s2\<lparr>pc := (pc s2)(1 := RefFailed)\<rparr>)"
    using hp_step.inc [of s2 1 False True N] s2(3,5) by simp
  then have "hp_reach False True N e (s2\<lparr>pc := (pc s2)(1 := RefFailed)\<rparr>)"
    by (rule hp_reach.step [OF reach_steps [OF s2(1) reach_steps [OF s1(1) s(1)]]])
  then show ?thesis using s2(2,4) by (intro exI [of _ "s2\<lparr>pc := (pc s2)(1 := RefFailed)\<rparr>"]) simp
qed

theorem cpu_off_leaks_ref_cnt_witness: "\<exists>s. hp_reach False True 4 5 s \<and> pc s 1 = RefFailed"
  using cpu_off_leaks_ref_cnt [of 4 5] by auto

section \<open>The functions are runs of the step relation\<close>

text \<open>The framework's arrays as the step relation has them.\<close>

definition hp_view :: "hotplug \<Rightarrow> cpus \<Rightarrow> bool" where
  "hp_view H s \<longleftrightarrow> (\<forall>i < length (cpus_status_map H). stat s i = cpus_status_map H ! i)
     \<and> (\<forall>i < length (test_entrypoint H). entryp s i = test_entrypoint H ! i)"

text \<open>C21: A \<^const>\<open>tftf_cpu_on\<close> which powers the target on is a run of the step relation: from any state of the
  CPUs that shows the same arrays, with the target off and its lock free, the steps of the caller lead
  to a state that shows the new arrays, the target being on its way up. It does so after any number of
  ALREADY_ON answers.\<close>

theorem cpu_on_refines:
  assumes "hp_view H s" and "pc s a = InTest" "holder s (pos E cpu) = None" "fw s (pos E cpu) = FwOff" "a \<noteq> pos E cpu"
    and "pos E cpu < length (cpus_status_map H)" "pos E cpu < length (test_entrypoint H)"
    and "cpus_status_map H ! pos E cpu = TFTF_AFFINITY_STATE_OFF"
    and "\<forall>i < n. rets i = PSCI_E_ALREADY_ON" "rets n = PSCI_E_SUCCESS"
  shows "\<exists>H' s'. tftf_cpu_on E rets cpu ep H = Some (Inr (PSCI_E_SUCCESS, H')) \<and> hp_steps False quits (length (cpus_status_map H)) s s' \<and> hp_view H' s'
    \<and> pc s' a = InTest \<and> pc s' (pos E cpu) = Boot
    \<and> cpus_status_map H' = (cpus_status_map H)[pos E cpu := TFTF_AFFINITY_STATE_ON_PENDING]
    \<and> test_entrypoint H' = (test_entrypoint H)[pos E cpu := ep]"
proof -
  let ?t = "pos E cpu"
  let ?H = "H\<lparr>test_entrypoint := (test_entrypoint H)[?t := ep],
    cpus_status_map := (cpus_status_map H)[?t := TFTF_AFFINITY_STATE_ON_PENDING]\<rparr>"
  have "cpu_on_loop rets 0 = Some (Inr PSCI_E_SUCCESS)"
    using cpu_on_loop_returns [of rets 0 n] assms(9,10) by simp
  then have H: "tftf_cpu_on E rets cpu ep H = Some (Inr (PSCI_E_SUCCESS, ?H))"
    using assms(6-8) by (simp add: tftf_cpu_on_def set_state_def Let_def)
  let ?s1 = "s\<lparr>holder := (holder s)(?t := Some a), pc := (pc s)(a := OnLocked ?t ep)\<rparr>"
  let ?s2 = "?s1\<lparr>fw := (fw ?s1)(?t := FwPending), pc := (pc ?s1)(a := OnPublish ?t ep, ?t := Boot), asked := (asked ?s1)(?t := ep)\<rparr>"
  let ?s3 = "?s2\<lparr>entryp := (entryp ?s2)(?t := ep), stat := (stat ?s2)(?t := TFTF_AFFINITY_STATE_ON_PENDING),
      holder := (holder ?s2)(?t := None), pc := (pc ?s2)(a := InTest)\<rparr>"
  have "stat s ?t = TFTF_AFFINITY_STATE_OFF" using assms(1,6,8) by (simp add: hp_view_def)
  then have 1: "hp_step False quits (length (cpus_status_map H)) s ?s1" using assms by (intro hp_step.on_lock) simp_all
  have 2: "hp_step False quits (length (cpus_status_map H)) ?s1 ?s2" using assms by (intro hp_step.on_success) simp_all
  have 3: "hp_step False quits (length (cpus_status_map H)) ?s2 ?s3" using assms(5) by (intro hp_step.on_publish) simp
  have "hp_steps False quits (length (cpus_status_map H)) s ?s3" using 1 2 3 by (meson hp_steps.intros)
  moreover have "hp_view ?H ?s3" using assms(1) by (simp add: hp_view_def nth_list_update)
  ultimately show ?thesis using H assms(5) by (intro exI [of _ ?H] exI [of _ ?s3]) simp
qed

definition demo_hp_lead :: hotplug where
  "demo_hp_lead = \<lparr>cpus_status_map = [TFTF_AFFINITY_STATE_ON, TFTF_AFFINITY_STATE_OFF], cpus_status_init_done = True,
     ref_cnt = 0, test_entrypoint = [5, 0], tftf_primary_core = 0, local_irqs = [True, True]\<rparr>"

theorem cpu_on_refines_witness:
  "\<exists>H' s'. tftf_cpu_on demo_hp_env (\<lambda>i. if i < 2 then PSCI_E_ALREADY_ON else PSCI_E_SUCCESS) 1 9 demo_hp_lead
       = Some (Inr (PSCI_E_SUCCESS, H'))
     \<and> hp_steps False False 2 (hp_init 5) s' \<and> test_entrypoint H' = [5, 9] \<and> hp_view H' s'"
proof -
  have v: "hp_view demo_hp_lead (hp_init 5)"
    by (auto simp: hp_view_def demo_hp_lead_def hp_init_def less_Suc_eq)
  have p: "pos demo_hp_env 1 = 1" by (simp add: pos_def demo_hp_env_def)
  have "\<exists>H' s'. tftf_cpu_on demo_hp_env (\<lambda>i. if i < 2 then PSCI_E_ALREADY_ON else PSCI_E_SUCCESS) 1 9 demo_hp_lead
       = Some (Inr (PSCI_E_SUCCESS, H')) \<and> hp_steps False False (length (cpus_status_map demo_hp_lead)) (hp_init 5) s' \<and> hp_view H' s'
    \<and> pc s' 0 = InTest \<and> pc s' (pos demo_hp_env 1) = Boot
    \<and> cpus_status_map H' = (cpus_status_map demo_hp_lead)[pos demo_hp_env 1 := TFTF_AFFINITY_STATE_ON_PENDING]
    \<and> test_entrypoint H' = (test_entrypoint demo_hp_lead)[pos demo_hp_env 1 := 9]"
    by (rule cpu_on_refines [OF v, where n = 2]) (simp_all add: p, simp_all add: hp_init_def demo_hp_lead_def)
  then show ?thesis by (auto simp: p demo_hp_lead_def numeral_2_eq_2)
qed

end
