(* ===== verification/Tftf_Printf.thy ===== *)
theory Tftf_Printf
  imports Tftf_Prelude
begin

text \<open>
  Formatted output of the C library: \<open>src/lib/libc/printf.c\<close>, \<open>src/lib/libc/snprintf.c\<close>, and the pseudo-random
  numbers of \<open>src/lib/libc/rand.c\<close>.

  A C string is the list of its characters before the terminator. Variable arguments are a list of
  typed values; reading one at another type is undefined, as is a signed overflow of the padding. The
  console is the list of characters given to \<open>putchar\<close>. The number of characters printed by one call is
  taken to fit an \<open>int\<close>.
\<close>

lemma andthen_cong [fundef_cong]:
  "m = m' \<Longrightarrow> (\<And>x. m' = Inr x \<Longrightarrow> f x = g x) \<Longrightarrow> andthen m f = andthen m' g"
  by (auto simp: andthen_def split: sum.splits)

section \<open>Variable arguments\<close>

datatype vararg = VInt u32 | VLong u64 | VStr string | VPtr u64

abbreviation (input) INT_MAX :: int where "INT_MAX \<equiv> 0x7FFFFFFF"
abbreviation (input) INT_MIN :: int where "INT_MIN \<equiv> -0x80000000"

definition int_c :: "int \<Rightarrow> int res" where
  "int_c v = (if INT_MIN \<le> v \<and> v \<le> INT_MAX then Inr v else Inl Undefined)"

fun get_num_va_args :: "vararg list \<Rightarrow> nat \<Rightarrow> (int \<times> vararg list) res" where
  "get_num_va_args (VInt w # args) lcount = (if lcount = 0 then Inr (sint w, args) else Inl Undefined)"
| "get_num_va_args (VLong w # args) lcount = (if lcount \<noteq> 0 then Inr (sint w, args) else Inl Undefined)"
| "get_num_va_args _ lcount = Inl Undefined"

fun get_unum_va_args :: "vararg list \<Rightarrow> nat \<Rightarrow> (u64 \<times> vararg list) res" where
  "get_unum_va_args (VInt w # args) lcount = (if lcount = 0 then Inr (ucast w, args) else Inl Undefined)"
| "get_unum_va_args (VLong w # args) lcount = (if lcount \<noteq> 0 then Inr (w, args) else Inl Undefined)"
| "get_unum_va_args _ lcount = Inl Undefined"

text \<open>\<open>va_arg(args, char *)\<close>, which may be a null pointer, and \<open>va_arg(args, void *)\<close>.\<close>

fun get_str_va_arg :: "vararg list \<Rightarrow> (string option \<times> vararg list) res" where
  "get_str_va_arg (VStr s # args) = Inr (Some s, args)"
| "get_str_va_arg (VPtr p # args) = (if p = 0 then Inr (None, args) else Inl Undefined)"
| "get_str_va_arg _ = Inl Undefined"

fun get_ptr_va_arg :: "vararg list \<Rightarrow> (u64 \<times> vararg list) res" where
  "get_ptr_va_arg (VPtr p # args) = Inr (p, args)"
| "get_ptr_va_arg _ = Inl Undefined"

section \<open>Padding and digits\<close>

text \<open>The loops that print the padding before and after; the first also gives what is left of \<open>padn\<close>.\<close>

function pad_before :: "int \<Rightarrow> char \<Rightarrow> int \<Rightarrow> string \<times> int" where
  "pad_before width padc padn =
     (if width < padn then (case pad_before width padc (padn - 1) of (s, p) \<Rightarrow> (padc # s, p)) else ([], padn))"
  by pat_completeness auto
termination by (relation "measure (\<lambda>(width, _, padn). nat (padn - width))") auto

function pad_after :: "int \<Rightarrow> char \<Rightarrow> int \<Rightarrow> string" where
  "pad_after width padc padn = (if width < - padn then padc # pad_after width padc (padn + 1) else [])"
  by pat_completeness auto
termination by (relation "measure (\<lambda>(width, _, padn). nat (- padn - width))") auto

declare pad_before.simps [simp del] pad_after.simps [simp del]

definition digit_char :: "nat \<Rightarrow> char" where
  "digit_char rem = (if rem < 10 then char_of (48 + rem) else char_of (97 + (rem - 10)))"

text \<open>Filling \<open>num_buf\<close>, least significant digit first, with \<open>room\<close> elements left in it.\<close>

fun num_digits :: "nat \<Rightarrow> u64 \<Rightarrow> u64 \<Rightarrow> string res" where
  "num_digits 0 unum radix = Inl OutOfBounds"
| "num_digits (Suc room) unum radix =
     (let d = digit_char (unat (unum mod radix)) in
      if unum div radix > 0 then andthen (num_digits room (unum div radix) radix) (\<lambda>ds. Inr (d # ds)) else Inr [d])"

abbreviation (input) NUM_BUF :: nat where "NUM_BUF \<equiv> 20"

section \<open>Format specifiers\<close>

definition is_digit :: "char \<Rightarrow> bool" where
  "is_digit c \<longleftrightarrow> 48 \<le> (of_char c :: nat) \<and> (of_char c :: nat) \<le> 57"

fun read_padn :: "int \<Rightarrow> string \<Rightarrow> (int \<times> string) res" where
  "read_padn padn [] = Inr (padn, [])"
| "read_padn padn (c # fmt) =
     (if is_digit c then andthen (int_c (padn * 10 + (of_char c - 48))) (\<lambda>padn. read_padn padn fmt)
      else Inr (padn, c # fmt))"

lemma read_padn_length: "read_padn padn fmt = Inr (padn', rest) \<Longrightarrow> length rest \<le> length fmt"
  by (induction padn fmt rule: read_padn.induct) (auto simp: andthen_eq_Inr_iff le_SucI split: if_splits)

lemma read_padn_digit: "read_padn padn (c # fmt) = Inr (padn', rest) \<Longrightarrow> is_digit c \<Longrightarrow> length rest \<le> length fmt"
  by (auto simp: andthen_eq_Inr_iff dest: read_padn_length)

text \<open>
  The code from the label \<open>loop\<close> on, until a conversion character or a character that is neither: the character
  (none at the end of the format), \<open>l_count\<close>, \<open>padc\<close>, \<open>padn\<close> and what follows. Only \<open>vprintf\<close> knows the size
  specifier \<open>z\<close>.
\<close>

function format_loop :: "bool \<Rightarrow> string \<Rightarrow> nat \<Rightarrow> bool \<Rightarrow> char \<Rightarrow> int \<Rightarrow> (char option \<times> nat \<times> char \<times> int \<times> string) res" where
  "format_loop z [] l_count left padc padn = Inr (None, l_count, padc, padn, [])"
| "format_loop z (c # fmt) l_count left padc padn =
     (if is_digit c \<and> c \<noteq> CHR ''0''
      then andthen (read_padn 0 (c # fmt)) (\<lambda>(padn, rest).
           format_loop z rest l_count left CHR '' '' (if left then - padn else padn))
      else if c = CHR ''-'' then format_loop z fmt l_count True padc padn
      else if z \<and> c = CHR ''z'' then format_loop z fmt 2 left padc padn
      else if c = CHR ''l'' then format_loop z fmt (l_count + 1) left padc padn
      else if c = CHR ''0''
      then andthen (read_padn 0 fmt) (\<lambda>(padn, rest). format_loop z rest l_count left CHR ''0'' padn)
      else Inr (Some c, l_count, padc, padn, fmt))"
  by pat_completeness auto
termination
  by (relation "measure (\<lambda>(_, fmt, _). length fmt)")
    (simp_all add: less_Suc_eq_le del: read_padn.simps, (metis read_padn_digit, metis read_padn_length))

lemma format_loop_length:
  "format_loop z fmt l_count left padc padn = Inr (conv, l', padc', padn', rest) \<Longrightarrow> length rest \<le> length fmt"
proof (induction z fmt l_count left padc padn rule: format_loop.induct)
  case (2 z c fmt l_count left padc padn)
  note eq = 2(6) [unfolded format_loop.simps]
  consider (digit) "is_digit c \<and> c \<noteq> CHR ''0''" | (zero) "c = CHR ''0''"
    | (other) "\<not> (is_digit c \<and> c \<noteq> CHR ''0'')" "c \<noteq> CHR ''0''" by blast
  then show ?case
  proof cases
    case digit
    then obtain p r where r: "read_padn 0 (c # fmt) = Inr (p, r)"
      "format_loop z r l_count left CHR '' '' (if left then - p else p) = Inr (conv, l', padc', padn', rest)"
      using eq by (auto simp: andthen_eq_Inr_iff simp del: read_padn.simps)
    show ?thesis using 2(1) [OF digit r(1) refl r(2)] read_padn_digit [OF r(1)] digit by simp
  next
    case zero
    then obtain p r where r: "read_padn 0 fmt = Inr (p, r)"
      "format_loop z r l_count left CHR ''0'' p = Inr (conv, l', padc', padn', rest)"
      using eq by (auto simp: andthen_eq_Inr_iff)
    show ?thesis using 2(5) [OF _ _ _ _ _ r(1) refl r(2)] read_padn_length [OF r(1)] zero by simp
  next
    case other
    then show ?thesis using eq 2(2-4) by (auto split: if_splits)
  qed
qed simp


section \<open>printf\<close>

text \<open>What the two print functions give to \<open>putchar\<close>, and the count they return.\<close>

definition string_print :: "string option \<Rightarrow> char \<Rightarrow> int \<Rightarrow> (string \<times> int) res" where
  "string_print strp padc padn =
     (case strp of
        None \<Rightarrow> Inl AssertFail
      | Some str \<Rightarrow>
          let i = int (length str);
              (before, padn) = (if padn > 0 then pad_before i padc padn else ([], padn))
          in andthen (if padn < 0 then andthen (int_c (- padn)) (\<lambda>_. Inr (pad_after i padc padn)) else Inr []) (\<lambda>after.
             Inr (before @ str @ after, int (length before) + int (length str) + int (length after))))"

definition unsigned_num_print :: "u64 \<Rightarrow> u64 \<Rightarrow> char \<Rightarrow> int \<Rightarrow> (string \<times> int) res" where
  "unsigned_num_print unum radix padc padn =
     andthen (num_digits NUM_BUF unum radix) (\<lambda>num_buf.
     let width = int (length num_buf);
         (before, padn) = (if padn > 0 then pad_before width padc padn else ([], padn))
     in andthen (if padn < 0 then andthen (int_c (- padn)) (\<lambda>_. Inr (pad_after width padc padn)) else Inr []) (\<lambda>after.
        Inr (before @ rev num_buf @ after, int (length before) + int (length num_buf) + int (length after))))"

text \<open>One conversion: the characters, the change of \<open>count\<close> and the remaining arguments; \<open>None\<close> for any other specifier.\<close>

definition printf_conv ::
  "char \<Rightarrow> nat \<Rightarrow> char \<Rightarrow> int \<Rightarrow> vararg list \<Rightarrow> (string \<times> int \<times> vararg list) option res" where
  "printf_conv c l_count padc padn args =
     (if c = CHR ''i'' \<or> c = CHR ''d''
      then andthen (get_num_va_args args l_count) (\<lambda>(num, args).
           if num < 0
           then if num = - (2 ^ 63) then Inl Undefined
                else andthen (int_c (padn - 1)) (\<lambda>padn.
                     andthen (unsigned_num_print (word_of_int (- num)) 10 padc padn) (\<lambda>(out, n).
                     Inr (Some (CHR ''-'' # out, n, args))))
           else andthen (unsigned_num_print (word_of_int num) 10 padc padn) (\<lambda>(out, n). Inr (Some (out, n, args))))
      else if c = CHR ''s''
      then andthen (get_str_va_arg args) (\<lambda>(str, args).
           andthen (string_print str padc padn) (\<lambda>(out, n). Inr (Some (out, n, args))))
      else if c = CHR ''p''
      then andthen (get_ptr_va_arg args) (\<lambda>(unum, args).
           if unum > 0
           then andthen (string_print (Some ''0x'') padc 0) (\<lambda>(prefix, m).
                andthen (int_c (padn - 2)) (\<lambda>padn.
                andthen (unsigned_num_print unum 16 padc padn) (\<lambda>(out, n).
                Inr (Some (prefix @ out, m + n, args)))))
           else andthen (unsigned_num_print unum 16 padc padn) (\<lambda>(out, n). Inr (Some (out, n, args))))
      else if c = CHR ''x'' \<or> c = CHR ''u''
      then andthen (get_unum_va_args args l_count) (\<lambda>(unum, args).
           andthen (unsigned_num_print unum (if c = CHR ''x'' then 16 else 10) padc padn) (\<lambda>(out, n).
           Inr (Some (out, n, args))))
      else Inr None)"

text \<open>The main loop: the characters printed, in order, and the returned value.\<close>

function vprintf_from :: "string \<Rightarrow> vararg list \<Rightarrow> string \<Rightarrow> int \<Rightarrow> (string \<times> int) res" where
  "vprintf_from [] args out count = Inr (out, count)"
| "vprintf_from (c # fmt) args out count =
     (if c = CHR ''%''
      then andthen (format_loop True fmt 0 False (char_of (0 :: nat)) 0) (\<lambda>(conv, l_count, padc, padn, rest).
           case conv of
             None \<Rightarrow> Inr (out, -1)
           | Some k \<Rightarrow>
               andthen (printf_conv k l_count padc padn args) (\<lambda>r.
               case r of
                 None \<Rightarrow> Inr (out, -1)
               | Some (piece, n, args) \<Rightarrow> vprintf_from rest args (out @ piece) (count + n)))
      else vprintf_from fmt args (out @ [c]) (count + 1))"
  by pat_completeness auto
termination
  by (relation "measure (\<lambda>(fmt, _). length fmt)") (auto dest!: format_loop_length)

definition vprintf :: "string \<Rightarrow> vararg list \<Rightarrow> (string \<times> int) res" where
  "vprintf fmt args = vprintf_from fmt args [] 0"

definition mp_printf :: "string \<Rightarrow> vararg list \<Rightarrow> string \<Rightarrow> string res" where
  "mp_printf fmt args console = andthen (vprintf fmt args) (\<lambda>(out, _). Inr (console @ out))"

section \<open>snprintf\<close>

text \<open>The buffer, the index \<open>s\<close> points to, and \<open>count\<close>.\<close>

type_synonym sn_state = "char list \<times> nat \<times> nat"

definition sn_put :: "nat \<Rightarrow> char \<Rightarrow> sn_state \<Rightarrow> sn_state res" where
  "sn_put n c st = (case st of (buf, s, count) \<Rightarrow>
     if count < n then andthen (aput buf s c) (\<lambda>buf. Inr (buf, s + 1, count + 1))
     else Inr (buf, s, count + 1))"

fun sn_string_print :: "nat \<Rightarrow> string \<Rightarrow> sn_state \<Rightarrow> sn_state res" where
  "sn_string_print n [] st = Inr st"
| "sn_string_print n (c # str) st = andthen (sn_put n c st) (sn_string_print n str)"

function sn_pad_before :: "nat \<Rightarrow> int \<Rightarrow> char \<Rightarrow> int \<Rightarrow> sn_state \<Rightarrow> (int \<times> sn_state) res" where
  "sn_pad_before n width padc padn st =
     (if width < padn then andthen (sn_put n padc st) (\<lambda>st. sn_pad_before n width padc (padn - 1) st)
      else Inr (padn, st))"
  by pat_completeness auto
termination by (relation "measure (\<lambda>(_, width, _, padn, _). nat (padn - width))") auto

function sn_pad_after :: "nat \<Rightarrow> int \<Rightarrow> char \<Rightarrow> int \<Rightarrow> sn_state \<Rightarrow> sn_state res" where
  "sn_pad_after n width padc padn st =
     (if width < - padn then andthen (sn_put n padc st) (\<lambda>st. sn_pad_after n width padc (padn + 1) st)
      else Inr st)"
  by pat_completeness auto
termination by (relation "measure (\<lambda>(_, width, _, padn, _). nat (- padn - width))") auto

declare sn_pad_before.simps [simp del] sn_pad_after.simps [simp del]

text \<open>The loop over \<open>num_buf\<close> from its last digit down.\<close>

definition sn_unsigned_num_print :: "nat \<Rightarrow> u64 \<Rightarrow> u64 \<Rightarrow> char \<Rightarrow> int \<Rightarrow> sn_state \<Rightarrow> sn_state res" where
  "sn_unsigned_num_print n unum radix padc padn st =
     andthen (num_digits NUM_BUF unum radix) (\<lambda>num_buf.
     let width = int (length num_buf)
     in andthen (if padn > 0 then sn_pad_before n width padc padn st else Inr (padn, st)) (\<lambda>(padn, st).
        andthen (sn_string_print n (rev num_buf) st) (\<lambda>st.
        if padn < 0 then andthen (int_c (- padn)) (\<lambda>_. sn_pad_after n width padc padn st) else Inr st)))"

text \<open>The argument of \<open>%d\<close> goes through an \<open>int\<close>, also after \<open>l\<close>.\<close>

definition sn_conv ::
  "nat \<Rightarrow> char \<Rightarrow> nat \<Rightarrow> char \<Rightarrow> int \<Rightarrow> vararg list \<Rightarrow> sn_state \<Rightarrow> (sn_state \<times> vararg list) res" where
  "sn_conv n c l_count padc padn args st =
     (if c = CHR ''i'' \<or> c = CHR ''d''
      then andthen (get_num_va_args args l_count) (\<lambda>(num, args).
           let num = signed_take_bit 31 num
           in if num < 0
              then if num = INT_MIN then Inl Undefined
                   else andthen (sn_put n CHR ''-'' st) (\<lambda>st.
                        andthen (sn_unsigned_num_print n (word_of_int (- num)) 10 padc padn st) (\<lambda>st. Inr (st, args)))
              else andthen (sn_unsigned_num_print n (word_of_int num) 10 padc padn st) (\<lambda>st. Inr (st, args)))
      else if c = CHR ''s''
      then andthen (get_str_va_arg args) (\<lambda>(str, args).
           case str of
             None \<Rightarrow> Inl Undefined
           | Some str \<Rightarrow> andthen (sn_string_print n str st) (\<lambda>st. Inr (st, args)))
      else if c = CHR ''u'' \<or> c = CHR ''x''
      then andthen (get_unum_va_args args l_count) (\<lambda>(unum, args).
           andthen (sn_unsigned_num_print n unum (if c = CHR ''x'' then 16 else 10) padc padn st) (\<lambda>st. Inr (st, args)))
      else Inl AssertFail)"

function vsnprintf_from :: "nat \<Rightarrow> string \<Rightarrow> vararg list \<Rightarrow> sn_state \<Rightarrow> sn_state res" where
  "vsnprintf_from n [] args st = Inr st"
| "vsnprintf_from n (c # fmt) args st =
     (if c = CHR ''%''
      then andthen (format_loop False fmt 0 False (char_of (0 :: nat)) 0) (\<lambda>(conv, l_count, padc, padn, rest).
           case conv of
             None \<Rightarrow> Inl AssertFail
           | Some k \<Rightarrow>
               andthen (sn_conv n k l_count padc padn args st) (\<lambda>(st, args). vsnprintf_from n rest args st))
      else andthen (sn_put n c st) (\<lambda>st. vsnprintf_from n fmt args st))"
  by pat_completeness auto
termination
  by (relation "measure (\<lambda>(_, fmt, _). length fmt)") (auto dest!: format_loop_length)

definition vsnprintf :: "char list \<Rightarrow> nat \<Rightarrow> string \<Rightarrow> vararg list \<Rightarrow> (char list \<times> int) res" where
  "vsnprintf buf n fmt args =
     andthen (if n = 1 then aput buf 0 (char_of (0 :: nat)) else Inr buf) (\<lambda>buf.
     let n = (if n = 0 then 0 else if n = 1 then 0 else n - 1)
     in andthen (vsnprintf_from n fmt args (buf, 0, 0)) (\<lambda>(buf, s, count).
        andthen (if n > 0 then aput buf s (char_of (0 :: nat)) else Inr buf) (\<lambda>buf.
        Inr (buf, signed_take_bit 31 (int count)))))"

section \<open>Pseudo-random numbers\<close>

text \<open>\<open>nxt\<close> is the static variable \<open>next\<close>; \<open>hi\<close>, \<open>lo\<close> and \<open>x\<close> are of type \<open>int\<close>.\<close>

abbreviation (input) RAND_MAX :: u32 where "RAND_MAX \<equiv> 0x7ffffffd"

definition rand :: "u32 \<Rightarrow> (u32 \<times> u32) res" where
  "rand nxt =
     (let nxt = (if nxt = 0 then 123459876 else nxt);
          hi = uint (nxt div 127773); lo = uint (nxt mod 127773)
      in andthen (int_c (16807 * lo)) (\<lambda>a.
         andthen (int_c (2836 * hi)) (\<lambda>b.
         andthen (int_c (a - b)) (\<lambda>x.
         andthen (if x < 0 then int_c (x + 0x7fffffff) else Inr x) (\<lambda>x.
         let nxt = word_of_int x in Inr (nxt mod (RAND_MAX + 1), nxt))))))"

definition srand :: "u32 \<Rightarrow> u32" where
  "srand seed = seed"


section \<open>The generator\<close>

lemma rand_nonzero:
  assumes "nxt \<noteq> 0"
  shows "\<exists>nxt'. rand nxt = Inr (nxt' mod (RAND_MAX + 1), nxt') \<and> uint nxt' = (16807 * uint nxt) mod (2 ^ 31 - 1)"
proof -
  let ?n = "uint nxt" let ?hi = "?n div 127773" and ?lo = "?n mod 127773"
  have n: "0 \<le> ?n" "?n < 2 ^ 32" using uint_range_size [of nxt] by (simp_all add: word_size)
  have q: "?n = 127773 * ?hi + ?lo" by simp
  have lo: "0 \<le> ?lo" "?lo \<le> 127772" using pos_mod_bound [of 127773 ?n] by simp_all
  have hi: "0 \<le> ?hi" "?hi \<le> 33615"
    using n(1) zdiv_mono1 [of ?n "2 ^ 32" 127773] n(2) by (simp_all add: pos_imp_zdiv_nonneg_iff)
  let ?x = "16807 * ?lo - 2836 * ?hi"
  let ?y = "if ?x < 0 then ?x + 0x7fffffff else ?x"
  have y: "0 \<le> ?y" "?y < 0x7fffffff" using lo hi by auto
  have "(16807 * ?n) mod 0x7fffffff = ?y"
  proof -
    have "16807 * ?n = ?x + 0x7fffffff * ?hi" using q by linarith
    then have "(16807 * ?n) mod 0x7fffffff = ?x mod 0x7fffffff" by (simp only: mod_mult_self2)
    also have "\<dots> = ?y mod 0x7fffffff"
      by (simp only: mod_add_self2 split: if_split) blast
    also have "\<dots> = ?y" using y by (rule mod_pos_pos_trivial)
    finally show ?thesis .
  qed
  moreover have "uint (word_of_int ?y :: u32) = ?y"
    using y by (subst uint_word_of_int_eq, intro take_bit_int_eq_self) simp_all
  moreover have "rand nxt = Inr (word_of_int ?y mod (RAND_MAX + 1), word_of_int ?y)"
    using assms lo hi y by (simp add: rand_def Let_def int_c_def uint_div uint_mod) linarith
  ultimately show ?thesis by (intro exI [of _ "word_of_int ?y"]) simp
qed

text \<open>C28: for every value of the static \<open>next\<close>, \<open>rand\<close> overflows no \<open>int\<close> and advances \<open>next\<close> to 16807 times
  its value modulo \<open>2^31 - 1\<close>, where the value 0 counts as 123459876; the returned number is the new \<open>next\<close> modulo
  \<open>RAND_MAX + 1\<close>.\<close>

theorem rand_park_miller:
  "\<exists>nxt'. rand nxt = Inr (nxt' mod (RAND_MAX + 1), nxt')
    \<and> uint nxt' = (16807 * (if nxt = 0 then 123459876 else uint nxt)) mod (2 ^ 31 - 1)"
proof (cases "nxt = 0")
  case True
  have "rand 0 = rand 123459876" by (simp add: rand_def)
  then show ?thesis using rand_nonzero [of 123459876] True by simp
qed (use rand_nonzero in simp)

theorem rand_park_miller_witness: "\<exists>nxt'. rand 0 = Inr (nxt' mod 0x7ffffffe, nxt') \<and> uint nxt' = 520932930"
  using rand_park_miller [of 0] by simp

section \<open>Numbers and padding\<close>

lemma pad_before_eq: "pad_before width padc padn = (replicate (nat (padn - width)) padc, min padn width)"
proof (induction width padc padn rule: pad_before.induct)
  case (1 width padc padn)
  show ?case
  proof (cases "width < padn")
    case True
    then have "nat (padn - width) = Suc (nat (padn - 1 - width))" by linarith
    then show ?thesis using 1 [OF True] True by (subst pad_before.simps) (simp add: min_def)
  qed (subst pad_before.simps, simp)
qed

lemma pad_after_eq: "pad_after width padc padn = replicate (nat (- padn - width)) padc"
proof (induction width padc padn rule: pad_after.induct)
  case (1 width padc padn)
  show ?case
  proof (cases "width < - padn")
    case True
    then have "nat (- padn - width) = Suc (nat (- (padn + 1) - width))" by linarith
    then show ?thesis using 1 [OF True] True by (subst pad_after.simps) simp
  qed (subst pad_after.simps, simp)
qed

text \<open>A text padded to the width \<open>padn\<close>, on the right when it is negative.\<close>

definition padded :: "char \<Rightarrow> int \<Rightarrow> string \<Rightarrow> string" where
  "padded padc padn str = replicate (nat (padn - int (length str))) padc @ str
     @ replicate (nat (- padn - int (length str))) padc"

lemma length_padded: "length (padded padc padn str) = max (length str) (nat \<bar>padn\<bar>)"
  by (simp add: padded_def)

lemma string_print_eq:
  assumes "INT_MIN < padn" "padn \<le> INT_MAX"
  shows "string_print (Some str) padc padn
    = Inr (padded padc padn str, int (length (padded padc padn str)))"
  using assms by (auto simp: string_print_def padded_def pad_before_eq pad_after_eq int_c_def Let_def)

lemma num_digits_snoc:
  assumes "num_digits room unum radix = Inr ds"
  shows "ds \<noteq> [] \<and> length ds \<le> room"
  using assms by (induction room unum radix arbitrary: ds rule: num_digits.induct)
    (auto simp: Let_def andthen_eq_Inr_iff split: if_splits)

lemma unsigned_num_print_eq:
  assumes "INT_MIN < padn" "padn \<le> INT_MAX"
  shows "unsigned_num_print unum radix padc padn
    = andthen (num_digits NUM_BUF unum radix) (\<lambda>ds.
        Inr (padded padc padn (rev ds), int (length (padded padc padn (rev ds)))))"
  using assms
  by (cases "num_digits NUM_BUF unum radix")
    (auto simp: unsigned_num_print_def padded_def pad_before_eq pad_after_eq int_c_def Let_def)

text \<open>The value of a digit, and of a list of them with the least significant first.\<close>

definition digit_value :: "char \<Rightarrow> nat" where
  "digit_value c = (if is_digit c then of_char c - 48 else of_char c - 87)"

fun digits_value :: "nat \<Rightarrow> string \<Rightarrow> nat" where
  "digits_value radix [] = 0"
| "digits_value radix (d # ds) = digit_value d + radix * digits_value radix ds"

lemma digit_value_char: "r < 16 \<Longrightarrow> digit_value (digit_char r) = r"
  by (auto simp: digit_value_def digit_char_def is_digit_def of_char_of)

lemma digit_char_0: "r < 16 \<Longrightarrow> digit_char r = CHR ''0'' \<longleftrightarrow> r = 0"
proof
  assume r: "r < 16" and "digit_char r = CHR ''0''"
  then have "digit_value (digit_char r) = 0" by (simp add: digit_value_def is_digit_def)
  then show "r = 0" using digit_value_char [OF r] by simp
qed (simp add: digit_char_def char_of_eq_iff)

text \<open>The digits of a number: never too many for the buffer, and without leading zeros.\<close>

lemma num_digits_value:
  assumes "radix = 10 \<or> radix = 16" and "unat unum < unat radix ^ room"
  shows "0 < room \<Longrightarrow> \<exists>ds. num_digits room unum radix = Inr ds \<and> digits_value (unat radix) ds = unat unum
    \<and> ds \<noteq> [] \<and> (last ds = CHR ''0'' \<longrightarrow> unum = 0 \<and> ds = ''0'') \<and> (\<forall>d \<in> set ds. digit_value d < unat radix)"
  using assms(2)
proof (induction room arbitrary: unum)
  case (Suc room)
  have r: "unat radix \<le> 16" "10 \<le> unat radix" using assms(1) by auto
  define q m where "q = unum div radix" and "m = unat (unum mod radix)"
  have m: "m < unat radix" unfolding m_def using r by (simp add: unat_mod)
  have q: "unat q = unat unum div unat radix" unfolding q_def by (rule unat_div)
  have val: "unat unum = m + unat radix * unat q"
    unfolding q m_def by (simp add: unat_mod)
  let ?d = "digit_char m"
  have dv: "digit_value ?d = m" using m r by (simp add: digit_value_char)
  show ?case
  proof (cases "q = 0")
    case True
    then have "unum = 0" if "?d = CHR ''0''" using that digit_char_0 [of m] m r val by (simp add: unat_eq_zero)
    moreover have "num_digits (Suc room) unum radix = Inr [?d]" using True by (simp add: q_def m_def)
    ultimately show ?thesis using dv val True m by (intro exI [of _ "[?d]"]) auto
  next
    case False
    have q0: "0 < unat q" using False by (simp add: unat_gt_0)
    have lt: "unat q < unat radix ^ room"
      unfolding q using Suc.prems(2) r by (simp add: less_mult_imp_div_less mult.commute)
    then have "room \<noteq> 0" using q0 by (cases room) auto
    then obtain ds where ds: "num_digits room q radix = Inr ds" "digits_value (unat radix) ds = unat q" "ds \<noteq> []"
      "last ds = CHR ''0'' \<longrightarrow> q = 0 \<and> ds = ''0''" "\<forall>d \<in> set ds. digit_value d < unat radix"
      using Suc.IH [of q] lt by auto
    have "num_digits (Suc room) unum radix = Inr (?d # ds)"
      using ds(1) False by (simp add: q_def m_def word_greater_zero_iff)
    moreover have "last (?d # ds) \<noteq> CHR ''0''" using ds(3,4) False by auto
    ultimately show ?thesis using ds dv val m by (intro exI [of _ "?d # ds"]) auto
  qed
qed simp

lemma num_buf_fits: "unat (unum :: u64) < 10 ^ NUM_BUF" "unat unum < 16 ^ NUM_BUF"
  using unat_less_2p [of unum] by simp_all

text \<open>C26: printing an unsigned 64-bit number in decimal or hexadecimal never overruns \<open>num_buf\<close>; what is printed
  is the number's digits, most significant first and without leading zeros, padded to the asked width
  on the asked side, and the count returned is the number of characters printed.\<close>

theorem unsigned_num_print_spec:
  assumes "radix = 10 \<or> radix = 16" and "INT_MIN < padn" "padn \<le> INT_MAX"
  shows "\<exists>ds. unsigned_num_print unum radix padc padn = Inr (padded padc padn ds, int (length (padded padc padn ds)))
    \<and> digits_value (unat radix) (rev ds) = unat unum \<and> (\<forall>d \<in> set ds. digit_value d < unat radix)
    \<and> (unum \<noteq> 0 \<longrightarrow> hd ds \<noteq> CHR ''0'')
    \<and> length (padded padc padn ds) = max (length ds) (nat \<bar>padn\<bar>)"
proof -
  obtain ds where ds: "num_digits NUM_BUF unum radix = Inr ds" "digits_value (unat radix) ds = unat unum" "ds \<noteq> []"
    "last ds = CHR ''0'' \<longrightarrow> unum = 0" "\<forall>d \<in> set ds. digit_value d < unat radix"
    using num_digits_value [OF assms(1), of unum NUM_BUF] num_buf_fits [of unum] assms(1) by auto
  show ?thesis
    unfolding unsigned_num_print_eq [OF assms(2,3)] ds(1)
    using ds(2-5) length_padded [of padc padn "rev ds"] by (intro exI [of _ "rev ds"]) (auto simp: hd_rev)
qed

theorem unsigned_num_print_spec_witness:
  "\<exists>ds. unsigned_num_print 0xFFFFFFFFFFFFFFFF 10 CHR ''0'' 24
       = Inr (padded CHR ''0'' 24 ds, int (length (padded CHR ''0'' 24 ds)))
     \<and> digits_value 10 (rev ds) = 0xFFFFFFFFFFFFFFFF"
  using unsigned_num_print_spec [of 10 24 "0xFFFFFFFFFFFFFFFF" "CHR ''0''"] by auto

section \<open>Truncation\<close>

lemma aput_append: "aput (xs @ y # ys) (length xs) c = Inr (xs @ c # ys)"
  by (simp add: aput_def)

lemma sn_pad_before_eq:
  "sn_pad_before n width padc padn st
    = andthen (sn_string_print n (replicate (nat (padn - width)) padc) st) (\<lambda>st. Inr (min padn width, st))"
proof (induction n width padc padn st rule: sn_pad_before.induct)
  case (1 n width padc padn st)
  show ?case
  proof (cases "width < padn")
    case True
    then have "nat (padn - width) = Suc (nat (padn - 1 - width))" by linarith
    then show ?thesis using 1 [OF True] True
      by (subst sn_pad_before.simps) (cases "sn_put n padc st", auto simp: min_def)
  qed (subst sn_pad_before.simps, simp)
qed

lemma sn_pad_after_eq:
  "sn_pad_after n width padc padn st = sn_string_print n (replicate (nat (- padn - width)) padc) st"
proof (induction n width padc padn st rule: sn_pad_after.induct)
  case (1 n width padc padn st)
  show ?case
  proof (cases "width < - padn")
    case True
    then have "nat (- padn - width) = Suc (nat (- (padn + 1) - width))" by linarith
    then show ?thesis using 1 [OF True] True by (subst sn_pad_after.simps) (cases "sn_put n padc st", auto)
  qed (subst sn_pad_after.simps, simp)
qed

text \<open>
  The text a conversion and a format stand for, without any buffer; the padding of a number follows its sign.
\<close>

definition num_text :: "u64 \<Rightarrow> u64 \<Rightarrow> char \<Rightarrow> int \<Rightarrow> string res" where
  "num_text unum radix padc padn =
     andthen (num_digits NUM_BUF unum radix) (\<lambda>ds.
     if padn < 0 then andthen (int_c (- padn)) (\<lambda>_. Inr (padded padc padn (rev ds)))
     else Inr (padded padc padn (rev ds)))"

definition conv_text :: "char \<Rightarrow> nat \<Rightarrow> char \<Rightarrow> int \<Rightarrow> vararg list \<Rightarrow> (string \<times> vararg list) res" where
  "conv_text c l_count padc padn args =
     (if c = CHR ''i'' \<or> c = CHR ''d''
      then andthen (get_num_va_args args l_count) (\<lambda>(num, args).
           let num = signed_take_bit 31 num
           in if num < 0
              then if num = INT_MIN then Inl Undefined
                   else andthen (num_text (word_of_int (- num)) 10 padc padn) (\<lambda>t. Inr (CHR ''-'' # t, args))
              else andthen (num_text (word_of_int num) 10 padc padn) (\<lambda>t. Inr (t, args)))
      else if c = CHR ''s''
      then andthen (get_str_va_arg args) (\<lambda>(str, args). case str of None \<Rightarrow> Inl Undefined | Some t \<Rightarrow> Inr (t, args))
      else if c = CHR ''u'' \<or> c = CHR ''x''
      then andthen (get_unum_va_args args l_count) (\<lambda>(unum, args).
           andthen (num_text unum (if c = CHR ''x'' then 16 else 10) padc padn) (\<lambda>t. Inr (t, args)))
      else Inl AssertFail)"

function format_text :: "string \<Rightarrow> vararg list \<Rightarrow> string res" where
  "format_text [] args = Inr []"
| "format_text (c # fmt) args =
     (if c = CHR ''%''
      then andthen (format_loop False fmt 0 False (char_of (0 :: nat)) 0) (\<lambda>(conv, l_count, padc, padn, rest).
           case conv of
             None \<Rightarrow> Inl AssertFail
           | Some k \<Rightarrow>
               andthen (conv_text k l_count padc padn args) (\<lambda>(t, args).
               andthen (format_text rest args) (\<lambda>u. Inr (t @ u))))
      else andthen (format_text fmt args) (\<lambda>u. Inr (c # u)))"
  by pat_completeness auto
termination
  by (relation "measure (\<lambda>(fmt, _). length fmt)") (auto dest!: format_loop_length)

text \<open>The state reached from an empty buffer by writing \<open>t\<close>.\<close>

definition sn_wrote :: "char list \<Rightarrow> nat \<Rightarrow> string \<Rightarrow> sn_state" where
  "sn_wrote buf n t = (take n t @ drop (min n (length t)) buf, min n (length t), length t)"

lemma sn_put_wrote:
  assumes "n \<le> length buf"
  shows "sn_put n c (sn_wrote buf n t) = Inr (sn_wrote buf n (t @ [c]))"
proof (cases "length t < n")
  case True
  then have "drop (length t) buf = buf ! length t # drop (Suc (length t)) buf"
    using assms by (simp add: Cons_nth_drop_Suc)
  then show ?thesis using True assms by (simp add: sn_put_def sn_wrote_def aput_def list_update_append)
next
  case False
  then show ?thesis by (simp add: sn_put_def sn_wrote_def)
qed

lemma sn_string_wrote:
  "n \<le> length buf \<Longrightarrow> sn_string_print n u (sn_wrote buf n t) = Inr (sn_wrote buf n (t @ u))"
  by (induction u arbitrary: t) (simp_all add: sn_put_wrote)

lemma sn_num_wrote:
  assumes "n \<le> length buf"
  shows "sn_unsigned_num_print n unum radix padc padn (sn_wrote buf n t)
    = andthen (num_text unum radix padc padn) (\<lambda>u. Inr (sn_wrote buf n (t @ u)))"
proof (cases "num_digits NUM_BUF unum radix")
  case (Inr ds)
  consider "padn > 0" | "padn = 0" | "padn < 0" by linarith
  then show ?thesis
  proof cases
    case 1
    then have "\<not> min padn (int (length ds)) < 0" by simp
    then show ?thesis using 1 Inr assms
      by (simp add: sn_unsigned_num_print_def num_text_def sn_pad_before_eq sn_string_wrote padded_def Let_def)
  next
    case 2
    then show ?thesis using Inr assms
      by (simp add: sn_unsigned_num_print_def num_text_def sn_string_wrote padded_def Let_def)
  next
    case 3
    then show ?thesis using Inr assms
      by (cases "int_c (- padn)")
        (simp_all add: sn_unsigned_num_print_def num_text_def sn_pad_after_eq sn_string_wrote padded_def Let_def)
  qed
qed (simp add: sn_unsigned_num_print_def num_text_def)

lemma sn_conv_wrote:
  assumes "n \<le> length buf"
  shows "sn_conv n c l_count padc padn args (sn_wrote buf n t)
    = andthen (conv_text c l_count padc padn args) (\<lambda>(u, args). Inr (sn_wrote buf n (t @ u), args))"
proof -
  note w = sn_put_wrote [OF assms] sn_num_wrote [OF assms] sn_string_wrote [OF assms]
  consider (d) "c = CHR ''i'' \<or> c = CHR ''d''" | (s) "c = CHR ''s''" | (u) "c = CHR ''u'' \<or> c = CHR ''x''"
    | (bad) "c \<noteq> CHR ''i''" "c \<noteq> CHR ''d''" "c \<noteq> CHR ''s''" "c \<noteq> CHR ''u''" "c \<noteq> CHR ''x''" by blast
  then show ?thesis
  proof cases
    case d
    then show ?thesis unfolding sn_conv_def conv_text_def
      by (cases "get_num_va_args args l_count") (simp_all add: w andthen_assoc Let_def split: prod.split)
  next
    case s
    then show ?thesis unfolding sn_conv_def conv_text_def
      by (cases "get_str_va_arg args") (simp_all add: w andthen_assoc split: prod.split option.split)
  next
    case u
    then show ?thesis unfolding sn_conv_def conv_text_def
      by (cases "get_unum_va_args args l_count") (auto simp: w andthen_assoc split: prod.split)
  qed (simp add: sn_conv_def conv_text_def)
qed

lemma vsnprintf_from_wrote:
  assumes n: "n \<le> length buf"
  shows "vsnprintf_from n fmt args (sn_wrote buf n t)
    = andthen (format_text fmt args) (\<lambda>u. Inr (sn_wrote buf n (t @ u)))"
proof (induction fmt args arbitrary: t rule: format_text.induct)
  case (2 c fmt args)
  show ?case
  proof (cases "c = CHR ''%''")
    case True
    show ?thesis
    proof (cases "format_loop False fmt 0 False (char_of (0 :: nat)) 0")
      case (Inr x)
      obtain conv l_count padc padn rest where x: "x = (conv, l_count, padc, padn, rest)" by (cases x)
      note f = Inr [unfolded x]
      show ?thesis
      proof (cases conv)
        case (Some k)
        show ?thesis
        proof (cases "conv_text k l_count padc padn args")
          case (Inr y)
          obtain u args' where y: "y = (u, args')" by (cases y)
          have "vsnprintf_from n rest args' (sn_wrote buf n (t @ u))
              = andthen (format_text rest args') (\<lambda>v. Inr (sn_wrote buf n ((t @ u) @ v)))"
            by (rule 2(1) [OF True f refl refl refl refl Some Inr [unfolded y] refl])
          then show ?thesis using True f Some Inr y n by (simp add: sn_conv_wrote andthen_assoc)
        qed (use True f Some n in \<open>simp add: sn_conv_wrote\<close>)
      qed (use True f in simp)
    qed (use True in simp)
  next
    case False
    then show ?thesis using 2(2) [OF False, of "t @ [c]"] n by (simp add: sn_put_wrote andthen_assoc)
  qed
qed simp

lemma vsnprintf_eq:
  assumes "n \<le> length buf"
  shows "vsnprintf buf n fmt args = andthen (format_text fmt args) (\<lambda>t.
    Inr (if n = 0 then buf else take (n - 1) t @ char_of (0 :: nat) # drop (Suc (min (n - 1) (length t))) buf,
         signed_take_bit 31 (int (length t))))"
proof -
  have w: "vsnprintf_from m fmt args (b, 0, 0) = andthen (format_text fmt args) (\<lambda>u. Inr (sn_wrote b m u))"
    if "m \<le> length b" for b m
    using vsnprintf_from_wrote [OF that, of fmt args "[]"] by (simp add: sn_wrote_def)
  consider "n = 0" | "n = 1" | "1 < n" by linarith
  then show ?thesis
  proof cases
    case 1
    then show ?thesis
      by (cases "format_text fmt args") (simp_all add: vsnprintf_def w sn_wrote_def)
  next
    case 2
    then have "buf \<noteq> []" using assms by auto
    then have "aput buf 0 (char_of (0 :: nat)) = Inr (char_of (0 :: nat) # drop (Suc 0) buf)"
      by (cases buf) (simp_all add: aput_def)
    then show ?thesis using 2
      by (cases "format_text fmt args") (simp_all add: vsnprintf_def w sn_wrote_def)
  next
    case 3
    have "aput (take (n - 1) t @ drop (min (n - 1) (length t)) buf) (min (n - 1) (length t)) c
        = Inr (take (n - 1) t @ c # drop (Suc (min (n - 1) (length t))) buf)" for t c
    proof -
      have "min (n - 1) (length t) < length buf" using 3 assms by linarith
      then have "drop (min (n - 1) (length t)) buf
          = buf ! min (n - 1) (length t) # drop (Suc (min (n - 1) (length t))) buf"
        by (simp add: Cons_nth_drop_Suc)
      then show ?thesis
        using aput_append [of "take (n - 1) t"] by (simp add: min.commute)
    qed
    then show ?thesis using 3 assms
      by (cases "format_text fmt args") (simp_all add: vsnprintf_def w sn_wrote_def)
  qed
qed

text \<open>C25: \<open>vsnprintf\<close> into a buffer of at least \<open>n\<close> bytes never writes outside the buffer; it stores as much of the text
  the format stands for as fits in \<open>n - 1\<close> bytes, then a terminator, leaves the rest of the buffer alone, and
  returns the length of the whole text. With \<open>n = 0\<close> nothing is written.\<close>

theorem vsnprintf_spec:
  assumes "n \<le> length buf"
  shows "vsnprintf buf n fmt args = andthen (format_text fmt args) (\<lambda>t.
    Inr (if n = 0 then buf else take (n - 1) t @ char_of (0 :: nat) # drop (Suc (min (n - 1) (length t))) buf,
         signed_take_bit 31 (int (length t))))"
  using assms by (rule vsnprintf_eq)

lemma digits_12: "num_digits 20 12 10 = Inr ''21''"
  by code_simp

theorem vsnprintf_spec_witness:
  "vsnprintf (replicate 8 CHR ''.'') 6 ''cpu %u of %s'' [VInt 12, VStr ''x''] = Inr (''cpu 1'' @ char_of (0 :: nat) # replicate 2 CHR ''.'', 11)"
  using vsnprintf_spec [of 6 "replicate 8 CHR ''.''" "''cpu %u of %s''" "[VInt 12, VStr ''x'']"]
  by (simp add: conv_text_def num_text_def padded_def is_digit_def digits_12)

section \<open>printf against snprintf\<close>

text \<open>A conversion specification without width, zero padding or length, and a format all of whose specifications are
  such; the literal text around them is arbitrary.\<close>

definition plain_spec :: "string \<Rightarrow> bool" where
  "plain_spec fmt \<longleftrightarrow> (case dropWhile (\<lambda>c. c = CHR ''-'') fmt of
     [] \<Rightarrow> True | c # _ \<Rightarrow> \<not> is_digit c \<and> c \<noteq> CHR ''l'' \<and> c \<noteq> CHR ''z'')"

fun plain_format :: "string \<Rightarrow> bool" where
  "plain_format [] \<longleftrightarrow> True"
| "plain_format (c # fmt) \<longleftrightarrow> (c = CHR ''%'' \<longrightarrow> plain_spec fmt) \<and> plain_format fmt"

lemma format_loop_plain:
  assumes "plain_spec fmt" "plain_format fmt"
  obtains conv rest where "format_loop z fmt l_count left padc padn = Inr (conv, l_count, padc, padn, rest)"
    and "format_loop False fmt l_count left padc padn = Inr (conv, l_count, padc, padn, rest)" "plain_format rest"
proof -
  have "\<exists>conv rest. (\<forall>z. format_loop z fmt l_count left padc padn = Inr (conv, l_count, padc, padn, rest))
      \<and> plain_format rest"
    using assms
  proof (induction fmt arbitrary: left)
    case (Cons c fmt)
    have d: "is_digit CHR ''0''" "\<not> is_digit CHR ''-''" by (simp_all add: is_digit_def)
    have pf: "plain_format fmt" using Cons.prems(2) by simp
    show ?case
    proof (cases "c = CHR ''-''")
      case True
      then have "format_loop z (c # fmt) l_count left padc padn = format_loop z fmt l_count True padc padn" for z
        using d by simp
      moreover have "plain_spec fmt" using Cons.prems(1) True by (simp add: plain_spec_def)
      ultimately show ?thesis using Cons.IH [OF _ pf, of True] by simp
    next
      case False
      with Cons.prems(1) have "\<not> is_digit c" "c \<noteq> CHR ''l''" "c \<noteq> CHR ''z''"
        by (simp_all add: plain_spec_def)
      moreover from this have "c \<noteq> CHR ''0''" using d(1) by blast
      ultimately have "format_loop z (c # fmt) l_count left padc padn = Inr (Some c, l_count, padc, padn, fmt)" for z
        using False by simp
      then show ?thesis using pf by blast
    qed
  qed simp
  then show thesis using that by blast
qed

lemma num_text_plain: "num_text unum radix padc 0 = andthen (num_digits NUM_BUF unum radix) (\<lambda>ds. Inr (rev ds))"
  by (simp add: num_text_def padded_def)

lemma padded_small: "ds \<noteq> [] \<Longrightarrow> padded padc (- 1) ds = ds"
  by (cases ds) (simp_all add: padded_def)

lemma num_print_small:
  assumes "num_digits NUM_BUF unum radix = Inr ds" and "padn = 0 \<or> padn = - 1"
  shows "unsigned_num_print unum radix padc padn = Inr (rev ds, int (length ds))"
  using assms num_digits_snoc [OF assms(1)]
  by (auto simp: unsigned_num_print_eq padded_small) (simp_all add: padded_def)

lemma conv_plain:
  assumes "conv_text k 0 padc 0 args = Inr (t, args')"
  shows "\<exists>n. printf_conv k 0 padc 0 args = Inr (Some (t, n, args'))"
proof -
  consider (d) "k = CHR ''i'' \<or> k = CHR ''d''" | (s) "k = CHR ''s''" | (u) "k = CHR ''u'' \<or> k = CHR ''x''"
    using assms by (auto simp: conv_text_def split: if_splits)
  then show ?thesis
  proof cases
    case d
    then obtain num where g: "get_num_va_args args 0 = Inr (num, args')"
      using assms by (auto simp: conv_text_def andthen_eq_Inr_iff Let_def split: if_splits)
    then obtain w where w: "num = sint (w :: u32)" by (cases args rule: list.exhaust; cases "hd args") auto
    have b: "- (2 ^ 31) \<le> num" "num < 2 ^ 31" unfolding w using sint_greater_eq [of w] sint_less [of w] by simp_all
    then have s: "signed_take_bit 31 num = num" by (simp add: signed_take_bit_int_eq_self_iff)
    note t = assms [unfolded conv_text_def g andthen_Inr prod.case Let_def s num_text_plain]
    show ?thesis
    proof (cases "num < 0")
      case True
      then obtain ds where ds: "num_digits NUM_BUF (word_of_int (- num)) 10 = Inr ds" "t = CHR ''-'' # rev ds"
        using d t by (auto simp: andthen_eq_Inr_iff split: if_splits)
      have p: "int_c (- 1) = Inr (- 1)" by (simp add: int_c_def)
      have "printf_conv k 0 padc 0 args = Inr (Some (t, int (length ds), args'))"
        unfolding printf_conv_def g using d True b num_print_small [OF ds(1), of "- 1" padc] ds(2)
        by (simp add: p)
      then show ?thesis by blast
    next
      case False
      then obtain ds where ds: "num_digits NUM_BUF (word_of_int num) 10 = Inr ds" "t = rev ds"
        using d t by (auto simp: andthen_eq_Inr_iff split: if_splits)
      have "printf_conv k 0 padc 0 args = Inr (Some (t, int (length ds), args'))"
        unfolding printf_conv_def g using d False num_print_small [OF ds(1), of 0 padc] ds(2) by simp
      then show ?thesis by blast
    qed
  next
    case s
    then show ?thesis using assms
      by (auto simp: conv_text_def printf_conv_def andthen_eq_Inr_iff string_print_eq padded_def split: option.splits)
  next
    case u
    then show ?thesis using assms
      by (auto simp: conv_text_def printf_conv_def andthen_eq_Inr_iff num_text_plain num_print_small split: if_splits)
  qed
qed

abbreviation (input) nul :: char where "nul \<equiv> char_of (0 :: nat)"

lemma format_text_percent:
  assumes "format_text (CHR ''%'' # fmt) args = Inr t"
    and "format_loop False fmt 0 False nul 0 = Inr (conv, l_count, padc, padn, rest)"
  obtains k u args' v where "conv = Some k" "conv_text k l_count padc padn args = Inr (u, args')"
    "format_text rest args' = Inr v" "t = u @ v"
  using assms by (cases conv) (auto simp: andthen_eq_Inr_iff)

lemma vprintf_from_text:
  assumes "plain_format fmt" "format_text fmt args = Inr t"
  shows "\<exists>k. vprintf_from fmt args out count = Inr (out @ t, k)"
  using assms
proof (induction "length fmt" arbitrary: fmt args out count t rule: less_induct)
  case less
  show ?case
  proof (cases fmt)
    case Nil
    then show ?thesis using less.prems(2) by simp
  next
    case (Cons c fs)
    have fs: "plain_format fs" using less.prems(1) Cons by simp
    show ?thesis
    proof (cases "c = CHR ''%''")
      case True
      have ps: "plain_spec fs" using less.prems(1) Cons True by simp
      obtain conv rest where f: "format_loop True fs 0 False nul 0 = Inr (conv, 0, nul, 0, rest)"
        "format_loop False fs 0 False nul 0 = Inr (conv, 0, nul, 0, rest)" "plain_format rest"
        by (rule format_loop_plain [OF ps fs, of True 0 False nul 0])
      obtain k u args' v where k: "conv = Some k" "conv_text k 0 nul 0 args = Inr (u, args')"
        "format_text rest args' = Inr v" "t = u @ v"
        by (rule format_text_percent [OF less.prems(2) [unfolded Cons True] f(2)])
      obtain n where n: "printf_conv k 0 nul 0 args = Inr (Some (u, n, args'))"
        using conv_plain [OF k(2)] by blast
      have "length rest < length fmt" using format_loop_length [OF f(1)] Cons by simp
      then have "\<exists>m. vprintf_from rest args' (out @ u) (count + n) = Inr ((out @ u) @ v, m)"
        using f(3) k(3) by (rule less.hyps)
      then show ?thesis using Cons True f(1) k(1,4) n by simp
    next
      case False
      obtain v where v: "format_text fs args = Inr v" "t = c # v"
        using less.prems(2) Cons False by (auto simp: andthen_eq_Inr_iff)
      have "\<exists>m. vprintf_from fs args (out @ [c]) (count + 1) = Inr ((out @ [c]) @ v, m)"
        using Cons fs v(1) by (intro less.hyps) simp_all
      then show ?thesis using Cons False v(2) by simp
    qed
  qed
qed

text \<open>C27: for a format whose conversion specifications have no width, zero padding or length (its literal text is
  arbitrary), with arguments that make the text of \<open>vsnprintf\<close> defined and a buffer the text fits in, the two
  printers agree: \<open>vprintf\<close> gives to the console the text \<open>vsnprintf\<close> stores.\<close>

theorem printf_agrees_snprintf:
  assumes "plain_format fmt" and "length t < n" "n \<le> length buf"
    and "format_text fmt args = Inr t"
  shows "\<exists>k. vprintf fmt args = Inr (t, k)
    \<and> vsnprintf buf n fmt args = Inr (t @ char_of (0 :: nat) # drop (Suc (length t)) buf, signed_take_bit 31 (int (length t)))"
proof -
  have "min (n - 1) (length t) = length t" "take (n - 1) t = t" "n \<noteq> 0"
    using assms(2) by simp_all
  then show ?thesis
    using vprintf_from_text [OF assms(1,4), of "[]" 0] vsnprintf_eq [OF assms(3), of fmt args] assms(4)
    by (simp add: vprintf_def)
qed

lemma printf_plain_example: "format_text ''hello 10: %u%s'' [VInt 12, VStr ''x''] = Inr ''hello 10: 12x''"
  by (simp add: conv_text_def num_text_def padded_def is_digit_def digits_12)

theorem printf_agrees_snprintf_witness:
  "\<exists>k. vprintf ''hello 10: %u%s'' [VInt 12, VStr ''x''] = Inr (''hello 10: 12x'', k)"
proof -
  have "plain_format ''hello 10: %u%s''" by (simp add: is_digit_def plain_spec_def)
  then show ?thesis
    using printf_agrees_snprintf [of "''hello 10: %u%s''" "''hello 10: 12x''" 20 "replicate 20 CHR ''.''"
        "[VInt 12, VStr ''x'']"]
      printf_plain_example by auto
qed

text \<open>C29: a negative number printed by \<open>vprintf\<close> with a field width: the sign comes before the padding, a left-justified
  field is two characters wider than asked, and the sign is not counted in the returned value.\<close>

theorem printf_negative_width:
  assumes "sint w < 0" "0 < k" "k < INT_MAX"
  shows "\<exists>ds. digits_value 10 (rev ds) = nat (- sint (w :: u32)) \<and>
    printf_conv CHR ''d'' 0 padc k [VInt w]
      = Inr (Some (CHR ''-'' # replicate (nat (k - 1 - int (length ds))) padc @ ds,
          max (int (length ds)) (k - 1), []))
    \<and> printf_conv CHR ''d'' 0 padc (- k) [VInt w]
      = Inr (Some (CHR ''-'' # ds @ replicate (nat (k + 1 - int (length ds))) padc,
          max (int (length ds)) (k + 1), []))"
proof -
  let ?u = "word_of_int (- sint w) :: u64"
  have b: "- (2 ^ 31) \<le> sint w" using sint_greater_eq [of w] by simp
  have u: "unat ?u = nat (- sint w)"
    using b assms(1) by (simp add: unsigned_of_int take_bit_int_eq_self del: of_int_minus word_of_int_minus)
  obtain ds where ds: "num_digits NUM_BUF ?u 10 = Inr ds" "digits_value 10 ds = nat (- sint w)"
    using num_digits_value [of 10 ?u NUM_BUF] num_buf_fits [of ?u] u by auto
  have p: "unsigned_num_print ?u 10 padc m
      = Inr (padded padc m (rev ds), int (length (padded padc m (rev ds))))" if "INT_MIN < m" "m \<le> INT_MAX" for m
    using unsigned_num_print_eq [OF that, of ?u 10 padc] ds(1) by simp
  have c: "printf_conv CHR ''d'' 0 padc m [VInt w]
      = Inr (Some (CHR ''-'' # padded padc (m - 1) (rev ds), int (length (padded padc (m - 1) (rev ds))), []))"
    if "INT_MIN < m - 1" "m - 1 \<le> INT_MAX" for m
    using p [OF that] that assms(1) b by (simp add: printf_conv_def int_c_def del: of_int_minus word_of_int_minus)
  have m: "int (max (length ds) (nat (k - 1))) = max (int (length ds)) (k - 1)"
    "int (max (length ds) (nat (k + 1))) = max (int (length ds)) (k + 1)"
    using assms(2) by linarith+
  show ?thesis
    using c [of k] c [of "- k"] assms(2,3) ds(2) m
    by (intro exI [of _ "rev ds"]) (simp add: length_padded add.commute, simp add: padded_def add.commute)
qed

theorem printf_negative_width_witness:
  "\<exists>ds. digits_value 10 (rev ds) = 12 \<and>
     printf_conv CHR ''d'' 0 CHR '' '' (- 5) [VInt (- 12)]
       = Inr (Some (CHR ''-'' # ds @ replicate (nat (6 - int (length ds))) CHR '' '', max (int (length ds)) 6, []))"
proof -
  have "sint (- 12 :: u32) = - 12" by simp
  then show ?thesis using printf_negative_width [of "- 12" 5 "CHR '' ''"] by fastforce
qed

end
