(* ===== verification/Tftf_Session.thy ===== *)
theory Tftf_Session
  imports Tftf_Nvm Tftf_Hotplug Tftf_Printf
begin

text \<open>
  The test session: \<open>src/tftf/framework/main.c\<close> and \<open>src/tftf/framework/report.c\<close>. The session state holds the data in
  non-volatile memory, the hotplug state, the topology, the static variables of \<open>main.c\<close>, whether the
  watchdog runs, and what has been printed on the console.

  The tests are not part of the framework: \<open>body ep S\<close> is what the function at the address \<open>ep\<close> does to the
  state and the result it returns. The list of tests is generated at build time and is a parameter, too:
  each list ends with an entry without a name.
\<close>

section \<open>Tests and state\<close>

record test_case =
  tc_index :: u32
  tc_name :: "string option"
  tc_description :: string
  tc_test :: u64

record test_suite =
  ts_name :: "string option"
  ts_description :: string
  ts_testcases :: "test_case list"

text \<open>
  \<open>DEBUG\<close> and \<open>RESET_AFTER_TEST\<close> (\<open>PLAT_SUPPORTS_NS_RESET && !NEW_TEST_SESSION && USE_NVM\<close>) are build options.
\<close>

record session_env =
  topo_e :: topo_env
  nvm_e :: nvm_env
  testsuites :: "test_suite list"
  DEBUG :: bool
  RESET_AFTER_TEST :: bool

record session =
  nv :: nvm_state
  hp :: hotplug
  tree :: topology
  lead_cpu_mpid :: u32
  test_results :: "u32 list"
  cpu_on_ctx_id_arr :: "u64 list"
  test_is_rebooting :: u32
  watchdog :: bool
  console :: string

abbreviation (input) nl :: char where "nl \<equiv> CHR 0x0A"

section \<open>Reports\<close>

definition say :: "string \<Rightarrow> vararg list \<Rightarrow> session \<Rightarrow> session res" where
  "say fmt args S = andthen (mp_printf fmt args (console S)) (\<lambda>c. Inr (S\<lparr>console := c\<rparr>))"

definition test_result_strings :: "string list" where
  "test_result_strings = [''Skipped'', ''Passed'', ''Failed'', ''Crashed'']"

definition test_result_to_string :: "u32 \<Rightarrow> string res" where
  "test_result_to_string r =
     andthen (assert_c (test_result_is_valid r)) (\<lambda>_. aget test_result_strings (unat r))"

text \<open>A name printed with \<open>%s\<close>; a missing one is a null pointer.\<close>

definition va_name :: "string option \<Rightarrow> vararg" where
  "va_name n = (case n of None \<Rightarrow> VPtr 0 | Some s \<Rightarrow> VStr s)"

definition print_testsuite_start :: "test_suite \<Rightarrow> session \<Rightarrow> session res" where
  "print_testsuite_start testsuite S =
     andthen (say (''--'' @ [nl]) [] S) (\<lambda>S.
     andthen (say (''Running test suite '' @ [CHR 0x27] @ ''%s'' @ [CHR 0x27, nl]) [va_name (ts_name testsuite)] S) (\<lambda>S.
     andthen (say (''Description: %s'' @ [nl]) [VStr (ts_description testsuite)] S) (\<lambda>S.
     say [nl] [] S)))"

definition print_test_start :: "test_case \<Rightarrow> session \<Rightarrow> session res" where
  "print_test_start test S = say (''> Executing '' @ [CHR 0x27] @ ''%s'' @ [CHR 0x27, nl]) [va_name (tc_name test)] S"

text \<open>The string in a buffer of bytes.\<close>

definition string_of :: "u8 list \<Rightarrow> string" where
  "string_of bs = map (\<lambda>b. char_of (unat b)) (takeWhile (\<lambda>b. b \<noteq> 0) bs)"

text \<open>The status of the read is ignored: what it leaves unset is used uninitialised.\<close>

definition print_test_end :: "session_env \<Rightarrow> test_case \<Rightarrow> session \<Rightarrow> session res" where
  "print_test_end E test S =
     andthen (tftf_testcase_get_result (nvm_e E) TESTCASE_OUTPUT_MAX_SIZE (tc_index test) (nv S)) (\<lambda>(_, r, out).
     case r of
       None \<Rightarrow> Inl Uninitialised
     | Some r \<Rightarrow>
         andthen (test_result_to_string (result r)) (\<lambda>s.
         andthen (say (''  TEST COMPLETE %54s'' @ [nl]) [VStr s] S) (\<lambda>S.
         case out of
           None \<Rightarrow> Inl Uninitialised
         | Some bs \<Rightarrow>
             andthen (if string_of bs \<noteq> [] then say ''%s'' [VStr (string_of bs)] S else Inr S) (\<lambda>S.
             say [nl] [] S))))"

text \<open>One suite of the summary: whether it passed, the number of its tests and the counts per result.\<close>

fun summary_tests ::
  "session_env \<Rightarrow> test_case list \<Rightarrow> bool \<times> nat \<times> nat list \<Rightarrow> session \<Rightarrow> ((bool \<times> nat \<times> nat list) \<times> session) res" where
  "summary_tests E [] acc S = Inl OutOfBounds"
| "summary_tests E (t # ts) (passed, total_tests, tests_stats) S =
     (if tc_name t = None then Inr ((passed, total_tests, tests_stats), S)
      else andthen (tftf_testcase_get_result (nvm_e E) TESTCASE_OUTPUT_MAX_SIZE (tc_index t) (nv S)) (\<lambda>(status, r, _).
        if status \<noteq> STATUS_SUCCESS
        then andthen (say (''Failed to get test result.'' @ [nl]) [] S) (\<lambda>S.
             summary_tests E ts (passed, total_tests, tests_stats) S)
        else case r of
            None \<Rightarrow> Inl Uninitialised
          | Some r \<Rightarrow>
              andthen (assert_c (test_result_is_valid (result r))) (\<lambda>_.
              andthen (aget tests_stats (unat (result r))) (\<lambda>n.
              summary_tests E ts
                (passed \<and> (result r = TEST_RESULT_SUCCESS \<or> result r = TEST_RESULT_SKIPPED),
                 total_tests + 1, tests_stats[unat (result r) := n + 1]) S))))"

fun summary_suites ::
  "session_env \<Rightarrow> test_suite list \<Rightarrow> nat \<times> nat list \<Rightarrow> session \<Rightarrow> ((nat \<times> nat list) \<times> session) res" where
  "summary_suites E [] acc S = Inl OutOfBounds"
| "summary_suites E (s # ss) (total_tests, tests_stats) S =
     (if ts_name s = None then Inr ((total_tests, tests_stats), S)
      else andthen (say (''> Test suite '' @ [CHR 0x27] @ ''%s'' @ [CHR 0x27, nl]) [va_name (ts_name s)] S) (\<lambda>S.
           andthen (summary_tests E (ts_testcases s) (True, total_tests, tests_stats) S) (\<lambda>((passed, total_tests, tests_stats), S).
           andthen (say (''%70s'' @ [nl]) [VStr (if passed then ''Passed'' else ''Failed'')] S) (\<lambda>S.
           summary_suites E ss (total_tests, tests_stats) S))))"

fun summary_stats :: "nat list \<Rightarrow> nat list \<Rightarrow> session \<Rightarrow> session res" where
  "summary_stats [] tests_stats S = Inr S"
| "summary_stats (i # is) tests_stats S =
     andthen (test_result_to_string (of_nat i)) (\<lambda>s.
     andthen (aget tests_stats i) (\<lambda>n.
     andthen (say (''Tests %-8s: %d'' @ [nl]) [VStr s, VInt (of_nat n)] S) (\<lambda>S.
     summary_stats is tests_stats S)))"

definition rule_off :: string where
  "rule_off = replicate 33 CHR ''='' @ [nl]"

definition print_tests_summary :: "session_env \<Rightarrow> session \<Rightarrow> session res" where
  "print_tests_summary E S =
     andthen (say (replicate 31 CHR ''*'' @ '' Summary '' @ replicate 31 CHR ''*'' @ [nl]) [] S) (\<lambda>S.
     andthen (summary_suites E (testsuites E) (0, replicate TEST_RESULT_MAX 0) S) (\<lambda>((total_tests, tests_stats), S).
     andthen (say rule_off [] S) (\<lambda>S.
     andthen (summary_stats [0..<TEST_RESULT_MAX] tests_stats S) (\<lambda>S.
     andthen (say (''%-14s: %d'' @ [nl]) [VStr ''Total tests'', VInt (of_nat total_tests)] S) (\<lambda>S.
     say rule_off [] S)))))"

section \<open>Walking the list of tests\<close>

definition get_ref_s :: "session_env \<Rightarrow> session \<Rightarrow> test_ref res" where
  "get_ref_s E S = (case snd (tftf_get_test_to_run (nvm_e E) (nv S)) of None \<Rightarrow> Inl Uninitialised | Some r \<Rightarrow> Inr r)"

definition get_progress_s :: "session_env \<Rightarrow> session \<Rightarrow> u32 res" where
  "get_progress_s E S = (case snd (tftf_get_test_progress (nvm_e E) (nv S)) of None \<Rightarrow> Inl Uninitialised | Some p \<Rightarrow> Inr p)"

definition set_progress_s :: "session_env \<Rightarrow> u32 \<Rightarrow> session \<Rightarrow> session" where
  "set_progress_s E p S = S\<lparr>nv := snd (tftf_set_test_progress (nvm_e E) p (nv S))\<rparr>"

definition current_testsuite :: "session_env \<Rightarrow> session \<Rightarrow> test_suite res" where
  "current_testsuite E S = andthen (get_ref_s E S) (\<lambda>r. aget (testsuites E) (unat (testsuite_idx r)))"

definition current_testcase :: "session_env \<Rightarrow> session \<Rightarrow> test_case res" where
  "current_testcase E S =
     andthen (get_ref_s E S) (\<lambda>r.
     andthen (aget (testsuites E) (unat (testsuite_idx r))) (\<lambda>s.
     aget (ts_testcases s) (unat (testcase_idx r))))"

definition move_to :: "session_env \<Rightarrow> u32 \<Rightarrow> u32 \<Rightarrow> session \<Rightarrow> session" where
  "move_to E i j S =
     set_progress_s E TEST_READY
       (S\<lparr>nv := snd (tftf_set_test_to_run (nvm_e E) \<lparr>testsuite_idx = i, testcase_idx = j\<rparr> (nv S))\<rparr>)"

definition advance_to_next_test :: "session_env \<Rightarrow> session \<Rightarrow> (test_case option \<times> session) res" where
  "advance_to_next_test E S =
     andthen (if DEBUG E then andthen (get_progress_s E S) (\<lambda>p. assert_c (p = TEST_COMPLETE)) else Inr ()) (\<lambda>_.
     andthen (get_ref_s E S) (\<lambda>r.
     let i = testsuite_idx r; j = testcase_idx r + 1
     in andthen (aget (testsuites E) (unat i)) (\<lambda>s.
        andthen (aget (ts_testcases s) (unat j)) (\<lambda>t.
        if tc_name t = None
        then andthen (aget (testsuites E) (unat (i + 1))) (\<lambda>s.
             if ts_name s = None then Inr (None, S)
             else andthen (aget (ts_testcases s) 0) (\<lambda>t. Inr (Some t, move_to E (i + 1) 0 S)))
        else Inr (Some t, move_to E i j S)))))"

section \<open>Preparing and closing a test\<close>

text \<open>
  \<open>answers mp\<close> are the values \<open>tftf_psci_affinity_info\<close> returns for the CPU \<open>mp\<close> at successive calls; the loop has
  not ended when they are used up.
\<close>

abbreviation (input) PSCI_STATE_ON :: u32 where "PSCI_STATE_ON \<equiv> 0"

fun wait_powered_off :: "u32 list \<Rightarrow> unit res" where
  "wait_powered_off [] = Inl Hang"
| "wait_powered_off (a # as) = (if a = PSCI_STATE_ON then wait_powered_off as else Inr ())"

fun check_cpus_off :: "session_env \<Rightarrow> (u32 \<Rightarrow> u32 list) \<Rightarrow> u32 list \<Rightarrow> session \<Rightarrow> unit res" where
  "check_cpus_off E answers [] S = Inr ()"
| "check_cpus_off E answers (c # cs) S =
     andthen (tftf_get_mpidr_from_node (topo_e E) (tree S) c) (\<lambda>mp.
     andthen (if mp = lead_cpu_mpid S
              then andthen (tftf_is_cpu_online (topo_e E) mp (hp S)) (\<lambda>on. assert_c on)
              else wait_powered_off (answers mp)) (\<lambda>_.
     check_cpus_off E answers cs S))"

definition prepare_next_test :: "session_env \<Rightarrow> (u32 \<Rightarrow> u32 list) \<Rightarrow> u32 \<Rightarrow> session \<Rightarrow> session res" where
  "prepare_next_test E answers mp S =
     andthen (assert_c (mp AND MPID_MASK = lead_cpu_mpid S)) (\<lambda>_.
     andthen (for_each_cpu (topo_e E) (tree S)) (\<lambda>cpus.
     andthen (check_cpus_off E answers cpus S) (\<lambda>_.
     andthen (assert_c (tftf_get_ref_cnt (hp S) = 0)) (\<lambda>_.
     andthen (current_testcase E S) (\<lambda>t.
     andthen (aput (test_entrypoint (hp S)) (pos (topo_e E) (lead_cpu_mpid S)) (tc_test t)) (\<lambda>eps.
     let S = S\<lparr>hp := (hp S)\<lparr>test_entrypoint := eps\<rparr>,
               test_results := replicate (unat (PLATFORM_CORE_COUNT (topo_e E))) TEST_RESULT_NA\<rparr>
     in andthen (get_ref_s E S) (\<lambda>r.
        andthen (if testcase_idx r = 0
                 then andthen (current_testsuite E S) (\<lambda>s. print_testsuite_start s S) else Inr S) (\<lambda>S.
        andthen (print_test_start t S) (\<lambda>S.
        Inr (set_progress_s E TEST_IN_PROGRESS (S\<lparr>watchdog := True\<rparr>)))))))))))"

fun overall_from :: "session_env \<Rightarrow> u32 list \<Rightarrow> u32 \<Rightarrow> session \<Rightarrow> u32 res" where
  "overall_from E [] res S = andthen (assert_c (res \<noteq> TEST_RESULT_NA)) (\<lambda>_. Inr res)"
| "overall_from E (c # cs) res S =
     andthen (tftf_get_mpidr_from_node (topo_e E) (tree S) c) (\<lambda>mp.
     andthen (aget (test_results S) (pos (topo_e E) mp)) (\<lambda>r.
     if r = TEST_RESULT_NA then overall_from E cs res S
     else if r = TEST_RESULT_SKIPPED then Inr TEST_RESULT_SKIPPED
     else if r = TEST_RESULT_SUCCESS then overall_from E cs TEST_RESULT_SUCCESS S
     else if r = TEST_RESULT_FAIL then Inr TEST_RESULT_FAIL
     else if r = TEST_RESULT_CRASHED then Inr TEST_RESULT_CRASHED
     else Inl Panic))"

definition get_overall_test_result :: "session_env \<Rightarrow> session \<Rightarrow> u32 res" where
  "get_overall_test_result E S =
     andthen (for_each_cpu (topo_e E) (tree S)) (\<lambda>cpus. overall_from E cpus TEST_RESULT_NA S)"

text \<open>What happens after a test: the session is over, goes on, or the platform is reset.\<close>

datatype after_test = SessionFinished | NextTest | PlatformReset

text \<open>The end of \<open>close_test\<close>, once the next test is known.\<close>

definition close_tail :: "session_env \<Rightarrow> test_case option \<times> session \<Rightarrow> (after_test \<times> session) res" where
  "close_tail E = (\<lambda>(next_test, S). case next_test of
     None \<Rightarrow> andthen (print_tests_summary E S) (\<lambda>S.
       Inr (SessionFinished, S\<lparr>nv := snd (tftf_clean_nvm (nvm_e E) (nv S))\<rparr>))
   | Some _ \<Rightarrow> Inr (if RESET_AFTER_TEST E then PlatformReset else NextTest, S))"

definition close_test :: "session_env \<Rightarrow> session \<Rightarrow> (after_test \<times> session) res" where
  "close_test E S =
     andthen (if DEBUG E then andthen (get_progress_s E S) (\<lambda>p. assert_c (p \<noteq> TEST_REBOOTING)) else Inr ()) (\<lambda>_.
     let S = (set_progress_s E TEST_COMPLETE S)\<lparr>test_is_rebooting := 0, watchdog := False\<rparr>
     in andthen (assert_c (tftf_get_ref_cnt (hp S) = 0)) (\<lambda>_.
        andthen (current_testcase E S) (\<lambda>t.
        andthen (get_overall_test_result E S) (\<lambda>r.
        andthen (tftf_testcase_set_result (nvm_e E) (tc_index t) r 0 (nv S)) (\<lambda>(_, n).
        let S = S\<lparr>nv := n\<rparr>
        in andthen (current_testcase E S) (\<lambda>t.
           andthen (print_test_end E t S) (\<lambda>S.
           andthen (advance_to_next_test E S) (close_tail E))))))))"

section \<open>Running the tests\<close>

text \<open>
  What the firmware does: the answers to successive AFFINITY_INFO calls for a CPU, to successive CPU_ON calls of an
  attempt to power the lead CPU on, to CPU_OFF, and whether a CPU that was powered on boots.
\<close>

record firmware =
  affinity_answers :: "session \<Rightarrow> u32 \<Rightarrow> u32 list"
  cpu_on_answers :: "session \<Rightarrow> nat \<Rightarrow> nat \<Rightarrow> u32"
  cpu_off_answer :: "session \<Rightarrow> u32 option"
  lead_boots :: "session \<Rightarrow> bool"

type_synonym test_bodies = "u64 \<Rightarrow> session \<Rightarrow> (u32 \<times> session) res"

datatype cpu_end = TestsOver | CpuOff | ResetNow

datatype run_next = Continue | Stop cpu_end

definition with_hp :: "session \<Rightarrow> (hotplug \<Rightarrow> ('a \<times> hotplug) res) \<Rightarrow> ('a \<times> session) res" where
  "with_hp S f = andthen (f (hp S)) (\<lambda>(x, H). Inr (x, S\<lparr>hp := H\<rparr>))"

text \<open>Powering the calling CPU off; a return from \<open>tftf_cpu_off\<close> ends in a panic.\<close>

definition power_off_self :: "session_env \<Rightarrow> firmware \<Rightarrow> u32 \<Rightarrow> session \<Rightarrow> session res" where
  "power_off_self E F mp S =
     andthen (with_hp S (tftf_cpu_off (topo_e E) (cpu_off_answer F S) mp)) (\<lambda>(r, S).
     case r of None \<Rightarrow> Inr S | Some _ \<Rightarrow> Inl Panic)"

abbreviation (input) MIN_RETRY_TO_POWER_ON_LEAD_CPU :: nat where "MIN_RETRY_TO_POWER_ON_LEAD_CPU \<equiv> 10"

fun power_on_lead :: "session_env \<Rightarrow> firmware \<Rightarrow> nat \<Rightarrow> u32 \<Rightarrow> session \<Rightarrow> (u32 \<times> session) res option" where
  "power_on_lead E F 0 ret S = Some (Inr (ret, S))"
| "power_on_lead E F (Suc tries) ret S =
     (case tftf_cpu_on (topo_e E) (cpu_on_answers F S tries) (lead_cpu_mpid S) 0 (hp S) of
        None \<Rightarrow> None
      | Some (Inl e) \<Rightarrow> Some (Inl e)
      | Some (Inr (ret, H)) \<Rightarrow>
          if ret = PSCI_E_SUCCESS then Some (Inr (ret, S\<lparr>hp := H\<rparr>))
          else power_on_lead E F tries ret (S\<lparr>hp := H\<rparr>))"

text \<open>The lead CPU sets itself online when it has booted; until then the caller waits.\<close>

definition hand_over_to_lead_cpu :: "session_env \<Rightarrow> firmware \<Rightarrow> u32 \<Rightarrow> session \<Rightarrow> session res option" where
  "hand_over_to_lead_cpu E F mp S =
     map_option (\<lambda>r.
       andthen r (\<lambda>(ret, S).
       if ret \<noteq> PSCI_E_SUCCESS then Inl Panic
       else andthen (if lead_boots F S
                     then andthen (tftf_set_cpu_online (topo_e E) (lead_cpu_mpid S) (hp S)) (\<lambda>H. Inr (S\<lparr>hp := H\<rparr>))
                     else Inr S) (\<lambda>S.
            andthen (tftf_is_cpu_online (topo_e E) (lead_cpu_mpid S) (hp S)) (\<lambda>on.
            if on then power_off_self E F mp S else Inl Hang))))
       (power_on_lead E F MIN_RETRY_TO_POWER_ON_LEAD_CPU 0 S)"

definition set_test_result :: "nat \<Rightarrow> u32 \<Rightarrow> session \<Rightarrow> session res" where
  "set_test_result i r S = andthen (aput (test_results S) i r) (\<lambda>rs. Inr (S\<lparr>test_results := rs\<rparr>))"

text \<open>From the increment of the reference count to its decrement.\<close>

definition enter_test :: "session_env \<Rightarrow> test_bodies \<Rightarrow> u32 \<Rightarrow> session \<Rightarrow> (u32 \<times> session) res" where
  "enter_test E body mp S =
     (let core_pos = pos (topo_e E) mp
      in andthen (with_hp S (tftf_inc_ref_cnt (topo_e E))) (\<lambda>(_, S).
         andthen (set_test_result core_pos TEST_RESULT_CRASHED S) (\<lambda>S.
         andthen (aget (test_entrypoint (hp S)) core_pos) (\<lambda>ep.
         if ep = 0 then Inl Hang
         else andthen (body ep S) (\<lambda>(r, S).
              andthen (set_test_result core_pos r S) (\<lambda>S.
              andthen (aput (test_entrypoint (hp S)) core_pos 0) (\<lambda>eps.
              with_hp (S\<lparr>hp := (hp S)\<lparr>test_entrypoint := eps\<rparr>\<rparr>) tftf_dec_ref_cnt)))))))"

definition tftf_exit :: "session \<Rightarrow> session" where
  "tftf_exit S = S\<lparr>console := console S @ [char_of (4 :: nat)]\<rparr>"

text \<open>One round of the loop, and its part after \<open>close_test\<close>.\<close>

definition after_close ::
  "session_env \<Rightarrow> firmware \<Rightarrow> u32 \<Rightarrow> (after_test \<times> session) res \<Rightarrow> (run_next \<times> session) res option" where
  "after_close E F mpid r =
     (case r of
        Inl e \<Rightarrow> Some (Inl e)
      | Inr (SessionFinished, S) \<Rightarrow> Some (Inr (Stop TestsOver, tftf_exit S))
      | Inr (PlatformReset, S) \<Rightarrow> Some (Inr (Stop ResetNow, S))
      | Inr (NextTest, S) \<Rightarrow>
          if mpid \<noteq> lead_cpu_mpid S
          then map_option (\<lambda>r. andthen r (\<lambda>S. Inr (Stop CpuOff, S))) (hand_over_to_lead_cpu E F mpid S)
          else Some (Inr (Continue, S)))"

definition run_one ::
  "session_env \<Rightarrow> firmware \<Rightarrow> test_bodies \<Rightarrow> u32 \<Rightarrow> session \<Rightarrow> (run_next \<times> session) res option" where
  "run_one E F body mpid S =
     (case andthen (if mpid = lead_cpu_mpid S \<and> tftf_get_ref_cnt (hp S) = 0
                    then prepare_next_test E (affinity_answers F S) mpid S else Inr S) (enter_test E body mpid) of
        Inl e \<Rightarrow> Some (Inl e)
      | Inr (cpus_cnt, S) \<Rightarrow>
          if cpus_cnt = 0 then after_close E F mpid (close_test E S)
          else Some (andthen (power_off_self E F mpid S) (\<lambda>S. Inr (Stop CpuOff, S))))"

partial_function (option) run_tests ::
  "session_env \<Rightarrow> firmware \<Rightarrow> test_bodies \<Rightarrow> u32 \<Rightarrow> session \<Rightarrow> (cpu_end \<times> session) res option" where
  "run_tests E F body mpid S =
     (case run_one E F body mpid S of
        None \<Rightarrow> None
      | Some (Inl e) \<Rightarrow> Some (Inl e)
      | Some (Inr (Continue, S)) \<Rightarrow> run_tests E F body mpid S
      | Some (Inr (Stop c, S)) \<Rightarrow> Some (Inr (c, S)))"

definition tftf_get_cpu_on_ctx_id :: "session_env \<Rightarrow> u32 \<Rightarrow> session \<Rightarrow> u64 res" where
  "tftf_get_cpu_on_ctx_id E core_pos S =
     andthen (assert_c (core_pos < PLATFORM_CORE_COUNT (topo_e E))) (\<lambda>_. aget (cpu_on_ctx_id_arr S) (unat core_pos))"

definition tftf_set_cpu_on_ctx_id :: "session_env \<Rightarrow> u32 \<Rightarrow> u64 \<Rightarrow> session \<Rightarrow> session res" where
  "tftf_set_cpu_on_ctx_id E core_pos context_id S =
     andthen (assert_c (core_pos < PLATFORM_CORE_COUNT (topo_e E))) (\<lambda>_.
     andthen (aput (cpu_on_ctx_id_arr S) (unat core_pos) context_id) (\<lambda>a. Inr (S\<lparr>cpu_on_ctx_id_arr := a\<rparr>)))"

definition tftf_is_rebooted :: "session \<Rightarrow> u32" where
  "tftf_is_rebooted S = test_is_rebooting S"

section \<open>Booting\<close>

definition resume_test_session :: "session_env \<Rightarrow> session \<Rightarrow> (int \<times> session) res" where
  "resume_test_session E S =
     andthen (get_ref_s E S) (\<lambda>_.
     andthen (get_progress_s E S) (\<lambda>test_progress.
     andthen (assert_c (test_progress_is_valid test_progress)) (\<lambda>_.
     if test_progress = TEST_READY then Inr (0, S)
     else if test_progress = TEST_IN_PROGRESS
     then andthen (current_testcase E S) (\<lambda>t.
          andthen (tftf_testcase_set_result (nvm_e E) (tc_index t) TEST_RESULT_CRASHED 0 (nv S)) (\<lambda>(_, n).
          andthen (advance_to_next_test E (S\<lparr>nv := n\<rparr>)) (\<lambda>(next_test, S).
          Inr (if next_test = None then - 1 else 0, S))))
     else if test_progress = TEST_COMPLETE then Inr (- 1, S)
     else if test_progress = TEST_REBOOTING then Inr (0, S\<lparr>test_is_rebooting := 1\<rparr>)
     else Inl Unreachable)))"

text \<open>
  The cold boot after the hardware has been set up; \<open>timer_rc\<close> is what \<open>tftf_initialise_timer\<close> returned. Setting up
  the power states comes between the status map and the tests and does not touch this state.
\<close>

definition tftf_cold_boot_main ::
  "session_env \<Rightarrow> firmware \<Rightarrow> test_bodies \<Rightarrow> int \<Rightarrow> u32 \<Rightarrow> session \<Rightarrow> (cpu_end \<times> session) res option" where
  "tftf_cold_boot_main E F body timer_rc mp S =
     (case tftf_init_topology (topo_e E) (tree S) of
        Inl e \<Rightarrow> Some (Inl e)
      | Inr T \<Rightarrow>
          let S = S\<lparr>tree := T\<rparr>
          in if timer_rc \<noteq> 0 then Some (Inr (TestsOver, tftf_exit S))
             else case new_test_session (nvm_e E) (nv S) of
                 Inl e \<Rightarrow> Some (Inl e)
               | Inr fresh \<Rightarrow>
                   case (if fresh
                         then let (status, n) = tftf_init_nvm (nvm_e E) (nv S)
                              in if status \<noteq> STATUS_SUCCESS
                                 then Inr (False, S\<lparr>nv := snd (tftf_clean_nvm (nvm_e E) n)\<rparr>)
                                 else Inr (True, S\<lparr>nv := n\<rparr>)
                         else andthen (resume_test_session E S) (\<lambda>(rc, S).
                              if rc < 0
                              then andthen (print_tests_summary E S) (\<lambda>S.
                                   Inr (False, S\<lparr>nv := snd (tftf_clean_nvm (nvm_e E) (nv S))\<rparr>))
                              else Inr (True, S))) of
                     Inl e \<Rightarrow> Some (Inl e)
                   | Inr (False, S) \<Rightarrow> Some (Inr (TestsOver, tftf_exit S))
                   | Inr (True, S) \<Rightarrow>
                       case tftf_init_cpus_status_map (topo_e E) mp (hp S) of
                         Inl e \<Rightarrow> Some (Inl e)
                       | Inr H \<Rightarrow>
                           let mpid = mp AND MPID_MASK
                           in run_tests E F body mpid (S\<lparr>hp := H, lead_cpu_mpid := mpid\<rparr>))"

section \<open>What the reports say\<close>

lemma say_eq: "vprintf fmt args = Inr (t, n) \<Longrightarrow> say fmt args S = Inr (S\<lparr>console := console S @ t\<rparr>)"
  by (simp add: say_def mp_printf_def)

lemma string_print_plain: "string_print (Some s) padc 0 = Inr (s, int (length s))"
  using string_print_eq [of 0 s padc] by (simp add: padded_def)

lemmas printf_simps = vprintf_def printf_conv_def is_digit_def string_print_plain string_print_eq int_c_def va_name_def

definition suite_start_text :: "string \<Rightarrow> string \<Rightarrow> string" where
  "suite_start_text name descr =
     ''--'' @ [nl] @ ''Running test suite '' @ [CHR 0x27] @ name @ [CHR 0x27, nl] @ ''Description: '' @ descr @ [nl, nl]"

lemma print_testsuite_start_eq:
  assumes "ts_name s = Some name"
  shows "print_testsuite_start s S = Inr (S\<lparr>console := console S @ suite_start_text name (ts_description s)\<rparr>)"
proof -
  have 1: "vprintf (''--'' @ [nl]) [] = Inr (''--'' @ [nl], 3)" by (simp add: printf_simps)
  have 2: "\<exists>n. vprintf (''Running test suite '' @ [CHR 0x27] @ ''%s'' @ [CHR 0x27, nl]) [VStr name]
      = Inr (''Running test suite '' @ [CHR 0x27] @ name @ [CHR 0x27, nl], n)" by (simp add: printf_simps)
  have 3: "\<exists>n. vprintf (''Description: %s'' @ [nl]) [VStr d] = Inr (''Description: '' @ d @ [nl], n)" for d
    by (simp add: printf_simps)
  have 4: "vprintf [nl] [] = Inr ([nl], 1)" by (simp add: printf_simps)
  show ?thesis
    unfolding print_testsuite_start_def assms va_name_def option.case
    using say_eq [OF 1] say_eq [OF 4] 2 3 [of "ts_description s"]
    by (auto simp: suite_start_text_def say_eq simp del: append.simps)
qed

lemma print_test_start_eq:
  assumes "tc_name t = Some name"
  shows "print_test_start t S = Inr (S\<lparr>console := console S @ ''> Executing '' @ [CHR 0x27] @ name @ [CHR 0x27, nl]\<rparr>)"
proof -
  have "\<exists>n. vprintf (''> Executing '' @ [CHR 0x27] @ ''%s'' @ [CHR 0x27, nl]) [VStr name]
      = Inr (''> Executing '' @ [CHR 0x27] @ name @ [CHR 0x27, nl], n)" by (simp add: printf_simps)
  then show ?thesis
    unfolding print_test_start_def assms va_name_def option.case by (auto dest: say_eq)
qed

definition test_end_text :: "string \<Rightarrow> string \<Rightarrow> string" where
  "test_end_text s out = ''  TEST COMPLETE '' @ padded CHR '' '' 54 s @ [nl] @ out @ [nl]"

definition result_text :: "u32 \<Rightarrow> string" where
  "result_text r = test_result_strings ! unat r"

lemma valid_result_cases:
  assumes "test_result_is_valid r"
  shows "r = TEST_RESULT_SKIPPED \<or> r = TEST_RESULT_SUCCESS \<or> r = TEST_RESULT_FAIL \<or> r = TEST_RESULT_CRASHED"
proof -
  have "sint r = 0 \<or> sint r = 1 \<or> sint r = 2 \<or> sint r = 3" using assms by (auto simp: test_result_is_valid_def)
  moreover have "r = word_of_int (sint r)" by simp
  ultimately show ?thesis by (metis of_int_0 of_int_1 of_int_numeral)
qed

lemma result_to_string:
  assumes "test_result_is_valid r"
  shows "test_result_to_string r = Inr (result_text r)"
  using assms valid_result_cases [OF assms]
  by (auto simp: test_result_to_string_def result_text_def test_result_strings_def)

lemma say_char: "say [nl] [] S = Inr (S\<lparr>console := console S @ [nl]\<rparr>)"
  by (rule say_eq [of _ _ _ 1]) (simp add: printf_simps)

lemma say_plain_s: "say ''%s'' [VStr s] S = Inr (S\<lparr>console := console S @ s\<rparr>)"
  by (rule say_eq [of _ _ _ "int (length s)"]) (simp add: printf_simps)

lemma print_test_end_eq:
  assumes "nvm_fits (nvm_e E)" "outputs_wf (nvm_e E) (nv S)" "has_room (nvm_e E) (nv S) 0"
    and i: "unat (tc_index t) < TESTCASE_RESULT_COUNT (nvm_e E)"
    and "sd_result (nvm_e E) (nv S) (unat (tc_index t)) = r" "sd_output (nvm_e E) (nv S) (unat (tc_index t)) = out"
    and v: "test_result_is_valid (result r)" and out: "0 \<notin> set out"
  shows "print_test_end E t S
    = Inr (S\<lparr>console := console S @ test_end_text (result_text (result r)) (map (\<lambda>b. char_of (unat b)) out)\<rparr>)"
proof -
  have g: "tftf_testcase_get_result (nvm_e E) 1024 (tc_index t) (nv S) = Inr (0, Some r, Some (out @ [0]))"
    using get_result_eq [OF assms(1) i assms(2,3)] assms(5,6) by simp
  have s: "string_of (out @ [0]) = map (\<lambda>b. char_of (unat b)) out"
  proof -
    have "takeWhile (\<lambda>b. b \<noteq> 0) (out @ [0]) = out" using out by (subst takeWhile_append2) auto
    then show ?thesis by (simp add: string_of_def)
  qed
  let ?s = "result_text (result r)"
  have "vprintf (''  TEST COMPLETE %54s'' @ [nl]) [VStr ?s]
      = Inr (''  TEST COMPLETE '' @ padded CHR '' '' 54 ?s @ [nl], 17 + int (length (padded CHR '' '' 54 ?s)))"
    by (simp add: printf_simps)
  note t = say_eq [OF this, simplified]
  show ?thesis
    unfolding print_test_end_def g
    using result_to_string [OF v] by (simp add: t s say_plain_s say_char test_end_text_def)
qed


text \<open>The lists of tests the framework is built with: every list ends with an entry without a name and has entries before it.\<close>

definition cases_of :: "test_suite \<Rightarrow> test_case list" where
  "cases_of s = butlast (ts_testcases s)"

definition suites_of :: "session_env \<Rightarrow> test_suite list" where
  "suites_of E = butlast (testsuites E)"

definition suite_ok :: "test_suite \<Rightarrow> bool" where
  "suite_ok s \<longleftrightarrow> ts_name s \<noteq> None \<and> cases_of s \<noteq> [] \<and> tc_name (last (ts_testcases s)) = None
     \<and> (\<forall>t \<in> set (cases_of s). tc_name t \<noteq> None) \<and> length (ts_testcases s) < 2 ^ 32"

definition tests_ok :: "session_env \<Rightarrow> bool" where
  "tests_ok E \<longleftrightarrow> suites_of E \<noteq> [] \<and> ts_name (last (testsuites E)) = None \<and> (\<forall>s \<in> set (suites_of E). suite_ok s)
     \<and> length (testsuites E) < 2 ^ 32"

lemma suite_split: "suite_ok s \<Longrightarrow> ts_testcases s = cases_of s @ [last (ts_testcases s)]"
  by (simp add: suite_ok_def cases_of_def) (metis append_butlast_last_id butlast.simps(1))

lemma tests_split: "tests_ok E \<Longrightarrow> testsuites E = suites_of E @ [last (testsuites E)]"
  by (simp add: tests_ok_def suites_of_def) (metis append_butlast_last_id butlast.simps(1))

text \<open>The summary: how many tests had each result, and whether all passed or were skipped.\<close>

definition tally :: "nat list \<Rightarrow> u32 list \<Rightarrow> nat list" where
  "tally stats rs = map (\<lambda>k. stats ! k + count_list rs (of_nat k)) [0..<TEST_RESULT_MAX]"

definition all_pass :: "u32 list \<Rightarrow> bool" where
  "all_pass rs \<longleftrightarrow> (\<forall>r \<in> set rs. r = TEST_RESULT_SUCCESS \<or> r = TEST_RESULT_SKIPPED)"

lemma upt_4: "[0..<TEST_RESULT_MAX] = [0, 1, 2, 3]"
  by (simp add: upt_rec)

lemma tally_Cons:
  assumes "length stats = TEST_RESULT_MAX" "test_result_is_valid r"
  shows "tally (stats[unat r := stats ! unat r + 1]) rs = tally stats (r # rs)"
  using assms(1) valid_result_cases [OF assms(2)] by (auto simp: tally_def upt_4)

definition stored_result :: "session_env \<Rightarrow> session \<Rightarrow> test_case \<Rightarrow> u32" where
  "stored_result E S t = result (sd_result (nvm_e E) (nv S) (unat (tc_index t)))"

lemma summary_tests_eq:
  assumes "nvm_fits (nvm_e E)" "outputs_wf (nvm_e E) (nv S)" "has_room (nvm_e E) (nv S) 0"
    and "length stats = TEST_RESULT_MAX" "tc_name e = None"
    and "\<forall>t \<in> set ts. tc_name t \<noteq> None \<and> unat (tc_index t) < TESTCASE_RESULT_COUNT (nvm_e E)
      \<and> test_result_is_valid (stored_result E S t)"
  shows "summary_tests E (ts @ [e]) (p, n, stats) S
    = Inr ((p \<and> all_pass (map (stored_result E S) ts), n + length ts, tally stats (map (stored_result E S) ts)), S)"
  using assms(4,6)
proof (induction ts arbitrary: p n stats)
  case Nil
  then show ?case using assms(5) by (auto simp: all_pass_def tally_def intro: nth_equalityI)
next
  case (Cons t ts)
  let ?r = "stored_result E S t"
  have t: "tc_name t \<noteq> None" "unat (tc_index t) < TESTCASE_RESULT_COUNT (nvm_e E)" "test_result_is_valid ?r"
    using Cons.prems(2) by auto
  have g: "\<exists>out. tftf_testcase_get_result (nvm_e E) 1024 (tc_index t) (nv S)
      = Inr (0, Some (sd_result (nvm_e E) (nv S) (unat (tc_index t))), Some out)"
    using get_result_eq [OF assms(1) t(2) assms(2,3)] by auto
  have l: "unat ?r < length stats" using valid_result_cases [OF t(3)] Cons.prems(1) by auto
  have IH: "summary_tests E (ts @ [e]) (p \<and> (?r = 1 \<or> ?r = 0), n + 1, stats[unat ?r := stats ! unat ?r + 1]) S
      = Inr (((p \<and> (?r = 1 \<or> ?r = 0)) \<and> all_pass (map (stored_result E S) ts), n + 1 + length ts,
          tally stats (?r # map (stored_result E S) ts)), S)"
    using Cons.IH [of "stats[unat ?r := stats ! unat ?r + 1]"] Cons.prems tally_Cons [OF Cons.prems(1) t(3)] by simp
  show ?case using g t l IH
    by (auto simp: stored_result_def [symmetric] all_pass_def)
qed

definition suite_head :: "string \<Rightarrow> string" where
  "suite_head name = ''> Test suite '' @ [CHR 0x27] @ name @ [CHR 0x27, nl]"

definition suite_tail :: "bool \<Rightarrow> string" where
  "suite_tail passed = padded CHR '' '' 70 (if passed then ''Passed'' else ''Failed'') @ [nl]"

definition suite_summary :: "session_env \<Rightarrow> session \<Rightarrow> test_suite \<Rightarrow> string" where
  "suite_summary E S s = suite_head (the (ts_name s)) @ suite_tail (all_pass (map (stored_result E S) (cases_of s)))"

lemma summary_suites_step:
  assumes "ts_name s = Some name"
  shows "summary_suites E (s # ss) (n, stats) S
    = andthen (summary_tests E (ts_testcases s) (True, n, stats) (S\<lparr>console := console S @ suite_head name\<rparr>))
        (\<lambda>((passed, n, stats), S). summary_suites E ss (n, stats) (S\<lparr>console := console S @ suite_tail passed\<rparr>))"
proof -
  have h: "say (''> Test suite '' @ [CHR 0x27] @ ''%s'' @ [CHR 0x27, nl]) [VStr name] S
      = Inr (S\<lparr>console := console S @ suite_head name\<rparr>)"
    unfolding suite_head_def by (rule say_eq [of _ _ _ "16 + int (length name)"]) (simp add: printf_simps)
  have t: "say (''%70s'' @ [nl]) [VStr (if p then ''Passed'' else ''Failed'')] S
      = Inr (S\<lparr>console := console S @ suite_tail p\<rparr>)" for p S
    unfolding suite_tail_def
    by (rule say_eq [of _ _ _ "int (length (padded CHR '' '' 70 (if p then ''Passed'' else ''Failed''))) + 1"])
      (simp add: printf_simps)
  show ?thesis unfolding summary_suites.simps assms va_name_def option.case h t by simp
qed

lemma tally_append: "tally (tally stats xs) ys = tally stats (xs @ ys)"
  by (simp add: tally_def upt_4)

lemma length_tally [simp]: "length (tally stats rs) = TEST_RESULT_MAX"
  by (simp add: tally_def)

lemma stored_result_console [simp]: "stored_result E (S\<lparr>console := c\<rparr>) = stored_result E S"
  by (rule ext) (simp add: stored_result_def)

lemma suite_summary_console [simp]: "suite_summary E (S\<lparr>console := c\<rparr>) = suite_summary E S"
  by (rule ext) (simp add: suite_summary_def)

lemma summary_suites_eq:
  assumes "nvm_fits (nvm_e E)" "outputs_wf (nvm_e E) (nv S)" "has_room (nvm_e E) (nv S) 0"
    and "ts_name e = None" "length stats = TEST_RESULT_MAX"
    and "\<forall>s \<in> set ss. suite_ok s \<and> (\<forall>t \<in> set (cases_of s). unat (tc_index t) < TESTCASE_RESULT_COUNT (nvm_e E)
      \<and> test_result_is_valid (stored_result E S t))"
  shows "summary_suites E (ss @ [e]) (n, tally stats rs) (S\<lparr>console := c\<rparr>)
    = Inr ((n + length (concat (map cases_of ss)), tally stats (rs @ map (stored_result E S) (concat (map cases_of ss)))),
        S\<lparr>console := c @ concat (map (suite_summary E S) ss)\<rparr>)"
  using assms(6)
proof (induction ss arbitrary: n rs c)
  case Nil
  then show ?case using assms(4) by simp
next
  case (Cons s ss)
  let ?rs = "map (stored_result E S) (cases_of s)"
  have ok: "suite_ok s" using Cons.prems by simp
  then obtain name where name: "ts_name s = Some name" by (auto simp: suite_ok_def)
  let ?c = "c @ suite_head name"
  have "summary_tests E (cases_of s @ [last (ts_testcases s)]) (True, n, tally stats rs) (S\<lparr>console := ?c\<rparr>)
      = Inr ((all_pass ?rs, n + length (cases_of s), tally (tally stats rs) ?rs), S\<lparr>console := ?c\<rparr>)"
    using summary_tests_eq [of E "S\<lparr>console := ?c\<rparr>" "tally stats rs" "last (ts_testcases s)" "cases_of s" True n]
      assms(1-3) ok Cons.prems by (simp add: suite_ok_def o_def)
  then have t: "summary_tests E (ts_testcases s) (True, n, tally stats rs) (S\<lparr>console := ?c\<rparr>)
      = Inr ((all_pass ?rs, n + length (cases_of s), tally stats (rs @ ?rs)), S\<lparr>console := ?c\<rparr>)"
    using suite_split [OF ok] by (simp only: tally_append)
  have IH: "summary_suites E (ss @ [e]) (n + length (cases_of s), tally stats (rs @ ?rs)) (S\<lparr>console := d\<rparr>)
    = Inr ((n + length (cases_of s) + length (concat (map cases_of ss)),
        tally stats ((rs @ ?rs) @ map (stored_result E S) (concat (map cases_of ss)))),
        S\<lparr>console := d @ concat (map (suite_summary E S) ss)\<rparr>)" for d
    using Cons.prems by (intro Cons.IH) simp
  show ?case
    using t IH name by (simp add: summary_suites_step [OF name] suite_summary_def [of _ _ s] del: summary_suites.simps)
qed
definition dec_text :: "nat \<Rightarrow> string" where
  "dec_text n = (case num_digits NUM_BUF (of_nat n) 10 of Inr ds \<Rightarrow> rev ds | Inl _ \<Rightarrow> [])"

text \<open>The decimal digits of a small number, as \<open>%d\<close> prints them.\<close>

lemma printf_conv_nat:
  assumes "n < 2 ^ 31"
  shows "\<exists>k. printf_conv CHR ''d'' 0 padc 0 (VInt (of_nat n) # args) = Inr (Some (dec_text n, k, args))"
proof -
  have u: "uint (of_nat n :: u32) = int n"
    using assms by (simp add: unsigned_of_nat take_bit_nat_eq_self)
  have s: "sint (of_nat n :: u32) = int n"
    using assms by (simp add: signed_of_nat signed_take_bit_int_eq_self_iff)
  obtain ds where ds: "num_digits NUM_BUF (of_nat n) 10 = Inr ds"
    using num_digits_value [of 10 "of_nat n" NUM_BUF] num_buf_fits [of "of_nat n"] by auto
  then show ?thesis
    using num_print_small [OF ds, of 0 padc] by (simp add: printf_conv_def s dec_text_def)
qed

definition all_results :: "session_env \<Rightarrow> session \<Rightarrow> u32 list" where
  "all_results E S = map (stored_result E S) (concat (map cases_of (suites_of E)))"

definition stat_text :: "u32 list \<Rightarrow> nat \<Rightarrow> string" where
  "stat_text rs k = ''Tests '' @ padded CHR '' '' (- 8) (result_text (of_nat k)) @ '': '' @ dec_text (count_list rs (of_nat k)) @ [nl]"

definition total_text :: "nat \<Rightarrow> string" where
  "total_text n = padded CHR '' '' (- 14) ''Total tests'' @ '': '' @ dec_text n @ [nl]"

definition summary_text :: "session_env \<Rightarrow> session \<Rightarrow> string" where
  "summary_text E S = replicate 31 CHR ''*'' @ '' Summary '' @ replicate 31 CHR ''*'' @ [nl]
     @ concat (map (suite_summary E S) (suites_of E)) @ rule_off
     @ concat (map (stat_text (all_results E S)) [0..<TEST_RESULT_MAX])
     @ total_text (length (all_results E S)) @ rule_off"

lemma vprintf_literal:
  "CHR ''%'' \<notin> set lit \<Longrightarrow> vprintf_from (lit @ fmt) args out n = vprintf_from fmt args (out @ lit) (n + int (length lit))"
  by (induction lit arbitrary: out n) (auto simp: add.assoc)

lemma say_literal: "CHR ''%'' \<notin> set lit \<Longrightarrow> say lit [] S = Inr (S\<lparr>console := console S @ lit\<rparr>)"
  using vprintf_literal [of lit "[]" "[]" "[]" 0] by (intro say_eq) (simp add: vprintf_def)

lemma say_stat:
  assumes "n < 2 ^ 31"
  shows "say (''Tests %-8s: %d'' @ [nl]) [VStr s, VInt (of_nat n)] S
    = Inr (S\<lparr>console := console S @ ''Tests '' @ padded CHR '' '' (- 8) s @ '': '' @ dec_text n @ [nl]\<rparr>)"
proof -
  obtain k where k: "printf_conv CHR ''d'' 0 (char_of (0 :: nat)) 0 [VInt (of_nat n)] = Inr (Some (dec_text n, k, []))"
    using printf_conv_nat [OF assms] by blast
  have s: "\<exists>m. printf_conv CHR ''s'' 0 CHR '' '' (- 8) (VStr s # args) = Inr (Some (padded CHR '' '' (- 8) s, m, args))" for args
    by (simp add: printf_conv_def string_print_eq)
  have "\<exists>m. vprintf (''Tests %-8s: %d'' @ [nl]) [VStr s, VInt (of_nat n)]
      = Inr (''Tests '' @ padded CHR '' '' (- 8) s @ '': '' @ dec_text n @ [nl], m)"
    using k s [of "[VInt (of_nat n)]"] by (auto simp: vprintf_def is_digit_def int_c_def)
  then show ?thesis by (auto intro: say_eq)
qed

lemma say_total:
  assumes "n < 2 ^ 31"
  shows "say (''%-14s: %d'' @ [nl]) [VStr s, VInt (of_nat n)] S
    = Inr (S\<lparr>console := console S @ padded CHR '' '' (- 14) s @ '': '' @ dec_text n @ [nl]\<rparr>)"
proof -
  obtain k where k: "printf_conv CHR ''d'' 0 (char_of (0 :: nat)) 0 [VInt (of_nat n)] = Inr (Some (dec_text n, k, []))"
    using printf_conv_nat [OF assms] by blast
  have s: "\<exists>m. printf_conv CHR ''s'' 0 CHR '' '' (- 14) (VStr s # args) = Inr (Some (padded CHR '' '' (- 14) s, m, args))" for args
    by (simp add: printf_conv_def string_print_eq)
  have "\<exists>m. vprintf (''%-14s: %d'' @ [nl]) [VStr s, VInt (of_nat n)]
      = Inr (padded CHR '' '' (- 14) s @ '': '' @ dec_text n @ [nl], m)"
    using k s [of "[VInt (of_nat n)]"] by (auto simp: vprintf_def is_digit_def int_c_def)
  then show ?thesis by (auto intro: say_eq)
qed

lemma summary_stats_eq:
  assumes "\<forall>k \<in> set ks. k < TEST_RESULT_MAX" "length rs < 2 ^ 31"
  shows "summary_stats ks (tally (replicate TEST_RESULT_MAX 0) rs) S
    = Inr (S\<lparr>console := console S @ concat (map (stat_text rs) ks)\<rparr>)"
  using assms(1)
proof (induction ks arbitrary: S)
  case (Cons k ks)
  have k: "k < TEST_RESULT_MAX" using Cons.prems by simp
  have v: "test_result_is_valid (of_nat k)"
  proof -
    have "k = 0 \<or> k = 1 \<or> k = 2 \<or> k = 3" using k by linarith
    then show ?thesis by (auto simp: test_result_is_valid_def)
  qed
  have a: "aget (tally (replicate TEST_RESULT_MAX 0) rs) k = Inr (count_list rs (of_nat k))"
    using k by (simp add: aget_def) (simp add: tally_def)
  have c: "count_list rs (of_nat k) < 2 ^ 31" using assms(2) count_le_length [of rs "of_nat k"] by simp
  show ?case
    using Cons.IH Cons.prems unfolding summary_stats.simps result_to_string [OF v] a andthen_Inr say_stat [OF c]
    by (simp add: stat_text_def [of rs k])
qed simp

lemma print_tests_summary_eq:
  assumes "nvm_fits (nvm_e E)" "outputs_wf (nvm_e E) (nv S)" "has_room (nvm_e E) (nv S) 0" "tests_ok E"
    and r: "\<forall>t \<in> set (concat (map cases_of (suites_of E))). unat (tc_index t) < TESTCASE_RESULT_COUNT (nvm_e E)
      \<and> test_result_is_valid (stored_result E S t)"
    and n: "length (all_results E S) < 2 ^ 31"
  shows "print_tests_summary E S = Inr (S\<lparr>console := console S @ summary_text E S\<rparr>)"
proof -
  let ?st = "replicate 31 CHR ''*'' @ '' Summary '' @ replicate 31 CHR ''*'' @ [nl]"
  let ?c = "console S @ ?st"
  have st: "CHR ''%'' \<notin> set ?st" "CHR ''%'' \<notin> set rule_off" by (simp_all add: rule_off_def)
  have t0: "tally (replicate TEST_RESULT_MAX 0) [] = replicate TEST_RESULT_MAX 0" by (simp add: tally_def upt_4) (simp add: eval_nat_numeral)
  have "summary_suites E (suites_of E @ [last (testsuites E)]) (0, tally (replicate TEST_RESULT_MAX 0) []) (S\<lparr>console := ?c\<rparr>)
    = Inr ((0 + length (concat (map cases_of (suites_of E))),
        tally (replicate TEST_RESULT_MAX 0) ([] @ map (stored_result E S) (concat (map cases_of (suites_of E))))),
        S\<lparr>console := ?c @ concat (map (suite_summary E S) (suites_of E))\<rparr>)"
    using assms by (intro summary_suites_eq) (simp_all add: tests_ok_def)
  then have s: "summary_suites E (testsuites E) (0, replicate TEST_RESULT_MAX 0) (S\<lparr>console := ?c\<rparr>)
    = Inr ((length (all_results E S), tally (replicate TEST_RESULT_MAX 0) (all_results E S)),
        S\<lparr>console := ?c @ concat (map (suite_summary E S) (suites_of E))\<rparr>)"
    unfolding t0 tests_split [OF \<open>tests_ok E\<close>, symmetric] by (simp add: all_results_def)
  have k: "\<forall>k \<in> set [0..<TEST_RESULT_MAX]. k < TEST_RESULT_MAX" by simp
  show ?thesis
    unfolding print_tests_summary_def say_literal [OF st(1)] andthen_Inr s prod.case say_literal [OF st(2)]
      summary_stats_eq [OF k n] say_total [OF n]
    by (simp add: summary_text_def total_text_def)
qed
section \<open>A session of tests on one CPU\<close>

text \<open>Writes below the results change none of them.\<close>

definition keeps :: "nvm_env \<Rightarrow> nvm_state \<Rightarrow> nvm_state \<Rightarrow> bool" where
  "keeps E N N' \<longleftrightarrow> sd_used E N' = sd_used E N \<and> (\<forall>i < TESTCASE_RESULT_COUNT E.
     sd_result E N' i = sd_result E N i \<and> sd_output E N' i = sd_output E N i)"

lemma put_low_keeps:
  assumes "nvm_fits E" "off + length bs \<le> off_testcase_results"
  shows "keeps E N (put_at E off bs N)"
proof -
  have c: "24 * TESTCASE_RESULT_COUNT E < 2 ^ 61" by (rule nvm_fits_count [OF assms(1)])
  have o: "at E (put_at E off bs N) o2 n = at E N o2 n" if "off_testcase_results \<le> o2" "o2 + n < 2 ^ 63" for o2 n
    using that assms(2) by (intro at_put_other) (auto simp: off_defs)
  have u: "sd_used E (put_at E off bs N) = sd_used E N"
    using c by (simp add: sd_used_def o off_defs)
  have r: "sd_result E (put_at E off bs N) i = sd_result E N i" if "i < TESTCASE_RESULT_COUNT E" for i
  proof -
    have "24 * i < 2 ^ 61" using that c by linarith
    then show ?thesis by (simp add: sd_result_def o off_defs)
  qed
  have "sd_output E (put_at E off bs N) i = sd_output E N i" if "i < TESTCASE_RESULT_COUNT E" for i
    using c unat_u32_less [of "output_offset (sd_result E N i)"] unat_u32_less [of "output_size (sd_result E N i)"]
    by (simp add: sd_output_def r [OF that] o off_defs)
  with u r show ?thesis by (simp add: keeps_def)
qed

lemma keeps_views:
  assumes "keeps E N N'"
  shows "outputs_wf E N' = outputs_wf E N" "has_room E N' n = has_room E N n"
  using assms by (simp_all add: keeps_def outputs_wf_def has_room_def)

lemma keeps_trans: "keeps E N N' \<Longrightarrow> keeps E N' N'' \<Longrightarrow> keeps E N N''"
  by (simp add: keeps_def)

lemma output_is_put [simp]: "output_is (put_at E off bs N) out = output_is N out"
  by (simp add: output_is_def)

lemma set_progress_view:
  assumes "nvm_fits (nvm_e E)"
  shows "set_progress_s E p S = S\<lparr>nv := put_at (nvm_e E) off_test_progress (put_u32 p) (nv S)\<rparr>"
    and "keeps (nvm_e E) (nv S) (put_at (nvm_e E) off_test_progress (put_u32 p) (nv S))"
  using test_progress_access(2) [OF assms] put_low_keeps [OF assms, of off_test_progress "put_u32 p"]
  by (simp_all add: set_progress_s_def u32_field.length_put off_defs)

lemma move_to_view:
  assumes "nvm_fits (nvm_e E)"
  obtains N where "move_to E i j S = S\<lparr>nv := N\<rparr>" "keeps (nvm_e E) (nv S) N" "output_is N out = output_is (nv S) out"
    "sd_ref (nvm_e E) N = \<lparr>testsuite_idx = i, testcase_idx = j\<rparr>" "sd_progress (nvm_e E) N = TEST_READY"
proof -
  let ?r = "\<lparr>testsuite_idx = i, testcase_idx = j\<rparr>"
  let ?N = "put_at (nvm_e E) off_test_to_run (put_ref ?r) (nv S)"
  let ?M = "put_at (nvm_e E) off_test_progress (put_u32 TEST_READY) ?N"
  have "move_to E i j S = S\<lparr>nv := ?M\<rparr>"
    using test_to_run_access(2) [OF assms] by (simp add: move_to_def set_progress_view(1) [OF assms])
  moreover have "keeps (nvm_e E) (nv S) ?N"
    using put_low_keeps [OF assms, of off_test_to_run "put_ref ?r"] by (simp add: ref_field.length_put off_defs)
  then have "keeps (nvm_e E) (nv S) ?M"
    using set_progress_view(2) [OF assms, of "S\<lparr>nv := ?N\<rparr>"] by (auto intro: keeps_trans)
  ultimately show thesis
    using that put_ref_view(1) [OF assms] put_progress_view(1,2) [OF assms] by simp
qed

text \<open>The lead CPU alone: online, registered in the topology, and no other CPU shares its position.\<close>

definition cpu_nodes :: "session_env \<Rightarrow> session \<Rightarrow> nat list" where
  "cpu_nodes E S = present_cpus (topo_e E) (tree S) (unat (tftf_pwr_domain_start_idx (tree S) ! 0))"

definition node_mp :: "session \<Rightarrow> nat \<Rightarrow> u32" where
  "node_mp S i = mpidr (tftf_pd_nodes (tree S) ! i)"

definition lead_alone :: "session_env \<Rightarrow> u32 \<Rightarrow> session \<Rightarrow> bool" where
  "lead_alone E mp S \<longleftrightarrow> topo_ok (topo_e E) (tree S) \<and> lead_cpu_mpid S = mp \<and> mp AND MPID_MASK = mp
     \<and> (\<exists>i \<in> set (cpu_nodes E S). node_mp S i = mp)
     \<and> (\<forall>i \<in> set (cpu_nodes E S). pos (topo_e E) (node_mp S i) < unat (PLATFORM_CORE_COUNT (topo_e E))
          \<and> (pos (topo_e E) (node_mp S i) = pos (topo_e E) mp \<longrightarrow> node_mp S i = mp))
     \<and> length (cpus_status_map (hp S)) = unat (PLATFORM_CORE_COUNT (topo_e E))
     \<and> length (test_entrypoint (hp S)) = unat (PLATFORM_CORE_COUNT (topo_e E))
     \<and> cpus_status_map (hp S) ! pos (topo_e E) mp = TFTF_AFFINITY_STATE_ON \<and> ref_cnt (hp S) = 0"

lemma lead_alone_pos: "lead_alone E mp S \<Longrightarrow> pos (topo_e E) mp < unat (PLATFORM_CORE_COUNT (topo_e E))"
  by (auto simp: lead_alone_def)

lemma lead_alone_frame:
  assumes "lead_alone E mp S" "tree S' = tree S" "lead_cpu_mpid S' = lead_cpu_mpid S"
    "cpus_status_map (hp S') = cpus_status_map (hp S)" "length (test_entrypoint (hp S')) = length (test_entrypoint (hp S))"
    "ref_cnt (hp S') = 0"
  shows "lead_alone E mp S'"
proof -
  have "cpu_nodes E S' = cpu_nodes E S" "node_mp S' = node_mp S"
    using assms(2) by (simp_all add: cpu_nodes_def node_mp_def fun_eq_iff)
  then show ?thesis using assms by (simp add: lead_alone_def)
qed

lemma cpu_nodes_bounds:
  assumes "topo_ok (topo_e E) (tree S)" "i \<in> set (cpu_nodes E S)"
  shows "unat (of_nat i :: u32) = i"
    and "tftf_get_mpidr_from_node (topo_e E) (tree S) (of_nat i) = Inr (node_mp S i)"
proof -
  let ?s = "tftf_pwr_domain_start_idx (tree S) ! 0" and ?N = "unat (PLATFORM_NUM_AFFS (topo_e E))"
  have i: "unat ?s \<le> i" "i < ?N" "is_present (tftf_pd_nodes (tree S) ! i)"
    using assms(2) by (auto simp: cpu_nodes_def present_cpus_def)
  have t: "?N < 2 ^ 32 - 1" "length (tftf_pd_nodes (tree S)) = ?N" "level (tftf_pd_nodes (tree S) ! i) = 0"
    "unat ?s + unat (PLATFORM_CORE_COUNT (topo_e E)) = ?N" "tftf_pwr_domain_start_idx (tree S) \<noteq> []"
    "topology_setup_done (tree S)"
    using assms(1) i by (auto simp: topo_ok_def)
  show u: "unat (of_nat i :: u32) = i" using i t(1) by (intro unat_of_nat_word32) simp
  have "?s \<le> of_nat i" using i(1) u by (simp add: word_le_nat_alt)
  then have "unat (of_nat i - ?s) = i - unat ?s" using u by (simp add: unat_sub_le)
  then have "of_nat i - ?s < PLATFORM_CORE_COUNT (topo_e E)" using i t(4) by (simp add: word_less_nat_alt)
  then show "tftf_get_mpidr_from_node (topo_e E) (tree S) (of_nat i) = Inr (node_mp S i)"
    using i t u by (simp add: tftf_get_mpidr_from_node_def cpu_node_is_valid_def cpu_index_is_valid_def node_mp_def)
qed


lemma wait_powered_off_ends: "\<exists>a \<in> set as. a \<noteq> PSCI_STATE_ON \<Longrightarrow> wait_powered_off as = Inr ()"
  by (induction as) auto

lemma check_cpus_off_ok:
  assumes "lead_alone E mp S" "\<forall>m. \<exists>a \<in> set (answers m). a \<noteq> PSCI_STATE_ON" "set is \<subseteq> set (cpu_nodes E S)"
  shows "check_cpus_off E answers (map of_nat is) S = Inr ()"
  using assms(3)
proof (induction "is")
  case (Cons i "is")
  have i: "i \<in> set (cpu_nodes E S)" using Cons.prems by simp
  have t: "topo_ok (topo_e E) (tree S)" using assms(1) by (simp add: lead_alone_def)
  have on: "tftf_is_cpu_online (topo_e E) mp (hp S) = Inr True"
    using assms(1) lead_alone_pos [OF assms(1)] by (simp add: tftf_is_cpu_online_def lead_alone_def)
  have "wait_powered_off (answers m) = Inr ()" for m using assms(2) by (intro wait_powered_off_ends) blast
  then show ?case
    using Cons cpu_nodes_bounds(2) [OF t i] on assms(1) by (simp add: lead_alone_def)
qed simp

text \<open>With one CPU in the test, its result is the overall result.\<close>

lemma overall_lead:
  assumes "lead_alone E mp S"
    and rs: "length (test_results S) = unat (PLATFORM_CORE_COUNT (topo_e E))" "test_results S ! pos (topo_e E) mp = r"
      "\<forall>k < length (test_results S). k \<noteq> pos (topo_e E) mp \<longrightarrow> test_results S ! k = TEST_RESULT_NA"
    and r: "test_result_is_valid r"
  shows "set is \<subseteq> set (cpu_nodes E S) \<Longrightarrow> acc = TEST_RESULT_NA \<or> acc = TEST_RESULT_SUCCESS \<and> r = TEST_RESULT_SUCCESS \<Longrightarrow>
    (\<exists>i \<in> set is. node_mp S i = mp) \<or> acc = TEST_RESULT_SUCCESS \<Longrightarrow>
    overall_from E (map of_nat is) acc S = Inr r"
proof (induction "is" arbitrary: acc)
  case Nil
  then show ?case by auto
next
  case (Cons i "is")
  have i: "i \<in> set (cpu_nodes E S)" using Cons.prems by simp
  have t: "topo_ok (topo_e E) (tree S)" using assms(1) by (simp add: lead_alone_def)
  have p: "pos (topo_e E) (node_mp S i) < length (test_results S)"
    using assms(1) i rs(1) by (auto simp: lead_alone_def)
  note step = overall_from.simps(2) cpu_nodes_bounds(2) [OF t i]
  show ?case
  proof (cases "node_mp S i = mp")
    case False
    then have "pos (topo_e E) (node_mp S i) \<noteq> pos (topo_e E) mp" using assms(1) i by (auto simp: lead_alone_def)
    then have "test_results S ! pos (topo_e E) (node_mp S i) = TEST_RESULT_NA" using rs(3) p by simp
    then show ?thesis using Cons.IH [of acc] Cons.prems False p by (simp add: step)
  next
    case True
    then have res: "test_results S ! pos (topo_e E) (node_mp S i) = r" using rs(2) by simp
    have "overall_from E (map of_nat is) TEST_RESULT_SUCCESS S = Inr r" if "r = TEST_RESULT_SUCCESS"
      using Cons.IH [of TEST_RESULT_SUCCESS] Cons.prems that by simp
    then show ?thesis using valid_result_cases [OF r] p res by (auto simp: step)
  qed
qed

lemma overall_result_lead:
  assumes "lead_alone E mp S"
    and "length (test_results S) = unat (PLATFORM_CORE_COUNT (topo_e E))" "test_results S ! pos (topo_e E) mp = r"
      "\<forall>k < length (test_results S). k \<noteq> pos (topo_e E) mp \<longrightarrow> test_results S ! k = TEST_RESULT_NA"
    and "test_result_is_valid r"
  shows "get_overall_test_result E S = Inr r"
proof -
  have "overall_from E (map of_nat (cpu_nodes E S)) TEST_RESULT_NA S = Inr r"
    using assms(1) by (intro overall_lead [OF assms]) (auto simp: lead_alone_def)
  then show ?thesis
    using assms(1) by (simp add: get_overall_test_result_def lead_alone_def for_each_cpu_eq cpu_nodes_def)
qed


text \<open>Tests that print a text and return a result.\<close>

definition printing_body :: "(u64 \<Rightarrow> u32) \<Rightarrow> (u64 \<Rightarrow> u8 list) \<Rightarrow> test_bodies" where
  "printing_body res msg ep S =
     andthen (tftf_testcase_printf (msg ep) (nv S)) (\<lambda>(_, n). Inr (res ep, S\<lparr>nv := n\<rparr>))"

text \<open>Where the session is: test \<open>j\<close> of suite \<open>i\<close> is next.\<close>

definition at_pos :: "session_env \<Rightarrow> nat \<Rightarrow> nat \<Rightarrow> session \<Rightarrow> bool" where
  "at_pos E i j S \<longleftrightarrow> i < length (suites_of E) \<and> j < length (cases_of (suites_of E ! i))
     \<and> sd_ref (nvm_e E) (nv S) = \<lparr>testsuite_idx = of_nat i, testcase_idx = of_nat j\<rparr>"

definition case_at :: "session_env \<Rightarrow> nat \<Rightarrow> nat \<Rightarrow> test_case" where
  "case_at E i j = cases_of (suites_of E ! i) ! j"

lemma suites_nth:
  assumes "tests_ok E" "i < length (suites_of E)"
  shows "testsuites E ! i = suites_of E ! i" "i < length (testsuites E)" "unat (of_nat i :: u32) = i"
    "suite_ok (suites_of E ! i)"
proof -
  show "suite_ok (suites_of E ! i)" using assms nth_mem [OF assms(2)] by (simp add: tests_ok_def)
  show "testsuites E ! i = suites_of E ! i" "i < length (testsuites E)"
    using assms(2) by (auto simp: suites_of_def nth_butlast)
  then show "unat (of_nat i :: u32) = i" using assms(1) by (intro unat_of_nat_word32) (simp add: tests_ok_def)
qed

lemma cases_nth:
  assumes "suite_ok s" "j < length (cases_of s)"
  shows "ts_testcases s ! j = cases_of s ! j" "j < length (ts_testcases s)" "unat (of_nat j :: u32) = j"
    "tc_name (cases_of s ! j) \<noteq> None"
proof -
  show "tc_name (cases_of s ! j) \<noteq> None" using assms nth_mem [OF assms(2)] by (simp add: suite_ok_def)
  show "ts_testcases s ! j = cases_of s ! j" "j < length (ts_testcases s)"
    using assms(2) by (auto simp: cases_of_def nth_butlast)
  then show "unat (of_nat j :: u32) = j" using assms(1) by (intro unat_of_nat_word32) (simp add: suite_ok_def)
qed

lemma get_ref_s_eq: "nvm_fits (nvm_e E) \<Longrightarrow> get_ref_s E S = Inr (sd_ref (nvm_e E) (nv S))"
  by (simp add: get_ref_s_def test_to_run_access)

lemma get_progress_s_eq: "nvm_fits (nvm_e E) \<Longrightarrow> get_progress_s E S = Inr (sd_progress (nvm_e E) (nv S))"
  by (simp add: get_progress_s_def test_progress_access)

lemma current_at:
  assumes "nvm_fits (nvm_e E)" "tests_ok E" "at_pos E i j S"
  shows "current_testsuite E S = Inr (suites_of E ! i)" "current_testcase E S = Inr (case_at E i j)"
proof -
  have p: "i < length (suites_of E)" "j < length (cases_of (suites_of E ! i))"
    "sd_ref (nvm_e E) (nv S) = \<lparr>testsuite_idx = of_nat i, testcase_idx = of_nat j\<rparr>"
    using assms(3) by (auto simp: at_pos_def)
  note s = suites_nth [OF assms(2) p(1)]
  note c = cases_nth [OF s(4) p(2)]
  show "current_testsuite E S = Inr (suites_of E ! i)" "current_testcase E S = Inr (case_at E i j)"
    using s c p(3) by (simp_all add: current_testsuite_def current_testcase_def get_ref_s_eq [OF assms(1)] case_at_def)
qed

text \<open>What is printed before a test.\<close>

definition before_text :: "session_env \<Rightarrow> nat \<Rightarrow> nat \<Rightarrow> string" where
  "before_text E i j =
     (if j = 0 then suite_start_text (the (ts_name (suites_of E ! i))) (ts_description (suites_of E ! i)) else [])
     @ ''> Executing '' @ [CHR 0x27] @ the (tc_name (case_at E i j)) @ [CHR 0x27, nl]"

lemma prepare_next_test_eq:
  assumes f: "nvm_fits (nvm_e E)" "tests_ok E" "at_pos E i j S" "lead_alone E mp S"
    and a: "\<forall>m. \<exists>a \<in> set (answers m). a \<noteq> PSCI_STATE_ON"
  shows "prepare_next_test E answers mp S
    = Inr (S\<lparr>hp := (hp S)\<lparr>test_entrypoint := (test_entrypoint (hp S))[pos (topo_e E) mp := tc_test (case_at E i j)]\<rparr>,
        test_results := replicate (unat (PLATFORM_CORE_COUNT (topo_e E))) TEST_RESULT_NA,
        console := console S @ before_text E i j, watchdog := True,
        nv := put_at (nvm_e E) off_test_progress (put_u32 TEST_IN_PROGRESS) (nv S)\<rparr>)"
proof -
  let ?S1 = "S\<lparr>hp := (hp S)\<lparr>test_entrypoint := (test_entrypoint (hp S))[pos (topo_e E) mp := tc_test (case_at E i j)]\<rparr>,
        test_results := replicate (unat (PLATFORM_CORE_COUNT (topo_e E))) TEST_RESULT_NA\<rparr>"
  have p: "i < length (suites_of E)" "j < length (cases_of (suites_of E ! i))"
    "sd_ref (nvm_e E) (nv S) = \<lparr>testsuite_idx = of_nat i, testcase_idx = of_nat j\<rparr>"
    using f(3) by (auto simp: at_pos_def)
  note s = suites_nth [OF f(2) p(1)]
  note c = cases_nth [OF s(4) p(2)]
  obtain name tname where n: "ts_name (suites_of E ! i) = Some name" "tc_name (case_at E i j) = Some tname"
    using s(4) c(4) by (auto simp: suite_ok_def case_at_def)
  have l: "topo_ok (topo_e E) (tree S)" "lead_cpu_mpid S = mp" "mp AND MPID_MASK = mp" "ref_cnt (hp S) = 0"
    "pos (topo_e E) mp < length (test_entrypoint (hp S))"
    using f(4) lead_alone_pos [OF f(4)] by (auto simp: lead_alone_def)
  have chk: "check_cpus_off E answers (map of_nat (cpu_nodes E S)) S = Inr ()"
    using check_cpus_off_ok [OF f(4) a] by simp
  have cur: "current_testcase E S = Inr (case_at E i j)" "current_testsuite E ?S1 = Inr (suites_of E ! i)"
    using current_at [OF f(1-3)] current_at(1) [OF f(1,2), of i j ?S1] f(3) by (simp_all add: at_pos_def)
  have j0: "(of_nat j :: u32) = 0 \<longleftrightarrow> j = 0" using c(3) by (auto simp: unat_eq_zero [symmetric])
  show ?thesis
    unfolding prepare_next_test_def for_each_cpu_eq [OF l(1)] cpu_nodes_def [symmetric]
    using l chk cur p(3) j0 f(1) n
    by (cases "j = 0") (simp_all add: tftf_get_ref_cnt_def Let_def get_ref_s_eq print_testsuite_start_eq
        print_test_start_eq set_progress_view before_text_def)
qed


lemma enter_test_eq:
  assumes l: "lead_alone E mp S" and ep: "test_entrypoint (hp S) ! pos (topo_e E) mp = ep" "ep \<noteq> 0"
    and rs: "length (test_results S) = unat (PLATFORM_CORE_COUNT (topo_e E))"
    and o: "output_is (nv S) []" "text_ok (msg ep)"
  obtains N where "enter_test E (printing_body res msg) mp S
      = Inr (0, S\<lparr>nv := N, test_results := (test_results S)[pos (topo_e E) mp := res ep],
          hp := (hp S)\<lparr>ref_cnt := 0, test_entrypoint := (test_entrypoint (hp S))[pos (topo_e E) mp := 0]\<rparr>\<rparr>)"
    "nvm N = nvm (nv S)" "output_is N (msg ep)"
proof -
  have p: "pos (topo_e E) mp < unat (PLATFORM_CORE_COUNT (topo_e E))" by (rule lead_alone_pos [OF l])
  have h: "ref_cnt (hp S) = 0" "length (test_entrypoint (hp S)) = unat (PLATFORM_CORE_COUNT (topo_e E))"
    "0 < PLATFORM_CORE_COUNT (topo_e E)"
    using l p by (auto simp: lead_alone_def word_less_nat_alt)
  obtain N where N: "tftf_testcase_printf (msg ep) (nv S) = Inr (int (length (msg ep)), N)" "nvm N = nvm (nv S)"
    "output_is N (msg ep)"
    using printf_appends [OF o(1), of "msg ep"] o(2) by (auto simp: text_ok_def min_def)
  have e: "enter_test E (printing_body res msg) mp S
      = Inr (0, S\<lparr>nv := N, test_results := (test_results S)[pos (topo_e E) mp := res ep],
          hp := (hp S)\<lparr>ref_cnt := 0, test_entrypoint := (test_entrypoint (hp S))[pos (topo_e E) mp := 0]\<rparr>\<rparr>)"
    using h ep rs p N(1)
    by (simp add: enter_test_def Let_def with_hp_def tftf_inc_ref_cnt_def tftf_dec_ref_cnt_def set_test_result_def
        printing_body_def)
  show thesis by (rule that [OF e N(2,3)])
qed

lemma close_test_eq:
  assumes f: "nvm_fits (nvm_e E)" "tests_ok E" "at_pos E i j S" "lead_alone E mp S"
    and t: "unat (tc_index (case_at E i j)) < TESTCASE_RESULT_COUNT (nvm_e E)"
    and p: "sd_progress (nvm_e E) (nv S) = TEST_IN_PROGRESS"
    and rs: "length (test_results S) = unat (PLATFORM_CORE_COUNT (topo_e E))" "test_results S ! pos (topo_e E) mp = r"
      "\<forall>k < length (test_results S). k \<noteq> pos (topo_e E) mp \<longrightarrow> test_results S ! k = TEST_RESULT_NA"
      "test_result_is_valid r"
    and o: "output_is (nv S) out" "outputs_wf (nvm_e E) (nv S)" "has_room (nvm_e E) (nv S) (room out)"
  obtains N where "close_test E S = andthen (advance_to_next_test E (S\<lparr>test_is_rebooting := 0, watchdog := False, nv := N,
      console := console S @ test_end_text (result_text r) (map (\<lambda>b. char_of (unat b)) out)\<rparr>)) (close_tail E)"
    "sd_ref (nvm_e E) N = sd_ref (nvm_e E) (nv S)" "sd_progress (nvm_e E) N = TEST_COMPLETE" "output_is N []"
    "outputs_wf (nvm_e E) N" "unat (sd_used (nvm_e E) N) = unat (sd_used (nvm_e E) (nv S)) + room out"
    "result (sd_result (nvm_e E) N (unat (tc_index (case_at E i j)))) = r"
    "sd_output (nvm_e E) N (unat (tc_index (case_at E i j))) = out"
    "\<And>k. k < TESTCASE_RESULT_COUNT (nvm_e E) \<Longrightarrow> k \<noteq> unat (tc_index (case_at E i j)) \<Longrightarrow>
      sd_result (nvm_e E) N k = sd_result (nvm_e E) (nv S) k \<and> sd_output (nvm_e E) N k = sd_output (nvm_e E) (nv S) k"
proof -
  let ?e = "nvm_e E" and ?k = "unat (tc_index (case_at E i j))"
  let ?N0 = "put_at ?e off_test_progress (put_u32 TEST_COMPLETE) (nv S)"
  let ?S0 = "S\<lparr>nv := ?N0, test_is_rebooting := 0, watchdog := False\<rparr>"
  have kp: "keeps ?e (nv S) ?N0" by (rule set_progress_view(2) [OF f(1)])
  have o0: "output_is ?N0 out" "outputs_wf ?e ?N0" "has_room ?e ?N0 (room out)"
    using o by (simp_all add: keeps_views [OF kp])
  have v0: "sd_ref ?e ?N0 = sd_ref ?e (nv S)" "sd_progress ?e ?N0 = TEST_COMPLETE"
    using put_progress_view [OF f(1)] by simp_all
  obtain N where N: "tftf_testcase_set_result ?e (of_nat ?k) r 0 ?N0 = Inr (STATUS_SUCCESS, N)"
    "output_is N []" "outputs_wf ?e N" "unat (sd_used ?e N) = unat (sd_used ?e ?N0) + room out"
    "sd_ref ?e N = sd_ref ?e ?N0" "sd_progress ?e N = sd_progress ?e ?N0"
    "result (sd_result ?e N ?k) = r" "sd_output ?e N ?k = out"
    "\<And>l. l < TESTCASE_RESULT_COUNT ?e \<Longrightarrow> l \<noteq> ?k \<Longrightarrow>
      sd_result ?e N l = sd_result ?e ?N0 l \<and> sd_output ?e N l = sd_output ?e ?N0 l"
    by (rule set_result_spec [OF f(1) t o0(1,3,2), of r 0]) blast
  let ?S1 = "?S0\<lparr>nv := N\<rparr>"
  have a: "at_pos E i j ?S0" "at_pos E i j ?S1" using f(3) v0 N(5) by (simp_all add: at_pos_def)
  have l: "lead_alone E mp ?S0" by (rule lead_alone_frame [OF f(4)]) (use f(4) in \<open>simp_all add: lead_alone_def\<close>)
  have ov: "get_overall_test_result E ?S0 = Inr r" using overall_result_lead [OF l, of r] rs by simp
  have hr: "has_room ?e N 0" using N(4) o0(3) by (simp add: has_room_def)
  have "0 \<notin> set out" using o(1) by (simp add: output_is_def)
  then have e: "print_test_end E (case_at E i j) ?S1 = Inr (?S1\<lparr>console := console ?S1
      @ test_end_text (result_text r) (map (\<lambda>b. char_of (unat b)) out)\<rparr>)"
    using print_test_end_eq [OF f(1), of ?S1 "case_at E i j"] N(3,7,8) hr t rs(4) by simp
  have cl: "close_test E S = andthen (advance_to_next_test E (S\<lparr>test_is_rebooting := 0, watchdog := False, nv := N,
      console := console S @ test_end_text (result_text r) (map (\<lambda>b. char_of (unat b)) out)\<rparr>)) (close_tail E)"
    unfolding close_test_def
    using f(4) p N(1) e ov current_at(2) [OF f(1,2) a(1)] current_at(2) [OF f(1,2) a(2)]
    by (simp add: set_progress_view(1) [OF f(1)] get_progress_s_eq [OF f(1)] tftf_get_ref_cnt_def lead_alone_def Let_def)
  have used: "unat (sd_used ?e N) = unat (sd_used ?e (nv S)) + room out" using N(4) kp by (simp add: keeps_def)
  have oth: "sd_result ?e N k = sd_result ?e (nv S) k \<and> sd_output ?e N k = sd_output ?e (nv S) k"
    if "k < TESTCASE_RESULT_COUNT ?e" "k \<noteq> ?k" for k
    using N(9) [OF that] kp that(1) by (simp add: keeps_def)
  show thesis
    by (rule that [OF cl _ _ N(2,3) used N(7,8) oth]) (use N(5,6) v0 in simp_all)
qed


lemma advance_eq:
  assumes f: "nvm_fits (nvm_e E)" "tests_ok E" "at_pos E i j S" "DEBUG E \<Longrightarrow> sd_progress (nvm_e E) (nv S) = TEST_COMPLETE"
  shows "advance_to_next_test E S =
    (if Suc j < length (cases_of (suites_of E ! i)) then Inr (Some (case_at E i (Suc j)), move_to E (of_nat i) (of_nat (Suc j)) S)
     else if Suc i < length (suites_of E) then Inr (Some (case_at E (Suc i) 0), move_to E (of_nat (Suc i)) 0 S)
     else Inr (None, S))"
proof -
  let ?s = "suites_of E ! i"
  have p: "i < length (suites_of E)" "j < length (cases_of ?s)"
    "sd_ref (nvm_e E) (nv S) = \<lparr>testsuite_idx = of_nat i, testcase_idx = of_nat j\<rparr>"
    using f(3) by (auto simp: at_pos_def)
  note s = suites_nth [OF f(2) p(1)]
  have ts: "ts_testcases ?s = cases_of ?s @ [last (ts_testcases ?s)]" by (rule suite_split [OF s(4)])
  then have len: "length (ts_testcases ?s) = Suc (length (cases_of ?s))" by (metis length_append_singleton)
  have uj: "unat (of_nat (Suc j) :: u32) = Suc j"
    using s(4) p(2) len by (intro unat_of_nat_word32) (simp add: suite_ok_def)
  have end_j: "ts_testcases ?s ! length (cases_of ?s) = last (ts_testcases ?s)" by (subst ts) simp
  have ss: "testsuites E = suites_of E @ [last (testsuites E)]" by (rule tests_split [OF f(2)])
  then have lens: "length (testsuites E) = Suc (length (suites_of E))" by (metis length_append_singleton)
  have ui: "unat (of_nat (Suc i) :: u32) = Suc i"
    using f(2) p(1) lens by (intro unat_of_nat_word32) (simp add: tests_ok_def)
  have end_i: "testsuites E ! length (suites_of E) = last (testsuites E)" by (subst ss) simp
  have head: "advance_to_next_test E S = andthen (aget (ts_testcases ?s) (Suc j)) (\<lambda>t.
        if tc_name t = None
        then andthen (aget (testsuites E) (Suc i)) (\<lambda>s.
             if ts_name s = None then Inr (None, S)
             else andthen (aget (ts_testcases s) 0) (\<lambda>t. Inr (Some t, move_to E (of_nat (Suc i)) 0 S)))
        else Inr (Some t, move_to E (of_nat i) (of_nat (Suc j)) S))"
    using s p(3) f(4) uj ui
    by (simp add: advance_to_next_test_def get_ref_s_eq [OF f(1)] get_progress_s_eq [OF f(1)] Let_def add.commute
        cong: if_cong)
  consider "Suc j < length (cases_of ?s)" | "Suc j = length (cases_of ?s)" "Suc i < length (suites_of E)"
    | "Suc j = length (cases_of ?s)" "Suc i = length (suites_of E)" using p by linarith
  then show ?thesis
  proof cases
    case 1
    then show ?thesis using cases_nth [OF s(4) 1] unfolding head by (auto simp: case_at_def)
  next
    case 2
    have e: "aget (ts_testcases ?s) (Suc j) = Inr (last (ts_testcases ?s))" "tc_name (last (ts_testcases ?s)) = None"
      using 2(1) end_j len s(4) by (simp_all add: suite_ok_def)
    note n = suites_nth [OF f(2) 2(2)]
    have "0 < length (cases_of (suites_of E ! Suc i))" using n(4) by (simp add: suite_ok_def)
    note c = cases_nth [OF n(4) this]
    have "ts_name (suites_of E ! Suc i) \<noteq> None" using n(4) by (simp add: suite_ok_def)
    then show ?thesis using 2 e n(1,2) c(1,2) unfolding head by (auto simp: case_at_def)
  next
    case 3
    have e: "aget (ts_testcases ?s) (Suc j) = Inr (last (ts_testcases ?s))" "tc_name (last (ts_testcases ?s)) = None"
      using 3(1) end_j len s(4) by (simp_all add: suite_ok_def)
    have "aget (testsuites E) (Suc i) = Inr (last (testsuites E))" "ts_name (last (testsuites E)) = None"
      using 3(2) end_i lens f(2) by (simp_all add: tests_ok_def)
    then show ?thesis using 3 e unfolding head by simp
  qed
qed

text \<open>The tests still to run, the position after the first of them, and what they print.\<close>

definition tests_from :: "session_env \<Rightarrow> nat \<Rightarrow> nat \<Rightarrow> test_case list" where
  "tests_from E i j = drop j (cases_of (suites_of E ! i)) @ concat (map cases_of (drop (Suc i) (suites_of E)))"

definition all_tests :: "session_env \<Rightarrow> test_case list" where
  "all_tests E = concat (map cases_of (suites_of E))"

definition case_text :: "(u64 \<Rightarrow> u32) \<Rightarrow> (u64 \<Rightarrow> u8 list) \<Rightarrow> test_case \<Rightarrow> string" where
  "case_text res msg t = ''> Executing '' @ [CHR 0x27] @ the (tc_name t) @ [CHR 0x27, nl]
     @ test_end_text (result_text (res (tc_test t))) (map (\<lambda>b. char_of (unat b)) (msg (tc_test t)))"

definition suite_text :: "(u64 \<Rightarrow> u32) \<Rightarrow> (u64 \<Rightarrow> u8 list) \<Rightarrow> test_suite \<Rightarrow> string" where
  "suite_text res msg s = suite_start_text (the (ts_name s)) (ts_description s) @ concat (map (case_text res msg) (cases_of s))"

definition text_from :: "session_env \<Rightarrow> (u64 \<Rightarrow> u32) \<Rightarrow> (u64 \<Rightarrow> u8 list) \<Rightarrow> nat \<Rightarrow> nat \<Rightarrow> string" where
  "text_from E res msg i j =
     (if j = 0 then suite_start_text (the (ts_name (suites_of E ! i))) (ts_description (suites_of E ! i)) else [])
     @ concat (map (case_text res msg) (drop j (cases_of (suites_of E ! i))))
     @ concat (map (suite_text res msg) (drop (Suc i) (suites_of E)))"

lemma tests_from_same:
  assumes "Suc j < length (cases_of (suites_of E ! i))"
  shows "tests_from E i j = case_at E i j # tests_from E i (Suc j)"
    and "text_from E res msg i j = before_text E i j
      @ test_end_text (result_text (res (tc_test (case_at E i j)))) (map (\<lambda>b. char_of (unat b)) (msg (tc_test (case_at E i j))))
      @ text_from E res msg i (Suc j)"
  using assms Cons_nth_drop_Suc [of j "cases_of (suites_of E ! i)", symmetric]
  by (simp_all add: tests_from_def text_from_def before_text_def case_at_def case_text_def)

lemma tests_from_next:
  assumes "Suc j = length (cases_of (suites_of E ! i))" "Suc i < length (suites_of E)"
  shows "tests_from E i j = case_at E i j # tests_from E (Suc i) 0"
    and "text_from E res msg i j = before_text E i j
      @ test_end_text (result_text (res (tc_test (case_at E i j)))) (map (\<lambda>b. char_of (unat b)) (msg (tc_test (case_at E i j))))
      @ text_from E res msg (Suc i) 0"
proof -
  have "drop j (cases_of (suites_of E ! i)) = [case_at E i j]"
    using assms(1) Cons_nth_drop_Suc [of j "cases_of (suites_of E ! i)", symmetric] by (simp add: case_at_def)
  moreover have "drop (Suc i) (suites_of E) = suites_of E ! Suc i # drop (Suc (Suc i)) (suites_of E)"
    using assms(2) by (simp add: Cons_nth_drop_Suc)
  ultimately show "tests_from E i j = case_at E i j # tests_from E (Suc i) 0"
    "text_from E res msg i j = before_text E i j
      @ test_end_text (result_text (res (tc_test (case_at E i j)))) (map (\<lambda>b. char_of (unat b)) (msg (tc_test (case_at E i j))))
      @ text_from E res msg (Suc i) 0"
    by (simp_all add: tests_from_def text_from_def before_text_def case_text_def suite_text_def)
qed

lemma tests_from_last:
  assumes "Suc j = length (cases_of (suites_of E ! i))" "Suc i = length (suites_of E)"
  shows "tests_from E i j = [case_at E i j]"
    and "text_from E res msg i j = before_text E i j
      @ test_end_text (result_text (res (tc_test (case_at E i j)))) (map (\<lambda>b. char_of (unat b)) (msg (tc_test (case_at E i j))))"
proof -
  have "drop j (cases_of (suites_of E ! i)) = [case_at E i j]"
    using assms(1) Cons_nth_drop_Suc [of j "cases_of (suites_of E ! i)", symmetric] by (simp add: case_at_def)
  then show "tests_from E i j = [case_at E i j]"
    "text_from E res msg i j = before_text E i j
      @ test_end_text (result_text (res (tc_test (case_at E i j)))) (map (\<lambda>b. char_of (unat b)) (msg (tc_test (case_at E i j))))"
    using assms(2) by (simp_all add: tests_from_def text_from_def before_text_def case_text_def)
qed


text \<open>What the session is run with: tests that print short texts and return a valid result, and a firmware that
  reports the other CPUs off at some point.\<close>

definition session_ok :: "session_env \<Rightarrow> firmware \<Rightarrow> (u64 \<Rightarrow> u32) \<Rightarrow> (u64 \<Rightarrow> u8 list) \<Rightarrow> bool" where
  "session_ok E F res msg \<longleftrightarrow> nvm_fits (nvm_e E) \<and> tests_ok E \<and> \<not> RESET_AFTER_TEST E
     \<and> (\<forall>S m. \<exists>a \<in> set (affinity_answers F S m). a \<noteq> PSCI_STATE_ON)
     \<and> (\<forall>t \<in> set (all_tests E). unat (tc_index t) < TESTCASE_RESULT_COUNT (nvm_e E) \<and> tc_test t \<noteq> 0
          \<and> test_result_is_valid (res (tc_test t)) \<and> text_ok (msg (tc_test t)))
     \<and> distinct (map tc_index (all_tests E)) \<and> length (all_tests E) < 2 ^ 31"

definition rooms :: "(u64 \<Rightarrow> u8 list) \<Rightarrow> test_case list \<Rightarrow> nat" where
  "rooms msg ts = sum_list (map (\<lambda>t. room (msg (tc_test t))) ts)"

lemma case_at_in:
  assumes "i < length (suites_of E)" "j < length (cases_of (suites_of E ! i))"
  shows "case_at E i j \<in> set (all_tests E)"
  using nth_mem [OF assms(1)] nth_mem [OF assms(2)] by (auto simp: all_tests_def case_at_def)

text \<open>A round: the state with its result stored, before moving to the next test.\<close>

lemma run_one_round:
  assumes ok: "session_ok E F res msg" and a: "at_pos E i j S" and l: "lead_alone E mp S"
    and o: "output_is (nv S) []" "outputs_wf (nvm_e E) (nv S)" "has_room (nvm_e E) (nv S) (room (msg (tc_test (case_at E i j))))"
  obtains S' where
    "run_one E F (printing_body res msg) mp S =
       after_close E F mp (andthen (advance_to_next_test E S') (close_tail E))"
    "at_pos E i j S'" "lead_alone E mp S'" "sd_progress (nvm_e E) (nv S') = TEST_COMPLETE" "output_is (nv S') []"
    "outputs_wf (nvm_e E) (nv S')"
    "unat (sd_used (nvm_e E) (nv S')) = unat (sd_used (nvm_e E) (nv S)) + room (msg (tc_test (case_at E i j)))"
    "stored_result E S' (case_at E i j) = res (tc_test (case_at E i j))"
    "sd_output (nvm_e E) (nv S') (unat (tc_index (case_at E i j))) = msg (tc_test (case_at E i j))"
    "\<And>k. k < TESTCASE_RESULT_COUNT (nvm_e E) \<Longrightarrow> k \<noteq> unat (tc_index (case_at E i j)) \<Longrightarrow>
      sd_result (nvm_e E) (nv S') k = sd_result (nvm_e E) (nv S) k \<and> sd_output (nvm_e E) (nv S') k = sd_output (nvm_e E) (nv S) k"
    "console S' = console S @ before_text E i j
      @ test_end_text (result_text (res (tc_test (case_at E i j)))) (map (\<lambda>b. char_of (unat b)) (msg (tc_test (case_at E i j))))"
proof -
  let ?e = "nvm_e E" and ?t = "case_at E i j"
  let ?ep = "tc_test ?t" and ?p = "pos (topo_e E) mp"
  have f: "nvm_fits ?e" "tests_ok E" using ok by (simp_all add: session_ok_def)
  have t: "unat (tc_index ?t) < TESTCASE_RESULT_COUNT ?e" "?ep \<noteq> 0" "test_result_is_valid (res ?ep)" "text_ok (msg ?ep)"
    using ok case_at_in [of i E j] a by (auto simp: session_ok_def at_pos_def)
  have ans: "\<forall>m. \<exists>x \<in> set (affinity_answers F S m). x \<noteq> PSCI_STATE_ON" using ok by (simp add: session_ok_def)
  have p: "?p < unat (PLATFORM_CORE_COUNT (topo_e E))" by (rule lead_alone_pos [OF l])
  let ?N1 = "put_at ?e off_test_progress (put_u32 TEST_IN_PROGRESS) (nv S)"
  let ?S1 = "S\<lparr>hp := (hp S)\<lparr>test_entrypoint := (test_entrypoint (hp S))[?p := ?ep]\<rparr>,
        test_results := replicate (unat (PLATFORM_CORE_COUNT (topo_e E))) TEST_RESULT_NA,
        console := console S @ before_text E i j, watchdog := True, nv := ?N1\<rparr>"
  note prep = prepare_next_test_eq [OF f a l ans]
  have k1: "keeps ?e (nv S) ?N1" by (rule set_progress_view(2) [OF f(1)])
  have l1: "lead_alone E mp ?S1" by (rule lead_alone_frame [OF l]) (use l in \<open>simp_all add: lead_alone_def\<close>)
  have e1: "test_entrypoint (hp ?S1) ! ?p = ?ep" using l p by (simp add: lead_alone_def)
  obtain N2 where en: "enter_test E (printing_body res msg) mp ?S1
      = Inr (0, ?S1\<lparr>nv := N2, test_results := (test_results ?S1)[?p := res ?ep],
          hp := (hp ?S1)\<lparr>ref_cnt := 0, test_entrypoint := (test_entrypoint (hp ?S1))[?p := 0]\<rparr>\<rparr>)"
    and N2: "nvm N2 = nvm (nv ?S1)" "output_is N2 (msg ?ep)"
    by (rule enter_test_eq [OF l1 e1 t(2), of msg res]) (use o(1) t(4) in simp_all)
  let ?S2 = "?S1\<lparr>nv := N2, test_results := (test_results ?S1)[?p := res ?ep],
          hp := (hp ?S1)\<lparr>ref_cnt := 0, test_entrypoint := (test_entrypoint (hp ?S1))[?p := 0]\<rparr>\<rparr>"
  have v2: "sd_ref ?e N2 = sd_ref ?e (nv S)" "sd_progress ?e N2 = TEST_IN_PROGRESS" "sd_used ?e N2 = sd_used ?e (nv S)"
    "outputs_wf ?e N2" "has_room ?e N2 (room (msg ?ep))"
    using sd_nvm_cong [OF N2(1)] put_progress_view [OF f(1)] o(2,3) keeps_views [OF k1] k1
    by (simp_all add: outputs_wf_def has_room_def keeps_def)
  have a2: "at_pos E i j ?S2" using a v2(1) by (simp add: at_pos_def)
  have l2: "lead_alone E mp ?S2" by (rule lead_alone_frame [OF l1]) simp_all
  obtain N where cl: "close_test E ?S2 = andthen (advance_to_next_test E (?S2\<lparr>test_is_rebooting := 0, watchdog := False, nv := N,
      console := console ?S2 @ test_end_text (result_text (res ?ep)) (map (\<lambda>b. char_of (unat b)) (msg ?ep))\<rparr>)) (close_tail E)"
    and N: "sd_ref ?e N = sd_ref ?e (nv ?S2)" "sd_progress ?e N = TEST_COMPLETE" "output_is N []"
    "outputs_wf ?e N" "unat (sd_used ?e N) = unat (sd_used ?e (nv ?S2)) + room (msg ?ep)"
    "result (sd_result ?e N (unat (tc_index ?t))) = res ?ep" "sd_output ?e N (unat (tc_index ?t)) = msg ?ep"
    "\<And>k. k < TESTCASE_RESULT_COUNT ?e \<Longrightarrow> k \<noteq> unat (tc_index ?t) \<Longrightarrow>
      sd_result ?e N k = sd_result ?e (nv ?S2) k \<and> sd_output ?e N k = sd_output ?e (nv ?S2) k"
    by (rule close_test_eq [OF f a2 l2 t(1), of "res ?ep" "msg ?ep"]) (use p t(3) v2 N2(2) in simp_all)
  let ?S3 = "?S2\<lparr>test_is_rebooting := 0, watchdog := False, nv := N,
      console := console ?S2 @ test_end_text (result_text (res ?ep)) (map (\<lambda>b. char_of (unat b)) (msg ?ep))\<rparr>"
  have g: "mp = lead_cpu_mpid S \<and> tftf_get_ref_cnt (hp S) = 0" using l by (simp add: lead_alone_def tftf_get_ref_cnt_def)
  have old: "sd_result ?e N k = sd_result ?e (nv S) k \<and> sd_output ?e N k = sd_output ?e (nv S) k"
    if "k < TESTCASE_RESULT_COUNT ?e" "k \<noteq> unat (tc_index ?t)" for k
    using N(8) [OF that] sd_nvm_cong(3,5) [OF N2(1), of ?e k] k1 that(1) by (simp add: keeps_def)
  show thesis
  proof (rule that [of ?S3])
    show "run_one E F (printing_body res msg) mp S =
       after_close E F mp (andthen (advance_to_next_test E ?S3) (close_tail E))"
      unfolding run_one_def if_P [OF g] prep andthen_Inr en sum.case prod.case cl by (simp only: simp_thms if_True)
    show "at_pos E i j ?S3" using a2 N(1) by (simp add: at_pos_def)
    show "lead_alone E mp ?S3" by (rule lead_alone_frame [OF l2]) simp_all
  qed (use N old v2 in \<open>simp_all add: stored_result_def\<close>)
qed


lemma clean_nvm_keeps:
  assumes "nvm_fits E"
  shows "keeps E N (snd (tftf_clean_nvm E N))"
proof -
  have "tftf_clean_nvm E N = (STATUS_SUCCESS, put_at E off_build_message [0] N)"
    using nvm_write_in [OF assms, of off_build_message "[0]"] fits_field(4) [OF assms] by (simp add: tftf_clean_nvm_def)
  then show ?thesis using put_low_keeps [OF assms, of off_build_message "[0]"] by (simp add: off_defs)
qed

lemma summary_text_cong:
  assumes "\<forall>t \<in> set (all_tests E). stored_result E S' t = stored_result E S t"
  shows "summary_text E S' = summary_text E S"
proof -
  have "suite_summary E S' s = suite_summary E S s" if "s \<in> set (suites_of E)" for s
  proof -
    have "map (stored_result E S') (cases_of s) = map (stored_result E S) (cases_of s)"
      using assms that by (auto simp: all_tests_def)
    then show ?thesis by (simp only: suite_summary_def)
  qed
  then have "map (suite_summary E S') (suites_of E) = map (suite_summary E S) (suites_of E)" by simp
  moreover have "all_results E S' = all_results E S"
    using assms by (simp add: all_results_def all_tests_def)
  ultimately show ?thesis by (simp only: summary_text_def)
qed

text \<open>What a session that starts at a test leaves: its results and texts, the others untouched, and the report.\<close>

definition session_left :: "session_env \<Rightarrow> (u64 \<Rightarrow> u32) \<Rightarrow> (u64 \<Rightarrow> u8 list) \<Rightarrow> nat \<Rightarrow> nat \<Rightarrow> session \<Rightarrow> session \<Rightarrow> bool" where
  "session_left E res msg i j S S' \<longleftrightarrow>
     (\<forall>t \<in> set (tests_from E i j). stored_result E S' t = res (tc_test t)
        \<and> sd_output (nvm_e E) (nv S') (unat (tc_index t)) = msg (tc_test t))
     \<and> (\<forall>k < TESTCASE_RESULT_COUNT (nvm_e E). k \<notin> (\<lambda>t. unat (tc_index t)) ` set (tests_from E i j) \<longrightarrow>
        sd_result (nvm_e E) (nv S') k = sd_result (nvm_e E) (nv S) k \<and> sd_output (nvm_e E) (nv S') k = sd_output (nvm_e E) (nv S) k)
     \<and> console S' = console S @ text_from E res msg i j @ summary_text E S' @ [char_of (4 :: nat)]"

definition session_at :: "session_env \<Rightarrow> (u64 \<Rightarrow> u32) \<Rightarrow> (u64 \<Rightarrow> u8 list) \<Rightarrow> u32 \<Rightarrow> nat \<Rightarrow> nat \<Rightarrow> session \<Rightarrow> bool" where
  "session_at E res msg mp i j S \<longleftrightarrow> at_pos E i j S \<and> lead_alone E mp S \<and> output_is (nv S) []
     \<and> outputs_wf (nvm_e E) (nv S) \<and> has_room (nvm_e E) (nv S) (rooms msg (tests_from E i j))
     \<and> (\<forall>t \<in> set (all_tests E) - set (tests_from E i j). test_result_is_valid (stored_result E S t))
     \<and> set (tests_from E i j) \<subseteq> set (all_tests E) \<and> distinct (map tc_index (tests_from E i j))"

text \<open>Moving on to the next position.\<close>

lemma run_tests_continue:
  assumes ok: "session_ok E F res msg" and st: "session_at E res msg mp i j S"
    and nx: "tests_from E i j = case_at E i j # tests_from E i' j'"
      "text_from E res msg i j = before_text E i j
        @ test_end_text (result_text (res (tc_test (case_at E i j)))) (map (\<lambda>b. char_of (unat b)) (msg (tc_test (case_at E i j))))
        @ text_from E res msg i' j'"
      "i' < length (suites_of E)" "j' < length (cases_of (suites_of E ! i'))"
    and adv: "\<And>S'. at_pos E i j S' \<Longrightarrow> sd_progress (nvm_e E) (nv S') = TEST_COMPLETE \<Longrightarrow>
      advance_to_next_test E S' = Inr (Some (case_at E i' j'), move_to E (of_nat i') (of_nat j') S')"
  obtains S1 where "run_tests E F (printing_body res msg) mp S = run_tests E F (printing_body res msg) mp S1"
    "session_at E res msg mp i' j' S1"
    "\<And>S'. session_left E res msg i' j' S1 S' \<Longrightarrow> session_left E res msg i j S S'"
proof -
  let ?e = "nvm_e E" and ?t = "case_at E i j"
  have f: "nvm_fits ?e" using ok by (simp add: session_ok_def)
  have s: "at_pos E i j S" "lead_alone E mp S" "output_is (nv S) []" "outputs_wf ?e (nv S)"
    "has_room ?e (nv S) (room (msg (tc_test ?t)) + rooms msg (tests_from E i' j'))"
    using st nx(1) by (simp_all add: session_at_def rooms_def)
  have hr: "has_room ?e (nv S) (room (msg (tc_test ?t)))" by (rule has_room_mono [OF s(5)]) simp
  obtain S' where run: "run_one E F (printing_body res msg) mp S =
       after_close E F mp (andthen (advance_to_next_test E S') (close_tail E))"
    and S': "at_pos E i j S'" "lead_alone E mp S'" "sd_progress ?e (nv S') = TEST_COMPLETE" "output_is (nv S') []"
    "outputs_wf ?e (nv S')" "unat (sd_used ?e (nv S')) = unat (sd_used ?e (nv S)) + room (msg (tc_test ?t))"
    "stored_result E S' ?t = res (tc_test ?t)" "sd_output ?e (nv S') (unat (tc_index ?t)) = msg (tc_test ?t)"
    "\<And>k. k < TESTCASE_RESULT_COUNT ?e \<Longrightarrow> k \<noteq> unat (tc_index ?t) \<Longrightarrow>
      sd_result ?e (nv S') k = sd_result ?e (nv S) k \<and> sd_output ?e (nv S') k = sd_output ?e (nv S) k"
    "console S' = console S @ before_text E i j
      @ test_end_text (result_text (res (tc_test ?t))) (map (\<lambda>b. char_of (unat b)) (msg (tc_test ?t)))"
    by (rule run_one_round [OF ok s(1-4) hr]) blast
  obtain N where N: "move_to E (of_nat i') (of_nat j') S' = S'\<lparr>nv := N\<rparr>" "keeps ?e (nv S') N"
    "output_is N [] = output_is (nv S') []" "sd_ref ?e N = \<lparr>testsuite_idx = of_nat i', testcase_idx = of_nat j'\<rparr>"
    by (rule move_to_view [OF f, of "of_nat i'" "of_nat j'" S' "[]"])
  let ?S1 = "S'\<lparr>nv := N\<rparr>"
  have valid: "test_result_is_valid (res (tc_test ?t))" and idx: "\<forall>t \<in> set (all_tests E). unat (tc_index t) < TESTCASE_RESULT_COUNT ?e"
    using ok case_at_in [of i E j] s(1) by (auto simp: session_ok_def at_pos_def)
  have dist: "tc_index ?t \<notin> tc_index ` set (tests_from E i' j')" "distinct (map tc_index (tests_from E i' j'))"
    and sub: "set (tests_from E i' j') \<subseteq> set (all_tests E)" "?t \<in> set (all_tests E)"
    using st nx(1) by (auto simp: session_at_def)
  have inj: "t = ?t" if "t \<in> set (all_tests E)" "tc_index t = tc_index ?t" for t
    using ok that sub(2) by (auto simp: session_ok_def distinct_map dest: inj_onD)
  have "run_one E F (printing_body res msg) mp S = Some (Inr (Continue, ?S1))"
    unfolding run adv [OF S'(1,3)] N(1) using ok S'(2)
    by (simp add: close_tail_def after_close_def session_ok_def lead_alone_def)
  then have r: "run_tests E F (printing_body res msg) mp S = run_tests E F (printing_body res msg) mp ?S1"
    by (subst run_tests.simps) simp
  have same: "stored_result E ?S1 t = stored_result E S t" if "t \<in> set (all_tests E)" "t \<noteq> ?t" for t
  proof -
    have "unat (tc_index t) \<noteq> unat (tc_index ?t)" using inj [OF that(1)] that(2) by (metis word_unat_eq_iff)
    then show ?thesis using S'(9) N(2) idx that(1) by (simp add: stored_result_def keeps_def)
  qed
  have new: "stored_result E ?S1 ?t = res (tc_test ?t)" "sd_output ?e N (unat (tc_index ?t)) = msg (tc_test ?t)"
    using S'(7,8) N(2) idx sub(2) by (simp_all add: stored_result_def keeps_def)
  have "lead_alone E mp ?S1" by (rule lead_alone_frame [OF S'(2)]) (use S'(2) in \<open>simp_all add: lead_alone_def\<close>)
  moreover have "has_room ?e N (rooms msg (tests_from E i' j'))"
    using s(5) S'(6) keeps_views(2) [OF N(2)] by (simp add: has_room_def)
  moreover have "test_result_is_valid (stored_result E ?S1 t)" if "t \<in> set (all_tests E) - set (tests_from E i' j')" for t
    using that same [of t] new(1) valid st nx(1) by (cases "t = ?t") (auto simp: session_at_def)
  ultimately have at1: "session_at E res msg mp i' j' ?S1"
    using nx(3,4) N(3,4) S'(4,5) keeps_views(1) [OF N(2)] dist(2) sub(1)
    by (simp add: session_at_def at_pos_def)
  have left: "session_left E res msg i j S S''" if L: "session_left E res msg i' j' ?S1 S''" for S''
  proof -
    have ni: "unat (tc_index ?t) \<notin> (\<lambda>t. unat (tc_index t)) ` set (tests_from E i' j')"
      using dist(1) by (auto simp: word_unat_eq_iff image_iff)
    have keep: "sd_result ?e (nv S'') k = sd_result ?e N k \<and> sd_output ?e (nv S'') k = sd_output ?e N k"
      if "k < TESTCASE_RESULT_COUNT ?e" "k \<notin> (\<lambda>t. unat (tc_index t)) ` set (tests_from E i' j')" for k
      using L that by (simp add: session_left_def)
    have "stored_result E S'' ?t = res (tc_test ?t) \<and> sd_output ?e (nv S'') (unat (tc_index ?t)) = msg (tc_test ?t)"
      using keep [OF _ ni] idx sub(2) new by (simp add: stored_result_def)
    moreover have "sd_result ?e (nv S'') k = sd_result ?e (nv S) k \<and> sd_output ?e (nv S'') k = sd_output ?e (nv S) k"
      if "k < TESTCASE_RESULT_COUNT ?e" "k \<notin> (\<lambda>t. unat (tc_index t)) ` set (tests_from E i j)" for k
      using keep [of k] that nx(1) S'(9) [of k] N(2) by (simp add: keeps_def)
    moreover have "console S'' = console S @ text_from E res msg i j @ summary_text E S'' @ [char_of (4 :: nat)]"
      using L S'(10) nx(2) by (simp add: session_left_def)
    ultimately show ?thesis using L nx(1) by (simp add: session_left_def)
  qed
  show thesis by (rule that [OF r at1 left])
qed

lemma run_tests_last:
  assumes ok: "session_ok E F res msg" and st: "session_at E res msg mp i j S"
    and la: "Suc j = length (cases_of (suites_of E ! i))" "Suc i = length (suites_of E)"
  shows "\<exists>S'. run_tests E F (printing_body res msg) mp S = Some (Inr (TestsOver, S')) \<and> session_left E res msg i j S S'"
proof -
  let ?e = "nvm_e E" and ?t = "case_at E i j"
  note nx = tests_from_last [OF la]
  have f: "nvm_fits ?e" "tests_ok E" using ok by (simp_all add: session_ok_def)
  have s: "at_pos E i j S" "lead_alone E mp S" "output_is (nv S) []" "outputs_wf ?e (nv S)"
    "has_room ?e (nv S) (room (msg (tc_test ?t)))"
    using st nx(1) by (simp_all add: session_at_def rooms_def)
  obtain S' where run: "run_one E F (printing_body res msg) mp S =
       after_close E F mp (andthen (advance_to_next_test E S') (close_tail E))"
    and S': "at_pos E i j S'" "lead_alone E mp S'" "sd_progress ?e (nv S') = TEST_COMPLETE" "output_is (nv S') []"
    "outputs_wf ?e (nv S')" "unat (sd_used ?e (nv S')) = unat (sd_used ?e (nv S)) + room (msg (tc_test ?t))"
    "stored_result E S' ?t = res (tc_test ?t)" "sd_output ?e (nv S') (unat (tc_index ?t)) = msg (tc_test ?t)"
    "\<And>k. k < TESTCASE_RESULT_COUNT ?e \<Longrightarrow> k \<noteq> unat (tc_index ?t) \<Longrightarrow>
      sd_result ?e (nv S') k = sd_result ?e (nv S) k \<and> sd_output ?e (nv S') k = sd_output ?e (nv S) k"
    "console S' = console S @ before_text E i j
      @ test_end_text (result_text (res (tc_test ?t))) (map (\<lambda>b. char_of (unat b)) (msg (tc_test ?t)))"
    by (rule run_one_round [OF ok s]) blast
  have idx: "\<forall>t \<in> set (all_tests E). unat (tc_index t) < TESTCASE_RESULT_COUNT ?e"
    and valid: "test_result_is_valid (res (tc_test ?t))" and n: "length (all_tests E) < 2 ^ 31" and ti: "?t \<in> set (all_tests E)"
    using ok case_at_in [of i E j] s(1) by (auto simp: session_ok_def at_pos_def)
  have inj: "t = ?t" if "t \<in> set (all_tests E)" "tc_index t = tc_index ?t" for t
    using ok that ti by (auto simp: session_ok_def distinct_map dest: inj_onD)
  have "test_result_is_valid (stored_result E S' t)" if "t \<in> set (all_tests E)" for t
  proof (cases "t = ?t")
    case False
    then have "unat (tc_index t) \<noteq> unat (tc_index ?t)" using inj [OF that] by (metis word_unat_eq_iff)
    then have "stored_result E S' t = stored_result E S t" using S'(9) idx that by (simp add: stored_result_def)
    then show ?thesis using st nx(1) that False by (simp add: session_at_def)
  qed (use S'(7) valid in simp)
  moreover have "has_room ?e (nv S') 0" using s(5) S'(6) by (simp add: has_room_def)
  ultimately have sum: "print_tests_summary E S' = Inr (S'\<lparr>console := console S' @ summary_text E S'\<rparr>)"
    using idx n S'(5) f by (intro print_tests_summary_eq) (simp_all add: all_tests_def all_results_def)
  let ?S = "tftf_exit (S'\<lparr>console := console S' @ summary_text E S', nv := snd (tftf_clean_nvm ?e (nv S'))\<rparr>)"
  have "advance_to_next_test E S' = Inr (None, S')" using advance_eq [OF f S'(1,3)] la by simp
  then have "run_one E F (printing_body res msg) mp S = Some (Inr (Stop TestsOver, ?S))"
    using sum by (simp add: run close_tail_def after_close_def)
  then have r: "run_tests E F (printing_body res msg) mp S = Some (Inr (TestsOver, ?S))"
    by (subst run_tests.simps) simp
  have k: "keeps ?e (nv S') (nv ?S)" using clean_nvm_keeps [OF f(1)] by (simp add: tftf_exit_def)
  have st2: "stored_result E ?S t = stored_result E S' t" if "t \<in> set (all_tests E)" for t
    using k idx that by (simp add: stored_result_def keeps_def)
  have "summary_text E ?S = summary_text E S'" by (rule summary_text_cong) (simp add: st2)
  then have "console ?S = console S @ text_from E res msg i j @ summary_text E ?S @ [char_of (4 :: nat)]"
    using S'(10) nx(2) by (simp add: tftf_exit_def)
  moreover have "stored_result E ?S ?t = res (tc_test ?t) \<and> sd_output ?e (nv ?S) (unat (tc_index ?t)) = msg (tc_test ?t)"
    using st2 [OF ti] S'(7,8) k idx ti by (simp add: keeps_def)
  moreover have "sd_result ?e (nv ?S) k = sd_result ?e (nv S) k \<and> sd_output ?e (nv ?S) k = sd_output ?e (nv S) k"
    if "k < TESTCASE_RESULT_COUNT ?e" "k \<noteq> unat (tc_index ?t)" for k
    using S'(9) [OF that] \<open>keeps ?e (nv S') (nv ?S)\<close> that(1) by (simp add: keeps_def)
  ultimately have "session_left E res msg i j S ?S" by (simp add: session_left_def nx(1))
  then show ?thesis using r by blast
qed

lemma run_tests_from:
  assumes ok: "session_ok E F res msg"
  shows "session_at E res msg mp i j S \<Longrightarrow>
    \<exists>S'. run_tests E F (printing_body res msg) mp S = Some (Inr (TestsOver, S')) \<and> session_left E res msg i j S S'"
proof (induction "length (tests_from E i j)" arbitrary: i j S rule: less_induct)
  case less
  have f: "nvm_fits (nvm_e E)" "tests_ok E" using ok by (simp_all add: session_ok_def)
  have p: "i < length (suites_of E)" "j < length (cases_of (suites_of E ! i))" using less.prems by (auto simp: session_at_def at_pos_def)
  consider "Suc j < length (cases_of (suites_of E ! i))"
    | "Suc j = length (cases_of (suites_of E ! i))" "Suc i < length (suites_of E)"
    | "Suc j = length (cases_of (suites_of E ! i))" "Suc i = length (suites_of E)" using p by linarith
  then show ?case
  proof cases
    case 1
    note nx = tests_from_same [OF 1]
    obtain S1 where S1: "run_tests E F (printing_body res msg) mp S = run_tests E F (printing_body res msg) mp S1"
      "session_at E res msg mp i (Suc j) S1"
      "\<And>S'. session_left E res msg i (Suc j) S1 S' \<Longrightarrow> session_left E res msg i j S S'"
      by (rule run_tests_continue [OF ok less.prems nx p(1) 1]) (use advance_eq [OF f] 1 in simp_all)
    have "length (tests_from E i (Suc j)) < length (tests_from E i j)" by (simp add: nx(1))
    from less.hyps [OF this S1(2)] show ?thesis using S1(1,3) by auto
  next
    case 2
    note nx = tests_from_next [OF 2]
    have c: "0 < length (cases_of (suites_of E ! Suc i))" using suites_nth(4) [OF f(2) 2(2)] by (simp add: suite_ok_def)
    obtain S1 where S1: "run_tests E F (printing_body res msg) mp S = run_tests E F (printing_body res msg) mp S1"
      "session_at E res msg mp (Suc i) 0 S1"
      "\<And>S'. session_left E res msg (Suc i) 0 S1 S' \<Longrightarrow> session_left E res msg i j S S'"
      by (rule run_tests_continue [OF ok less.prems nx 2(2) c]) (use advance_eq [OF f] 2 in simp_all)
    have "length (tests_from E (Suc i) 0) < length (tests_from E i j)" by (simp add: nx(1))
    from less.hyps [OF this S1(2)] show ?thesis using S1(1,3) by auto
  next
    case 3
    then show ?thesis by (rule run_tests_last [OF ok less.prems])
  qed
qed

lemma tests_from_0: "suites_of E \<noteq> [] \<Longrightarrow> tests_from E 0 0 = all_tests E"
  by (cases "suites_of E") (simp_all add: tests_from_def all_tests_def)

lemma text_from_0: "suites_of E \<noteq> [] \<Longrightarrow> text_from E res msg 0 0 = concat (map (suite_text res msg) (suites_of E))"
  by (cases "suites_of E") (simp_all add: text_from_def suite_text_def)

text \<open>C1: on a freshly initialised session the framework runs every test of every suite exactly once and in the order
  of the lists, terminates, stores for each test the result it returned and the text it printed, and prints
  the announcements, the results and a summary with the number of tests per result. It does so when the
  tests run on the lead CPU, the firmware reports the other CPUs off at some point, and the texts fit the
  storage; no assertion fails, in debug builds neither.\<close>

theorem session_runs_all_tests:
  assumes "session_ok E F res msg" and "lead_alone E mp S" and "output_is (nv S) []"
    and "off_result_buffer (nvm_e E) + rooms msg (all_tests E) \<le> unat (TFTF_NVM_SIZE (nvm_e E))"
    and "rooms msg (all_tests E) < 2 ^ 32"
  shows "\<exists>S'. run_tests E F (printing_body res msg) mp (S\<lparr>nv := snd (tftf_init_nvm (nvm_e E) (nv S))\<rparr>) = Some (Inr (TestsOver, S'))
    \<and> (\<forall>t \<in> set (all_tests E). stored_result E S' t = res (tc_test t)
        \<and> sd_output (nvm_e E) (nv S') (unat (tc_index t)) = msg (tc_test t))
    \<and> console S' = console S @ concat (map (suite_text res msg) (suites_of E)) @ summary_text E S' @ [char_of (4 :: nat)]"
proof -
  let ?e = "nvm_e E"
  have f: "nvm_fits ?e" "tests_ok E" using assms(1) by (simp_all add: session_ok_def)
  have ne: "suites_of E \<noteq> []" "0 < length (cases_of (suites_of E ! 0))"
    using f(2) suites_nth(4) [OF f(2), of 0] by (auto simp: tests_ok_def suite_ok_def)
  note v = init_view [OF f(1)]
  let ?S = "S\<lparr>nv := snd (tftf_init_nvm ?e (nv S))\<rparr>"
  have l: "lead_alone E mp ?S" by (rule lead_alone_frame [OF assms(2)]) (use assms(2) in \<open>simp_all add: lead_alone_def\<close>)
  have o: "output_is (nv ?S) []" "outputs_wf ?e (nv ?S)" "has_room ?e (nv ?S) (rooms msg (all_tests E))"
    using assms(3-5) by (simp_all add: v outputs_wf_def has_room_def)
  have "session_at E res msg mp 0 0 ?S"
    using l o v ne assms(1) by (simp add: session_at_def at_pos_def tests_from_0 session_ok_def)
  from run_tests_from [OF assms(1) this] show ?thesis
    using ne(1) by (auto simp: session_left_def tests_from_0 text_from_0)
qed


definition demo_tree :: topology where
  "demo_tree = \<lparr>topology_setup_done = True, tftf_pwr_domain_start_idx = [1, 0],
     tftf_pd_nodes = [
       \<lparr>cpu_start_node = 1, ncpus = 2, mpidr = - 1, parent_node = - 1, level = 1, is_present = True\<rparr>,
       \<lparr>cpu_start_node = 1, ncpus = 1, mpidr = 0, parent_node = 0, level = 0, is_present = True\<rparr>,
       \<lparr>cpu_start_node = 2, ncpus = 1, mpidr = 1, parent_node = 0, level = 0, is_present = True\<rparr>]\<rparr>"

definition demo_case :: "u32 \<Rightarrow> string \<Rightarrow> u64 \<Rightarrow> test_case" where
  "demo_case i n ep = \<lparr>tc_index = i, tc_name = Some n, tc_description = [], tc_test = ep\<rparr>"

definition demo_end :: test_case where
  "demo_end = \<lparr>tc_index = 0, tc_name = None, tc_description = [], tc_test = 0\<rparr>"

definition demo_session_env :: session_env where
  "demo_session_env = \<lparr>topo_e = demo_hp_env, nvm_e = demo_nvm_env,
     testsuites = [
       \<lparr>ts_name = Some ''A'', ts_description = ''a'',
        ts_testcases = [demo_case 0 ''t0'' 0x100, demo_case 1 ''t1'' 0x200, demo_end]\<rparr>,
       \<lparr>ts_name = Some ''B'', ts_description = ''b'', ts_testcases = [demo_case 2 ''t2'' 0x300, demo_end]\<rparr>,
       \<lparr>ts_name = None, ts_description = [], ts_testcases = []\<rparr>],
     DEBUG = True, RESET_AFTER_TEST = False\<rparr>"

definition demo_session :: session where
  "demo_session = \<lparr>nv = demo_nvm_state, hp = demo_hp, tree = demo_tree, lead_cpu_mpid = 0, test_results = [0, 0],
     cpu_on_ctx_id_arr = [0, 0], test_is_rebooting = 0, watchdog = False, console = []\<rparr>"

definition demo_firmware :: firmware where
  "demo_firmware = \<lparr>affinity_answers = (\<lambda>_ _. [0, 0, 1]), cpu_on_answers = (\<lambda>_ _ _. 0), cpu_off_answer = (\<lambda>_. None),
     lead_boots = (\<lambda>_. True)\<rparr>"

definition demo_res :: "u64 \<Rightarrow> u32" where
  "demo_res ep = (if ep = 0x200 then TEST_RESULT_FAIL else TEST_RESULT_SUCCESS)"

definition demo_msg :: "u64 \<Rightarrow> u8 list" where
  "demo_msg ep = (if ep = 0x200 then [72, 105] else [])"

lemmas demo_session_defs = demo_session_env_def demo_case_def demo_end_def suites_of_def cases_of_def all_tests_def

lemma demo_session_ok: "session_ok demo_session_env demo_firmware demo_res demo_msg"
proof -
  have "tests_ok demo_session_env" by (simp add: tests_ok_def suite_ok_def demo_session_defs)
  moreover have "nvm_fits (nvm_e demo_session_env)" using demo_nvm_fits by (simp add: demo_session_env_def)
  moreover have "\<forall>t \<in> set (all_tests demo_session_env). unat (tc_index t) < TESTCASE_RESULT_COUNT (nvm_e demo_session_env)
      \<and> tc_test t \<noteq> 0 \<and> test_result_is_valid (demo_res (tc_test t)) \<and> text_ok (demo_msg (tc_test t))"
    by (simp add: demo_session_defs demo_nvm_env_def demo_res_def demo_msg_def test_result_is_valid_def text_ok_def)
  moreover have "distinct (map tc_index (all_tests demo_session_env))" "length (all_tests demo_session_env) < 2 ^ 31"
    by (simp_all add: demo_session_defs)
  ultimately show ?thesis by (simp add: session_ok_def demo_firmware_def demo_session_env_def)
qed

lemma demo_lead_alone: "lead_alone demo_session_env 0 demo_session"
proof -
  have lv: "level (tftf_pd_nodes demo_tree ! i) = 0" if "1 \<le> i" "i < 3" for i
  proof -
    have "i = 1 \<or> i = 2" using that by linarith
    then show ?thesis by (auto simp: demo_tree_def)
  qed
  have "present_cpus demo_hp_env demo_tree (Suc 0) = [1, 2]"
    by (simp add: present_cpus_def demo_hp_env_def demo_tree_def upt_rec)
  then have n: "cpu_nodes demo_session_env demo_session = [1, 2]"
    by (simp add: cpu_nodes_def demo_session_env_def demo_session_def demo_tree_def)
  have "topo_ok demo_hp_env demo_tree"
    using lv by (simp add: topo_ok_def demo_hp_env_def) (simp add: demo_tree_def)
  then show ?thesis
    unfolding lead_alone_def n
    by (simp add: demo_session_env_def demo_session_def node_mp_def demo_tree_def demo_hp_def pos_def demo_hp_env_def)
qed

theorem session_runs_all_tests_witness:
  "\<exists>S'. run_tests demo_session_env demo_firmware (printing_body demo_res demo_msg) 0
         (demo_session\<lparr>nv := snd (tftf_init_nvm demo_nvm_env demo_nvm_state)\<rparr>) = Some (Inr (TestsOver, S'))
     \<and> stored_result demo_session_env S' (demo_case 1 ''t1'' 0x200) = TEST_RESULT_FAIL"
proof -
  have "output_is (nv demo_session) []" using demo_output by (simp add: demo_session_def)
  moreover have "rooms demo_msg (all_tests demo_session_env) = 3"
    by (simp add: rooms_def demo_session_defs demo_msg_def room_def)
  moreover have "off_result_buffer (nvm_e demo_session_env) + 3 \<le> unat (TFTF_NVM_SIZE (nvm_e demo_session_env))"
    by (simp add: demo_session_env_def demo_nvm_env_def off_defs)
  moreover have "demo_case 1 ''t1'' 0x200 \<in> set (all_tests demo_session_env)" by (simp add: demo_session_defs)
  ultimately obtain S' where "run_tests demo_session_env demo_firmware (printing_body demo_res demo_msg) 0
         (demo_session\<lparr>nv := snd (tftf_init_nvm (nvm_e demo_session_env) (nv demo_session))\<rparr>) = Some (Inr (TestsOver, S'))"
    "stored_result demo_session_env S' (demo_case 1 ''t1'' 0x200) = demo_res 0x200"
    using session_runs_all_tests [OF demo_session_ok demo_lead_alone] by (force simp: demo_case_def)
  then show ?thesis by (auto simp: demo_session_env_def demo_session_def demo_res_def)
qed

section \<open>Resuming a session\<close>

lemma resume_crash_eq:
  assumes f: "nvm_fits (nvm_e E)" "tests_ok E" "at_pos E i j S" "sd_progress (nvm_e E) (nv S) = TEST_IN_PROGRESS"
    and o: "output_is (nv S) []" "outputs_wf (nvm_e E) (nv S)" "has_room (nvm_e E) (nv S) 0"
    and t: "unat (tc_index (case_at E i j)) < TESTCASE_RESULT_COUNT (nvm_e E)"
  obtains N where "resume_test_session E S = andthen (advance_to_next_test E (S\<lparr>nv := N\<rparr>)) (\<lambda>(next_test, S).
        Inr (if next_test = None then - 1 else 0, S))"
    "at_pos E i j (S\<lparr>nv := N\<rparr>)" "sd_progress (nvm_e E) N = TEST_IN_PROGRESS"
    "stored_result E (S\<lparr>nv := N\<rparr>) (case_at E i j) = TEST_RESULT_CRASHED"
proof -
  have r: "has_room (nvm_e E) (nv S) (room [])" using o(3) by (simp add: room_def)
  obtain N where N: "tftf_testcase_set_result (nvm_e E) (of_nat (unat (tc_index (case_at E i j)))) TEST_RESULT_CRASHED 0 (nv S)
      = Inr (STATUS_SUCCESS, N)" "sd_ref (nvm_e E) N = sd_ref (nvm_e E) (nv S)" "sd_progress (nvm_e E) N = sd_progress (nvm_e E) (nv S)"
    "result (sd_result (nvm_e E) N (unat (tc_index (case_at E i j)))) = TEST_RESULT_CRASHED"
    by (rule set_result_spec [OF f(1) t o(1) r o(2), of TEST_RESULT_CRASHED 0]) blast
  have "resume_test_session E S = andthen (advance_to_next_test E (S\<lparr>nv := N\<rparr>)) (\<lambda>(next_test, S).
        Inr (if next_test = None then - 1 else 0, S))"
    using f(4) N(1) current_at(2) [OF f(1-3)]
    by (simp add: resume_test_session_def get_ref_s_eq [OF f(1)] get_progress_s_eq [OF f(1)] test_progress_is_valid_def)
  then show thesis using that [of N] f(3,4) N(2-4) by (simp add: at_pos_def stored_result_def)
qed

text \<open>C31: when the platform comes back after a crash inside a test, a release build records the test as crashed and goes on
  with the next test, or ends the session after the last one. A debug build fails the assertion of
  \<open>advance_to_next_test\<close> that the test is complete, so a session can never be resumed after a crash.\<close>

theorem resume_after_crash:
  assumes "nvm_fits (nvm_e E)" "tests_ok E" "at_pos E i j S" "sd_progress (nvm_e E) (nv S) = TEST_IN_PROGRESS"
    and "output_is (nv S) []" "outputs_wf (nvm_e E) (nv S)" "has_room (nvm_e E) (nv S) 0"
    and "unat (tc_index (case_at E i j)) < TESTCASE_RESULT_COUNT (nvm_e E)"
  shows "if DEBUG E then resume_test_session E S = Inl AssertFail
    else \<exists>S'. resume_test_session E S = Inr (if Suc j = length (cases_of (suites_of E ! i)) \<and> Suc i = length (suites_of E) then - 1 else 0, S')
      \<and> stored_result E S' (case_at E i j) = TEST_RESULT_CRASHED
      \<and> (if Suc j < length (cases_of (suites_of E ! i)) then at_pos E i (Suc j) S'
         else if Suc i < length (suites_of E) then at_pos E (Suc i) 0 S' else at_pos E i j S')"
proof -
  obtain N where r: "resume_test_session E S = andthen (advance_to_next_test E (S\<lparr>nv := N\<rparr>)) (\<lambda>(next_test, S).
        Inr (if next_test = None then - 1 else 0, S))"
    and N: "at_pos E i j (S\<lparr>nv := N\<rparr>)" "sd_progress (nvm_e E) N = TEST_IN_PROGRESS"
    "stored_result E (S\<lparr>nv := N\<rparr>) (case_at E i j) = TEST_RESULT_CRASHED"
    by (rule resume_crash_eq [OF assms])
  have p: "i < length (suites_of E)" "j < length (cases_of (suites_of E ! i))" using assms(3) by (auto simp: at_pos_def)
  have mv: "stored_result E (move_to E a b (S\<lparr>nv := N\<rparr>)) (case_at E i j) = TEST_RESULT_CRASHED
      \<and> sd_ref (nvm_e E) (nv (move_to E a b (S\<lparr>nv := N\<rparr>))) = \<lparr>testsuite_idx = a, testcase_idx = b\<rparr>" for a b
    by (rule move_to_view [OF assms(1), of a b "S\<lparr>nv := N\<rparr>" "[]"]) (use N(3) assms(8) in \<open>simp add: stored_result_def keeps_def\<close>)
  show ?thesis
  proof (cases "DEBUG E")
    case True
    then have "advance_to_next_test E (S\<lparr>nv := N\<rparr>) = Inl AssertFail"
      using N(2) by (simp add: advance_to_next_test_def get_progress_s_eq [OF assms(1)])
    then show ?thesis using True r by simp
  next
    case False
    have adv: "advance_to_next_test E (S\<lparr>nv := N\<rparr>) =
      (if Suc j < length (cases_of (suites_of E ! i)) then Inr (Some (case_at E i (Suc j)), move_to E (of_nat i) (of_nat (Suc j)) (S\<lparr>nv := N\<rparr>))
       else if Suc i < length (suites_of E) then Inr (Some (case_at E (Suc i) 0), move_to E (of_nat (Suc i)) 0 (S\<lparr>nv := N\<rparr>))
       else Inr (None, S\<lparr>nv := N\<rparr>))"
      using False by (intro advance_eq [OF assms(1,2) N(1)]) simp
    have c: "Suc i < length (suites_of E) \<Longrightarrow> 0 < length (cases_of (suites_of E ! Suc i))"
      using suites_nth(4) [OF assms(2), of "Suc i"] by (simp add: suite_ok_def)
    have "at_pos E i' j' (move_to E (of_nat i') (of_nat j') (S\<lparr>nv := N\<rparr>))"
      if "i' < length (suites_of E)" "j' < length (cases_of (suites_of E ! i'))" for i' j'
      using that mv [of "of_nat i'" "of_nat j'"] by (simp add: at_pos_def)
    note at = this
    show ?thesis
      using False r adv mv N(1,3) p at [of i "Suc j"] at [of "Suc i" 0] c by auto
  qed
qed

definition demo_crash :: "bool \<Rightarrow> session_env" where
  "demo_crash d = demo_session_env\<lparr>DEBUG := d\<rparr>"

definition demo_crashed :: session where
  "demo_crashed = demo_session\<lparr>nv := snd (tftf_set_test_progress demo_nvm_env TEST_IN_PROGRESS
     (snd (tftf_init_nvm demo_nvm_env demo_nvm_state)))\<rparr>"

lemma demo_crash_ok:
  "nvm_fits (nvm_e (demo_crash d))" "tests_ok (demo_crash d)" "at_pos (demo_crash d) 0 0 demo_crashed"
  "sd_progress (nvm_e (demo_crash d)) (nv demo_crashed) = TEST_IN_PROGRESS" "output_is (nv demo_crashed) []"
  "outputs_wf (nvm_e (demo_crash d)) (nv demo_crashed)" "has_room (nvm_e (demo_crash d)) (nv demo_crashed) 0"
proof -
  let ?I = "snd (tftf_init_nvm demo_nvm_env demo_nvm_state)"
  note v = init_view [OF demo_nvm_fits] and p = put_progress_view [OF demo_nvm_fits] test_progress_access(2) [OF demo_nvm_fits]
  have k: "keeps demo_nvm_env ?I (nv demo_crashed)"
    using set_progress_view(2) [of "demo_session_env" "demo_session\<lparr>nv := ?I\<rparr>" TEST_IN_PROGRESS] demo_nvm_fits
    by (simp add: demo_crashed_def p demo_session_env_def)
  show "nvm_fits (nvm_e (demo_crash d))" using demo_nvm_fits by (simp add: demo_crash_def demo_session_env_def)
  show "tests_ok (demo_crash d)" by (simp add: tests_ok_def suite_ok_def demo_crash_def demo_session_defs)
  show "at_pos (demo_crash d) 0 0 demo_crashed"
    by (simp add: at_pos_def demo_crash_def demo_session_defs demo_crashed_def p v)
  show "sd_progress (nvm_e (demo_crash d)) (nv demo_crashed) = TEST_IN_PROGRESS"
    by (simp add: demo_crash_def demo_session_env_def demo_crashed_def p)
  show "output_is (nv demo_crashed) []" using demo_output by (simp add: demo_crashed_def p v)
  show "outputs_wf (nvm_e (demo_crash d)) (nv demo_crashed)"
    using keeps_views(1) [OF k] by (simp add: demo_crash_def demo_session_env_def outputs_wf_def v)
  show "has_room (nvm_e (demo_crash d)) (nv demo_crashed) 0"
  proof -
    have "has_room demo_nvm_env ?I 0"
      by (simp add: has_room_def v) (simp add: demo_nvm_env_def off_defs)
    then show ?thesis using keeps_views(2) [OF k, of 0] by (simp add: demo_crash_def demo_session_env_def)
  qed
qed

theorem resume_after_crash_witness:
  "resume_test_session (demo_crash True) demo_crashed = Inl AssertFail
   \<and> (\<exists>S'. resume_test_session (demo_crash False) demo_crashed = Inr (0, S')
        \<and> stored_result (demo_crash False) S' (demo_case 0 ''t0'' 0x100) = TEST_RESULT_CRASHED \<and> at_pos (demo_crash False) 0 1 S')"
proof -
  have c: "case_at (demo_crash d) 0 0 = demo_case 0 ''t0'' 0x100" "length (cases_of (suites_of (demo_crash d) ! 0)) = 2"
    "length (suites_of (demo_crash d)) = 2" "DEBUG (demo_crash d) = d" for d
    by (simp_all add: case_at_def demo_crash_def demo_session_defs)
  have i: "unat (tc_index (case_at (demo_crash d) 0 0)) < TESTCASE_RESULT_COUNT (nvm_e (demo_crash d))" for d
    unfolding c by (simp add: demo_case_def demo_crash_def demo_session_env_def demo_nvm_env_def)
  show ?thesis
    using resume_after_crash [OF demo_crash_ok i, of True] resume_after_crash [OF demo_crash_ok i, of False]
    by (simp add: c)
qed

section \<open>The result of a test\<close>

definition cpu_results :: "session_env \<Rightarrow> session \<Rightarrow> u32 list" where
  "cpu_results E S = map (\<lambda>i. test_results S ! pos (topo_e E) (node_mp S i)) (cpu_nodes E S)"

definition decided :: "u32 \<Rightarrow> bool" where
  "decided r \<longleftrightarrow> r \<noteq> TEST_RESULT_NA \<and> r \<noteq> TEST_RESULT_SUCCESS"

lemma overall_from_eq:
  assumes "topo_ok (topo_e E) (tree S)"
    and "\<forall>i \<in> set (cpu_nodes E S). pos (topo_e E) (node_mp S i) < length (test_results S)"
  shows "set is \<subseteq> set (cpu_nodes E S) \<Longrightarrow>
    overall_from E (map of_nat is) acc S =
      (let rs = map (\<lambda>i. test_results S ! pos (topo_e E) (node_mp S i)) is
       in case find decided rs of Some r \<Rightarrow> if test_result_is_valid r then Inr r else Inl Panic
          | None \<Rightarrow> if TEST_RESULT_SUCCESS \<in> set rs then Inr TEST_RESULT_SUCCESS
                  else if acc \<noteq> TEST_RESULT_NA then Inr acc else Inl AssertFail)"
proof (induction "is" arbitrary: acc)
  case Nil
  then show ?case by simp
next
  case (Cons i "is")
  have i: "i \<in> set (cpu_nodes E S)" using Cons.prems by simp
  have p: "pos (topo_e E) (node_mp S i) < length (test_results S)" using assms(2) i by simp
  note step = overall_from.simps(2) cpu_nodes_bounds(2) [OF assms(1) i]
  have IH: "overall_from E (map of_nat is) a S =
      (let rs = map (\<lambda>i. test_results S ! pos (topo_e E) (node_mp S i)) is
       in case find decided rs of Some r \<Rightarrow> if test_result_is_valid r then Inr r else Inl Panic
          | None \<Rightarrow> if TEST_RESULT_SUCCESS \<in> set rs then Inr TEST_RESULT_SUCCESS
                  else if a \<noteq> TEST_RESULT_NA then Inr a else Inl AssertFail)" for a
    using Cons.IH [of a] Cons.prems by simp
  let ?r = "test_results S ! pos (topo_e E) (node_mp S i)"
  show ?case
  proof (cases "decided ?r")
    case True
    moreover have "test_result_is_valid ?r \<longleftrightarrow> ?r \<in> {TEST_RESULT_SKIPPED, TEST_RESULT_SUCCESS, TEST_RESULT_FAIL, TEST_RESULT_CRASHED}"
      using valid_result_cases [of ?r] by (auto simp: test_result_is_valid_def)
    ultimately show ?thesis using p by (auto simp: step decided_def Let_def)
  next
    case False
    then consider "?r = TEST_RESULT_NA" | "?r = TEST_RESULT_SUCCESS" by (auto simp: decided_def)
    then show ?thesis
      using False p by cases (simp_all add: step IH Let_def split: option.split)
  qed
qed

text \<open>C30: the result of a test is the result of the first CPU, in the order of the topology, that neither succeeded nor
  stayed out; a value that is no test result panics. If every CPU succeeded or stayed out, the test succeeded when one
  took part, and otherwise the assertion fails. So a CPU that skipped hides the failure or the crash of a later one.\<close>

theorem overall_test_result:
  assumes "topo_ok (topo_e E) (tree S)"
    and "\<forall>i \<in> set (cpu_nodes E S). pos (topo_e E) (node_mp S i) < length (test_results S)"
  shows "get_overall_test_result E S =
    (case find decided (cpu_results E S) of Some r \<Rightarrow> if test_result_is_valid r then Inr r else Inl Panic
     | None \<Rightarrow> if TEST_RESULT_SUCCESS \<in> set (cpu_results E S) then Inr TEST_RESULT_SUCCESS else Inl AssertFail)"
  using overall_from_eq [OF assms, of "cpu_nodes E S" TEST_RESULT_NA]
  by (simp add: get_overall_test_result_def for_each_cpu_eq [OF assms(1)] cpu_results_def Let_def flip: cpu_nodes_def)

lemma demo_cpu_nodes: "cpu_nodes demo_session_env (demo_session\<lparr>test_results := rs\<rparr>) = [1, 2]"
  by (simp add: cpu_nodes_def demo_session_env_def demo_session_def present_cpus_def demo_hp_env_def demo_tree_def upt_rec)

theorem overall_test_result_witness:
  "get_overall_test_result demo_session_env (demo_session\<lparr>test_results := [TEST_RESULT_SKIPPED, TEST_RESULT_CRASHED]\<rparr>)
     = Inr TEST_RESULT_SKIPPED"
proof -
  let ?S = "demo_session\<lparr>test_results := [TEST_RESULT_SKIPPED, TEST_RESULT_CRASHED]\<rparr>"
  have t: "topo_ok (topo_e demo_session_env) (tree ?S)"
    using demo_lead_alone by (simp add: lead_alone_def demo_session_def)
  have p: "pos (topo_e demo_session_env) (node_mp ?S 1) = 0" "pos (topo_e demo_session_env) (node_mp ?S (Suc 0)) = 0" "pos (topo_e demo_session_env) (node_mp ?S 2) = 1"
    by (simp_all add: node_mp_def demo_session_def demo_tree_def pos_def demo_session_env_def demo_hp_env_def)
  show ?thesis
    using overall_test_result [OF t] by (simp add: cpu_results_def demo_cpu_nodes p decided_def test_result_is_valid_def)
qed

end
