(* ===== verification/Tftf_Xlat.thy ===== *)
theory Tftf_Xlat
  imports Tftf_Prelude
begin

text \<open>
  The translation table library (\<open>src/lib/xlat_tables_v2/\<close>, AArch64, 4 KB pages): the array of memory regions of a
  context and the functions that add and remove regions, the recursive functions that map and unmap a region in the
  tables, the walk through the tables, the functions that read and change attributes, and the values of the MMU
  registers. This theory holds the definitions; \<open>Tftf_Xlat_Regions\<close> is about the array of regions and
  \<open>Tftf_Xlat_Map\<close> about the tables.

  A context (\<open>struct xlat_ctx\<close>) owns its tables: they are lists of descriptors in the record, and a table is named by
  its place in the record. The address of table \<open>n\<close> is that of an element of an array of tables of 4096 bytes each, and
  a table descriptor is followed by looking the address up. Cache maintenance and barriers have no effect on the
  record; the addresses whose TLB entries were invalidated are collected in it. What the code reads from system
  registers is the record \<open>xlat_env\<close>.
\<close>

section \<open>Constants and macros\<close>

abbreviation (input) EL1_EL0_REGIME :: int where "EL1_EL0_REGIME \<equiv> 1"
abbreviation (input) EL2_REGIME :: int where "EL2_REGIME \<equiv> 2"
abbreviation (input) EL3_REGIME :: int where "EL3_REGIME \<equiv> 3"
abbreviation (input) EL_REGIME_INVALID :: int where "EL_REGIME_INVALID \<equiv> - 1"

abbreviation (input) EPERM :: int where "EPERM \<equiv> 1"
abbreviation (input) ENOMEM :: int where "ENOMEM \<equiv> 12"
abbreviation (input) EINVAL :: int where "EINVAL \<equiv> 22"
abbreviation (input) ERANGE :: int where "ERANGE \<equiv> 34"

abbreviation (input) INVALID_DESC :: u64 where "INVALID_DESC \<equiv> 0"
abbreviation (input) BLOCK_DESC :: u64 where "BLOCK_DESC \<equiv> 1"
abbreviation (input) TABLE_DESC :: u64 where "TABLE_DESC \<equiv> 3"
abbreviation (input) PAGE_DESC :: u64 where "PAGE_DESC \<equiv> 3"
abbreviation (input) DESC_MASK :: u64 where "DESC_MASK \<equiv> 3"
abbreviation (input) TABLE_ADDR_MASK :: u64 where "TABLE_ADDR_MASK \<equiv> 0xFFFFFFFFF000"
abbreviation (input) XLAT_TABLE_LEVEL_MAX :: nat where "XLAT_TABLE_LEVEL_MAX \<equiv> 3"
abbreviation (input) XLAT_TABLE_ENTRIES :: nat where "XLAT_TABLE_ENTRIES \<equiv> 512"
abbreviation (input) MIN_LVL_BLOCK_DESC :: nat where "MIN_LVL_BLOCK_DESC \<equiv> 1"
abbreviation (input) PAGE_SIZE :: u64 where "PAGE_SIZE \<equiv> 4096"

abbreviation (input) MT_TYPE_MASK :: u32 where "MT_TYPE_MASK \<equiv> 7"
abbreviation (input) MT_DEVICE :: u32 where "MT_DEVICE \<equiv> 0"
abbreviation (input) MT_NON_CACHEABLE :: u32 where "MT_NON_CACHEABLE \<equiv> 1"
abbreviation (input) MT_MEMORY :: u32 where "MT_MEMORY \<equiv> 2"
abbreviation (input) MT_RW :: u32 where "MT_RW \<equiv> 8"
abbreviation (input) MT_NS :: u32 where "MT_NS \<equiv> 16"
abbreviation (input) MT_EXECUTE_NEVER :: u32 where "MT_EXECUTE_NEVER \<equiv> 32"
abbreviation (input) MT_USER :: u32 where "MT_USER \<equiv> 64"
abbreviation (input) MT_CODE :: u32 where "MT_CODE \<equiv> 2"
abbreviation (input) MT_DYNAMIC :: u32 where "MT_DYNAMIC \<equiv> 0x80000000"

definition lower_attrs :: "u64 \<Rightarrow> u64" where
  "lower_attrs x = push_bit 2 (x AND 0xfff)"

definition upper_attrs :: "u64 \<Rightarrow> u64" where
  "upper_attrs x = push_bit 52 (x AND 7)"

abbreviation (input) GP :: u64 where "GP \<equiv> 0x4000000000000"
abbreviation (input) XN :: u64 where "XN \<equiv> 4"
abbreviation (input) UXN :: u64 where "UXN \<equiv> 4"
abbreviation (input) PXN :: u64 where "PXN \<equiv> 2"
abbreviation (input) ACCESS_FLAG :: u64 where "ACCESS_FLAG \<equiv> 0x100"
abbreviation (input) OSH :: u64 where "OSH \<equiv> 0x80"
abbreviation (input) ISH :: u64 where "ISH \<equiv> 0xc0"
abbreviation (input) AP_RO :: u64 where "AP_RO \<equiv> 0x20"
abbreviation (input) AP_RW :: u64 where "AP_RW \<equiv> 0"
abbreviation (input) AP_ACCESS_UNPRIVILEGED :: u64 where "AP_ACCESS_UNPRIVILEGED \<equiv> 0x10"
abbreviation (input) AP_NO_ACCESS_UNPRIVILEGED :: u64 where "AP_NO_ACCESS_UNPRIVILEGED \<equiv> 0"
abbreviation (input) AP_ONE_VA_RANGE_RES1 :: u64 where "AP_ONE_VA_RANGE_RES1 \<equiv> 0x10"
abbreviation (input) NS :: u64 where "NS \<equiv> 8"
abbreviation (input) ATTR_NON_CACHEABLE_INDEX :: u64 where "ATTR_NON_CACHEABLE_INDEX \<equiv> 2"
abbreviation (input) ATTR_DEVICE_INDEX :: u64 where "ATTR_DEVICE_INDEX \<equiv> 1"
abbreviation (input) ATTR_IWBWA_OWBWA_NTR_INDEX :: u64 where "ATTR_IWBWA_OWBWA_NTR_INDEX \<equiv> 0"

definition xlat_addr_shift :: "nat \<Rightarrow> nat" where
  "xlat_addr_shift level = 12 + (XLAT_TABLE_LEVEL_MAX - level) * 9"

definition xlat_block_size :: "nat \<Rightarrow> u64" where
  "xlat_block_size level = push_bit (xlat_addr_shift level) 1"

definition xlat_block_mask :: "nat \<Rightarrow> u64" where
  "xlat_block_mask level = xlat_block_size level - 1"

definition xlat_table_idx :: "u64 \<Rightarrow> nat \<Rightarrow> nat" where
  "xlat_table_idx va level = unat (drop_bit (xlat_addr_shift level) va AND 0x1FF)"

definition is_page_aligned :: "u64 \<Rightarrow> bool" where
  "is_page_aligned a \<longleftrightarrow> a AND (PAGE_SIZE - 1) = 0"

definition get_xlat_table_level_base :: "u64 \<Rightarrow> nat" where
  "get_xlat_table_level_base sz =
     (if push_bit 39 1 < sz then 0 else if push_bit 30 1 < sz then 1 else if push_bit 21 1 < sz then 2 else 3)"

definition get_num_base_level_entries :: "u64 \<Rightarrow> nat" where
  "get_num_base_level_entries sz = unat (drop_bit (xlat_addr_shift (get_xlat_table_level_base sz)) sz)"

section \<open>Contexts\<close>

record mmap_region =
  base_pa :: u64
  base_va :: u64
  rsize :: u64
  attr :: u32
  granularity :: u64

text \<open>The registers the library reads, and the build flag that selects dynamic regions.\<close>

record xlat_env =
  PLAT_XLAT_TABLES_DYNAMIC :: bool
  CurrentEl :: u64
  hcr_el2 :: u64
  sctlr_el1 :: u64
  sctlr_el2 :: u64
  sctlr_el3 :: u64
  id_aa64pfr1_el1 :: u64
  id_aa64mmfr0_el1 :: u64
  id_aa64mmfr2_el1 :: u64

record xlat_ctx =
  pa_max_address :: u64
  va_max_address :: u64
  mmap :: "mmap_region list"
  mmap_num :: nat
  tables :: "u64 list list"
  tables_at :: u64
  tables_num :: nat
  tables_mapped_regions :: "int list"
  next_table :: nat
  base_table :: "u64 list"
  base_table_at :: u64
  base_table_entries :: nat
  max_pa :: u64
  max_va :: u64
  base_level :: nat
  initialized :: bool
  xlat_regime :: int
  tlbi :: "u64 list"

text \<open>A table of a context.\<close>

datatype tptr = Base | Sub nat

fun tbl_get :: "xlat_ctx \<Rightarrow> tptr \<Rightarrow> nat \<Rightarrow> u64 res" where
  "tbl_get C Base i = aget (base_table C) i"
| "tbl_get C (Sub n) i = andthen (aget (tables C) n) (\<lambda>t. aget t i)"

fun tbl_put :: "xlat_ctx \<Rightarrow> tptr \<Rightarrow> nat \<Rightarrow> u64 \<Rightarrow> xlat_ctx res" where
  "tbl_put C Base i d = andthen (aput (base_table C) i d) (\<lambda>t. Inr (C\<lparr>base_table := t\<rparr>))"
| "tbl_put C (Sub n) i d =
     andthen (aget (tables C) n) (\<lambda>t. andthen (aput t i d) (\<lambda>t. Inr (C\<lparr>tables := (tables C)[n := t]\<rparr>)))"

definition table_addr :: "xlat_ctx \<Rightarrow> nat \<Rightarrow> u64" where
  "table_addr C n = tables_at C + of_nat (4096 * n)"

text \<open>The table a descriptor points to.\<close>

definition subtable :: "xlat_ctx \<Rightarrow> u64 \<Rightarrow> tptr res" where
  "subtable C desc =
     (case find (\<lambda>n. table_addr C n = desc AND TABLE_ADDR_MASK) [0..<tables_num C] of
        Some n \<Rightarrow> Inr (Sub n) | None \<Rightarrow> Inl OutOfBounds)"

section \<open>Architecture\<close>

abbreviation (input) HCR_E2H_BIT :: u64 where "HCR_E2H_BIT \<equiv> 0x400000000"
abbreviation (input) SCTLR_M_BIT :: u64 where "SCTLR_M_BIT \<equiv> 1"

definition is_armv8_5_bti_present :: "xlat_env \<Rightarrow> bool" where
  "is_armv8_5_bti_present E \<longleftrightarrow> id_aa64pfr1_el1 E AND 0xf = 1"

definition is_armv8_4_ttst_present :: "xlat_env \<Rightarrow> bool" where
  "is_armv8_4_ttst_present E \<longleftrightarrow> drop_bit 28 (id_aa64mmfr2_el1 E) AND 0xf = 1"

definition is_armv8_2_ttcnp_present :: "xlat_env \<Rightarrow> bool" where
  "is_armv8_2_ttcnp_present E \<longleftrightarrow> id_aa64mmfr2_el1 E AND 0xf \<noteq> 0"

definition get_pa_range :: "xlat_env \<Rightarrow> nat" where
  "get_pa_range E = unat (id_aa64mmfr0_el1 E AND 0xf)"

definition xlat_regime_is_dual :: "xlat_env \<Rightarrow> int \<Rightarrow> bool res" where
  "xlat_regime_is_dual E r =
     (if r = EL1_EL0_REGIME then Inr True
      else if r = EL2_REGIME then Inr (hcr_el2 E AND HCR_E2H_BIT \<noteq> 0)
      else andthen (assert_c (r = EL3_REGIME)) (\<lambda>_. Inr False))"

definition xlat_arch_is_granule_size_supported :: "xlat_env \<Rightarrow> u64 \<Rightarrow> bool" where
  "xlat_arch_is_granule_size_supported E sz =
     (if sz = 4096 then drop_bit 28 (id_aa64mmfr0_el1 E) AND 0xf < 8
      else if sz = 16384 then 1 \<le> drop_bit 20 (id_aa64mmfr0_el1 E) AND 0xf
      else if sz = 65536 then drop_bit 24 (id_aa64mmfr0_el1 E) AND 0xf < 8
      else False)"

definition xlat_arch_get_max_supported_granule_size :: "xlat_env \<Rightarrow> u64 res" where
  "xlat_arch_get_max_supported_granule_size E =
     (if xlat_arch_is_granule_size_supported E 65536 then Inr 65536
      else if xlat_arch_is_granule_size_supported E 16384 then Inr 16384
      else andthen (assert_c (xlat_arch_is_granule_size_supported E 4096)) (\<lambda>_. Inr 4096))"

definition tcr_physical_addr_size_bits :: "u64 \<Rightarrow> u64 res" where
  "tcr_physical_addr_size_bits max_addr =
     andthen (assert_c (max_addr AND 0xFFFF000000000000 = 0)) (\<lambda>_.
     Inr (if max_addr AND 0x0000F00000000000 \<noteq> 0 then 5
          else if max_addr AND 0x00000C0000000000 \<noteq> 0 then 4
          else if max_addr AND 0x0000030000000000 \<noteq> 0 then 3
          else if max_addr AND 0x000000F000000000 \<noteq> 0 then 2
          else if max_addr AND 0x0000000F00000000 \<noteq> 0 then 1
          else 0))"

definition pa_range_bits_arr :: "nat list" where
  "pa_range_bits_arr = [32, 36, 40, 42, 44, 48, 52]"

definition xlat_arch_get_max_supported_pa :: "xlat_env \<Rightarrow> u64 res" where
  "xlat_arch_get_max_supported_pa E =
     andthen (assert_c (get_pa_range E < length pa_range_bits_arr)) (\<lambda>_.
     andthen (aget pa_range_bits_arr (get_pa_range E)) (\<lambda>b. Inr (push_bit b 1 - 1)))"

abbreviation (input) MAX_VIRT_ADDR_SPACE_SIZE :: u64 where "MAX_VIRT_ADDR_SPACE_SIZE \<equiv> push_bit 48 1"

definition xlat_get_min_virt_addr_space_size :: "xlat_env \<Rightarrow> u64" where
  "xlat_get_min_virt_addr_space_size E = (if is_armv8_4_ttst_present E then push_bit 16 1 else push_bit 25 1)"

definition xlat_arch_current_el :: "xlat_env \<Rightarrow> u64 res" where
  "xlat_arch_current_el E =
     (let el = drop_bit 2 (CurrentEl E) AND 3 in andthen (assert_c (0 < el)) (\<lambda>_. Inr el))"

definition is_mmu_enabled_ctx :: "xlat_env \<Rightarrow> xlat_ctx \<Rightarrow> bool res" where
  "is_mmu_enabled_ctx E C =
     (if xlat_regime C = EL1_EL0_REGIME
      then andthen (xlat_arch_current_el E) (\<lambda>el. andthen (assert_c (1 \<le> el)) (\<lambda>_. Inr (sctlr_el1 E AND SCTLR_M_BIT \<noteq> 0)))
      else if xlat_regime C = EL2_REGIME
      then andthen (xlat_arch_current_el E) (\<lambda>el. andthen (assert_c (2 \<le> el)) (\<lambda>_. Inr (sctlr_el2 E AND SCTLR_M_BIT \<noteq> 0)))
      else andthen (assert_c (xlat_regime C = EL3_REGIME)) (\<lambda>_.
           andthen (xlat_arch_current_el E) (\<lambda>el. andthen (assert_c (3 \<le> el)) (\<lambda>_. Inr (sctlr_el3 E AND SCTLR_M_BIT \<noteq> 0)))))"

definition xlat_arch_regime_get_xn_desc :: "xlat_env \<Rightarrow> int \<Rightarrow> u64 res" where
  "xlat_arch_regime_get_xn_desc E r =
     andthen (xlat_regime_is_dual E r) (\<lambda>dual.
     Inr (if dual then upper_attrs UXN OR upper_attrs PXN else upper_attrs XN))"

definition xlat_arch_tlbi_va :: "xlat_env \<Rightarrow> u64 \<Rightarrow> xlat_ctx \<Rightarrow> xlat_ctx res" where
  "xlat_arch_tlbi_va E va C =
     andthen (if xlat_regime C = EL1_EL0_REGIME then Inr 1 else if xlat_regime C = EL2_REGIME then Inr 2
              else andthen (assert_c (xlat_regime C = EL3_REGIME)) (\<lambda>_. Inr 3)) (\<lambda>lowest.
     andthen (xlat_arch_current_el E) (\<lambda>el.
     andthen (assert_c (lowest \<le> el)) (\<lambda>_.
     Inr (C\<lparr>tlbi := tlbi C @ [drop_bit 12 va AND 0xFFFFFFFFFFF]\<rparr>))))"

text \<open>\<open>__builtin_ctzll\<close>: the number of trailing zero bits.\<close>

definition ctzll :: "u64 \<Rightarrow> nat" where
  "ctzll x = length (takeWhile (\<lambda>i. \<not> bit x i) [0..<64])"

definition is_power_of_two :: "u64 \<Rightarrow> bool" where
  "is_power_of_two x \<longleftrightarrow> x AND (x - 1) = 0"

record mmu_cfg =
  MMU_CFG_MAIR :: u64
  MMU_CFG_TCR :: u64
  MMU_CFG_TTBR0 :: u64

definition setup_mmu_cfg :: "xlat_env \<Rightarrow> u32 \<Rightarrow> u64 \<Rightarrow> u64 \<Rightarrow> u64 \<Rightarrow> int \<Rightarrow> mmu_cfg res" where
  "setup_mmu_cfg E flags base_tab m_pa m_va r =
     (let mair = push_bit 8 0x4 OR 0xff OR push_bit 16 0x44
      in andthen (assert_c (m_va < UINT64_MAX)) (\<lambda>_.
         let virtual_addr_space_size = m_va + 1
         in andthen (assert_c (xlat_get_min_virt_addr_space_size E \<le> virtual_addr_space_size)) (\<lambda>_.
            andthen (assert_c (virtual_addr_space_size \<le> MAX_VIRT_ADDR_SPACE_SIZE)) (\<lambda>_.
            andthen (assert_c (is_power_of_two virtual_addr_space_size)) (\<lambda>_.
            let t0sz = 64 - ctzll virtual_addr_space_size;
                tcr = of_nat t0sz OR (if flags AND 2 \<noteq> 0 then 0 else push_bit 12 3 OR push_bit 10 1 OR push_bit 8 1)
            in andthen (tcr_physical_addr_size_bits m_pa) (\<lambda>tcr_ps_bits.
               andthen (xlat_regime_is_dual E r) (\<lambda>dual.
               andthen (if dual then Inr (tcr OR push_bit 23 1 OR push_bit 32 tcr_ps_bits)
                        else if r = EL2_REGIME then Inr (tcr OR push_bit 31 1 OR push_bit 23 1 OR push_bit 16 tcr_ps_bits)
                        else andthen (assert_c (r = EL3_REGIME)) (\<lambda>_.
                             Inr (tcr OR push_bit 31 1 OR push_bit 23 1 OR push_bit 16 tcr_ps_bits))) (\<lambda>tcr.
               Inr \<lparr>MMU_CFG_MAIR = mair, MMU_CFG_TCR = tcr,
                    MMU_CFG_TTBR0 = (if is_armv8_2_ttcnp_present E then base_tab OR 1 else base_tab)\<rparr>))))))))"

section \<open>The array of regions\<close>

definition region_end :: "mmap_region \<Rightarrow> u64" where
  "region_end r = base_va r + rsize r - 1"

definition region_end_pa :: "mmap_region \<Rightarrow> u64" where
  "region_end_pa r = base_pa r + rsize r - 1"

text \<open>The loop of \<open>mmap_add_region_check\<close> over the regions in use.\<close>

fun check_overlaps :: "xlat_env \<Rightarrow> mmap_region \<Rightarrow> mmap_region list \<Rightarrow> int res" where
  "check_overlaps E mm [] = Inl OutOfBounds"
| "check_overlaps E mm (c # cs) =
     (if rsize c = 0 then Inr 0
      else let fully_overlapped_va =
                 base_va c \<le> base_va mm \<and> region_end mm \<le> region_end c \<or> base_va mm \<le> base_va c \<and> region_end c \<le> region_end mm
           in if fully_overlapped_va
              then if PLAT_XLAT_TABLES_DYNAMIC E \<and> (attr mm AND MT_DYNAMIC \<noteq> 0 \<or> attr c AND MT_DYNAMIC \<noteq> 0) then Inr (- EPERM)
                   else if base_va c - base_pa c \<noteq> base_va mm - base_pa mm then Inr (- EPERM)
                   else if base_va mm = base_va c \<and> rsize mm = rsize c then Inr (- EPERM)
                   else check_overlaps E mm cs
              else let separated_pa = region_end_pa mm < base_pa c \<or> region_end_pa c < base_pa mm;
                       separated_va = region_end mm < base_va c \<or> region_end c < base_va mm
                   in if \<not> separated_va \<or> \<not> separated_pa then Inr (- EPERM) else check_overlaps E mm cs)"

definition mmap_add_region_check :: "xlat_env \<Rightarrow> xlat_ctx \<Rightarrow> mmap_region \<Rightarrow> int res" where
  "mmap_add_region_check E C mm =
     (if \<not> is_page_aligned (base_pa mm) \<or> \<not> is_page_aligned (base_va mm) \<or> \<not> is_page_aligned (rsize mm) then Inr (- EINVAL)
      else if granularity mm \<noteq> xlat_block_size 1 \<and> granularity mm \<noteq> xlat_block_size 2 \<and> granularity mm \<noteq> xlat_block_size 3
      then Inr (- EINVAL)
      else if region_end_pa mm < base_pa mm \<or> region_end mm < base_va mm then Inr (- ERANGE)
      else if va_max_address C < region_end mm then Inr (- ERANGE)
      else if pa_max_address C < region_end_pa mm then Inr (- ERANGE)
      else if mmap_num C = 0 then Inl OutOfBounds
      else andthen (aget (mmap C) (mmap_num C - 1)) (\<lambda>l.
           if rsize l \<noteq> 0 then Inr (- ENOMEM) else check_overlaps E mm (mmap C)))"

text \<open>The cursor after the two loops that look for the place of a region.\<close>

fun skip_lower_end :: "u64 \<Rightarrow> mmap_region list \<Rightarrow> nat res" where
  "skip_lower_end e [] = Inl OutOfBounds"
| "skip_lower_end e (c # cs) =
     (if region_end c < e \<and> rsize c \<noteq> 0 then andthen (skip_lower_end e cs) (\<lambda>n. Inr (Suc n)) else Inr 0)"

fun skip_smaller :: "u64 \<Rightarrow> u64 \<Rightarrow> mmap_region list \<Rightarrow> nat res" where
  "skip_smaller e sz [] = Inl OutOfBounds"
| "skip_smaller e sz (c # cs) =
     (if region_end c = e \<and> rsize c \<noteq> 0 \<and> rsize c < sz then andthen (skip_smaller e sz cs) (\<lambda>n. Inr (Suc n)) else Inr 0)"

definition find_place :: "mmap_region \<Rightarrow> mmap_region list \<Rightarrow> nat res" where
  "find_place mm rs =
     andthen (skip_lower_end (region_end mm) rs) (\<lambda>i.
     andthen (skip_smaller (region_end mm) (rsize mm) (drop i rs)) (\<lambda>j. Inr (i + j)))"

text \<open>The first unused element, or the last element of the array.\<close>

fun find_last :: "nat \<Rightarrow> mmap_region list \<Rightarrow> nat res" where
  "find_last n [] = Inl OutOfBounds"
| "find_last n (c # cs) = (if rsize c \<noteq> 0 \<and> n \<noteq> 0 then andthen (find_last (n - 1) cs) (\<lambda>k. Inr (Suc k)) else Inr 0)"

text \<open>\<open>memmove\<close> of the elements from \<open>i\<close> to \<open>j - 1\<close> up by one place, and of those from \<open>i + 1\<close> to \<open>j\<close> down.\<close>

definition move_up :: "nat \<Rightarrow> nat \<Rightarrow> 'a list \<Rightarrow> 'a list res" where
  "move_up i j xs = (if j < length xs then Inr (take (Suc i) xs @ take (j - i) (drop i xs) @ drop (Suc j) xs) else Inl OutOfBounds)"

definition move_down :: "nat \<Rightarrow> nat \<Rightarrow> 'a list \<Rightarrow> 'a list res" where
  "move_down i j xs = (if j < length xs then Inr (take i xs @ take (j - i) (drop (Suc i) xs) @ drop j xs) else Inl OutOfBounds)"

definition raise_max :: "mmap_region \<Rightarrow> u64 \<Rightarrow> xlat_ctx \<Rightarrow> xlat_ctx" where
  "raise_max mm end_va C =
     (let C = (if max_pa C < region_end_pa mm then C\<lparr>max_pa := region_end_pa mm\<rparr> else C)
      in if max_va C < end_va then C\<lparr>max_va := end_va\<rparr> else C)"

definition mmap_add_region_ctx :: "xlat_env \<Rightarrow> mmap_region \<Rightarrow> xlat_ctx \<Rightarrow> xlat_ctx res" where
  "mmap_add_region_ctx E mm C =
     (if rsize mm = 0 then Inr C
      else andthen (assert_c (\<not> initialized C)) (\<lambda>_.
           andthen (mmap_add_region_check E C mm) (\<lambda>ret.
           if ret \<noteq> 0 then Inl AssertFail
           else andthen (find_place mm (mmap C)) (\<lambda>i.
                andthen (find_last (mmap_num C) (mmap C)) (\<lambda>mm_last.
                andthen (aget (mmap C) mm_last) (\<lambda>l.
                andthen (assert_c (rsize l = 0)) (\<lambda>_.
                andthen (move_up i mm_last (mmap C)) (\<lambda>rs.
                andthen (aget rs (mmap_num C)) (\<lambda>l.
                andthen (assert_c (rsize l = 0)) (\<lambda>_.
                andthen (aput rs i mm) (\<lambda>rs.
                Inr (raise_max mm (region_end mm) (C\<lparr>mmap := rs\<rparr>)))))))))))))"

definition mmap_alloc_va_align_ctx :: "xlat_ctx \<Rightarrow> mmap_region \<Rightarrow> mmap_region" where
  "mmap_alloc_va_align_ctx C mm =
     (let align_check = base_pa mm OR rsize mm
      in case find (\<lambda>level. align_check AND xlat_block_mask level = 0) [base_level C..<3] of
           None \<Rightarrow> mm | Some level \<Rightarrow> mm\<lparr>base_va := round_up (base_va mm) (xlat_block_size level)\<rparr>)"

definition mmap_add_region_alloc_va_ctx :: "xlat_env \<Rightarrow> mmap_region \<Rightarrow> xlat_ctx \<Rightarrow> (mmap_region \<times> xlat_ctx) res" where
  "mmap_add_region_alloc_va_ctx E mm C =
     (let mm = mm\<lparr>base_va := max_va C + 1\<rparr>
      in andthen (assert_c (0 < rsize mm)) (\<lambda>_.
         let mm = mmap_alloc_va_align_ctx C mm
         in andthen (assert_c (max_va C < base_va mm)) (\<lambda>_.
            andthen (mmap_add_region_ctx E mm C) (\<lambda>C. Inr (mm, C)))))"

text \<open>The array of regions ends with a region without granularity.\<close>

fun mmap_add_ctx :: "xlat_env \<Rightarrow> mmap_region list \<Rightarrow> xlat_ctx \<Rightarrow> xlat_ctx res" where
  "mmap_add_ctx E [] C = Inl OutOfBounds"
| "mmap_add_ctx E (mm # mms) C =
     (if granularity mm \<noteq> 0 then andthen (mmap_add_region_ctx E mm C) (mmap_add_ctx E mms) else Inr C)"

section \<open>Mapping a region\<close>

text \<open>The two versions of the functions that manage the tables, selected by \<open>PLAT_XLAT_TABLES_DYNAMIC\<close>.\<close>

fun xlat_table_get_index :: "xlat_ctx \<Rightarrow> tptr \<Rightarrow> nat res" where
  "xlat_table_get_index C Base = Inl AssertFail"
| "xlat_table_get_index C (Sub n) = (if n < tables_num C then Inr n else Inl AssertFail)"

definition xlat_table_get_empty :: "xlat_env \<Rightarrow> xlat_ctx \<Rightarrow> (nat option \<times> xlat_ctx) res" where
  "xlat_table_get_empty E C =
     (if PLAT_XLAT_TABLES_DYNAMIC E
      then if length (tables_mapped_regions C) < tables_num C then Inl OutOfBounds
           else Inr (find (\<lambda>i. tables_mapped_regions C ! i = 0) [0..<tables_num C], C)
      else andthen (assert_c (next_table C < tables_num C)) (\<lambda>_.
           Inr (Some (next_table C), C\<lparr>next_table := next_table C + 1\<rparr>)))"

definition add_regions_count :: "int \<Rightarrow> tptr \<Rightarrow> xlat_ctx \<Rightarrow> xlat_ctx res" where
  "add_regions_count d t C =
     andthen (xlat_table_get_index C t) (\<lambda>i.
     andthen (aget (tables_mapped_regions C) i) (\<lambda>c.
     andthen (aput (tables_mapped_regions C) i (c + d)) (\<lambda>cs. Inr (C\<lparr>tables_mapped_regions := cs\<rparr>))))"

definition xlat_table_inc_regions_count :: "tptr \<Rightarrow> xlat_ctx \<Rightarrow> xlat_ctx res" where
  "xlat_table_inc_regions_count = add_regions_count 1"

definition xlat_table_dec_regions_count :: "tptr \<Rightarrow> xlat_ctx \<Rightarrow> xlat_ctx res" where
  "xlat_table_dec_regions_count = add_regions_count (- 1)"

definition xlat_table_is_empty :: "xlat_ctx \<Rightarrow> tptr \<Rightarrow> bool res" where
  "xlat_table_is_empty C t =
     andthen (xlat_table_get_index C t) (\<lambda>i. andthen (aget (tables_mapped_regions C) i) (\<lambda>c. Inr (c = 0)))"

text \<open>The attributes of a descriptor, without the address and the type of the descriptor.\<close>

definition desc_attrs :: "xlat_env \<Rightarrow> xlat_ctx \<Rightarrow> u32 \<Rightarrow> u64 res" where
  "desc_attrs E C a =
     (let desc = lower_attrs ACCESS_FLAG;
          desc = desc OR (if a AND MT_NS \<noteq> 0 then lower_attrs NS else 0);
          desc = desc OR (if a AND MT_RW \<noteq> 0 then lower_attrs AP_RW else lower_attrs AP_RO)
      in andthen (if xlat_regime C = EL1_EL0_REGIME
                  then Inr (desc OR (if a AND MT_USER \<noteq> 0 then lower_attrs AP_ACCESS_UNPRIVILEGED
                                     else lower_attrs AP_NO_ACCESS_UNPRIVILEGED))
                  else andthen (assert_c (xlat_regime C = EL2_REGIME \<or> xlat_regime C = EL3_REGIME)) (\<lambda>_.
                       Inr (desc OR lower_attrs AP_ONE_VA_RANGE_RES1))) (\<lambda>desc.
         let mem_type = a AND MT_TYPE_MASK
         in if mem_type = MT_DEVICE
            then andthen (xlat_arch_regime_get_xn_desc E (xlat_regime C)) (\<lambda>xn.
                 Inr (desc OR lower_attrs (ATTR_DEVICE_INDEX OR OSH) OR xn))
            else andthen (if a AND MT_RW \<noteq> 0 \<or> a AND MT_EXECUTE_NEVER \<noteq> 0
                          then andthen (xlat_arch_regime_get_xn_desc E (xlat_regime C)) (\<lambda>xn. Inr (desc OR xn))
                          else Inr desc) (\<lambda>desc.
                 if mem_type = MT_MEMORY
                 then Inr (let desc = desc OR lower_attrs (ATTR_IWBWA_OWBWA_NTR_INDEX OR ISH)
                           in if is_armv8_5_bti_present E \<and> a AND (MT_TYPE_MASK OR MT_RW OR MT_EXECUTE_NEVER) = MT_CODE
                              then desc OR GP else desc)
                 else andthen (assert_c (mem_type = MT_NON_CACHEABLE)) (\<lambda>_.
                      Inr (desc OR lower_attrs (ATTR_NON_CACHEABLE_INDEX OR OSH))))))"

definition xlat_desc :: "xlat_env \<Rightarrow> xlat_ctx \<Rightarrow> u32 \<Rightarrow> u64 \<Rightarrow> nat \<Rightarrow> u64 res" where
  "xlat_desc E C a addr_pa level =
     andthen (assert_c (addr_pa AND xlat_block_mask level = 0)) (\<lambda>_.
     andthen (desc_attrs E C a) (\<lambda>attrs.
     Inr (addr_pa OR (if level = XLAT_TABLE_LEVEL_MAX then PAGE_DESC else BLOCK_DESC) OR attrs)))"

datatype action = ACTION_NONE | ACTION_WRITE_BLOCK_ENTRY | ACTION_CREATE_NEW_TABLE | ACTION_RECURSE_INTO_TABLE

definition xlat_tables_find_start_va :: "mmap_region \<Rightarrow> u64 \<Rightarrow> nat \<Rightarrow> u64" where
  "xlat_tables_find_start_va mm table_base_va level =
     (if table_base_va < base_va mm then base_va mm AND NOT (xlat_block_mask level) else table_base_va)"

definition xlat_tables_va_to_index :: "u64 \<Rightarrow> u64 \<Rightarrow> nat \<Rightarrow> nat" where
  "xlat_tables_va_to_index table_base_va va level =
     unat (ucast (drop_bit (xlat_addr_shift level) (va - table_base_va)) :: u32)"

definition xlat_tables_map_region_action :: "mmap_region \<Rightarrow> u64 \<Rightarrow> u64 \<Rightarrow> u64 \<Rightarrow> nat \<Rightarrow> action res" where
  "xlat_tables_map_region_action mm desc_type dest_pa table_entry_base_va level =
     (let mm_end_va = region_end mm;
          table_entry_end_va = table_entry_base_va + xlat_block_size level - 1
      in if base_va mm \<le> table_entry_base_va \<and> table_entry_end_va \<le> mm_end_va
         then if level = 3
              then if desc_type = PAGE_DESC then Inr ACTION_NONE
                   else andthen (assert_c (desc_type = INVALID_DESC)) (\<lambda>_. Inr ACTION_WRITE_BLOCK_ENTRY)
              else if desc_type = TABLE_DESC then Inr ACTION_RECURSE_INTO_TABLE
              else if desc_type = INVALID_DESC
              then Inr (if dest_pa AND xlat_block_mask level \<noteq> 0 \<or> level < MIN_LVL_BLOCK_DESC \<or> granularity mm < xlat_block_size level
                        then ACTION_CREATE_NEW_TABLE else ACTION_WRITE_BLOCK_ENTRY)
              else andthen (assert_c (desc_type = BLOCK_DESC)) (\<lambda>_. Inr ACTION_NONE)
         else if base_va mm \<le> table_entry_end_va \<or> table_entry_base_va \<le> mm_end_va
         then andthen (assert_c (level < 3)) (\<lambda>_.
              if desc_type = INVALID_DESC then Inr ACTION_CREATE_NEW_TABLE
              else andthen (assert_c (desc_type = TABLE_DESC)) (\<lambda>_. Inr ACTION_RECURSE_INTO_TABLE))
         else Inr ACTION_NONE)"

text \<open>
  \<open>xlat_tables_map_region\<close> and its loop. The loop repeats the assertion about the level, which does not change in it;
  so the recursion ends, with the level and then with the number of entries left.
\<close>

function xlat_tables_map_region ::
    "xlat_env \<Rightarrow> mmap_region \<Rightarrow> u64 \<Rightarrow> tptr \<Rightarrow> nat \<Rightarrow> nat \<Rightarrow> xlat_ctx \<Rightarrow> (u64 \<times> xlat_ctx) res"
  and map_loop :: "xlat_env \<Rightarrow> mmap_region \<Rightarrow> tptr \<Rightarrow> nat \<Rightarrow> nat \<Rightarrow> nat \<Rightarrow> u64 \<Rightarrow> xlat_ctx \<Rightarrow> (u64 \<times> xlat_ctx) res" where
  "xlat_tables_map_region E mm table_base_va tb table_entries level C =
     andthen (assert_c (base_level C \<le> level \<and> level \<le> XLAT_TABLE_LEVEL_MAX)) (\<lambda>_.
     let table_idx_va = xlat_tables_find_start_va mm table_base_va level;
         table_idx = xlat_tables_va_to_index table_base_va table_idx_va level
     in andthen (if PLAT_XLAT_TABLES_DYNAMIC E \<and> base_level C < level then xlat_table_inc_regions_count tb C else Inr C) (\<lambda>C.
        map_loop E mm tb table_entries level table_idx table_idx_va C))"
| "map_loop E mm tb table_entries level table_idx table_idx_va C =
     (if \<not> table_idx < table_entries then Inr (table_idx_va - 1, C)
      else if 3 < level then Inl AssertFail
      else andthen (tbl_get C tb table_idx) (\<lambda>desc.
        let table_idx_pa = base_pa mm + table_idx_va - base_va mm;
            next_va = table_idx_va + xlat_block_size level;
            go_on = (\<lambda>C. if region_end mm \<le> next_va then Inr (next_va - 1, C)
                         else map_loop E mm tb table_entries level (Suc table_idx) next_va C);
            into = (\<lambda>subtab C. andthen (xlat_tables_map_region E mm table_idx_va subtab XLAT_TABLE_ENTRIES (Suc level) C)
                      (\<lambda>(end_va, C). if end_va \<noteq> next_va - 1 then Inr (end_va, C) else go_on C))
        in andthen (xlat_tables_map_region_action mm (desc AND DESC_MASK) table_idx_pa table_idx_va level) (\<lambda>action.
           case action of
             ACTION_WRITE_BLOCK_ENTRY \<Rightarrow>
               andthen (xlat_desc E C (attr mm) table_idx_pa level) (\<lambda>d.
               andthen (tbl_put C tb table_idx d) go_on)
           | ACTION_CREATE_NEW_TABLE \<Rightarrow>
               andthen (xlat_table_get_empty E C) (\<lambda>(n, C).
               case n of
                 None \<Rightarrow> Inr (table_idx_va, C)
               | Some n \<Rightarrow> andthen (tbl_put C tb table_idx (TABLE_DESC OR table_addr C n)) (into (Sub n)))
           | ACTION_RECURSE_INTO_TABLE \<Rightarrow> andthen (subtable C desc) (\<lambda>s. into s C)
           | ACTION_NONE \<Rightarrow> go_on C)))"
  by pat_completeness auto

termination
  by (relation "measures [\<lambda>x. case x of Inl (_, _, _, _, _, level, _) \<Rightarrow> 4 - level | Inr (_, _, _, _, level, _) \<Rightarrow> 4 - level,
      \<lambda>x. case x of Inl _ \<Rightarrow> 1 | Inr _ \<Rightarrow> 0,
      \<lambda>x. case x of Inl _ \<Rightarrow> 0 | Inr (_, _, _, n, _, i, _) \<Rightarrow> n - i]") auto

section \<open>Unmapping a region\<close>

definition xlat_tables_unmap_region_action :: "mmap_region \<Rightarrow> u64 \<Rightarrow> u64 \<Rightarrow> nat \<Rightarrow> u64 \<Rightarrow> action res" where
  "xlat_tables_unmap_region_action mm table_idx_va table_idx_end_va level desc_type =
     (if base_va mm \<le> table_idx_va \<and> table_idx_end_va \<le> region_end mm
      then if level = 3 then andthen (assert_c (desc_type = PAGE_DESC)) (\<lambda>_. Inr ACTION_WRITE_BLOCK_ENTRY)
           else if desc_type = TABLE_DESC then Inr ACTION_RECURSE_INTO_TABLE
           else andthen (assert_c (desc_type = BLOCK_DESC)) (\<lambda>_. Inr ACTION_WRITE_BLOCK_ENTRY)
      else if base_va mm \<le> table_idx_end_va \<or> table_idx_va \<le> region_end mm
      then andthen (assert_c (level < 3)) (\<lambda>_.
           andthen (assert_c (desc_type = TABLE_DESC)) (\<lambda>_. Inr ACTION_RECURSE_INTO_TABLE))
      else Inr ACTION_NONE)"

definition clear_entry :: "xlat_env \<Rightarrow> tptr \<Rightarrow> nat \<Rightarrow> u64 \<Rightarrow> xlat_ctx \<Rightarrow> xlat_ctx res" where
  "clear_entry E tb i va C = andthen (tbl_put C tb i INVALID_DESC) (xlat_arch_tlbi_va E va)"

function xlat_tables_unmap_region ::
    "xlat_env \<Rightarrow> mmap_region \<Rightarrow> u64 \<Rightarrow> tptr \<Rightarrow> nat \<Rightarrow> nat \<Rightarrow> xlat_ctx \<Rightarrow> xlat_ctx res"
  and unmap_loop :: "xlat_env \<Rightarrow> mmap_region \<Rightarrow> tptr \<Rightarrow> nat \<Rightarrow> nat \<Rightarrow> nat \<Rightarrow> u64 \<Rightarrow> xlat_ctx \<Rightarrow> xlat_ctx res" where
  "xlat_tables_unmap_region E mm table_base_va tb table_entries level C =
     andthen (assert_c (base_level C \<le> level \<and> level \<le> XLAT_TABLE_LEVEL_MAX)) (\<lambda>_.
     let table_idx_va = xlat_tables_find_start_va mm table_base_va level;
         table_idx = xlat_tables_va_to_index table_base_va table_idx_va level
     in andthen (unmap_loop E mm tb table_entries level table_idx table_idx_va C) (\<lambda>C.
        if base_level C < level then xlat_table_dec_regions_count tb C else Inr C))"
| "unmap_loop E mm tb table_entries level table_idx table_idx_va C =
     (if \<not> table_idx < table_entries then Inr C
      else if 3 < level then Inl AssertFail
      else andthen (tbl_get C tb table_idx) (\<lambda>desc.
        let table_idx_end_va = table_idx_va + xlat_block_size level - 1;
            next_va = table_idx_va + xlat_block_size level;
            go_on = (\<lambda>C. if region_end mm \<le> next_va then Inr C
                         else unmap_loop E mm tb table_entries level (Suc table_idx) next_va C)
        in andthen (xlat_tables_unmap_region_action mm table_idx_va table_idx_end_va level (desc AND DESC_MASK)) (\<lambda>action.
           case action of
             ACTION_WRITE_BLOCK_ENTRY \<Rightarrow> andthen (clear_entry E tb table_idx table_idx_va C) go_on
           | ACTION_RECURSE_INTO_TABLE \<Rightarrow>
               andthen (subtable C desc) (\<lambda>s.
               andthen (xlat_tables_unmap_region E mm table_idx_va s XLAT_TABLE_ENTRIES (Suc level) C) (\<lambda>C.
               andthen (xlat_table_is_empty C s) (\<lambda>emp.
               andthen (if emp then clear_entry E tb table_idx table_idx_va C else Inr C) go_on)))
           | _ \<Rightarrow> andthen (assert_c (action = ACTION_NONE)) (\<lambda>_. go_on C))))"
  by pat_completeness auto

termination
  by (relation "measures [\<lambda>x. case x of Inl (_, _, _, _, _, level, _) \<Rightarrow> 4 - level | Inr (_, _, _, _, level, _) \<Rightarrow> 4 - level,
      \<lambda>x. case x of Inl _ \<Rightarrow> 1 | Inr _ \<Rightarrow> 0,
      \<lambda>x. case x of Inl _ \<Rightarrow> 0 | Inr (_, _, _, n, _, i, _) \<Rightarrow> n - i]") auto

section \<open>Dynamic regions\<close>

text \<open>The part of \<open>mmap_add_dynamic_region_ctx\<close> that maps the region, once it is in the array at place \<open>i\<close>.\<close>

definition map_dynamic :: "xlat_env \<Rightarrow> nat \<Rightarrow> mmap_region \<Rightarrow> xlat_ctx \<Rightarrow> (int \<times> u64 \<times> xlat_ctx) res" where
  "map_dynamic E i mm C =
     andthen (xlat_tables_map_region E mm 0 Base (base_table_entries C) (base_level C) C) (\<lambda>(end_va, C).
     if end_va = region_end mm then Inr (0, end_va, C)
     else andthen (move_down i (mmap_num C) (mmap C)) (\<lambda>rs.
          let C = C\<lparr>mmap := rs\<rparr>
          in if end_va \<le> base_va mm then Inr (- ENOMEM, end_va, C)
             else let unmap_mm = \<lparr>base_pa = 0, base_va = base_va mm, rsize = end_va - base_va mm, attr = 0, granularity = 0\<rparr>
                  in andthen (xlat_tables_unmap_region E unmap_mm 0 Base (base_table_entries C) (base_level C) C) (\<lambda>C.
                     Inr (- ENOMEM, end_va, C))))"

definition mmap_add_dynamic_region_ctx :: "xlat_env \<Rightarrow> mmap_region \<Rightarrow> xlat_ctx \<Rightarrow> (int \<times> mmap_region \<times> xlat_ctx) res" where
  "mmap_add_dynamic_region_ctx E mm C =
     (if rsize mm = 0 then Inr (0, mm, C)
      else let mm = mm\<lparr>attr := attr mm OR MT_DYNAMIC\<rparr>
           in andthen (mmap_add_region_check E C mm) (\<lambda>ret.
              if ret \<noteq> 0 then Inr (ret, mm, C)
              else andthen (find_place mm (mmap C)) (\<lambda>i.
                   andthen (move_up i (mmap_num C) (mmap C)) (\<lambda>rs.
                   andthen (aget rs (mmap_num C)) (\<lambda>l.
                   andthen (assert_c (rsize l = 0)) (\<lambda>_.
                   andthen (aput rs i mm) (\<lambda>rs.
                   let C = C\<lparr>mmap := rs\<rparr>
                   in andthen (if initialized C then map_dynamic E i mm C else Inr (0, region_end mm, C)) (\<lambda>(ret, end_va, C).
                      if ret \<noteq> 0 then Inr (ret, mm, C) else Inr (0, mm, raise_max mm end_va C)))))))))"

definition mmap_add_dynamic_region_alloc_va_ctx ::
  "xlat_env \<Rightarrow> mmap_region \<Rightarrow> xlat_ctx \<Rightarrow> (int \<times> mmap_region \<times> xlat_ctx) res" where
  "mmap_add_dynamic_region_alloc_va_ctx E mm C =
     (let mm = mm\<lparr>base_va := max_va C + 1\<rparr>
      in if rsize mm = 0 then Inr (0, mm, C)
         else let mm = mmap_alloc_va_align_ctx C mm
              in if base_va mm < max_va C then Inr (- ENOMEM, mm, C) else mmap_add_dynamic_region_ctx E mm C)"

text \<open>The position of the region with the given address and size, or of the first unused element.\<close>

fun find_region :: "u64 \<Rightarrow> u64 \<Rightarrow> mmap_region list \<Rightarrow> nat res" where
  "find_region va sz [] = Inl OutOfBounds"
| "find_region va sz (r # rs) =
     (if rsize r \<noteq> 0 \<and> \<not> (base_va r = va \<and> rsize r = sz) then andthen (find_region va sz rs) (\<lambda>n. Inr (Suc n)) else Inr 0)"

text \<open>The greatest end address of the regions in use.\<close>

fun max_end :: "(mmap_region \<Rightarrow> u64) \<Rightarrow> u64 \<Rightarrow> mmap_region list \<Rightarrow> u64 res" where
  "max_end f m [] = Inl OutOfBounds"
| "max_end f m (r # rs) = (if rsize r = 0 then Inr m else max_end f (if m < f r then f r else m) rs)"

definition mmap_remove_dynamic_region_ctx :: "xlat_env \<Rightarrow> u64 \<Rightarrow> u64 \<Rightarrow> xlat_ctx \<Rightarrow> (int \<times> xlat_ctx) res" where
  "mmap_remove_dynamic_region_ctx E va sz C =
     andthen (aget (mmap C) (mmap_num C)) (\<lambda>l.
     andthen (assert_c (rsize l = 0)) (\<lambda>_.
     andthen (find_region va sz (mmap C)) (\<lambda>i.
     andthen (aget (mmap C) i) (\<lambda>mm.
     if rsize mm = 0 then Inr (- EINVAL, C)
     else if attr mm AND MT_DYNAMIC = 0 then Inr (- EPERM, C)
     else let update_max_va_needed = (region_end mm = max_va C);
              update_max_pa_needed = (region_end_pa mm = max_pa C)
          in andthen (if initialized C
                      then xlat_tables_unmap_region E mm 0 Base (base_table_entries C) (base_level C) C else Inr C) (\<lambda>C.
             andthen (move_down i (mmap_num C) (mmap C)) (\<lambda>rs.
             let C = C\<lparr>mmap := rs\<rparr>
             in andthen (if update_max_va_needed then max_end region_end 0 (mmap C) else Inr (max_va C)) (\<lambda>mv.
                andthen (if update_max_pa_needed then max_end region_end_pa 0 (mmap C) else Inr (max_pa C)) (\<lambda>mp.
                Inr (0, C\<lparr>max_va := mv, max_pa := mp\<rparr>)))))))))"

text \<open>
  A new context for an array of regions with \<open>mmap_num + 1\<close> elements. The last element is not cleared; neither are
  the tables, which \<open>init_xlat_tables_ctx\<close> clears.
\<close>

definition xlat_setup_dynamic_ctx ::
  "u64 \<Rightarrow> u64 \<Rightarrow> mmap_region list \<Rightarrow> nat \<Rightarrow> u64 list list \<Rightarrow> u64 \<Rightarrow> nat \<Rightarrow> u64 list \<Rightarrow> u64 \<Rightarrow> int \<Rightarrow> int list \<Rightarrow> xlat_ctx \<Rightarrow> xlat_ctx" where
  "xlat_setup_dynamic_ctx pa_max vmax mm mnum tabs tabs_at tnum btab btab_at r mapped C =
     (let va_space_size = vmax + 1
      in C\<lparr>xlat_regime := r, pa_max_address := pa_max, va_max_address := vmax,
           mmap := replicate mnum \<lparr>base_pa = 0, base_va = 0, rsize = 0, attr = 0, granularity = 0\<rparr> @ drop mnum mm,
           mmap_num := mnum, tables := tabs, tables_at := tabs_at, tables_num := tnum,
           base_level := get_xlat_table_level_base va_space_size, base_table := btab, base_table_at := btab_at,
           base_table_entries := get_num_base_level_entries va_space_size,
           tables_mapped_regions := mapped, max_pa := 0, max_va := 0, initialized := False\<rparr>)"

section \<open>Initialisation\<close>

definition zero_tables :: "xlat_env \<Rightarrow> xlat_ctx \<Rightarrow> xlat_ctx res" where
  "zero_tables E C =
     (if length (base_table C) < base_table_entries C \<or> length (tables C) < tables_num C
         \<or> PLAT_XLAT_TABLES_DYNAMIC E \<and> length (tables_mapped_regions C) < tables_num C
         \<or> (\<exists>t \<in> set (take (tables_num C) (tables C)). length t < XLAT_TABLE_ENTRIES)
      then Inl OutOfBounds
      else Inr (C\<lparr>base_table := replicate (base_table_entries C) INVALID_DESC @ drop (base_table_entries C) (base_table C),
           tables_mapped_regions := (if PLAT_XLAT_TABLES_DYNAMIC E
              then replicate (tables_num C) 0 @ drop (tables_num C) (tables_mapped_regions C) else tables_mapped_regions C),
           tables := map (\<lambda>t. replicate XLAT_TABLE_ENTRIES INVALID_DESC @ drop XLAT_TABLE_ENTRIES t) (take (tables_num C) (tables C))
              @ drop (tables_num C) (tables C)\<rparr>))"

fun map_regions :: "xlat_env \<Rightarrow> mmap_region list \<Rightarrow> xlat_ctx \<Rightarrow> xlat_ctx res" where
  "map_regions E [] C = Inl OutOfBounds"
| "map_regions E (mm # mms) C =
     (if rsize mm = 0 then Inr C
      else andthen (xlat_tables_map_region E mm 0 Base (base_table_entries C) (base_level C) C) (\<lambda>(end_va, C).
           if end_va \<noteq> region_end mm then Inl Panic else map_regions E mms C))"

definition init_xlat_tables_ctx :: "xlat_env \<Rightarrow> xlat_ctx \<Rightarrow> xlat_ctx res" where
  "init_xlat_tables_ctx E C =
     andthen (assert_c (\<not> initialized C)) (\<lambda>_.
     andthen (assert_c (xlat_regime C \<in> {EL3_REGIME, EL2_REGIME, EL1_EL0_REGIME})) (\<lambda>_.
     andthen (is_mmu_enabled_ctx E C) (\<lambda>on.
     andthen (assert_c (\<not> on)) (\<lambda>_.
     andthen (assert_c (xlat_get_min_virt_addr_space_size E - 1 \<le> va_max_address C)) (\<lambda>_.
     andthen (assert_c (va_max_address C \<le> MAX_VIRT_ADDR_SPACE_SIZE - 1)) (\<lambda>_.
     andthen (assert_c (is_power_of_two (va_max_address C + 1))) (\<lambda>_.
     andthen (zero_tables E C) (\<lambda>C.
     andthen (map_regions E (mmap C) C) (\<lambda>C.
     andthen (xlat_arch_get_max_supported_pa E) (\<lambda>pa.
     andthen (assert_c (pa_max_address C \<le> pa)) (\<lambda>_.
     andthen (assert_c (max_va C \<le> va_max_address C)) (\<lambda>_.
     andthen (assert_c (max_pa C \<le> pa_max_address C)) (\<lambda>_.
     Inr (C\<lparr>initialized := True\<rparr>))))))))))))))"

section \<open>Walking the tables\<close>

text \<open>The loop over the levels from the given one.\<close>

fun find_entry_from :: "xlat_ctx \<Rightarrow> u64 \<Rightarrow> nat list \<Rightarrow> tptr \<Rightarrow> nat \<Rightarrow> (tptr \<times> nat \<times> nat) option res" where
  "find_entry_from C va [] tb entries = Inl AssertFail"
| "find_entry_from C va (level # ls) tb entries =
     (let idx = xlat_table_idx va level
      in if entries \<le> idx then Inr None
         else andthen (tbl_get C tb idx) (\<lambda>desc.
              let desc_type = desc AND DESC_MASK
              in if desc_type = INVALID_DESC then Inr None
                 else if level = XLAT_TABLE_LEVEL_MAX
                 then andthen (assert_c (desc_type = PAGE_DESC)) (\<lambda>_. Inr (Some (tb, idx, level)))
                 else if desc_type = BLOCK_DESC then Inr (Some (tb, idx, level))
                 else andthen (assert_c (desc_type = TABLE_DESC)) (\<lambda>_.
                      andthen (subtable C desc) (\<lambda>s. find_entry_from C va ls s XLAT_TABLE_ENTRIES))))"

definition find_xlat_table_entry :: "u64 \<Rightarrow> u64 \<Rightarrow> xlat_ctx \<Rightarrow> (tptr \<times> nat \<times> nat) option res" where
  "find_xlat_table_entry va virt_addr_space_size C =
     find_entry_from C va [get_xlat_table_level_base virt_addr_space_size..<4] Base (base_table_entries C)"

record mem_info =
  mi_attr :: u32
  mi_entry :: "tptr \<times> nat"
  mi_pa :: u64
  mi_level :: nat

definition desc_to_attr :: "xlat_env \<Rightarrow> xlat_ctx \<Rightarrow> u64 \<Rightarrow> u32 res" where
  "desc_to_attr E C desc =
     (let attr_index = drop_bit 2 desc AND 3
      in andthen (if attr_index = ATTR_IWBWA_OWBWA_NTR_INDEX then Inr MT_MEMORY
                  else if attr_index = ATTR_NON_CACHEABLE_INDEX then Inr MT_NON_CACHEABLE
                  else andthen (assert_c (attr_index = ATTR_DEVICE_INDEX)) (\<lambda>_. Inr MT_DEVICE)) (\<lambda>a.
         let a = (if drop_bit 7 desc AND 1 = 0 then a OR MT_RW else a);
             a = (if xlat_regime C = EL1_EL0_REGIME \<and> drop_bit 6 desc AND 1 = 1 then a OR MT_USER else a);
             a = (if drop_bit 5 desc AND 1 = 1 then a OR MT_NS else a)
         in andthen (xlat_arch_regime_get_xn_desc E (xlat_regime C)) (\<lambda>xn_mask.
            if desc AND xn_mask = xn_mask then Inr (a OR MT_EXECUTE_NEVER)
            else andthen (assert_c (desc AND xn_mask = 0)) (\<lambda>_. Inr a))))"

definition xlat_get_mem_attributes_internal :: "xlat_env \<Rightarrow> u64 \<Rightarrow> xlat_ctx \<Rightarrow> (int \<times> mem_info option) res" where
  "xlat_get_mem_attributes_internal E va C =
     andthen (assert_c (initialized C)) (\<lambda>_.
     andthen (assert_c (xlat_regime C \<in> {EL1_EL0_REGIME, EL2_REGIME, EL3_REGIME})) (\<lambda>_.
     let virt_addr_space_size = va_max_address C + 1
     in andthen (assert_c (0 < virt_addr_space_size)) (\<lambda>_.
        andthen (find_xlat_table_entry va virt_addr_space_size C) (\<lambda>entry.
        case entry of
          None \<Rightarrow> Inr (- EINVAL, None)
        | Some (tb, idx, level) \<Rightarrow>
            andthen (tbl_get C tb idx) (\<lambda>desc.
            andthen (desc_to_attr E C desc) (\<lambda>a.
            Inr (0, Some \<lparr>mi_attr = a, mi_entry = (tb, idx), mi_pa = desc AND TABLE_ADDR_MASK, mi_level = level\<rparr>)))))))"

definition xlat_get_mem_attributes_ctx :: "xlat_env \<Rightarrow> u64 \<Rightarrow> xlat_ctx \<Rightarrow> (int \<times> u32 option) res" where
  "xlat_get_mem_attributes_ctx E va C =
     andthen (xlat_get_mem_attributes_internal E va C) (\<lambda>(ret, i). Inr (ret, map_option mi_attr i))"

text \<open>The sanity checks of \<open>xlat_change_mem_attributes_ctx\<close> for \<open>n\<close> pages, and the loop that changes them.\<close>

fun check_pages :: "xlat_ctx \<Rightarrow> u32 \<Rightarrow> nat \<Rightarrow> u64 \<Rightarrow> int res" where
  "check_pages C a 0 va = Inr 0"
| "check_pages C a (Suc n) va =
     andthen (find_xlat_table_entry va (va_max_address C + 1) C) (\<lambda>entry.
     case entry of
       None \<Rightarrow> Inr (- EINVAL)
     | Some (tb, idx, level) \<Rightarrow>
         andthen (tbl_get C tb idx) (\<lambda>desc.
         if desc AND DESC_MASK \<noteq> PAGE_DESC \<or> level \<noteq> XLAT_TABLE_LEVEL_MAX then Inr (- EINVAL)
         else if drop_bit 2 desc AND 3 = ATTR_DEVICE_INDEX \<and> a AND MT_EXECUTE_NEVER = 0 then Inr (- EINVAL)
         else check_pages C a n (va + PAGE_SIZE)))"

definition change_page :: "xlat_env \<Rightarrow> u32 \<Rightarrow> u64 \<Rightarrow> xlat_ctx \<Rightarrow> xlat_ctx res" where
  "change_page E a va C =
     andthen (xlat_get_mem_attributes_internal E va C) (\<lambda>(_, i).
     case i of
       None \<Rightarrow> Inl OutOfBounds
     | Some i \<Rightarrow>
         let (tb, idx) = mi_entry i;
             new_attr = (mi_attr i AND NOT (MT_RW OR MT_EXECUTE_NEVER OR MT_USER)) OR (a AND (MT_RW OR MT_EXECUTE_NEVER OR MT_USER))
         in andthen (clear_entry E tb idx va C) (\<lambda>C.
            andthen (xlat_desc E C new_attr (mi_pa i) (mi_level i)) (\<lambda>d. tbl_put C tb idx d)))"

fun change_pages :: "xlat_env \<Rightarrow> u32 \<Rightarrow> nat \<Rightarrow> u64 \<Rightarrow> xlat_ctx \<Rightarrow> xlat_ctx res" where
  "change_pages E a 0 va C = Inr C"
| "change_pages E a (Suc n) va C = andthen (change_page E a va C) (change_pages E a n (va + PAGE_SIZE))"

definition xlat_change_mem_attributes_ctx :: "xlat_env \<Rightarrow> u64 \<Rightarrow> u64 \<Rightarrow> u32 \<Rightarrow> xlat_ctx \<Rightarrow> (int \<times> xlat_ctx) res" where
  "xlat_change_mem_attributes_ctx E va sz a C =
     andthen (assert_c (initialized C)) (\<lambda>_.
     andthen (assert_c (0 < va_max_address C + 1)) (\<lambda>_.
     if \<not> is_page_aligned va then Inr (- EINVAL, C)
     else if sz = 0 then Inr (- EINVAL, C)
     else if sz mod PAGE_SIZE \<noteq> 0 then Inr (- EINVAL, C)
     else if a AND MT_EXECUTE_NEVER = 0 \<and> a AND MT_RW \<noteq> 0 then Inr (- EINVAL, C)
     else let pages_count = unat (sz div PAGE_SIZE)
          in andthen (check_pages C a pages_count va) (\<lambda>ret.
             if ret \<noteq> 0 then Inr (ret, C) else andthen (change_pages E a pages_count va C) (\<lambda>C. Inr (0, C)))))"

section \<open>The context of the image\<close>

text \<open>\<open>REGISTER_XLAT_CONTEXT\<close>, with the addresses the linker gives the tables.\<close>

definition register_xlat_context :: "nat \<Rightarrow> nat \<Rightarrow> u64 \<Rightarrow> u64 \<Rightarrow> u64 \<Rightarrow> u64 \<Rightarrow> xlat_ctx" where
  "register_xlat_context mmap_count xlat_tables_count virt_addr_space_size phy_addr_space_size tabs_at btab_at =
     \<lparr>pa_max_address = phy_addr_space_size - 1, va_max_address = virt_addr_space_size - 1,
      mmap = replicate (mmap_count + 1) \<lparr>base_pa = 0, base_va = 0, rsize = 0, attr = 0, granularity = 0\<rparr>,
      mmap_num = mmap_count, tables = replicate xlat_tables_count (replicate XLAT_TABLE_ENTRIES 0), tables_at = tabs_at,
      tables_num = xlat_tables_count, tables_mapped_regions = replicate xlat_tables_count 0, next_table = 0,
      base_table = replicate (get_num_base_level_entries virt_addr_space_size) 0, base_table_at = btab_at,
      base_table_entries = get_num_base_level_entries virt_addr_space_size, max_pa = 0, max_va = 0,
      base_level = get_xlat_table_level_base virt_addr_space_size, initialized = False, xlat_regime = EL_REGIME_INVALID,
      tlbi = []\<rparr>"

definition map_region :: "u64 \<Rightarrow> u64 \<Rightarrow> u64 \<Rightarrow> u32 \<Rightarrow> mmap_region" where
  "map_region pa va sz a =
     \<lparr>base_pa = pa, base_va = va, rsize = sz, attr = a, granularity = xlat_block_size MIN_LVL_BLOCK_DESC\<rparr>"

definition mmap_add_region :: "xlat_env \<Rightarrow> u64 \<Rightarrow> u64 \<Rightarrow> u64 \<Rightarrow> u32 \<Rightarrow> xlat_ctx \<Rightarrow> xlat_ctx res" where
  "mmap_add_region E pa va sz a = mmap_add_region_ctx E (map_region pa va sz a)"

definition mmap_add_region_alloc_va :: "xlat_env \<Rightarrow> u64 \<Rightarrow> u64 \<Rightarrow> u32 \<Rightarrow> xlat_ctx \<Rightarrow> (u64 \<times> xlat_ctx) res" where
  "mmap_add_region_alloc_va E pa sz a C =
     andthen (mmap_add_region_alloc_va_ctx E (map_region pa 0 sz a) C) (\<lambda>(mm, C). Inr (base_va mm, C))"

text \<open>The regions of the array get their addresses.\<close>

fun mmap_add_alloc_va :: "xlat_env \<Rightarrow> mmap_region list \<Rightarrow> xlat_ctx \<Rightarrow> (mmap_region list \<times> xlat_ctx) res" where
  "mmap_add_alloc_va E [] C = Inl OutOfBounds"
| "mmap_add_alloc_va E (mm # mms) C =
     (if granularity mm = 0 then Inr (mm # mms, C)
      else andthen (assert_c (base_va mm = 0)) (\<lambda>_.
           andthen (mmap_add_region_alloc_va_ctx E mm C) (\<lambda>(mm, C).
           andthen (mmap_add_alloc_va E mms C) (\<lambda>(mms, C). Inr (mm # mms, C)))))"

definition mmap_add_dynamic_region :: "xlat_env \<Rightarrow> u64 \<Rightarrow> u64 \<Rightarrow> u64 \<Rightarrow> u32 \<Rightarrow> xlat_ctx \<Rightarrow> (int \<times> xlat_ctx) res" where
  "mmap_add_dynamic_region E pa va sz a C =
     andthen (mmap_add_dynamic_region_ctx E (map_region pa va sz a) C) (\<lambda>(ret, _, C). Inr (ret, C))"

definition mmap_add_dynamic_region_alloc_va :: "xlat_env \<Rightarrow> u64 \<Rightarrow> u64 \<Rightarrow> u32 \<Rightarrow> xlat_ctx \<Rightarrow> (int \<times> u64 \<times> xlat_ctx) res" where
  "mmap_add_dynamic_region_alloc_va E pa sz a C =
     andthen (mmap_add_dynamic_region_alloc_va_ctx E (map_region pa 0 sz a) C) (\<lambda>(rc, mm, C). Inr (rc, base_va mm, C))"

definition init_xlat_tables :: "xlat_env \<Rightarrow> xlat_ctx \<Rightarrow> xlat_ctx res" where
  "init_xlat_tables E C =
     andthen (assert_c (xlat_regime C = EL_REGIME_INVALID)) (\<lambda>_.
     andthen (xlat_arch_current_el E) (\<lambda>current_el.
     andthen (if current_el = 1 then Inr EL1_EL0_REGIME else if current_el = 2 then Inr EL2_REGIME
              else andthen (assert_c (current_el = 3)) (\<lambda>_. Inr EL3_REGIME)) (\<lambda>r.
     init_xlat_tables_ctx E (C\<lparr>xlat_regime := r\<rparr>))))"

text \<open>The values \<open>enable_mmu_el1\<close>, \<open>enable_mmu_el2\<close> and \<open>enable_mmu_el3\<close> put into the MMU registers.\<close>

definition enable_mmu :: "xlat_env \<Rightarrow> u32 \<Rightarrow> int \<Rightarrow> xlat_ctx \<Rightarrow> mmu_cfg res" where
  "enable_mmu E flags r C =
     setup_mmu_cfg E flags (base_table_at C) (if PLAT_XLAT_TABLES_DYNAMIC E then pa_max_address C else max_pa C)
       (va_max_address C) r"

end
