(* ===== verification/Tftf_Xlat_Regions.thy ===== *)
theory Tftf_Xlat_Regions
  imports Tftf_Xlat
begin

text \<open>
  The array of memory regions of a translation context. The regions in use are nested or disjoint, and they are stored
  in the order in which the tables are filled: a region that lies inside another one comes first. The functions that add a
  region keep this, and accept exactly the regions that fit.
\<close>

section \<open>Regions as intervals\<close>

definition rlo :: "mmap_region \<Rightarrow> nat" where "rlo r = unat (base_va r)"
definition rhi :: "mmap_region \<Rightarrow> nat" where "rhi r = unat (base_va r) + unat (rsize r)"
definition plo :: "mmap_region \<Rightarrow> nat" where "plo r = unat (base_pa r)"
definition phi :: "mmap_region \<Rightarrow> nat" where "phi r = unat (base_pa r) + unat (rsize r)"

lemmas ival_defs = rlo_def rhi_def plo_def phi_def

text \<open>A region that lies in the address spaces of the context, is not empty and is made of whole pages.\<close>

definition region_ok :: "xlat_ctx \<Rightarrow> mmap_region \<Rightarrow> bool" where
  "region_ok C r \<longleftrightarrow> rsize r \<noteq> 0 \<and> 4096 dvd rlo r \<and> 4096 dvd plo r \<and> 4096 dvd unat (rsize r)
     \<and> granularity r \<in> {xlat_block_size 1, xlat_block_size 2, xlat_block_size 3}
     \<and> rhi r \<le> unat (va_max_address C) + 1 \<and> phi r \<le> unat (pa_max_address C) + 1
     \<and> rhi r < 2 ^ 64 \<and> phi r < 2 ^ 64"

lemma page_aligned_dvd: "is_page_aligned a \<longleftrightarrow> 4096 dvd unat a"
proof -
  have m: "(PAGE_SIZE - 1 :: u64) = mask 12" by (simp add: mask_eq_exp_minus_1)
  have "is_page_aligned a \<longleftrightarrow> take_bit 12 a = 0"
    unfolding is_page_aligned_def m by (simp add: take_bit_eq_mask)
  also have "\<dots> \<longleftrightarrow> take_bit 12 (unat a) = 0"
    by (metis unat_eq_zero unsigned_take_bit_eq)
  also have "\<dots> \<longleftrightarrow> 4096 dvd unat a"
    by (simp add: take_bit_eq_mod mod_eq_0_iff_dvd)
  finally show ?thesis .
qed

lemma end_no_wrap:
  fixes a s :: u64
  assumes "s \<noteq> 0" "4096 dvd unat a" "4096 dvd unat s"
  shows "a \<le> a + s - 1 \<longleftrightarrow> unat a + unat s \<le> 2 ^ 64"
    and "unat a + unat s \<le> 2 ^ 64 \<Longrightarrow> unat (a + s - 1) = unat a + unat s - 1"
proof -
  have s: "1 \<le> unat s" using assms(1) by (metis less_one linorder_not_less unat_eq_zero)
  have u: "unat (s - 1) = unat s - 1" using assms(1) by (simp add: unat_minus_one)
  have e: "a + s - 1 = a + (s - 1)" by simp
  have l: "unat a < 2 ^ 64" "unat s < 2 ^ 64" using unat_less_2p [of a] unat_less_2p [of s] by simp_all
  show 1: "unat a + unat s \<le> 2 ^ 64 \<Longrightarrow> unat (a + s - 1) = unat a + unat s - 1"
    unfolding e using s u by (subst unat_add_no_wrap) auto
  have "unat (a + (s - 1)) = unat a + (unat s - 1) - 2 ^ 64" if "2 ^ 64 < unat a + unat s"
  proof -
    have "unat (a + (s - 1)) = (unat a + (unat s - 1)) mod 2 ^ 64" by (simp add: unat_word_ariths u)
    also have "\<dots> = unat a + (unat s - 1) - 2 ^ 64" using that l by (simp add: mod_if)
    finally show ?thesis .
  qed
  then show "a \<le> a + s - 1 \<longleftrightarrow> unat a + unat s \<le> 2 ^ 64"
    using 1 s l unfolding e word_le_nat_alt by (cases "unat a + unat s \<le> 2 ^ 64") auto
qed

lemma region_ok_ends:
  assumes "region_ok C r"
  shows "unat (region_end r) = rhi r - 1" "unat (region_end_pa r) = phi r - 1" "rlo r < rhi r" "plo r < phi r"
    "unat (rsize r) = rhi r - rlo r"
proof -
  have r: "rsize r \<noteq> 0" "4096 dvd unat (base_va r)" "4096 dvd unat (base_pa r)" "4096 dvd unat (rsize r)"
    "unat (base_va r) + unat (rsize r) < 2 ^ 64" "unat (base_pa r) + unat (rsize r) < 2 ^ 64"
    using assms by (auto simp: region_ok_def ival_defs)
  show "unat (region_end r) = rhi r - 1" "unat (region_end_pa r) = phi r - 1"
    using end_no_wrap(2) [OF r(1,2,4)] end_no_wrap(2) [OF r(1,3,4)] r(5,6)
    by (simp_all add: region_end_def region_end_pa_def ival_defs)
  show "rlo r < rhi r" "plo r < phi r" using r(1) by (simp_all add: ival_defs unat_gt_0)
  show "unat (rsize r) = rhi r - rlo r" by (simp add: ival_defs)
qed

section \<open>The order of the array\<close>

text \<open>The relation between an earlier and a later region: the earlier one lies below the later one or properly inside it.\<close>

definition comes_before :: "mmap_region \<Rightarrow> mmap_region \<Rightarrow> bool" where
  "comes_before r s \<longleftrightarrow> rhi r \<le> rlo s \<or> rlo s \<le> rlo r \<and> rhi r \<le> rhi s \<and> rsize r < rsize s"

definition regs :: "xlat_ctx \<Rightarrow> mmap_region list" where
  "regs C = takeWhile (\<lambda>r. rsize r \<noteq> 0) (mmap C)"

definition mmap_ok :: "xlat_ctx \<Rightarrow> bool" where
  "mmap_ok C \<longleftrightarrow> unat (va_max_address C) < 2 ^ 48 \<and> unat (pa_max_address C) < 2 ^ 48 \<and> 0 < mmap_num C \<and> length (mmap C) = mmap_num C + 1 \<and> length (regs C) \<le> mmap_num C
     \<and> (\<forall>r \<in> set (drop (length (regs C)) (mmap C)). rsize r = 0)
     \<and> (\<forall>r \<in> set (regs C). region_ok C r) \<and> sorted_wrt comes_before (regs C)"

text \<open>What the check asks of a new region and a region of the array.\<close>

definition compatible :: "xlat_env \<Rightarrow> mmap_region \<Rightarrow> mmap_region \<Rightarrow> bool" where
  "compatible E mm c \<longleftrightarrow>
     (if rlo c \<le> rlo mm \<and> rhi mm \<le> rhi c \<or> rlo mm \<le> rlo c \<and> rhi c \<le> rhi mm
      then \<not> (PLAT_XLAT_TABLES_DYNAMIC E \<and> (attr mm AND MT_DYNAMIC \<noteq> 0 \<or> attr c AND MT_DYNAMIC \<noteq> 0))
        \<and> base_va c - base_pa c = base_va mm - base_pa mm \<and> \<not> (rlo mm = rlo c \<and> rhi mm = rhi c)
      else (rhi mm \<le> rlo c \<or> rhi c \<le> rlo mm) \<and> (phi mm \<le> plo c \<or> phi c \<le> plo mm))"

lemma check_overlaps_spec:
  assumes "region_ok C mm"
  shows "\<forall>r \<in> set rs. region_ok C r \<Longrightarrow> rsize z = 0 \<Longrightarrow>
    check_overlaps E mm (rs @ z # zs) = Inr (if \<forall>r \<in> set rs. compatible E mm r then 0 else - EPERM)"
proof (induction rs)
  case Nil
  then show ?case by simp
next
  case (Cons c cs)
  have c: "region_ok C c" using Cons.prems by simp
  note m = region_ok_ends [OF assms] and k = region_ok_ends [OF c]
  have c0: "rsize c \<noteq> 0" using c by (simp add: region_ok_def)
  have o: "base_va c \<le> base_va mm \<longleftrightarrow> rlo c \<le> rlo mm" "region_end mm \<le> region_end c \<longleftrightarrow> rhi mm \<le> rhi c"
    "base_va mm \<le> base_va c \<longleftrightarrow> rlo mm \<le> rlo c" "region_end c \<le> region_end mm \<longleftrightarrow> rhi c \<le> rhi mm"
    "region_end mm < base_va c \<longleftrightarrow> rhi mm \<le> rlo c" "region_end c < base_va mm \<longleftrightarrow> rhi c \<le> rlo mm"
    "region_end_pa mm < base_pa c \<longleftrightarrow> phi mm \<le> plo c" "region_end_pa c < base_pa mm \<longleftrightarrow> phi c \<le> plo mm"
    using m k by (auto simp: word_le_nat_alt word_less_nat_alt rlo_def plo_def)
  have q: "base_va mm = base_va c \<and> rsize mm = rsize c \<longleftrightarrow> rlo mm = rlo c \<and> rhi mm = rhi c"
    by (auto simp: ival_defs word_unat_eq_iff)
  have "check_overlaps E mm ((c # cs) @ z # zs)
      = (if compatible E mm c then check_overlaps E mm (cs @ z # zs) else Inr (- EPERM))"
    using c0 by (auto simp: compatible_def Let_def o q)
  then show ?case using Cons by simp
qed

lemma mmap_split:
  assumes "mmap_ok C"
  obtains z zs where "mmap C = regs C @ z # zs" "rsize z = 0" "\<forall>r \<in> set zs. rsize r = 0"
    "length zs = mmap_num C - length (regs C)"
proof -
  let ?d = "drop (length (regs C)) (mmap C)"
  have m: "length (mmap C) = mmap_num C + 1" "length (regs C) \<le> mmap_num C" "\<forall>r \<in> set ?d. rsize r = 0"
    using assms by (auto simp: mmap_ok_def)
  have "mmap C = regs C @ ?d"
    by (metis regs_def append_take_drop_id takeWhile_eq_take)
  moreover have "length ?d = Suc (mmap_num C - length (regs C))" using m by simp
  then obtain z zs where "?d = z # zs" "length zs = mmap_num C - length (regs C)" unfolding length_Suc_conv by blast
  ultimately show thesis using that [of z zs] m(3) by simp
qed

lemma regs_append:
  assumes "\<forall>r \<in> set rs. rsize r \<noteq> 0" "rsize z = 0" "mmap C = rs @ z # zs"
  shows "regs C = rs"
  using assms by (simp add: regs_def takeWhile_append2)

section \<open>Adding a region\<close>

text \<open>When the check accepts a region.\<close>

definition acceptable :: "xlat_env \<Rightarrow> xlat_ctx \<Rightarrow> mmap_region \<Rightarrow> bool" where
  "acceptable E C mm \<longleftrightarrow> region_ok C mm \<and> length (regs C) < mmap_num C \<and> (\<forall>r \<in> set (regs C). compatible E mm r)"


lemma gran_block_size: "xlat_block_size 1 = 0x40000000" "xlat_block_size 2 = 0x200000" "xlat_block_size 3 = 0x1000"
  by (simp_all add: xlat_block_size_def xlat_addr_shift_def push_bit_eq_mult)

lemma add_region_check_spec:
  assumes "mmap_ok C" "rsize mm \<noteq> 0"
  shows "\<exists>ret. mmap_add_region_check E C mm = Inr ret \<and> (ret = 0 \<longleftrightarrow> acceptable E C mm)"
proof -
  obtain z zs where m: "mmap C = regs C @ z # zs" "rsize z = 0" "\<forall>r \<in> set zs. rsize r = 0"
    "length zs = mmap_num C - length (regs C)"
    by (rule mmap_split [OF assms(1)])
  have k: "0 < mmap_num C" "length (regs C) \<le> mmap_num C" "\<forall>r \<in> set (regs C). region_ok C r"
    "unat (va_max_address C) < 2 ^ 48" "unat (pa_max_address C) < 2 ^ 48"
    using assms(1) by (auto simp: mmap_ok_def)
  let ?al = "4096 dvd rlo mm \<and> 4096 dvd plo mm \<and> 4096 dvd unat (rsize mm)"
  let ?gr = "granularity mm \<in> {xlat_block_size 1, xlat_block_size 2, xlat_block_size 3}"
  show ?thesis
  proof (cases "?al \<and> ?gr")
    case False
    then have "mmap_add_region_check E C mm = Inr (- EINVAL)" "\<not> acceptable E C mm"
      by (auto simp: mmap_add_region_check_def page_aligned_dvd ival_defs acceptable_def region_ok_def)
    then show ?thesis by auto
  next
    case al: True
    have w: "base_va mm \<le> region_end mm \<longleftrightarrow> rhi mm \<le> 2 ^ 64" "rhi mm \<le> 2 ^ 64 \<Longrightarrow> unat (region_end mm) = rhi mm - 1"
      "base_pa mm \<le> region_end_pa mm \<longleftrightarrow> phi mm \<le> 2 ^ 64" "phi mm \<le> 2 ^ 64 \<Longrightarrow> unat (region_end_pa mm) = phi mm - 1"
      using end_no_wrap [OF assms(2), of "base_va mm"] end_no_wrap [OF assms(2), of "base_pa mm"] al
      by (simp_all add: region_end_def region_end_pa_def ival_defs)
    have p: "0 < rhi mm" "0 < phi mm" using assms(2) by (simp_all add: ival_defs unat_gt_0)
    let ?in = "rhi mm \<le> unat (va_max_address C) + 1 \<and> phi mm \<le> unat (pa_max_address C) + 1"
    have i: "base_pa mm \<le> region_end_pa mm \<and> base_va mm \<le> region_end mm \<and> region_end mm \<le> va_max_address C
        \<and> region_end_pa mm \<le> pa_max_address C \<longleftrightarrow> ?in"
      using w p k(4,5) by (auto simp: word_le_nat_alt)
    have ok: "region_ok C mm \<longleftrightarrow> ?in"
      using al assms(2) k(4,5) by (auto simp: region_ok_def)
    show ?thesis
    proof (cases ?in)
      case False
      then have "\<not> (base_pa mm \<le> region_end_pa mm \<and> base_va mm \<le> region_end mm \<and> region_end mm \<le> va_max_address C
        \<and> region_end_pa mm \<le> pa_max_address C)" using i by blast
      then have "mmap_add_region_check E C mm = Inr (- ERANGE)"
        using al by (auto simp: mmap_add_region_check_def page_aligned_dvd ival_defs not_le)
      then show ?thesis using False ok by (auto simp: acceptable_def)
    next
      case True
      then have c: "base_pa mm \<le> region_end_pa mm" "base_va mm \<le> region_end mm" "region_end mm \<le> va_max_address C"
        "region_end_pa mm \<le> pa_max_address C" using i by blast+
      have l: "mmap_num C - 1 < length (mmap C)" using k m(4) by (simp add: m(1))
      have f: "rsize (mmap C ! (mmap_num C - 1)) \<noteq> 0 \<longleftrightarrow> length (regs C) = mmap_num C"
      proof (cases "length (regs C) = mmap_num C")
        case True
        then have "mmap C ! (mmap_num C - 1) = regs C ! (mmap_num C - 1)" using k(1) by (simp add: m(1) nth_append)
        moreover have "regs C ! (mmap_num C - 1) \<in> set (regs C)" using True k(1) by simp
        ultimately show ?thesis using True k(3) by (auto simp: region_ok_def)
      next
        case False
        let ?j = "mmap_num C - 1 - length (regs C)"
        have "mmap C ! (mmap_num C - 1) = (z # zs) ! ?j" using False k(2) by (simp add: m(1) nth_append)
        moreover have "(z # zs) ! ?j \<in> set (z # zs)" using m(4) by (intro nth_mem) simp
        ultimately show ?thesis using False m(2,3) by auto
      qed
      have "mmap_add_region_check E C mm = (if length (regs C) = mmap_num C then Inr (- ENOMEM)
          else Inr (if \<forall>r \<in> set (regs C). compatible E mm r then 0 else - EPERM))"
        using al c l f k(1) check_overlaps_spec [OF ok [THEN iffD2, OF True] k(3) m(2), of E zs]
        by (simp add: mmap_add_region_check_def page_aligned_dvd ival_defs not_less flip: m(1))
      then show ?thesis using True ok k(2) by (auto simp: acceptable_def)
    qed
  qed
qed

lemma comes_before_end:
  assumes "comes_before r s" "region_ok C r" "region_ok C s"
  shows "rhi r \<le> rhi s" "rhi r = rhi s \<Longrightarrow> rsize r < rsize s"
  using assms region_ok_ends(3) [OF assms(2)] region_ok_ends(3) [OF assms(3)] by (auto simp: comes_before_def)

text \<open>Where the two loops stop: the regions before the place end lower, or at the same address and are smaller.\<close>

definition goes_past :: "mmap_region \<Rightarrow> mmap_region \<Rightarrow> bool" where
  "goes_past mm r \<longleftrightarrow> rhi r < rhi mm \<or> rhi r = rhi mm \<and> rsize r < rsize mm"

lemma find_place_spec:
  assumes mm: "region_ok C mm" and z: "rsize z = 0"
  shows "\<forall>r \<in> set rs. region_ok C r \<Longrightarrow> sorted_wrt comes_before rs \<Longrightarrow>
    find_place mm (rs @ z # zs) = Inr (length (takeWhile (goes_past mm) rs))"
proof -
  have e: "region_end r < region_end mm \<longleftrightarrow> rhi r < rhi mm" "region_end r = region_end mm \<longleftrightarrow> rhi r = rhi mm" if "region_ok C r" for r
    using region_ok_ends(1,3) [OF mm] region_ok_ends(1,3) [OF that] by (auto simp: word_less_nat_alt word_unat_eq_iff)
  have ne: "rsize r \<noteq> 0" if "region_ok C r" for r using that by (simp add: region_ok_def)
  have low: "skip_lower_end (region_end mm) (rs @ z # zs) = Inr (length (takeWhile (\<lambda>r. rhi r < rhi mm) rs))"
    if "\<forall>r \<in> set rs. region_ok C r" for rs
    using that z by (induction rs) (auto simp: e ne)
  have sm: "skip_smaller (region_end mm) (rsize mm) (rs @ z # zs)
      = Inr (length (takeWhile (\<lambda>r. rhi r = rhi mm \<and> rsize r < rsize mm) rs))" if "\<forall>r \<in> set rs. region_ok C r" for rs
    using that z by (induction rs) (auto simp: e ne)
  show "\<forall>r \<in> set rs. region_ok C r \<Longrightarrow> sorted_wrt comes_before rs \<Longrightarrow>
    find_place mm (rs @ z # zs) = Inr (length (takeWhile (goes_past mm) rs))"
  proof -
    assume a: "\<forall>r \<in> set rs. region_ok C r" "sorted_wrt comes_before rs"
    let ?P = "\<lambda>r. rhi r < rhi mm" and ?Q = "\<lambda>r. rhi r = rhi mm \<and> rsize r < rsize mm"
    let ?d = "dropWhile ?P rs"
    have ge: "\<forall>r \<in> set ?d. rhi mm \<le> rhi r"
      using a
    proof (induction rs)
      case (Cons r rs)
      have "\<forall>s \<in> set rs. rhi r \<le> rhi s" using Cons.prems comes_before_end(1) by fastforce
      then show ?case using Cons by (auto simp: not_less)
    qed simp
    have "takeWhile (goes_past mm) ?d = takeWhile ?Q ?d"
      using ge by (intro takeWhile_cong) (auto simp: goes_past_def)
    moreover have "takeWhile (goes_past mm) rs = takeWhile ?P rs @ takeWhile (goes_past mm) ?d"
    proof -
      have "takeWhile (goes_past mm) (takeWhile ?P rs @ ?d) = takeWhile ?P rs @ takeWhile (goes_past mm) ?d"
        by (rule takeWhile_append2) (auto simp: goes_past_def dest: set_takeWhileD)
      then show ?thesis by simp
    qed
    moreover have "drop (length (takeWhile ?P rs)) (rs @ z # zs) = ?d @ z # zs"
      by (metis append_eq_conv_conj append_assoc takeWhile_dropWhile_id)
    moreover have "\<forall>r \<in> set ?d. region_ok C r" using a(1) by (auto dest: set_dropWhileD)
    ultimately show ?thesis using low [OF a(1)] sm [of ?d] by (simp add: find_place_def)
  qed
qed

lemma compatible_before:
  assumes "compatible E mm r" "region_ok C mm" "region_ok C r"
  shows "goes_past mm r \<Longrightarrow> comes_before r mm" "\<not> goes_past mm r \<Longrightarrow> comes_before mm r"
proof -
  note m = region_ok_ends(3,5) [OF assms(2)] and k = region_ok_ends(3,5) [OF assms(3)]
  have s: "rsize r < rsize mm \<longleftrightarrow> rhi r - rlo r < rhi mm - rlo mm" "rsize mm < rsize r \<longleftrightarrow> rhi mm - rlo mm < rhi r - rlo r"
    using m k by (simp_all add: word_less_nat_alt)
  have c: "(rlo r \<le> rlo mm \<and> rhi mm \<le> rhi r \<or> rlo mm \<le> rlo r \<and> rhi r \<le> rhi mm) \<and> \<not> (rlo mm = rlo r \<and> rhi mm = rhi r)
      \<or> rhi mm \<le> rlo r \<or> rhi r \<le> rlo mm"
    using assms(1) unfolding compatible_def by argo
  show "goes_past mm r \<Longrightarrow> comes_before r mm" "\<not> goes_past mm r \<Longrightarrow> comes_before mm r"
    using c m(1) k(1) unfolding goes_past_def comes_before_def s by linarith+
qed

lemma dropWhile_goes_past:
  assumes "\<forall>r \<in> set rs. region_ok C r" "sorted_wrt comes_before rs"
  shows "\<forall>r \<in> set (dropWhile (goes_past mm) rs). \<not> goes_past mm r"
  using assms
proof (induction rs)
  case (Cons r rs)
  have later: "\<not> goes_past mm s" if "comes_before r s" "\<not> goes_past mm r" "region_ok C s" for s
    using comes_before_end [OF that(1) _ that(3)] Cons.prems(1) that(2) by (auto simp: goes_past_def)
  show ?case
  proof (cases "goes_past mm r")
    case True
    then show ?thesis using Cons by simp
  next
    case False
    then show ?thesis using later Cons.prems by simp
  qed
qed simp

lemma sorted_insert:
  assumes "\<forall>r \<in> set rs. region_ok C r" "sorted_wrt comes_before rs" "region_ok C mm" "\<forall>r \<in> set rs. compatible E mm r"
  shows "sorted_wrt comes_before (takeWhile (goes_past mm) rs @ mm # dropWhile (goes_past mm) rs)"
proof -
  let ?t = "takeWhile (goes_past mm) rs" and ?d = "dropWhile (goes_past mm) rs"
  have "sorted_wrt comes_before (?t @ ?d)" using assms(2) by simp
  then have s: "sorted_wrt comes_before ?t" "sorted_wrt comes_before ?d" "\<forall>x \<in> set ?t. \<forall>y \<in> set ?d. comes_before x y"
    unfolding sorted_wrt_append by blast+
  have "comes_before mm r" if "r \<in> set ?d" for r
  proof -
    have "r \<in> set rs" using that by (rule set_dropWhileD)
    then show ?thesis using compatible_before(2) [of E mm r C] assms dropWhile_goes_past [OF assms(1,2)] that by blast
  qed
  moreover have "comes_before r mm" if "r \<in> set ?t" for r
    using set_takeWhileD [OF that] compatible_before(1) [of E mm r C] assms by blast
  ultimately show ?thesis using s by (simp add: sorted_wrt_append)
qed

lemma find_last_spec:
  "\<forall>r \<in> set rs. rsize r \<noteq> 0 \<Longrightarrow> rsize z = 0 \<Longrightarrow> length rs \<le> n \<Longrightarrow> find_last n (rs @ z # zs) = Inr (length rs)"
  by (induction rs arbitrary: n) auto

text \<open>The context with a region inserted.\<close>

definition with_region :: "mmap_region \<Rightarrow> xlat_ctx \<Rightarrow> xlat_ctx" where
  "with_region mm C = C\<lparr>mmap := takeWhile (goes_past mm) (regs C) @ mm # dropWhile (goes_past mm) (regs C)
     @ drop (Suc (length (regs C))) (mmap C)\<rparr>"

lemma move_up_insert:
  assumes "i \<le> length rs" "j = length rs"
  shows "move_up i j (rs @ z # zs) = Inr (take i rs @ (rs @ [z]) ! i # drop i rs @ zs)"
proof -
  have "take (Suc i) (rs @ z # zs) = take i rs @ [(rs @ [z]) ! i]"
    using assms by (cases "i = length rs") (simp_all add: take_Suc_conv_app_nth nth_append)
  then show ?thesis using assms by (simp add: move_up_def)
qed

lemma with_region_ok:
  assumes "mmap_ok C" "acceptable E C mm"
  shows "mmap_ok (with_region mm C)" "set (regs (with_region mm C)) = insert mm (set (regs C))"
proof -
  obtain z zs where m: "mmap C = regs C @ z # zs" "rsize z = 0" "\<forall>r \<in> set zs. rsize r = 0"
    "length zs = mmap_num C - length (regs C)"
    by (rule mmap_split [OF assms(1)])
  define n where "n = takeWhile (goes_past mm) (regs C) @ mm # dropWhile (goes_past mm) (regs C)"
  have a: "region_ok C mm" "length (regs C) < mmap_num C" "\<forall>r \<in> set (regs C). compatible E mm r"
    using assms(2) by (auto simp: acceptable_def)
  have k: "\<forall>r \<in> set (regs C). region_ok C r" "sorted_wrt comes_before (regs C)" using assms(1) by (auto simp: mmap_ok_def)
  obtain y ys where y: "zs = y # ys" using m(4) a(2) by (cases zs) auto
  have mn: "mmap (with_region mm C) = n @ y # ys"
    by (simp add: with_region_def m(1) y n_def)
  have st: "set n = insert mm (set (regs C))"
    unfolding n_def by (metis Un_insert_right list.simps(15) set_append takeWhile_dropWhile_id)
  have ok: "\<forall>r \<in> set n. region_ok C r" unfolding st using a(1) k(1) by auto
  have r: "regs (with_region mm C) = n"
    by (rule regs_append [OF _ _ mn]) (use ok m(3) y in \<open>auto simp: region_ok_def\<close>)
  show "set (regs (with_region mm C)) = insert mm (set (regs C))" using r st by simp
  have l: "length n = Suc (length (regs C))"
    unfolding n_def by (metis add_Suc_right length_Cons length_append takeWhile_dropWhile_id)
  have rk: "region_ok (with_region mm C) r = region_ok C r" for r by (simp add: region_ok_def with_region_def)
  have f: "va_max_address (with_region mm C) = va_max_address C" "pa_max_address (with_region mm C) = pa_max_address C"
    "mmap_num (with_region mm C) = mmap_num C" by (simp_all add: with_region_def)
  have "sorted_wrt comes_before n" unfolding n_def by (rule sorted_insert [OF k a(1,3)])
  moreover have "length (n @ y # ys) = mmap_num C + 1" using l m(4) y a(2) by simp
  moreover have "unat (va_max_address C) < 2 ^ 48" "unat (pa_max_address C) < 2 ^ 48" "0 < mmap_num C"
    using assms(1) by (simp_all add: mmap_ok_def)
  ultimately show "mmap_ok (with_region mm C)"
    unfolding mmap_ok_def r mn rk f using ok m(3) a(2) y l by simp
qed

lemma add_region_eq:
  assumes "mmap_ok C" "\<not> initialized C" "rsize mm \<noteq> 0"
  shows "mmap_add_region_ctx E mm C =
    (if acceptable E C mm then Inr (raise_max mm (region_end mm) (with_region mm C)) else Inl AssertFail)"
proof -
  obtain ret where c: "mmap_add_region_check E C mm = Inr ret" "ret = 0 \<longleftrightarrow> acceptable E C mm"
    using add_region_check_spec [OF assms(1,3), of E] by blast
  show ?thesis
  proof (cases "acceptable E C mm")
    case False
    then show ?thesis using c assms(2,3) by (simp add: mmap_add_region_ctx_def)
  next
    case True
    obtain z zs where m: "mmap C = regs C @ z # zs" "rsize z = 0" "\<forall>r \<in> set zs. rsize r = 0"
      "length zs = mmap_num C - length (regs C)"
      by (rule mmap_split [OF assms(1)])
    have a: "region_ok C mm" "length (regs C) < mmap_num C" "\<forall>r \<in> set (regs C). compatible E mm r"
      using True by (auto simp: acceptable_def)
    have k: "\<forall>r \<in> set (regs C). region_ok C r" "sorted_wrt comes_before (regs C)" using assms(1) by (auto simp: mmap_ok_def)
    let ?i = "length (takeWhile (goes_past mm) (regs C))"
    have i: "?i \<le> length (regs C)" by (rule length_takeWhile_le)
    have p: "find_place mm (mmap C) = Inr ?i" unfolding m(1) by (rule find_place_spec [OF a(1) m(2) k])
    have l: "find_last (mmap_num C) (mmap C) = Inr (length (regs C))"
      unfolding m(1) by (rule find_last_spec) (use k(1) m(2) a(2) in \<open>auto simp: region_ok_def\<close>)
    let ?rs = "take ?i (regs C) @ (regs C @ [z]) ! ?i # drop ?i (regs C) @ zs"
    have u: "move_up ?i (length (regs C)) (mmap C) = Inr ?rs" unfolding m(1) by (rule move_up_insert [OF i refl])
    have g: "aget (mmap C) (length (regs C)) = Inr z" by (simp add: m(1) aget_def nth_append)
    have len: "length ?rs = mmap_num C + 1" using i m(4) a(2) by simp
    have e: "?rs ! mmap_num C \<in> set zs"
    proof -
      have "?rs = (take ?i (regs C) @ (regs C @ [z]) ! ?i # drop ?i (regs C)) @ zs" by simp
      moreover have "length (take ?i (regs C) @ (regs C @ [z]) ! ?i # drop ?i (regs C)) = Suc (length (regs C))"
        using i by simp
      ultimately have "?rs ! mmap_num C = zs ! (mmap_num C - Suc (length (regs C)))"
        using a(2) by (metis (no_types, lifting) Suc_leI leD nth_append)
      then show ?thesis using m(4) a(2) by simp
    qed
    have z: "aget ?rs (mmap_num C) = Inr (?rs ! mmap_num C)" "rsize (?rs ! mmap_num C) = 0"
      using len e m(3) by (simp_all add: aget_def)
    have put: "aput ?rs ?i mm = Inr (takeWhile (goes_past mm) (regs C) @ mm # dropWhile (goes_past mm) (regs C) @ zs)"
    proof -
      have "?rs = takeWhile (goes_past mm) (regs C) @ (regs C @ [z]) ! ?i # dropWhile (goes_past mm) (regs C) @ zs"
        by (simp flip: takeWhile_eq_take dropWhile_eq_drop)
      then show ?thesis by (simp only: aput_def list_update_length length_append length_Cons) simp
    qed
    have zs: "drop (Suc (length (regs C))) (mmap C) = zs" by (simp add: m(1))
    show ?thesis
      using True c assms(2,3) p l u g m(2) z put zs
      by (simp add: mmap_add_region_ctx_def with_region_def del: append_assoc)
  qed
qed

definition limits_ok :: "xlat_ctx \<Rightarrow> bool" where
  "limits_ok C \<longleftrightarrow> max_va C \<le> va_max_address C \<and> max_pa C \<le> pa_max_address C"

lemma raise_max_simps [simp]:
  "mmap (raise_max mm e C) = mmap C" "mmap_num (raise_max mm e C) = mmap_num C"
  "va_max_address (raise_max mm e C) = va_max_address C" "pa_max_address (raise_max mm e C) = pa_max_address C"
  "tables (raise_max mm e C) = tables C" "tables_at (raise_max mm e C) = tables_at C"
  "tables_num (raise_max mm e C) = tables_num C" "tables_mapped_regions (raise_max mm e C) = tables_mapped_regions C"
  "next_table (raise_max mm e C) = next_table C" "base_table (raise_max mm e C) = base_table C"
  "base_table_entries (raise_max mm e C) = base_table_entries C" "base_level (raise_max mm e C) = base_level C"
  "initialized (raise_max mm e C) = initialized C" "xlat_regime (raise_max mm e C) = xlat_regime C"
  "tlbi (raise_max mm e C) = tlbi C"
  by (simp_all add: raise_max_def Let_def)

lemma regs_raise_max [simp]: "regs (raise_max mm e C) = regs C"
  by (simp add: regs_def)

lemma mmap_ok_cong:
  assumes "mmap C' = mmap C" "mmap_num C' = mmap_num C" "va_max_address C' = va_max_address C" "pa_max_address C' = pa_max_address C"
  shows "mmap_ok C' = mmap_ok C" "regs C' = regs C" "region_ok C' r = region_ok C r"
  using assms by (simp_all add: mmap_ok_def regs_def region_ok_def)

lemma raise_max_limits:
  assumes "limits_ok C" "region_ok C mm"
  shows "limits_ok (raise_max mm (region_end mm) C)"
proof -
  have "region_end mm \<le> va_max_address C" "region_end_pa mm \<le> pa_max_address C"
    using region_ok_ends [OF assms(2)] assms(2) by (auto simp: region_ok_def word_le_nat_alt)
  then show ?thesis using assms(1) by (simp add: limits_ok_def raise_max_def Let_def)
qed

text \<open>What adding regions leaves alone.\<close>

definition same_tables :: "xlat_ctx \<Rightarrow> xlat_ctx \<Rightarrow> bool" where
  "same_tables C C' \<longleftrightarrow> (\<exists>m a b. C' = C\<lparr>mmap := m, max_pa := a, max_va := b\<rparr>)"

lemma same_tables_fields:
  assumes "same_tables C C'"
  shows "initialized C' = initialized C" "tables C' = tables C" "tables_at C' = tables_at C" "tables_num C' = tables_num C"
    "tables_mapped_regions C' = tables_mapped_regions C" "next_table C' = next_table C" "base_table C' = base_table C"
    "base_table_entries C' = base_table_entries C" "base_level C' = base_level C" "xlat_regime C' = xlat_regime C"
    "va_max_address C' = va_max_address C" "pa_max_address C' = pa_max_address C" "mmap_num C' = mmap_num C" "tlbi C' = tlbi C"
  using assms by (auto simp: same_tables_def)

lemma same_tables_refl [simp]: "same_tables C C"
  unfolding same_tables_def by (rule exI [of _ "mmap C"], rule exI [of _ "max_pa C"], rule exI [of _ "max_va C"]) simp

lemma same_tables_trans: "same_tables C C1 \<Longrightarrow> same_tables C1 C' \<Longrightarrow> same_tables C C'"
  unfolding same_tables_def by (elim exE) (simp, blast)

lemma raise_max_eq: "\<exists>a b. raise_max mm e C = C\<lparr>max_pa := a, max_va := b\<rparr>"
proof -
  have "raise_max mm e C = C\<lparr>max_pa := max_pa (raise_max mm e C), max_va := max_va (raise_max mm e C)\<rparr>"
    by (simp add: raise_max_def Let_def)
  then show ?thesis by blast
qed

lemma same_tables_added: "same_tables C (raise_max mm e (with_region mm C))"
  using raise_max_eq [of mm e "with_region mm C"] by (force simp: same_tables_def with_region_def)

lemma add_region_keeps:
  assumes "mmap_ok C" "limits_ok C" "\<not> initialized C" "mmap_add_region_ctx E mm C = Inr C'"
  shows "mmap_ok C'" "limits_ok C'" "set (regs C') = (if rsize mm = 0 then {} else {mm}) \<union> set (regs C)" "same_tables C C'"
proof -
  have "mmap_ok C' \<and> limits_ok C' \<and> set (regs C') = (if rsize mm = 0 then {} else {mm}) \<union> set (regs C) \<and> same_tables C C'"
  proof (cases "rsize mm = 0")
    case True
    then show ?thesis using assms by (simp add: mmap_add_region_ctx_def)
  next
    case False
    note e = add_region_eq [OF assms(1,3) False, of E]
    have a: "acceptable E C mm" "C' = raise_max mm (region_end mm) (with_region mm C)"
      using assms(4) e by (auto split: if_splits)
    note w = with_region_ok [OF assms(1) a(1)]
    have "region_ok (with_region mm C) mm" using a(1) by (simp add: acceptable_def region_ok_def with_region_def)
    moreover have "limits_ok (with_region mm C)" using assms(2) by (simp add: limits_ok_def with_region_def)
    ultimately have "limits_ok C'" unfolding a(2) by (rule raise_max_limits [rotated])
    then show ?thesis
      using False w a(2) mmap_ok_cong(1) [of C' "with_region mm C"] by (simp add: same_tables_added)
  qed
  then show "mmap_ok C'" "limits_ok C'" "set (regs C') = (if rsize mm = 0 then {} else {mm}) \<union> set (regs C)" "same_tables C C'"
    by blast+
qed

text \<open>C8: adding a region to a well-formed array of regions either keeps it well-formed, with exactly the new region more, or
  fails an assertion. Well-formed arrays hold whole pages within the address spaces, nested or disjoint, inner
  regions before the regions around them, and end with an empty element. The assertion fails exactly for
  regions that do not fit: misaligned, of a wrong granularity, outside the address spaces, without room in the array,
  or overlapping another region in a way that is not allowed.\<close>

theorem mmap_add_region_keeps_order:
  assumes "mmap_ok C" "\<not> initialized C" "rsize mm \<noteq> 0"
  shows "case mmap_add_region_ctx E mm C of
      Inl e \<Rightarrow> e = AssertFail \<and> \<not> acceptable E C mm
    | Inr C' \<Rightarrow> acceptable E C mm \<and> mmap_ok C' \<and> set (regs C') = insert mm (set (regs C))
        \<and> length (regs C') = Suc (length (regs C)) \<and> same_tables C C'"
proof (cases "acceptable E C mm")
  case False
  then show ?thesis using add_region_eq [OF assms, of E] by simp
next
  case True
  let ?C = "raise_max mm (region_end mm) (with_region mm C)"
  note w = with_region_ok [OF assms(1) True]
  have "length (regs (with_region mm C)) = Suc (length (regs C))"
  proof -
    have "mm \<notin> set (regs C)" using True by (auto simp: acceptable_def compatible_def)
    moreover have "distinct (regs D)" if "mmap_ok D" for D
      using that by (simp add: mmap_ok_def sorted_wrt_iff_nth_less distinct_conv_nth)
        (metis comes_before_def linorder_neqE_nat less_irrefl linorder_not_less nth_mem region_ok_ends(3))
    ultimately show ?thesis using w assms(1) by (metis card_insert_disjoint distinct_card finite_set)
  qed
  then show ?thesis
    using True add_region_eq [OF assms, of E] w mmap_ok_cong(1) [of ?C "with_region mm C"] by (simp add: same_tables_added)
qed

lemma mmap_add_ctx_keeps:
  assumes "mmap_ok C" "limits_ok C" "\<not> initialized C" "mmap_add_ctx E mms C = Inr C'"
  shows "mmap_ok C' \<and> limits_ok C' \<and> same_tables C C'
    \<and> set (regs C') = {mm \<in> set (takeWhile (\<lambda>mm. granularity mm \<noteq> 0) mms). rsize mm \<noteq> 0} \<union> set (regs C)"
  using assms
proof (induction mms arbitrary: C)
  case Nil
  then show ?case by simp
next
  case (Cons mm mms)
  show ?case
  proof (cases "granularity mm = 0")
    case True
    then show ?thesis using Cons.prems by simp
  next
    case False
    then obtain C1 where 1: "mmap_add_region_ctx E mm C = Inr C1" "mmap_add_ctx E mms C1 = Inr C'"
      using Cons.prems(4) by (auto simp: andthen_eq_Inr_iff)
    note k = add_region_keeps [OF Cons.prems(1-3) 1(1)]
    have "\<not> initialized C1" using same_tables_fields(1) [OF k(4)] Cons.prems(3) by simp
    from Cons.IH [OF k(1,2) this 1(2)] show ?thesis using k(3) same_tables_trans [OF k(4)] False by auto
  qed
qed

section \<open>A registered context\<close>

lemma registered_mmap_ok:
  assumes "0 < n" "0 < vs" "vs \<le> push_bit 48 1" "0 < ps" "ps \<le> push_bit 48 1"
  shows "mmap_ok (register_xlat_context n k vs ps a b)" "limits_ok (register_xlat_context n k vs ps a b)"
    "regs (register_xlat_context n k vs ps a b) = []" "\<not> initialized (register_xlat_context n k vs ps a b)"
proof -
  have u: "unat (x - 1) < 2 ^ 48" if "0 < x" "x \<le> push_bit 48 1" for x :: u64
  proof -
    have "unat x \<le> unat (push_bit 48 1 :: u64)" using that(2) by (simp add: word_le_nat_alt)
    moreover have "0 < unat x" "unat (x - 1) = unat x - 1"
      using that(1) unat_minus_one [of x] by (simp_all add: word_neq_0_conv unat_gt_0)
    ultimately show ?thesis by simp
  qed
  show r: "regs (register_xlat_context n k vs ps a b) = []"
    by (simp add: regs_def register_xlat_context_def takeWhile_eq_Nil_iff)
  show "mmap_ok (register_xlat_context n k vs ps a b)"
    unfolding mmap_ok_def r using assms u by (simp add: register_xlat_context_def)
  show "limits_ok (register_xlat_context n k vs ps a b)" by (simp add: limits_ok_def register_xlat_context_def)
  show "\<not> initialized (register_xlat_context n k vs ps a b)" by (simp add: register_xlat_context_def)
qed

definition demo_ctx :: xlat_ctx where
  "demo_ctx = register_xlat_context 3 4 0x100000000 0x100000000 0x88000000 0x88010000"

definition demo_xenv :: xlat_env where
  "demo_xenv = \<lparr>PLAT_XLAT_TABLES_DYNAMIC = True, CurrentEl = 8, hcr_el2 = 0, sctlr_el1 = 0, sctlr_el2 = 0, sctlr_el3 = 0,
     id_aa64pfr1_el1 = 0, id_aa64mmfr0_el1 = 5, id_aa64mmfr2_el1 = 0\<rparr>"

definition demo_inner :: mmap_region where "demo_inner = map_region 0x88001000 0x88001000 0x1000 0x2A"
definition demo_outer :: mmap_region where "demo_outer = map_region 0x88000000 0x88000000 0x200000 0x2"

lemmas demo_xlat_defs = demo_ctx_def register_xlat_context_def demo_inner_def demo_outer_def map_region_def

lemma demo_ctx_ok: "mmap_ok demo_ctx" "limits_ok demo_ctx" "regs demo_ctx = []" "\<not> initialized demo_ctx"
  unfolding demo_ctx_def by (rule registered_mmap_ok; simp)+

lemma demo_outer_acceptable: "acceptable E demo_ctx demo_outer"
proof -
  have "region_ok demo_ctx demo_outer"
    by (simp add: region_ok_def ival_defs demo_outer_def map_region_def) (simp add: demo_ctx_def register_xlat_context_def)
  then show ?thesis by (simp add: acceptable_def demo_ctx_ok) (simp add: demo_ctx_def register_xlat_context_def)
qed

theorem mmap_add_region_keeps_order_witness:
  "\<exists>C'. mmap_add_region_ctx demo_xenv demo_outer demo_ctx = Inr C' \<and> mmap_ok C' \<and> set (regs C') = {demo_outer}"
proof -
  have "rsize demo_outer \<noteq> 0" by (simp add: demo_outer_def map_region_def)
  from mmap_add_region_keeps_order [OF demo_ctx_ok(1,4) this, of demo_xenv] show ?thesis
    using demo_outer_acceptable [of demo_xenv] demo_ctx_ok(3)
    by (cases "mmap_add_region_ctx demo_xenv demo_outer demo_ctx") auto
qed

end
