(* ===== verification/Tftf_Xlat_Tree.thy ===== *)
theory Tftf_Xlat_Tree
  imports Tftf_Xlat_Regions
begin

text \<open>
  Translation tables as a tree. The invariant names the place of every table in use: its level and the first
  address it describes. From it follows that the tables form a tree and that at most one block or page descriptor
  describes an address. The lemmas say what writing a descriptor and linking a new table do to it.
\<close>

section \<open>Blocks\<close>

text \<open>The size of what an entry of a table of the given level describes.\<close>

definition bs :: "nat \<Rightarrow> nat" where
  "bs l = 2 ^ (12 + 9 * (3 - l))"

lemma bs_pos [simp]: "0 < bs l" by (simp add: bs_def)

lemma bs_Suc: "l < 3 \<Longrightarrow> bs l = 512 * bs (Suc l)"
proof -
  assume "l < 3"
  then have "12 + 9 * (3 - l) = 9 + (12 + 9 * (3 - Suc l))" by simp
  then have "bs l = 2 ^ 9 * 2 ^ (12 + 9 * (3 - Suc l))" unfolding bs_def power_add [symmetric] by (rule arg_cong)
  then show ?thesis by (simp add: bs_def)
qed

lemma bs_3: "bs 3 = 4096" by (simp add: bs_def)

lemma page_dvd_bs: "4096 dvd bs l"
proof -
  have "bs l = 2 ^ 12 * 2 ^ (9 * (3 - l))" unfolding bs_def by (rule power_add)
  then show ?thesis by simp
qed

lemma bs_mono: "k \<le> l \<Longrightarrow> bs l dvd bs k"
  unfolding bs_def by (rule le_imp_power_dvd) simp

lemma bs_le: "bs l \<le> 2 ^ 39"
proof -
  have "12 + 9 * (3 - l) \<le> 39" by simp
  then show ?thesis unfolding bs_def by (rule power_increasing) simp
qed

lemma shift_less: "12 + 9 * (3 - l) < (64 :: nat)" by simp

lemma unat_block_size: "unat (xlat_block_size l) = bs l"
proof -
  have "xlat_block_size l = 2 ^ (12 + 9 * (3 - l))"
    by (simp add: xlat_block_size_def xlat_addr_shift_def push_bit_eq_mult mult.commute)
  then show ?thesis using unat_exp_word [of "12 + 9 * (3 - l)", where 'a = 64] shift_less [of l] by (simp add: bs_def)
qed

lemma block_mask_mask: "xlat_block_mask l = mask (12 + 9 * (3 - l))"
  by (simp add: xlat_block_mask_def xlat_block_size_def xlat_addr_shift_def push_bit_eq_mult mask_eq_exp_minus_1 mult.commute)

lemma unat_take_bit: "unat (take_bit n (x :: u64)) = unat x mod 2 ^ n"
  by (metis take_bit_eq_mod unsigned_take_bit_eq)

lemma and_block_mask: "x AND xlat_block_mask l = 0 \<longleftrightarrow> bs l dvd unat x"
proof -
  have "x AND xlat_block_mask l = take_bit (12 + 9 * (3 - l)) x"
    by (simp only: block_mask_mask take_bit_eq_mask)
  then show ?thesis
    using unat_take_bit [of "12 + 9 * (3 - l)" x] by (simp add: bs_def flip: unat_eq_zero mod_eq_0_iff_dvd)
qed

lemma unat_drop_bit: "unat (drop_bit n (x :: u64)) = unat x div 2 ^ n"
proof -
  have "take_bit 64 (unat x) = unat x" using unat_less_2p [of x] by (simp add: take_bit_nat_eq_self)
  then show ?thesis unfolding unsigned_drop_bit_eq by (simp add: drop_bit_eq_div)
qed

lemma unat_and_not_mask: "unat (x AND NOT (xlat_block_mask l)) = unat x div bs l * bs l"
proof -
  let ?n = "12 + 9 * (3 - l)"
  have "x AND NOT (xlat_block_mask l) = push_bit ?n (drop_bit ?n x)"
    unfolding block_mask_mask by (rule bit_eqI) (auto simp: bit_simps)
  moreover have "unat (push_bit ?n (drop_bit ?n x)) = take_bit 64 (push_bit ?n (unat x div 2 ^ ?n))"
    by (simp only: unsigned_push_bit_eq unat_drop_bit) simp
  moreover have "push_bit ?n (unat x div 2 ^ ?n) < 2 ^ 64"
  proof -
    have "unat x div 2 ^ ?n * 2 ^ ?n \<le> unat x" by (rule div_times_less_eq_dividend)
    moreover have "unat x < 2 ^ 64" using unat_less_2p [of x] by simp
    ultimately show ?thesis unfolding push_bit_eq_mult by (rule le_less_trans)
  qed
  ultimately show ?thesis by (simp add: take_bit_nat_eq_self push_bit_eq_mult bs_def)
qed

lemma unat_drop_shift: "unat (drop_bit (xlat_addr_shift l) (x :: u64)) = unat x div bs l"
  unfolding unat_drop_bit xlat_addr_shift_def bs_def by (simp add: mult.commute)

lemma va_to_index:
  assumes "unat base \<le> unat va" "(unat va - unat base) div bs l < 2 ^ 32"
  shows "xlat_tables_va_to_index base va l = (unat va - unat base) div bs l"
proof -
  have s: "unat (va - base) = unat va - unat base" using assms(1) by (simp add: unat_sub_le word_le_nat_alt)
  have "unat (ucast (drop_bit (xlat_addr_shift l) (va - base)) :: u32) = unat (drop_bit (xlat_addr_shift l) (va - base)) mod 2 ^ 32"
    by (simp add: unsigned_ucast_eq take_bit_eq_mod)
  also have "\<dots> = (unat va - unat base) div bs l" unfolding unat_drop_shift s using assms(2) by simp
  finally show ?thesis by (simp add: xlat_tables_va_to_index_def)
qed

section \<open>Descriptors\<close>

definition ADDR :: u64 where "ADDR = TABLE_ADDR_MASK"

text \<open>The attributes \<open>desc_attrs\<close> computes for a region whose memory type is known.\<close>

definition attrs_of :: "xlat_env \<Rightarrow> xlat_ctx \<Rightarrow> u32 \<Rightarrow> u64" where
  "attrs_of E C a = (case desc_attrs E C a of Inr d \<Rightarrow> d | Inl _ \<Rightarrow> 0)"

definition attr_ok :: "u32 \<Rightarrow> bool" where
  "attr_ok a \<longleftrightarrow> a AND MT_TYPE_MASK \<in> {MT_DEVICE, MT_NON_CACHEABLE, MT_MEMORY}"

definition regime_ok :: "xlat_ctx \<Rightarrow> bool" where
  "regime_ok C \<longleftrightarrow> xlat_regime C \<in> {EL1_EL0_REGIME, EL2_REGIME, EL3_REGIME}"

lemma upper_attrs_values: "upper_attrs 4 = 0x40000000000000" "upper_attrs 2 = 0x20000000000000"
  by (simp_all add: upper_attrs_def)

lemma lower_attrs_values:
  "lower_attrs 0x100 = 0x400" "lower_attrs 8 = 0x20" "lower_attrs 0 = 0" "lower_attrs 0x20 = 0x80" "lower_attrs 0x10 = 0x40"
  "lower_attrs (1 OR 0x80) = 0x204" "lower_attrs (0 OR 0xc0) = 0x300" "lower_attrs (2 OR 0x80) = 0x208"
  by (simp_all add: lower_attrs_def)

lemma or_and_eq_0: "(x OR y) AND m = 0 \<longleftrightarrow> x AND m = 0 \<and> y AND m = (0 :: u64)"
  by (simp add: bit_eq_iff bit_simps) blast

lemma xn_desc_ok:
  assumes "regime_ok C"
  obtains xn where "xlat_arch_regime_get_xn_desc E (xlat_regime C) = Inr xn" "xn AND (ADDR OR 3) = 0"
proof -
  have "\<exists>xn. xlat_arch_regime_get_xn_desc E (xlat_regime C) = Inr xn \<and> xn AND (ADDR OR 3) = 0"
    using assms
    by (auto simp: regime_ok_def xlat_arch_regime_get_xn_desc_def xlat_regime_is_dual_def upper_attrs_values or_and_eq_0 ADDR_def)
  then show thesis using that by blast
qed

lemma desc_attrs_ok:
  assumes "regime_ok C" "attr_ok a"
  shows "desc_attrs E C a = Inr (attrs_of E C a)" "attrs_of E C a AND (ADDR OR 3) = 0"
proof -
  obtain xn where xn: "xlat_arch_regime_get_xn_desc E (xlat_regime C) = Inr xn" "xn AND (ADDR OR 3) = 0"
    by (rule xn_desc_ok [OF assms(1)])
  define M where "M = ADDR OR 3"
  have v: "(0x400 :: u64) AND M = 0" "(0x20 :: u64) AND M = 0" "(0x80 :: u64) AND M = 0" "(0x40 :: u64) AND M = 0" "(0x204 :: u64) AND M = 0"
    "(0x300 :: u64) AND M = 0" "(0x208 :: u64) AND M = 0" "(GP :: u64) AND M = 0"
    by (simp_all add: M_def ADDR_def)
  define d1 where "d1 = (lower_attrs ACCESS_FLAG OR (if a AND MT_NS \<noteq> 0 then lower_attrs NS else 0))
    OR (if a AND MT_RW \<noteq> 0 then lower_attrs AP_RW else lower_attrs AP_RO)"
  have d1: "d1 AND M = 0" by (simp add: d1_def lower_attrs_values or_and_eq_0 v)
  obtain d2 where d2: "(if xlat_regime C = EL1_EL0_REGIME
        then Inr (d1 OR (if a AND MT_USER \<noteq> 0 then lower_attrs AP_ACCESS_UNPRIVILEGED else lower_attrs AP_NO_ACCESS_UNPRIVILEGED))
        else andthen (assert_c (xlat_regime C = EL2_REGIME \<or> xlat_regime C = EL3_REGIME)) (\<lambda>_.
             Inr (d1 OR lower_attrs AP_ONE_VA_RANGE_RES1))) = Inr d2" "d2 AND M = 0"
  proof (cases "xlat_regime C = EL1_EL0_REGIME")
    case True
    then show ?thesis using that d1 by (simp add: lower_attrs_values or_and_eq_0 v)
  next
    case False
    then have "xlat_regime C = EL2_REGIME \<or> xlat_regime C = EL3_REGIME" using assms(1) by (auto simp: regime_ok_def)
    then show ?thesis using that False d1 by (simp add: lower_attrs_values or_and_eq_0 v)
  qed
  obtain d3 where d3: "(if a AND MT_RW \<noteq> 0 \<or> a AND MT_EXECUTE_NEVER \<noteq> 0
        then andthen (xlat_arch_regime_get_xn_desc E (xlat_regime C)) (\<lambda>xn. Inr (d2 OR xn)) else Inr d2) = Inr d3" "d3 AND M = 0"
  proof (cases "a AND MT_RW \<noteq> 0 \<or> a AND MT_EXECUTE_NEVER \<noteq> 0")
    case True
    then show ?thesis using that [of "d2 OR xn"] d2(2) xn by (auto simp: or_and_eq_0 M_def)
  next
    case False
    then show ?thesis using that [of d2] d2(2) by auto
  qed
  have e: "desc_attrs E C a = (if a AND MT_TYPE_MASK = MT_DEVICE then Inr (d2 OR 0x204 OR xn)
      else if a AND MT_TYPE_MASK = MT_MEMORY
      then Inr (if is_armv8_5_bti_present E \<and> a AND (MT_TYPE_MASK OR MT_RW OR MT_EXECUTE_NEVER) = MT_CODE then (d3 OR 0x300) OR GP else d3 OR 0x300)
      else andthen (assert_c (a AND MT_TYPE_MASK = MT_NON_CACHEABLE)) (\<lambda>_. Inr (d3 OR 0x208)))"
    unfolding desc_attrs_def Let_def unfolding d1_def [symmetric] unfolding d2(1) unfolding andthen_Inr unfolding d3(1)
    unfolding andthen_Inr xn(1) lower_attrs_values by (rule refl)
  have "\<exists>d. desc_attrs E C a = Inr d \<and> d AND M = 0"
    using assms(2) d2(2) d3(2) xn(2) unfolding e attr_ok_def M_def [symmetric]
    by (elim insertE emptyE) (simp_all add: or_and_eq_0 v)
  then show "desc_attrs E C a = Inr (attrs_of E C a)" "attrs_of E C a AND (ADDR OR 3) = 0"
    by (auto simp: attrs_of_def M_def)
qed

lemma ADDR_mask: "ADDR = mask 48 AND NOT (mask 12)"
  by (simp add: ADDR_def mask_eq_exp_minus_1)

lemma page_addr_bits:
  fixes pa :: u64
  assumes "4096 dvd unat pa" "unat pa < 2 ^ 48"
  shows "pa AND ADDR = pa" "pa AND 3 = 0" "pa AND NOT (ADDR OR 3) = 0"
proof -
  have "unat (take_bit 48 pa) = unat pa" using assms(2) by (simp add: unat_take_bit)
  then have h: "take_bit 48 pa = pa" by (simp add: word_unat_eq_iff)
  have "unat (take_bit 12 pa) = 0" using assms(1) unat_take_bit [of 12 pa] by simp
  then have l: "take_bit 12 pa = 0" by (simp add: unat_eq_zero)
  have b: "\<not> bit pa i" if "i < 12" for i
  proof
    assume "bit pa i"
    then have "bit (take_bit 12 pa) i" using that by (simp add: bit_take_bit_iff)
    then show False using l by simp
  qed
  have c: "i < 48" if "bit pa i" for i
  proof -
    have "bit (take_bit 48 pa) i" using that h by simp
    then show ?thesis by (simp add: bit_take_bit_iff)
  qed
  show a: "pa AND ADDR = pa"
  proof -
    have "bit (pa AND ADDR) n = bit pa n" if "n < 64" for n
      unfolding ADDR_mask using b [of n] c [of n] that by (cases "n < 12") (auto simp: bit_simps)
    then show ?thesis by (intro bit_eqI) simp
  qed
  have m: "(3 :: u64) = mask 2" by (simp add: mask_eq_exp_minus_1)
  have "\<not> bit (pa AND mask 2) n" for n using b [of n] by (auto simp: bit_simps)
  then show "pa AND 3 = 0" unfolding m by (intro bit_eqI) simp
  show "pa AND NOT (ADDR OR 3) = 0"
    by (rule bit_eqI) (use a in \<open>auto simp: bit_simps bit_eq_iff\<close>)
qed

lemma or_and_distrib: "(x OR y) AND m = (x AND m) OR (y AND m :: u64)"
  by (rule bit_eqI) (auto simp: bit_simps)

lemma desc_parts:
  fixes pa ty at :: u64
  assumes "4096 dvd unat pa" "unat pa < 2 ^ 48" "ty = 1 \<or> ty = 3" "at AND (ADDR OR 3) = 0"
  shows "(pa OR ty OR at) AND 3 = ty" "(pa OR ty OR at) AND ADDR = pa" "(pa OR ty OR at) AND NOT (ADDR OR 3) = at"
proof -
  note p = page_addr_bits [OF assms(1,2)]
  have t: "ty AND 3 = ty" "ty AND ADDR = 0" "ty AND NOT (ADDR OR 3) = 0" using assms(3) by (auto simp: ADDR_def)
  have z: "\<not> (bit at i \<and> (bit ADDR i \<or> bit (3 :: u64) i))" for i
    using arg_cong [OF assms(4), of "\<lambda>x. bit x i"] by (simp add: bit_simps)
  have a: "at AND 3 = 0" "at AND ADDR = 0" "at AND NOT (ADDR OR 3) = at"
  proof -
    show "at AND 3 = 0" by (rule bit_eqI) (use z in \<open>auto simp: bit_and_iff\<close>)
    show "at AND ADDR = 0" by (rule bit_eqI) (use z in \<open>auto simp: bit_and_iff\<close>)
    define M where "M = ADDR OR 3"
    have "\<not> (bit at i \<and> bit M i)" for i using arg_cong [OF assms(4) [folded M_def], of "\<lambda>x. bit x i"] by (simp add: bit_and_iff)
    then show "at AND NOT (ADDR OR 3) = at" unfolding M_def [symmetric] by (intro bit_eqI) (auto simp: bit_and_iff bit_not_iff)
  qed
  show "(pa OR ty OR at) AND 3 = ty" "(pa OR ty OR at) AND ADDR = pa" "(pa OR ty OR at) AND NOT (ADDR OR 3) = at"
    unfolding or_and_distrib p t a by simp_all
qed

text \<open>Where a block or page descriptor maps an address, and with which attributes.\<close>

definition xl_out :: "u64 \<Rightarrow> nat \<Rightarrow> nat \<Rightarrow> nat \<times> u64" where
  "xl_out d l va = (unat (d AND ADDR) + va mod bs l, d AND NOT (ADDR OR 3))"

definition leaf_type :: "nat \<Rightarrow> u64" where
  "leaf_type l = (if l = 3 then PAGE_DESC else BLOCK_DESC)"

lemma xlat_desc_ok:
  assumes "regime_ok C" "attr_ok a" "bs l dvd unat pa" "unat pa < 2 ^ 48"
  obtains d where "xlat_desc E C a pa l = Inr d" "d AND 3 = leaf_type l"
    "\<And>va. xl_out d l va = (unat pa + va mod bs l, attrs_of E C a)"
proof -
  let ?d = "pa OR leaf_type l OR attrs_of E C a"
  note a = desc_attrs_ok [OF assms(1,2), of E]
  have p: "4096 dvd unat pa" using page_dvd_bs assms(3) by (rule dvd_trans)
  have "leaf_type l = 1 \<or> leaf_type l = 3" by (simp add: leaf_type_def)
  note d = desc_parts [OF p assms(4) this a(2)]
  have "xlat_desc E C a pa l = Inr ?d"
    using assms(3) by (simp add: xlat_desc_def and_block_mask a(1) leaf_type_def)
  then show thesis using that [of ?d] d by (simp add: xl_out_def)
qed

section \<open>The tables of a context\<close>

fun tbl :: "xlat_ctx \<Rightarrow> tptr \<Rightarrow> u64 list" where
  "tbl C Base = base_table C"
| "tbl C (Sub n) = tables C ! n"

fun nent :: "xlat_ctx \<Rightarrow> tptr \<Rightarrow> nat" where
  "nent C Base = base_table_entries C"
| "nent C (Sub n) = 512"

fun tvalid :: "xlat_ctx \<Rightarrow> tptr \<Rightarrow> bool" where
  "tvalid C Base = True"
| "tvalid C (Sub n) \<longleftrightarrow> n < tables_num C"

fun put :: "tptr \<Rightarrow> nat \<Rightarrow> u64 \<Rightarrow> xlat_ctx \<Rightarrow> xlat_ctx" where
  "put Base i d C = C\<lparr>base_table := (base_table C)[i := d]\<rparr>"
| "put (Sub n) i d C = C\<lparr>tables := (tables C)[n := (tables C ! n)[i := d]]\<rparr>"

definition tabs_wf :: "xlat_env \<Rightarrow> xlat_ctx \<Rightarrow> bool" where
  "tabs_wf E C \<longleftrightarrow> length (tables C) = tables_num C \<and> (\<forall>t \<in> set (tables C). length t = 512)
     \<and> length (base_table C) = base_table_entries C
     \<and> (PLAT_XLAT_TABLES_DYNAMIC E \<longrightarrow> length (tables_mapped_regions C) = tables_num C \<and> (\<forall>c \<in> set (tables_mapped_regions C). 0 \<le> c))
     \<and> 4096 dvd unat (tables_at C) \<and> unat (tables_at C) + 4096 * tables_num C \<le> 2 ^ 48
     \<and> base_level C \<le> 3 \<and> base_table_entries C \<le> 512
     \<and> base_table_entries C * bs (base_level C) = unat (va_max_address C) + 1
     \<and> unat (va_max_address C) < 2 ^ 48 \<and> unat (pa_max_address C) < 2 ^ 48 \<and> regime_ok C"

lemma tbl_access:
  assumes "tabs_wf E C" "tvalid C t" "i < nent C t"
  shows "length (tbl C t) = nent C t" "tbl_get C t i = Inr (tbl C t ! i)" "tbl_put C t i d = Inr (put t i d C)"
proof -
  show l: "length (tbl C t) = nent C t"
    using assms(1,2) by (cases t) (auto simp: tabs_wf_def)
  show "tbl_get C t i = Inr (tbl C t ! i)" "tbl_put C t i d = Inr (put t i d C)"
    using assms l by (cases t; auto simp: tabs_wf_def)+
qed

lemma put_tbl:
  assumes "tabs_wf E C" "tvalid C t" "i < nent C t"
  shows "tbl (put t i d C) s = (if s = t then (tbl C t)[i := d] else tbl C s)"
  using assms by (cases t; cases s) (auto simp: tabs_wf_def)

lemma put_fields [simp]:
  "tables_num (put t i d C) = tables_num C" "tables_at (put t i d C) = tables_at C" "base_level (put t i d C) = base_level C"
  "base_table_entries (put t i d C) = base_table_entries C" "va_max_address (put t i d C) = va_max_address C"
  "pa_max_address (put t i d C) = pa_max_address C" "xlat_regime (put t i d C) = xlat_regime C"
  "tables_mapped_regions (put t i d C) = tables_mapped_regions C" "next_table (put t i d C) = next_table C"
  "mmap (put t i d C) = mmap C" "mmap_num (put t i d C) = mmap_num C" "max_va (put t i d C) = max_va C"
  "max_pa (put t i d C) = max_pa C" "initialized (put t i d C) = initialized C" "tlbi (put t i d C) = tlbi C"
  "nent (put t i d C) s = nent C s" "tvalid (put t i d C) s = tvalid C s" "table_addr (put t i d C) n = table_addr C n"
  "regime_ok (put t i d C) = regime_ok C"
  by (cases t; simp add: table_addr_def regime_ok_def; cases s; simp)+

lemma put_wf:
  assumes "tabs_wf E C" "tvalid C t" "i < nent C t"
  shows "tabs_wf E (put t i d C)"
proof (cases t)
  case Base
  then show ?thesis using assms by (simp add: tabs_wf_def regime_ok_def)
next
  case (Sub n)
  have "length t' = 512" if "t' \<in> set ((tables C)[n := (tables C ! n)[i := d]])" for t'
  proof -
    have "t' \<in> insert ((tables C ! n)[i := d]) (set (tables C))" using that set_update_subset_insert by fastforce
    then show ?thesis using assms Sub by (auto simp: tabs_wf_def)
  qed
  then show ?thesis using Sub assms by (simp add: tabs_wf_def regime_ok_def)
qed

lemma unat_of_nat64: "m < 2 ^ 64 \<Longrightarrow> unat (of_nat m :: u64) = m"
  by (simp add: unsigned_of_nat take_bit_nat_eq_self)

lemma table_addr_facts:
  assumes "tabs_wf E C" "n < tables_num C"
  shows "unat (table_addr C n) = unat (tables_at C) + 4096 * n" "(TABLE_DESC OR table_addr C n) AND 3 = 3"
    "(TABLE_DESC OR table_addr C n) AND TABLE_ADDR_MASK = table_addr C n" "subtable C (TABLE_DESC OR table_addr C n) = Inr (Sub n)"
proof -
  have b: "unat (tables_at C) + 4096 * tables_num C \<le> 2 ^ 48" "4096 dvd unat (tables_at C)" using assms(1) by (auto simp: tabs_wf_def)
  have u: "unat (table_addr C k) = unat (tables_at C) + 4096 * k" if "k < tables_num C" for k
  proof -
    have k: "4096 * k < 2 ^ 48" using that b(1) by simp
    then have "unat (of_nat (4096 * k) :: u64) = 4096 * k" by (intro unat_of_nat64) simp
    then show ?thesis unfolding table_addr_def using that b(1) by (subst unat_add_no_wrap) simp_all
  qed
  then show un: "unat (table_addr C n) = unat (tables_at C) + 4096 * n" using assms(2) by simp
  have al: "4096 dvd unat (table_addr C n)" "unat (table_addr C n) < 2 ^ 48" using un b assms(2) by simp_all
  note p = desc_parts [OF al, of 3 0]
  have e: "table_addr C n OR 3 OR 0 = TABLE_DESC OR table_addr C n" by (simp add: or.commute)
  show t: "(TABLE_DESC OR table_addr C n) AND 3 = 3" using p(1) unfolding e by simp
  show m: "(TABLE_DESC OR table_addr C n) AND TABLE_ADDR_MASK = table_addr C n" using p(2) unfolding e by (simp add: ADDR_def)
  have "find (\<lambda>k. table_addr C k = table_addr C n) [0..<tables_num C] = Some n"
  proof -
    have "k = n" if "k < tables_num C" "table_addr C k = table_addr C n" for k
      using that u assms(2) by (metis add_left_cancel mult_left_cancel zero_neq_numeral)
    then have "\<forall>k < n. table_addr C k \<noteq> table_addr C n" using assms(2) by (metis less_trans less_irrefl)
    then show ?thesis using assms(2) by (auto simp: find_Some_iff intro!: exI [of _ n])
  qed
  then show "subtable C (TABLE_DESC OR table_addr C n) = Inr (Sub n)" by (simp add: subtable_def m)
qed

section \<open>The tree of tables\<close>

lemma bs_pred: "0 < l \<Longrightarrow> l \<le> 3 \<Longrightarrow> 512 * bs l = bs (l - 1)"
  using bs_Suc [of "l - 1"] by simp

lemma bs_neq_0 [simp]: "bs l \<noteq> 0" using bs_pos [of l] by linarith

text \<open>The places of the tables in use: the level and the first address.\<close>

type_synonym places = "nat \<Rightarrow> (nat \<times> nat) option"

fun loc :: "xlat_ctx \<Rightarrow> places \<Rightarrow> tptr \<Rightarrow> (nat \<times> nat) option" where
  "loc C at Base = Some (base_level C, 0)"
| "loc C at (Sub n) = at n"

definition is_free :: "xlat_env \<Rightarrow> xlat_ctx \<Rightarrow> nat \<Rightarrow> bool" where
  "is_free E C n \<longleftrightarrow> (if PLAT_XLAT_TABLES_DYNAMIC E then tables_mapped_regions C ! n = 0 else next_table C \<le> n)"

definition vspace :: "xlat_ctx \<Rightarrow> nat" where
  "vspace C = base_table_entries C * bs (base_level C)"

definition entry_ok :: "xlat_ctx \<Rightarrow> places \<Rightarrow> nat \<Rightarrow> nat \<Rightarrow> u64 \<Rightarrow> bool" where
  "entry_ok C at l v d \<longleftrightarrow> d AND 3 = 0 \<or> d AND 3 = leaf_type l
     \<or> l < 3 \<and> (\<exists>n. n < tables_num C \<and> d = TABLE_DESC OR table_addr C n \<and> at n = Some (Suc l, v))"

definition place_ok :: "xlat_ctx \<Rightarrow> nat \<Rightarrow> nat \<times> nat \<Rightarrow> bool" where
  "place_ok C n = (\<lambda>(l, b). n < tables_num C \<and> base_level C < l \<and> l \<le> 3 \<and> bs (l - 1) dvd b \<and> b + bs (l - 1) \<le> vspace C)"

definition linked :: "xlat_ctx \<Rightarrow> places \<Rightarrow> nat \<Rightarrow> nat \<times> nat \<Rightarrow> bool" where
  "linked C at n = (\<lambda>(l, b). \<exists>t b' i. loc C at t = Some (l - 1, b') \<and> i < nent C t \<and> b = b' + i * bs (l - 1)
     \<and> tbl C t ! i = TABLE_DESC OR table_addr C n)"

text \<open>
  The invariant. A table of the set \<open>X\<close> may be in use although its count of regions is zero, as between the moment it is
  linked and the moment it is first used.
\<close>

definition xinv :: "xlat_env \<Rightarrow> xlat_ctx \<Rightarrow> places \<Rightarrow> nat set \<Rightarrow> bool" where
  "xinv E C at X \<longleftrightarrow> tabs_wf E C
     \<and> (\<forall>n p. at n = Some p \<longrightarrow> place_ok C n p \<and> linked C at n p)
     \<and> (\<forall>n m p. at n = Some p \<and> at m = Some p \<longrightarrow> n = m)
     \<and> (\<forall>t l b i. loc C at t = Some (l, b) \<and> i < nent C t \<longrightarrow> entry_ok C at l (b + i * bs l) (tbl C t ! i))
     \<and> (\<forall>n < tables_num C. at n = None \<longrightarrow> is_free E C n \<and> (\<forall>i < 512. tbl C (Sub n) ! i AND 3 = 0))
     \<and> (\<forall>n < tables_num C. is_free E C n \<longrightarrow> at n = None \<or> n \<in> X)"

lemma invD:
  assumes "xinv E C at X"
  shows "tabs_wf E C" "at n = Some p \<Longrightarrow> place_ok C n p" "at n = Some p \<Longrightarrow> linked C at n p"
    "at n = Some p \<Longrightarrow> at m = Some p \<Longrightarrow> n = m"
    "loc C at t = Some (l, b) \<Longrightarrow> i < nent C t \<Longrightarrow> entry_ok C at l (b + i * bs l) (tbl C t ! i)"
    "n < tables_num C \<Longrightarrow> at n = None \<Longrightarrow> is_free E C n" "n < tables_num C \<Longrightarrow> at n = None \<Longrightarrow> i < 512 \<Longrightarrow> tbl C (Sub n) ! i AND 3 = 0"
    "n < tables_num C \<Longrightarrow> is_free E C n \<Longrightarrow> n \<notin> X \<Longrightarrow> at n = None"
  using assms unfolding xinv_def by blast+

text \<open>Entry \<open>i\<close> of a table of level \<open>l\<close> describes an address.\<close>

definition describes :: "xlat_ctx \<Rightarrow> places \<Rightarrow> tptr \<Rightarrow> nat \<Rightarrow> nat \<Rightarrow> nat \<Rightarrow> bool" where
  "describes C at t l i va \<longleftrightarrow> (\<exists>b. loc C at t = Some (l, b) \<and> i < nent C t \<and> b + i * bs l \<le> va \<and> va < b + i * bs l + bs l)"

lemma loc_facts:
  assumes "xinv E C at X" "loc C at t = Some (l, b)"
  shows "tvalid C t" "base_level C \<le> l" "l \<le> 3" "bs l dvd b" "b + nent C t * bs l \<le> vspace C" "t \<noteq> Base \<Longrightarrow> bs (l - 1) dvd b"
    "t \<noteq> Base \<Longrightarrow> nent C t * bs l = bs (l - 1)" "t \<noteq> Base \<Longrightarrow> base_level C < l"
proof -
  have w: "base_level C \<le> 3" using invD(1) [OF assms(1)] by (simp add: tabs_wf_def)
  have s: "place_ok C n (l, b)" if "t = Sub n" for n using invD(2) [OF assms(1)] assms(2) that by simp
  have e: "512 * bs l = bs (l - 1)" if "t = Sub n" for n
    using bs_pred [of l] s [OF that] by (simp add: place_ok_def)
  show "tvalid C t" "base_level C \<le> l" "l \<le> 3"
    using assms(2) w s by (cases t; force simp: place_ok_def)+
  show "b + nent C t * bs l \<le> vspace C"
  proof (cases t)
    case Base
    then show ?thesis using assms(2) by (simp add: vspace_def)
  next
    case (Sub n)
    then show ?thesis using s e [OF Sub] by (simp add: place_ok_def)
  qed
  show d: "t \<noteq> Base \<Longrightarrow> bs (l - 1) dvd b" "t \<noteq> Base \<Longrightarrow> nent C t * bs l = bs (l - 1)" "t \<noteq> Base \<Longrightarrow> base_level C < l"
    using s e by (cases t; simp add: place_ok_def)+
  show "bs l dvd b"
  proof (cases t)
    case Base
    then show ?thesis using assms(2) by simp
  next
    case (Sub n)
    then show ?thesis using d(1) bs_mono [of "l - 1" l] by (auto intro: dvd_trans)
  qed
qed

lemma same_multiple:
  fixes b c m va :: nat
  assumes "m dvd b" "m dvd c" "b \<le> va" "va < b + m" "c \<le> va" "va < c + m"
  shows "b = c"
proof -
  have "va div m = b div m" "va div m = c div m"
    using assms by (auto simp: dvd_def div_nat_eqI)
  then show ?thesis using assms(1,2) by (metis dvd_div_mult_self)
qed

lemma describes_unique:
  assumes "xinv E C at X" "describes C at t l i va" "describes C at s l j va"
  shows "t = s" "i = j"
proof -
  obtain b c where t: "loc C at t = Some (l, b)" "i < nent C t" "b + i * bs l \<le> va" "va < b + i * bs l + bs l"
    and s: "loc C at s = Some (l, c)" "j < nent C s" "c + j * bs l \<le> va" "va < c + j * bs l + bs l"
    using assms(2,3) by (auto simp: describes_def)
  note T = loc_facts [OF assms(1) t(1)] and S = loc_facts [OF assms(1) s(1)]
  have up: "k * bs l + bs l \<le> nent C r * bs l" if "k < nent C r" for k r
    using mult_le_mono1 [of "Suc k" "nent C r" "bs l"] that by simp
  show ts: "t = s"
  proof (cases t)
    case Base
    then show ?thesis using t(1) s(1) S(8) by (cases s) auto
  next
    case (Sub n)
    then have sn: "s \<noteq> Base" using t(1) T(8) s(1) by (cases s) auto
    then obtain m where m: "s = Sub m" by (cases s) auto
    have "b = c"
      using T(6,7) S(6,7) Sub sn t(3,4) s(3,4) up [OF t(2)] up [OF s(2)]
      by (intro same_multiple [of "bs (l - 1)" b c va]) auto
    then show ?thesis using invD(4) [OF assms(1), of n "(l, b)" m] t(1) s(1) Sub m by simp
  qed
  then have "b = c" using t(1) s(1) by simp
  then have "i * bs l = j * bs l"
    using t(3,4) s(3,4) by (intro same_multiple [of "bs l" _ _ "va - b"]) auto
  then show "i = j" by simp
qed

lemma describes_parent:
  assumes "xinv E C at X" "describes C at (Sub n) l i va"
  obtains t j where "describes C at t (l - 1) j va" "tbl C t ! j = TABLE_DESC OR table_addr C n" "n < tables_num C" "base_level C < l"
proof -
  obtain b where b: "at n = Some (l, b)" "i < 512" "b + i * bs l \<le> va" "va < b + i * bs l + bs l"
    using assms(2) by (auto simp: describes_def)
  obtain t c j where t: "loc C at t = Some (l - 1, c)" "j < nent C t" "b = c + j * bs (l - 1)" "tbl C t ! j = TABLE_DESC OR table_addr C n"
    using invD(3) [OF assms(1) b(1)] by (auto simp: linked_def)
  note p = invD(2) [OF assms(1) b(1)]
  have "i * bs l + bs l \<le> 512 * bs l" using mult_le_mono1 [of "Suc i" 512 "bs l"] b(2) by simp
  moreover have "512 * bs l = bs (l - 1)" using bs_pred [of l] p by (simp add: place_ok_def)
  ultimately have "describes C at t (l - 1) j va" using t b by (auto simp: describes_def)
  then show thesis using that t(4) p by (simp add: place_ok_def)
qed

lemma describes_above:
  assumes "xinv E C at X"
  shows "describes C at t l i va \<Longrightarrow> base_level C \<le> k \<Longrightarrow> k < l \<Longrightarrow>
    \<exists>s j n. describes C at s k j va \<and> tbl C s ! j = TABLE_DESC OR table_addr C n \<and> n < tables_num C"
proof (induction "l - k" arbitrary: t l i)
  case 0
  then show ?case by simp
next
  case (Suc m)
  obtain n where t: "t = Sub n" using Suc.prems by (cases t) (auto simp: describes_def)
  obtain s j where s: "describes C at s (l - 1) j va" "tbl C s ! j = TABLE_DESC OR table_addr C n" "n < tables_num C"
    by (rule describes_parent [OF assms Suc.prems(1) [unfolded t]])
  show ?case
  proof (cases "k = l - 1")
    case True
    then show ?thesis using s by blast
  next
    case False
    then show ?thesis using Suc.hyps(1) [of "l - 1" s j] Suc.hyps(2) Suc.prems s(1) by auto
  qed
qed

text \<open>At most one entry that is not a table descriptor describes an address.\<close>

definition ends_walk :: "nat \<Rightarrow> u64 \<Rightarrow> bool" where
  "ends_walk l d \<longleftrightarrow> d AND 3 = 0 \<or> d AND 3 = leaf_type l"

lemma one_end:
  assumes i: "xinv E C at X" and t: "describes C at t l i va" "ends_walk l (tbl C t ! i)"
    and s: "describes C at s k j va" "ends_walk k (tbl C s ! j)"
  shows "l = k" "t = s" "i = j"
proof -
  have no: False if a: "describes C at t l i va" "describes C at s k j va" "ends_walk k (tbl C s ! j)" "k < l" for t l i s k j
  proof -
    have k: "base_level C \<le> k" using a(2) loc_facts(2) [OF i] by (auto simp: describes_def)
    obtain s' j' n where s': "describes C at s' k j' va" "tbl C s' ! j' = TABLE_DESC OR table_addr C n" "n < tables_num C"
      using describes_above [OF i a(1) k a(4)] by blast
    have "s' = s" "j' = j" using describes_unique [OF i s'(1) a(2)] by simp_all
    then have "tbl C s ! j AND 3 = 3" using s'(2,3) table_addr_facts(2) [OF invD(1) [OF i]] by simp
    moreover have "k < 3" using a(1,4) loc_facts(3) [OF i] by (fastforce simp: describes_def)
    ultimately show False using a(3) by (simp add: ends_walk_def leaf_type_def)
  qed
  show l: "l = k" using no [OF t(1) s] no [OF s(1) t] by (meson linorder_neqE_nat)
  show "t = s" "i = j" using describes_unique [OF i t(1), of s j] s(1) l by simp_all
qed

text \<open>The block and page descriptors of an address.\<close>

definition maps :: "xlat_ctx \<Rightarrow> places \<Rightarrow> nat \<Rightarrow> u64 \<Rightarrow> nat \<Rightarrow> bool" where
  "maps C at va d l \<longleftrightarrow> (\<exists>t i. describes C at t l i va \<and> tbl C t ! i = d \<and> d AND 3 = leaf_type l)"

definition covered :: "xlat_ctx \<Rightarrow> places \<Rightarrow> nat \<Rightarrow> bool" where
  "covered C at va \<longleftrightarrow> (\<exists>d l. maps C at va d l)"

lemma maps_unique:
  assumes "xinv E C at X" "maps C at va d l" "maps C at va e k"
  shows "d = e" "l = k"
proof -
  obtain t i s j where t: "describes C at t l i va" "tbl C t ! i = d" "d AND 3 = leaf_type l"
    and s: "describes C at s k j va" "tbl C s ! j = e" "e AND 3 = leaf_type k"
    using assms(2,3) by (auto simp: maps_def)
  show "d = e" "l = k" using one_end [OF assms(1) t(1) _ s(1)] t(2,3) s(2,3) by (auto simp: ends_walk_def)
qed

section \<open>Changing an entry\<close>

text \<open>What the mapping functions leave alone.\<close>

definition keeps_ctx :: "xlat_ctx \<Rightarrow> xlat_ctx \<Rightarrow> bool" where
  "keeps_ctx C C' \<longleftrightarrow> (\<exists>b t m n. C' = C\<lparr>base_table := b, tables := t, tables_mapped_regions := m, next_table := n\<rparr>)"

lemma keeps_ctx_fields:
  assumes "keeps_ctx C C'"
  shows "base_level C' = base_level C" "base_table_entries C' = base_table_entries C" "tables_num C' = tables_num C"
    "tables_at C' = tables_at C" "xlat_regime C' = xlat_regime C" "va_max_address C' = va_max_address C"
    "pa_max_address C' = pa_max_address C" "mmap C' = mmap C" "mmap_num C' = mmap_num C" "max_va C' = max_va C" "max_pa C' = max_pa C"
    "initialized C' = initialized C" "tlbi C' = tlbi C" "nent C' t = nent C t" "vspace C' = vspace C" "attrs_of E C' a = attrs_of E C a"
    "loc C' at t = loc C at t" "table_addr C' n = table_addr C n"
  using assms by (auto simp: keeps_ctx_def vspace_def attrs_of_def desc_attrs_def table_addr_def cong: if_cong; cases t; auto)+

lemma keeps_ctx_refl [simp]: "keeps_ctx C C"
  unfolding keeps_ctx_def
  by (rule exI [of _ "base_table C"], rule exI [of _ "tables C"], rule exI [of _ "tables_mapped_regions C"], rule exI [of _ "next_table C"]) simp

lemma keeps_ctx_trans: "keeps_ctx C D \<Longrightarrow> keeps_ctx D F \<Longrightarrow> keeps_ctx C F"
  unfolding keeps_ctx_def by (elim exE) (simp, blast)

lemma keeps_ctx_put [simp]: "keeps_ctx C (put t i d C)"
  unfolding keeps_ctx_def
  by (rule exI [of _ "base_table (put t i d C)"], rule exI [of _ "tables (put t i d C)"],
      rule exI [of _ "tables_mapped_regions C"], rule exI [of _ "next_table C"]) (cases t; simp)

lemma block_in_space:
  assumes "xinv E C at X" "loc C at t = Some (l, b)" "i < nent C t"
  shows "bs l dvd b + i * bs l" "b + i * bs l + bs l \<le> vspace C" "describes C at t l i va \<longleftrightarrow> b + i * bs l \<le> va \<and> va < b + i * bs l + bs l"
proof -
  note f = loc_facts [OF assms(1,2)]
  show "bs l dvd b + i * bs l" using f(4) by simp
  have "i * bs l + bs l \<le> nent C t * bs l" using mult_le_mono1 [of "Suc i" "nent C t" "bs l"] assms(3) by simp
  then show "b + i * bs l + bs l \<le> vspace C" using f(5) by linarith
  show "describes C at t l i va \<longleftrightarrow> b + i * bs l \<le> va \<and> va < b + i * bs l + bs l"
    using assms(2,3) by (auto simp: describes_def)
qed

text \<open>An entry that links a table is not one that ends a walk.\<close>

lemma link_not_end:
  assumes "xinv E C at X" "n < tables_num C" "l < 3"
  shows "\<not> ends_walk l (TABLE_DESC OR table_addr C n)"
  using table_addr_facts(2) [OF invD(1) [OF assms(1)] assms(2)] assms(3) by (auto simp: ends_walk_def leaf_type_def)

lemma linked_put:
  assumes "xinv E C at X" "loc C at t = Some (l, b)" "i < nent C t" "ends_walk l (tbl C t ! i)" "at n = Some p"
  shows "linked (put t i d C) at n p"
proof -
  obtain k c where p: "p = (k, c)" by (cases p)
  obtain s b' j where s: "loc C at s = Some (k - 1, b')" "j < nent C s" "c = b' + j * bs (k - 1)"
    "tbl C s ! j = TABLE_DESC OR table_addr C n"
    using invD(3) [OF assms(1,5)] by (auto simp: linked_def p)
  have n: "n < tables_num C" "k - 1 < 3" using invD(2) [OF assms(1,5)] by (auto simp: place_ok_def p)
  have "(s, j) \<noteq> (t, i)"
    using link_not_end [OF assms(1) n] assms(2,4) s(1,4) by auto
  then have "tbl (put t i d C) s ! j = tbl C s ! j"
    using put_tbl [OF invD(1) [OF assms(1)] loc_facts(1) [OF assms(1,2)] assms(3)] by (auto simp: nth_list_update)
  then show ?thesis using s by (auto simp: linked_def p keeps_ctx_fields(17) [OF keeps_ctx_put])
qed

text \<open>Writing a descriptor that ends a walk.\<close>

lemma put_end_xinv:
  assumes i: "xinv E C at X" and t: "loc C at t = Some (l, b)" "i < nent C t" "ends_walk l (tbl C t ! i)" and d: "ends_walk l d"
  shows "xinv E (put t i d C) at X"
proof -
  let ?C = "put t i d C"
  note w = invD(1) [OF i] and v = loc_facts(1) [OF i t(1)]
  have lc: "loc ?C at s = loc C at s" for s by (rule keeps_ctx_fields(17) [OF keeps_ctx_put])
  have tb: "tbl ?C s = (if s = t then (tbl C t)[i := d] else tbl C s)" for s by (rule put_tbl [OF w v t(2)])
  have len: "length (tbl C t) = nent C t" by (rule tbl_access(1) [OF w v t(2)])
  have eo: "entry_ok ?C at k v e = entry_ok C at k v e" for k v e by (simp add: entry_ok_def)
  have po: "place_ok ?C n p = place_ok C n p" for n p by (simp add: place_ok_def vspace_def)
  have fr: "is_free E ?C n = is_free E C n" for n by (simp add: is_free_def)
  have "tbl ?C (Sub n) = tbl C (Sub n)" if "at n = None" for n
    using that t(1) unfolding tb by (cases "Sub n = t") auto
  moreover have "entry_ok ?C at k (c + j * bs k) (tbl ?C s ! j)" if "loc C at s = Some (k, c)" "j < nent C s" for s k c j
  proof (cases "s = t \<and> j = i")
    case True
    then show ?thesis using that t(1,2) d len tb by (auto simp: entry_ok_def ends_walk_def)
  next
    case False
    then have "tbl ?C s ! j = tbl C s ! j" using tb by (auto simp: nth_list_update)
    then show ?thesis using invD(5) [OF i that] eo by simp
  qed
  ultimately show ?thesis
    unfolding xinv_def lc po fr
    using put_wf [OF w v t(2)] linked_put [OF i t] invD(2,4,6,7,8) [OF i] by (auto simp del: tbl.simps)
qed

lemma describes_put [simp]: "describes (put t i d C) at s l j va = describes C at s l j va"
  unfolding describes_def keeps_ctx_fields(17) [OF keeps_ctx_put] by simp

lemma write_leaf:
  assumes i: "xinv E C at X" and t: "loc C at t = Some (l, b)" "i < nent C t" "tbl C t ! i AND 3 = 0" and d: "d AND 3 = leaf_type l"
  shows "xinv E (put t i d C) at X"
    and "maps (put t i d C) at va e k \<longleftrightarrow> maps C at va e k \<or> b + i * bs l \<le> va \<and> va < b + i * bs l + bs l \<and> e = d \<and> k = l"
    and "b + i * bs l \<le> va \<Longrightarrow> va < b + i * bs l + bs l \<Longrightarrow> \<not> covered C at va"
proof -
  have e: "ends_walk l (tbl C t ! i)" "ends_walk l d" using t(3) d by (simp_all add: ends_walk_def)
  show "xinv E (put t i d C) at X" by (rule put_end_xinv [OF i t(1,2) e])
  note bl = block_in_space(3) [OF i t(1,2)]
  have lt: "leaf_type k \<noteq> 0" for k by (simp add: leaf_type_def)
  have tb: "tbl (put t i d C) s ! j = (if s = t \<and> j = i then d else tbl C s ! j)" for s j
    using put_tbl [OF invD(1) [OF i] loc_facts(1) [OF i t(1)] t(2), of d s] tbl_access(1) [OF invD(1) [OF i] loc_facts(1) [OF i t(1)] t(2)] t(2)
    by (auto simp: nth_list_update)
  show "maps (put t i d C) at va e k \<longleftrightarrow> maps C at va e k \<or> b + i * bs l \<le> va \<and> va < b + i * bs l + bs l \<and> e = d \<and> k = l" (is "?A \<longleftrightarrow> ?B \<or> ?N")
  proof
    assume ?A
    then obtain s j where s: "describes C at s k j va" "tbl (put t i d C) s ! j = e" "e AND 3 = leaf_type k" by (auto simp: maps_def)
    show "?B \<or> ?N"
    proof (cases "s = t \<and> j = i")
      case True
      then have "k = l" using s(1) t(1) by (auto simp: describes_def)
      then show ?thesis using True s bl tb by auto
    next
      case False
      then have "tbl C s ! j = e" using s(2) tb by auto
      then show ?thesis using s(1,3) by (auto simp: maps_def)
    qed
  next
    assume "?B \<or> ?N"
    then show ?A
    proof
      assume ?B
      then obtain s j where s: "describes C at s k j va" "tbl C s ! j = e" "e AND 3 = leaf_type k" by (auto simp: maps_def)
      then have "\<not> (s = t \<and> j = i)" using t(3) lt by auto
      then show ?A using s tb by (auto simp: maps_def)
    next
      assume ?N
      then show ?A using bl tb d by (auto simp: maps_def)
    qed
  qed
  show "\<not> covered C at va" if "b + i * bs l \<le> va" "va < b + i * bs l + bs l"
  proof
    assume "covered C at va"
    then obtain s j k where s: "describes C at s k j va" "tbl C s ! j AND 3 = leaf_type k" by (auto simp: covered_def maps_def)
    have "describes C at t l i va" using bl that by simp
    from one_end [OF i this e(1) s(1)] show False using s(2) t(3) lt by (auto simp: ends_walk_def)
  qed
qed

section \<open>Taking a table\<close>

lemma get_empty_spec:
  assumes "xinv E C at {}"
  obtains (full) "xlat_table_get_empty E C = (if PLAT_XLAT_TABLES_DYNAMIC E then Inr (None, C) else Inl AssertFail)"
      "\<forall>n < tables_num C. at n \<noteq> None"
  | (got) n C1 where "xlat_table_get_empty E C = Inr (Some n, C1)" "n < tables_num C" "at n = None"
      "C1 = C\<lparr>next_table := (if PLAT_XLAT_TABLES_DYNAMIC E then next_table C else Suc n)\<rparr>"
      "\<not> PLAT_XLAT_TABLES_DYNAMIC E \<Longrightarrow> next_table C = n"
proof (cases "PLAT_XLAT_TABLES_DYNAMIC E")
  case True
  have l: "length (tables_mapped_regions C) = tables_num C" using invD(1) [OF assms] True by (simp add: tabs_wf_def)
  show thesis
  proof (cases "find (\<lambda>i. tables_mapped_regions C ! i = 0) [0..<tables_num C]")
    case None
    then have "\<forall>n < tables_num C. \<not> is_free E C n" using True by (auto simp: find_None_iff is_free_def)
    then have "\<forall>n < tables_num C. at n \<noteq> None" using invD(6) [OF assms] by blast
    then show thesis using None True l by (intro full) (simp_all add: xlat_table_get_empty_def)
  next
    case (Some n)
    then have n: "n < tables_num C" "is_free E C n" using True by (auto simp: find_Some_iff is_free_def)
    then show thesis using Some True l invD(8) [OF assms n] by (intro got [of n C]) (auto simp: xlat_table_get_empty_def)
  qed
next
  case False
  show thesis
  proof (cases "next_table C < tables_num C")
    case True
    moreover have "is_free E C (next_table C)" using False by (simp add: is_free_def)
    ultimately show thesis using False invD(8) [OF assms True] by (intro got [of "next_table C"]) (auto simp: xlat_table_get_empty_def)
  next
    case n: False
    then have "\<forall>m < tables_num C. \<not> is_free E C m" using False by (auto simp: is_free_def)
    then have "\<forall>n < tables_num C. at n \<noteq> None" using invD(6) [OF assms] by blast
    then show thesis using n False by (intro full) (simp_all add: xlat_table_get_empty_def)
  qed
qed

lemma xinvI:
  assumes "tabs_wf E C" "\<And>n p. at n = Some p \<Longrightarrow> place_ok C n p" "\<And>n p. at n = Some p \<Longrightarrow> linked C at n p"
    "\<And>n m p. at n = Some p \<Longrightarrow> at m = Some p \<Longrightarrow> n = m"
    "\<And>t l b i. loc C at t = Some (l, b) \<Longrightarrow> i < nent C t \<Longrightarrow> entry_ok C at l (b + i * bs l) (tbl C t ! i)"
    "\<And>n. n < tables_num C \<Longrightarrow> at n = None \<Longrightarrow> is_free E C n \<and> (\<forall>i < 512. tbl C (Sub n) ! i AND 3 = 0)"
    "\<And>n. n < tables_num C \<Longrightarrow> is_free E C n \<Longrightarrow> at n = None \<or> n \<in> X"
  shows "xinv E C at X"
  using assms unfolding xinv_def by blast

lemma mapsI: "describes C at t l i va \<Longrightarrow> tbl C t ! i = d \<Longrightarrow> d AND 3 = leaf_type l \<Longrightarrow> maps C at va d l"
  by (auto simp: maps_def)

lemma linkedI:
  "loc C at t = Some (l - 1, b) \<Longrightarrow> i < nent C t \<Longrightarrow> c = b + i * bs (l - 1) \<Longrightarrow> tbl C t ! i = TABLE_DESC OR table_addr C n
    \<Longrightarrow> linked C at n (l, c)"
  by (auto simp: linked_def)

lemma link_table:
  assumes i: "xinv E C at {}" and t: "loc C at t = Some (l, b)" "i < nent C t" "tbl C t ! i AND 3 = 0" and l: "l < 3"
    and n: "n < tables_num C" "at n = None" "\<not> PLAT_XLAT_TABLES_DYNAMIC E \<Longrightarrow> next_table C = n"
  defines "C1 \<equiv> C\<lparr>next_table := (if PLAT_XLAT_TABLES_DYNAMIC E then next_table C else Suc n)\<rparr>"
    and "at' \<equiv> at(n \<mapsto> (Suc l, b + i * bs l))"
  shows "xinv E (put t i (TABLE_DESC OR table_addr C n) C1) at' {n}"
    and "maps (put t i (TABLE_DESC OR table_addr C n) C1) at' va e k = maps C at va e k"
    and "tbl_put C1 t i (TABLE_DESC OR table_addr C1 n) = Inr (put t i (TABLE_DESC OR table_addr C n) C1)"
proof -
  let ?d = "TABLE_DESC OR table_addr C n"
  let ?C = "put t i ?d C1"
  note w = invD(1) [OF i] and v = loc_facts(1) [OF i t(1)] and bl = block_in_space [OF i t(1,2)]
  have w1: "tabs_wf E C1" using w by (simp add: tabs_wf_def C1_def regime_ok_def)
  have f1: "tvalid C1 s = tvalid C s" "nent C1 s = nent C s" "tbl C1 s = tbl C s" for s by (cases s; simp add: C1_def)+
  have v1: "tvalid C1 t" "i < nent C1 t" using v t(2) f1 by simp_all
  have a1: "table_addr C1 m = table_addr C m" for m by (simp add: C1_def table_addr_def)
  show "tbl_put C1 t i (TABLE_DESC OR table_addr C1 n) = Inr ?C" using tbl_access(3) [OF w1 v1] by (simp add: a1)
  have tb: "tbl ?C s ! j = (if s = t \<and> j = i then ?d else tbl C s ! j)" for s j
    using put_tbl [OF w1 v1, of ?d s] tbl_access(1) [OF w v t(2)] t(2) f1(3) by (auto simp: nth_list_update)
  have ne: "nent ?C s = nent C s" for s by (simp add: f1)
  have lc: "loc ?C p s = loc C p s" for p s by (cases s) (simp_all add: C1_def)
  have lat: "loc C at' s = (if s = Sub n then Some (Suc l, b + i * bs l) else loc C at s)" for s by (cases s) (simp_all add: at'_def)
  have tn: "t \<noteq> Sub n" using t(1) n(2) by auto
  have e0: "ends_walk l (tbl C t ! i)" using t(3) by (simp add: ends_walk_def)
  have sub: "at' m = Some p" if "at m = Some p" for m p using that n(2) by (auto simp: at'_def)
  have po: "place_ok ?C m p = place_ok C m p" for m p by (simp add: place_ok_def vspace_def C1_def)
  have tn1: "tables_num C1 = tables_num C" by (simp add: C1_def)
  have eo: "entry_ok ?C p k c e = entry_ok C p k c e" for p k c e by (simp add: entry_ok_def a1 tn1)
  have lk: "linked ?C at' m p" if m: "at m = Some p" for m p
  proof -
    obtain k c where p: "p = (k, c)" by (cases p)
    obtain s b' j where s: "loc C at s = Some (k - 1, b')" "j < nent C s" "c = b' + j * bs (k - 1)"
      "tbl C s ! j = TABLE_DESC OR table_addr C m" using invD(3) [OF i m] by (auto simp: linked_def p)
    have "m < tables_num C" "k - 1 < 3" using invD(2) [OF i m] by (auto simp: place_ok_def p)
    then have "\<not> (s = t \<and> j = i)" using link_not_end [OF i, of m "k - 1"] t(1) e0 s(1,4) by auto
    moreover have "s \<noteq> Sub n" using s(1) n(2) by auto
    ultimately show ?thesis
      unfolding p using s tb by (intro linkedI [of _ _ s _ b' j]) (auto simp: lc lat f1(2) a1 simp del: tbl.simps)
  qed
  have pn: "place_ok C n (Suc l, b + i * bs l)"
    using bl(1,2) n(1) l loc_facts(2) [OF i t(1)] by (simp add: place_ok_def)
  have ln: "linked ?C at' n (Suc l, b + i * bs l)"
    using t(1,2) tb tn by (intro linkedI [of _ _ t _ b i]) (auto simp: lc lat f1(2) a1 simp del: tbl.simps)
  have new: "at m \<noteq> Some (Suc l, b + i * bs l)" for m
  proof
    assume m: "at m = Some (Suc l, b + i * bs l)"
    obtain s b' j where s: "loc C at s = Some (l, b')" "j < nent C s" "b + i * bs l = b' + j * bs l"
      "tbl C s ! j = TABLE_DESC OR table_addr C m" using invD(3) [OF i m] by (auto simp: linked_def)
    have "describes C at s l j (b + i * bs l)" using s by (auto simp: describes_def)
    moreover have "describes C at t l i (b + i * bs l)" using bl(3) by simp
    ultimately have "s = t" "j = i" using describes_unique [OF i] by blast+
    then show False using link_not_end [OF i, of m l] invD(2) [OF i m] e0 s(4) l by (auto simp: place_ok_def)
  qed
  have inj: "m = m'" if "at' m = Some p" "at' m' = Some p" for m m' p
    using that new [of m] new [of m'] invD(4) [OF i] unfolding at'_def by (auto split: if_splits)
  have ent: "entry_ok ?C at' k (c + j * bs k) (tbl ?C s ! j)" if "loc C at' s = Some (k, c)" "j < nent C s" for s k c j
  proof (cases "s = t \<and> j = i")
    case True
    then have "k = l" "c = b" using that(1) t(1) tn by (auto simp: lat)
    then show ?thesis unfolding eo using True tb [of s j] l n(1) by (auto simp: entry_ok_def at'_def)
  next
    case st: False
    show ?thesis
    proof (cases "s = Sub n")
      case True
      then show ?thesis unfolding eo using that(2) invD(7) [OF i n(1,2), of j] st tb [of s j] by (auto simp: entry_ok_def simp del: tbl.simps)
    next
      case False
      then have "entry_ok C at k (c + j * bs k) (tbl C s ! j)" using invD(5) [OF i] that by (simp add: lat)
      then show ?thesis unfolding eo using st tb [of s j] sub by (auto simp: entry_ok_def)
    qed
  qed
  have fr: "is_free E ?C m \<longleftrightarrow> is_free E C m \<and> (PLAT_XLAT_TABLES_DYNAMIC E \<or> m \<noteq> n)" for m
    using n(3) by (auto simp: is_free_def C1_def)
  have none: "is_free E ?C m \<and> (\<forall>j < 512. tbl ?C (Sub m) ! j AND 3 = 0)" if "m < tables_num C" "at' m = None" for m
  proof -
    have m: "at m = None" "m \<noteq> n" using that(2) by (auto simp: at'_def split: if_splits)
    then have "Sub m \<noteq> t" using t(1) by auto
    then show ?thesis using invD(6,7) [OF i that(1) m(1)] m(2) tb fr by (auto simp del: tbl.simps)
  qed
  have "at' m = None \<or> m \<in> {n}" if "m < tables_num C" "is_free E ?C m" for m
    using invD(8) [OF i that(1)] that(2) fr by (auto simp: at'_def)
  note used = this
  have atc: "at' m = Some p \<longleftrightarrow> (if m = n then p = (Suc l, b + i * bs l) else at m = Some p)" for m p by (auto simp: at'_def)
  show "xinv E ?C at' {n}"
  proof (rule xinvI)
    show "tabs_wf E ?C" by (rule put_wf [OF w1 v1])
    show "place_ok ?C m p" if "at' m = Some p" for m p using that pn invD(2) [OF i] unfolding po atc by (auto split: if_splits)
    show "linked ?C at' m p" if "at' m = Some p" for m p using that ln lk unfolding atc by (auto split: if_splits)
    show "m = m'" if "at' m = Some p" "at' m' = Some p" for m m' p using inj that .
    show "entry_ok ?C at' k (c + j * bs k) (tbl ?C s ! j)" if "loc ?C at' s = Some (k, c)" "j < nent ?C s" for s k c j
      using ent that unfolding lc ne by blast
    show "is_free E ?C m \<and> (\<forall>i < 512. tbl ?C (Sub m) ! i AND 3 = 0)" if "m < tables_num ?C" "at' m = None" for m
      using none that tn1 by simp
    show "at' m = None \<or> m \<in> {n}" if "m < tables_num ?C" "is_free E ?C m" for m using used that tn1 by simp
  qed
  have ds: "describes ?C at' s k j va \<longleftrightarrow> (if s = Sub n then k = Suc l \<and> j < 512 \<and> b + i * bs l + j * bs k \<le> va \<and> va < b + i * bs l + j * bs k + bs k
      else describes C at s k j va)" for s k j
    by (auto simp: describes_def lc lat f1(2))
  have lt: "leaf_type k \<noteq> 0" for k by (simp add: leaf_type_def)
  show "maps ?C at' va e k = maps C at va e k"
  proof
    assume "maps ?C at' va e k"
    then obtain s j where s: "describes ?C at' s k j va" "tbl ?C s ! j = e" "e AND 3 = leaf_type k" by (auto simp: maps_def)
    have "s \<noteq> Sub n"
    proof
      assume sn: "s = Sub n"
      then have "tbl C s ! j AND 3 = 0" using s(1) ds invD(7) [OF i n(1,2)] by auto
      then show False using s(2,3) tb sn tn lt [of k] by (auto simp del: tbl.simps)
    qed
    then have d: "describes C at s k j va" using s(1) ds by simp
    have "\<not> (s = t \<and> j = i)"
    proof
      assume "s = t \<and> j = i"
      then have "e = ?d" "k = l" using s(2) tb d t(1) by (auto simp: describes_def)
      then show False using link_not_end [OF i n(1) l] s(3) by (simp add: ends_walk_def)
    qed
    then have "tbl C s ! j = e" using s(2) tb [of s j] by auto
    then show "maps C at va e k" using d s(3) by (intro mapsI)
  next
    assume "maps C at va e k"
    then obtain s j where s: "describes C at s k j va" "tbl C s ! j = e" "e AND 3 = leaf_type k" by (auto simp: maps_def)
    have "s \<noteq> Sub n" using s(1) n(2) by (auto simp: describes_def)
    moreover have "\<not> (s = t \<and> j = i)" using s t(3) lt by auto
    ultimately show "maps ?C at' va e k" using s ds tb [of s j] by (intro mapsI [of _ _ s k j]) auto
  qed
qed

lemma inc_count:
  assumes "xinv E C at X" "at n = Some p" "X \<subseteq> {n}" "PLAT_XLAT_TABLES_DYNAMIC E"
  obtains C1 where "xlat_table_inc_regions_count (Sub n) C = Inr C1" "xinv E C1 at {}" "keeps_ctx C C1" "\<And>va d k. maps C1 at va d k = maps C at va d k"
proof -
  let ?c = "(tables_mapped_regions C)[n := tables_mapped_regions C ! n + 1]"
  let ?C = "C\<lparr>tables_mapped_regions := ?c\<rparr>"
  note w = invD(1) [OF assms(1)]
  have n: "n < tables_num C" using invD(2) [OF assms(1,2)] by (simp add: place_ok_def split: prod.splits)
  have l: "length (tables_mapped_regions C) = tables_num C" "0 \<le> tables_mapped_regions C ! n"
    using w assms(4) n by (auto simp: tabs_wf_def)
  have tb: "tbl ?C s = tbl C s" "nent ?C s = nent C s" "loc ?C p s = loc C p s" for s p by (cases s; simp)+
  have f: "table_addr ?C m = table_addr C m" for m by (simp add: table_addr_def)
  have fr: "is_free E ?C m \<longleftrightarrow> is_free E C m \<and> m \<noteq> n" if "m < tables_num C" for m
    using that l n assms(4) by (auto simp: is_free_def nth_list_update)
  have "xinv E ?C at {}"
  proof (rule xinvI)
    have "\<forall>c \<in> set ?c. 0 \<le> c" using w assms(4) l set_update_subset_insert [of "tables_mapped_regions C" n] by (fastforce simp: tabs_wf_def)
    then show "tabs_wf E ?C" using w assms(4) by (simp add: tabs_wf_def regime_ok_def)
    show "place_ok ?C m q" if "at m = Some q" for m q using invD(2) [OF assms(1) that] by (simp add: place_ok_def vspace_def)
    show "linked ?C at m q" if "at m = Some q" for m q using invD(3) [OF assms(1) that] by (simp add: linked_def tb f)
    show "m = k" if "at m = Some q" "at k = Some q" for m k q using invD(4) [OF assms(1) that] .
    show "entry_ok ?C at k (b + i * bs k) (tbl ?C s ! i)" if "loc ?C at s = Some (k, b)" "i < nent ?C s" for s k b i
      using invD(5) [OF assms(1), of s k b i] that by (simp add: tb entry_ok_def f)
    show "is_free E ?C m \<and> (\<forall>i < 512. tbl ?C (Sub m) ! i AND 3 = 0)" if "m < tables_num ?C" "at m = None" for m
      using that invD(6,7) [OF assms(1), of m] assms(2) fr [of m] by auto
    show "at m = None \<or> m \<in> {}" if "m < tables_num ?C" "is_free E ?C m" for m
      using that invD(8) [OF assms(1), of m] assms(3) fr [of m] by auto
  qed
  moreover have "xlat_table_inc_regions_count (Sub n) C = Inr ?C"
    using n l by (simp add: xlat_table_inc_regions_count_def add_regions_count_def)
  moreover have "keeps_ctx C ?C"
    unfolding keeps_ctx_def
    by (rule exI [of _ "base_table C"], rule exI [of _ "tables C"], rule exI [of _ ?c], rule exI [of _ "next_table C"]) simp
  moreover have "maps ?C at va d k = maps C at va d k" for va d k by (simp add: maps_def describes_def tb)
  ultimately show thesis using that by blast
qed

section \<open>Which tables the regions need\<close>

text \<open>
  A block of a level is the range of addresses one entry of a table of this level describes; it is given by its first address.
  A region can be entered with one descriptor in a block that it contains, where the block is aligned in the physical address
  space, not at level 0, and not larger than the granularity of the region.
\<close>

definition meets :: "mmap_region \<Rightarrow> nat \<Rightarrow> nat \<Rightarrow> bool" where
  "meets r l v \<longleftrightarrow> rlo r < v + bs l \<and> v < rhi r"

definition one_block :: "mmap_region \<Rightarrow> nat \<Rightarrow> nat \<Rightarrow> bool" where
  "one_block r l v \<longleftrightarrow> 1 \<le> l \<and> rlo r \<le> v \<and> v + bs l \<le> rhi r \<and> bs l dvd plo r + (v - rlo r) \<and> bs l \<le> unat (granularity r)"

text \<open>The first region of a list that meets a block decides whether the block needs a table.\<close>

definition needs_table :: "mmap_region list \<Rightarrow> nat \<Rightarrow> nat \<Rightarrow> bool" where
  "needs_table rs l v \<longleftrightarrow> (case find (\<lambda>r. meets r l v) rs of None \<Rightarrow> False | Some r \<Rightarrow> \<not> one_block r l v)"

text \<open>A block inside a larger one that a region can be entered with is such a block, too.\<close>

lemma one_block_inside:
  assumes b: "one_block r k v" and l: "k \<le> l" "bs l dvd u" "v \<le> u" "u + bs l \<le> v + bs k" "bs k dvd v"
  shows "one_block r l u"
proof -
  have d: "bs l dvd bs k" by (rule bs_mono [OF l(1)])
  have "bs l dvd plo r + (v - rlo r)" using b d by (auto simp: one_block_def intro: dvd_trans)
  moreover have "bs l dvd u - v" using l(2,5) d by (auto intro: dvd_trans dvd_diff_nat)
  moreover have "plo r + (u - rlo r) = plo r + (v - rlo r) + (u - v)" using b l(3) by (simp add: one_block_def)
  ultimately have "bs l dvd plo r + (u - rlo r)" by (metis dvd_add)
  moreover have "bs l \<le> bs k" using d by (simp add: dvd_imp_le)
  ultimately show ?thesis using b l by (auto simp: one_block_def)
qed

end
