(* ===== verification/Tftf_Xlat_Map.thy ===== *)
theory Tftf_Xlat_Map
  imports Tftf_Xlat_Tree
begin

text \<open>
  Mapping a region in the translation tables: \<open>xlat_tables_map_region\<close> adds descriptors for the addresses of the region
  that have none, and nothing else; it fails only when the tables run out.
\<close>

section \<open>Mapping a region\<close>

lemma block_of:
  assumes "bs l dvd v" "v \<le> va" "va < v + bs l"
  shows "va div bs l * bs l = v"
proof -
  obtain c where c: "v = bs l * c" using assms(1) by (rule dvdE)
  have "va div bs l = c" using assms(2,3) c by (intro div_nat_eqI) (simp_all add: mult.commute)
  then show ?thesis using c by (simp add: mult.commute)
qed

text \<open>A block of a level lies in a block of each level above it.\<close>

lemma block_nested:
  assumes "k \<le> l" "bs l dvd v" "v \<le> va" "va < v + bs l"
  shows "va div bs k * bs k \<le> v \<and> v + bs l \<le> va div bs k * bs k + bs k"
proof -
  obtain c where c: "bs k = bs l * c" using bs_mono [OF assms(1)] by (rule dvdE)
  define q m where "q = va div bs l div c" and "m = va div bs l"
  have q: "va div bs k = q" unfolding c q_def by (rule div_mult2_eq)
  have v: "v = m * bs l" using block_of [OF assms(2-4)] by (simp add: m_def)
  have "0 < c" using c bs_pos [of k] by (cases c) auto
  then have "q * c \<le> m" "Suc m \<le> q * c + c" using dividend_less_div_times [of c m] by (simp_all add: q_def m_def)
  then have "q * c * bs l \<le> m * bs l" "Suc m * bs l \<le> (q * c + c) * bs l" by (simp_all only: mult_le_mono1)
  then show ?thesis unfolding q unfolding v c by (simp add: algebra_simps)
qed

text \<open>No descriptor in the tables describes addresses both inside and outside a region.\<close>

definition no_partial :: "xlat_ctx \<Rightarrow> places \<Rightarrow> mmap_region \<Rightarrow> bool" where
  "no_partial C at mm \<longleftrightarrow> (\<forall>va d k. maps C at va d k \<and> rlo mm \<le> va \<and> va < rhi mm \<longrightarrow>
     rlo mm \<le> va div bs k * bs k \<and> va div bs k * bs k + bs k \<le> rhi mm)"

text \<open>The descriptors a region adds.\<close>

definition added :: "xlat_env \<Rightarrow> xlat_ctx \<Rightarrow> places \<Rightarrow> mmap_region \<Rightarrow> nat \<Rightarrow> u64 \<Rightarrow> nat \<Rightarrow> bool" where
  "added E C at mm va d k \<longleftrightarrow> rlo mm \<le> va \<and> va < rhi mm \<and> \<not> covered C at va
     \<and> xl_out d k va = (plo mm + (va - rlo mm), attrs_of E C (attr mm))
     \<and> rlo mm \<le> va div bs k * bs k \<and> va div bs k * bs k + bs k \<le> rhi mm
     \<and> (k = 3 \<or> one_block mm k (va div bs k * bs k))"

text \<open>
  A table is wanted below the entry of a block that no address of has a descriptor yet, if the first region that meets the block
  cannot be entered with one block descriptor.
\<close>

definition wanted :: "xlat_ctx \<Rightarrow> places \<Rightarrow> mmap_region list \<Rightarrow> (nat \<times> nat) set" where
  "wanted C at rs = {(Suc l, v) | l v. base_level C \<le> l \<and> l < 3 \<and> bs l dvd v \<and> needs_table rs l v
     \<and> (\<forall>va. v \<le> va \<and> va < v + bs l \<longrightarrow> \<not> covered C at va)}"

lemma finite_wanted: "finite (wanted C at rs)"
proof -
  have "wanted C at rs \<subseteq> {..3} \<times> (\<Union>r \<in> set rs. {..rhi r})"
    by (auto simp: wanted_def needs_table_def meets_def find_Some_iff split: option.splits) (metis less_imp_le nth_mem)
  then show ?thesis by (rule finite_subset) auto
qed

lemma finite_places: "xinv E C at X \<Longrightarrow> finite (ran at) \<and> card (ran at) = card (dom at)"
proof -
  assume x: "xinv E C at X"
  have "dom at \<subseteq> {..<tables_num C}" using invD(2) [OF x] by (fastforce simp: place_ok_def)
  then have "finite (dom at)" by (rule finite_subset) simp
  moreover have "inj_on (the \<circ> at) (dom at)" using invD(4) [OF x] by (auto simp: inj_on_def)
  moreover have "ran at = (the \<circ> at) ` dom at" by (force simp: ran_def)
  ultimately show ?thesis using card_image by (metis finite_imageI)
qed

text \<open>Nothing is mapped below an entry that is empty, and no table is there.\<close>

lemma empty_entry:
  assumes x: "xinv E C at X" and t: "loc C at t = Some (l, b)" "i < nent C t" "tbl C t ! i AND 3 = 0" and l: "l < 3"
  shows "b + i * bs l \<le> va \<Longrightarrow> va < b + i * bs l + bs l \<Longrightarrow> \<not> covered C at va" "(Suc l, b + i * bs l) \<notin> ran at"
proof -
  note bl = block_in_space [OF x t(1,2)]
  show "\<not> covered C at va" if "b + i * bs l \<le> va" "va < b + i * bs l + bs l"
  proof
    assume "covered C at va"
    then obtain s j k where s: "describes C at s k j va" "tbl C s ! j AND 3 = leaf_type k" unfolding covered_def maps_def by blast
    have "describes C at t l i va" using bl(3) that by blast
    then have "l = k \<and> t = s \<and> i = j" using one_end [OF x _ _ s(1)] s(2) t(3) by (simp add: ends_walk_def)
    then show False using s(2) t(3) by (auto simp: leaf_type_def split: if_splits)
  qed
  show "(Suc l, b + i * bs l) \<notin> ran at"
  proof
    assume "(Suc l, b + i * bs l) \<in> ran at"
    then obtain n where n: "at n = Some (Suc l, b + i * bs l)" by (auto simp: ran_def)
    obtain s c j where s: "loc C at s = Some (l, c)" "j < nent C s" "b + i * bs l = c + j * bs l" "tbl C s ! j = TABLE_DESC OR table_addr C n"
      using invD(3) [OF x n] by (auto simp: linked_def)
    have "describes C at t l i (b + i * bs l)" "describes C at s l j (b + i * bs l)"
      using t(1,2) s(1-3) bs_pos [of l] by (auto simp: describes_def simp del: bs_pos)
    then have "t = s" "i = j" using describes_unique [OF x] by blast+
    moreover have "n < tables_num C" using invD(2) [OF x n] by (simp add: place_ok_def)
    ultimately show False using s(4) t(3) table_addr_facts(2) [OF invD(1) [OF x]] by simp
  qed
qed

text \<open>What mapping a part of a region does: the new tables are wanted.\<close>

definition mstep :: "xlat_env \<Rightarrow> mmap_region \<Rightarrow> xlat_ctx \<Rightarrow> places \<Rightarrow> xlat_ctx \<Rightarrow> places \<Rightarrow> bool" where
  "mstep E mm C at C' at' \<longleftrightarrow> keeps_ctx C C' \<and> at \<subseteq>\<^sub>m at' \<and> ran at' \<subseteq> ran at \<union> wanted C at [mm]
     \<and> (\<forall>va d k. maps C at va d k \<longrightarrow> maps C' at' va d k)
     \<and> (\<forall>va d k. maps C' at' va d k \<longrightarrow> maps C at va d k \<or> added E C at mm va d k)"

definition mpost :: "xlat_env \<Rightarrow> mmap_region \<Rightarrow> xlat_ctx \<Rightarrow> places \<Rightarrow> xlat_ctx \<Rightarrow> places \<Rightarrow> bool" where
  "mpost E mm C at C' at' \<longleftrightarrow> mstep E mm C at C' at' \<and> xinv E C' at' {}"

text \<open>
  The outcome of mapping the part of a region between \<open>lo\<close> and \<open>hi\<close>: all of it has descriptors, or there are fewer tables
  than those in use and those wanted.
\<close>

definition short :: "xlat_ctx \<Rightarrow> places \<Rightarrow> mmap_region list \<Rightarrow> bool" where
  "short C at rs \<longleftrightarrow> tables_num C < card (ran at \<union> wanted C at rs)"

definition mspec :: "xlat_env \<Rightarrow> mmap_region \<Rightarrow> xlat_ctx \<Rightarrow> places \<Rightarrow> nat \<Rightarrow> nat \<Rightarrow> (u64 \<times> xlat_ctx) res \<Rightarrow> bool" where
  "mspec E mm C at lo hi r \<longleftrightarrow> (case r of
     Inl e \<Rightarrow> e = AssertFail \<and> \<not> PLAT_XLAT_TABLES_DYNAMIC E \<and> short C at [mm]
   | Inr (e, C') \<Rightarrow> \<exists>at'. mpost E mm C at C' at'
       \<and> (unat e + 1 = min hi (rhi mm) \<and> (\<forall>va. lo \<le> va \<and> va < hi \<and> rlo mm \<le> va \<and> va < rhi mm \<longrightarrow> covered C' at' va)
          \<or> 4096 dvd unat e \<and> short C at [mm]))"

lemma mstepD:
  assumes "mstep E mm C at C' at'"
  shows "keeps_ctx C C'" "at \<subseteq>\<^sub>m at'" "ran at' \<subseteq> ran at \<union> wanted C at [mm]" "maps C at va d k \<Longrightarrow> maps C' at' va d k"
    "maps C' at' va d k \<Longrightarrow> \<not> maps C at va d k \<Longrightarrow> added E C at mm va d k" "covered C at va \<Longrightarrow> covered C' at' va"
  using assms unfolding mstep_def covered_def by blast+

lemma mstep_no_partial:
  assumes "mstep E mm C at C' at'" "no_partial C at mm"
  shows "no_partial C' at' mm"
  using assms unfolding mstep_def no_partial_def added_def by blast

lemma mstep_refl: "mstep E mm C at C at"
  by (simp add: mstep_def)

lemma wanted_mono:
  assumes "mstep E mm C at C' at'"
  shows "wanted C' at' rs \<subseteq> wanted C at rs"
  using mstepD(6) [OF assms] keeps_ctx_fields(1) [OF mstepD(1) [OF assms]] unfolding wanted_def by fastforce

lemma mstep_trans:
  assumes "mstep E mm C at C1 at1" "mstep E mm C1 at1 C2 at2"
  shows "mstep E mm C at C2 at2"
  unfolding mstep_def
proof (intro conjI allI impI)
  show "keeps_ctx C C2" by (rule keeps_ctx_trans [OF mstepD(1) [OF assms(1)] mstepD(1) [OF assms(2)]])
  show "at \<subseteq>\<^sub>m at2" by (rule map_le_trans [OF mstepD(2) [OF assms(1)] mstepD(2) [OF assms(2)]])
  show "ran at2 \<subseteq> ran at \<union> wanted C at [mm]"
    using mstepD(3) [OF assms(1)] mstepD(3) [OF assms(2)] wanted_mono [OF assms(1), of "[mm]"] by blast
  show "maps C2 at2 va d k" if "maps C at va d k" for va d k using mstepD(4) [OF assms(2) mstepD(4) [OF assms(1) that]] .
  show "maps C at va d k \<or> added E C at mm va d k" if "maps C2 at2 va d k" for va d k
    using mstepD(5) [OF assms(2) that] mstepD(5,6) [OF assms(1)] keeps_ctx_fields(16) [OF mstepD(1) [OF assms(1)]]
    unfolding added_def by auto
qed

lemma short_step:
  assumes "mstep E mm C at C1 at1" "xinv E C at X" "short C1 at1 [mm]"
  shows "short C at [mm]"
proof -
  have "ran at1 \<union> wanted C1 at1 [mm] \<subseteq> ran at \<union> wanted C at [mm]"
    using mstepD(3) [OF assms(1)] wanted_mono [OF assms(1), of "[mm]"] by blast
  then have "card (ran at1 \<union> wanted C1 at1 [mm]) \<le> card (ran at \<union> wanted C at [mm])"
    using finite_places [OF assms(2)] finite_wanted by (intro card_mono) auto
  then show ?thesis using assms(3) keeps_ctx_fields(3) [OF mstepD(1) [OF assms(1)]] by (simp add: short_def)
qed

lemma mspec_seq:
  assumes "mstep E mm C at C1 at1" "\<forall>va. lo \<le> va \<and> va < m \<and> rlo mm \<le> va \<and> va < rhi mm \<longrightarrow> covered C1 at1 va"
    and "mspec E mm C1 at1 m hi r" "xinv E C at X"
  shows "mspec E mm C at lo hi r"
proof -
  have s: "short C at [mm]" if "short C1 at1 [mm]"
    by (rule short_step [OF assms(1,4) that])
  show ?thesis
  proof (cases r)
    case (Inl e)
    then show ?thesis using assms(3) s by (simp add: mspec_def)
  next
    case (Inr p)
    obtain e C2 where p: "p = (e, C2)" by (cases p)
    obtain at2 where a: "mpost E mm C1 at1 C2 at2"
      "unat e + 1 = min hi (rhi mm) \<and> (\<forall>va. m \<le> va \<and> va < hi \<and> rlo mm \<le> va \<and> va < rhi mm \<longrightarrow> covered C2 at2 va)
          \<or> 4096 dvd unat e \<and> short C1 at1 [mm]"
      using assms(3) Inr p by (auto simp: mspec_def)
    have "covered C2 at2 va" if "lo \<le> va" "va < hi" "rlo mm \<le> va" "va < rhi mm"
      "\<forall>va. m \<le> va \<and> va < hi \<and> rlo mm \<le> va \<and> va < rhi mm \<longrightarrow> covered C2 at2 va" for va
      using that assms(2) mstepD(6) [of E mm C1 at1 C2 at2] a(1) by (cases "va < m") (auto simp: mpost_def)
    moreover have "mpost E mm C at C2 at2" using mstep_trans [OF assms(1)] a(1) by (simp add: mpost_def)
    ultimately show ?thesis using a(2) s unfolding mspec_def Inr p by auto
  qed
qed

lemma vspace_bound: "xinv E C at X \<Longrightarrow> vspace C = unat (va_max_address C) + 1 \<and> vspace C \<le> 2 ^ 48 \<and> unat (pa_max_address C) < 2 ^ 48"
  using invD(1) [of E C at X] by (auto simp: tabs_wf_def vspace_def)

lemma dom_at: "xinv E C at X \<Longrightarrow> dom at \<subseteq> {..<tables_num C}"
  using invD(2) by (fastforce simp: place_ok_def)

text \<open>The numbers an entry of a table is compared with.\<close>

lemma entry_va:
  assumes "xinv E C at X" "loc C at t = Some (l, b)" "i < nent C t" "unat w = b + i * bs l"
  shows "unat (w + xlat_block_size l) = b + i * bs l + bs l" "unat (w + xlat_block_size l - 1) = b + i * bs l + bs l - 1"
    "b + i * bs l + bs l \<le> 2 ^ 48"
proof -
  show b: "b + i * bs l + bs l \<le> 2 ^ 48" using block_in_space(2) [OF assms(1-3)] vspace_bound [OF assms(1)] by linarith
  show u: "unat (w + xlat_block_size l) = b + i * bs l + bs l"
    using b assms(4) by (subst unat_add_no_wrap) (simp_all add: unat_block_size)
  then have "w + xlat_block_size l \<noteq> 0" using bs_pos [of l] by (metis add_pos_nonneg add.commute less_irrefl unat_0 zero_le)
  then show "unat (w + xlat_block_size l - 1) = b + i * bs l + bs l - 1" using u unat_minus_one by metis
qed

lemma entry_pa:
  assumes "xinv E C at X" "region_ok C mm" "unat w = va" "rlo mm \<le> va" "va < rhi mm"
  shows "unat (base_pa mm + w - base_va mm) = plo mm + (va - rlo mm)" "plo mm + (va - rlo mm) < 2 ^ 48"
proof -
  have p: "phi mm \<le> 2 ^ 48" using assms(2) vspace_bound [OF assms(1)] by (simp add: region_ok_def)
  show b: "plo mm + (va - rlo mm) < 2 ^ 48" using p assms(4,5) by (simp add: ival_defs)
  have "base_va mm \<le> w" using assms(3,4) by (simp add: word_le_nat_alt rlo_def)
  then have "unat (w - base_va mm) = va - rlo mm" using assms(3) by (simp add: unat_sub rlo_def)
  moreover have "base_pa mm + w - base_va mm = base_pa mm + (w - base_va mm)" by simp
  ultimately show "unat (base_pa mm + w - base_va mm) = plo mm + (va - rlo mm)"
    using b by (simp only:) (subst unat_add_no_wrap; simp add: plo_def)
qed

lemma partial_facts:
  assumes x: "xinv E C at X" and t: "loc C at t = Some (l, b)" "i < nent C t" and mm: "region_ok C mm"
    and m: "rlo mm < b + i * bs l + bs l" "b + i * bs l < rhi mm" and np: "no_partial C at mm"
    and p: "\<not> (rlo mm \<le> b + i * bs l \<and> b + i * bs l + bs l \<le> rhi mm)"
  shows "l < 3" "tbl C t ! i AND 3 \<noteq> leaf_type l"
proof -
  let ?v = "b + i * bs l"
  have d: "bs l dvd ?v" by (rule block_in_space(1) [OF x t])
  have "4096 dvd rlo mm" "4096 dvd rhi mm" using mm by (auto simp: region_ok_def ival_defs)
  then obtain q r where qr: "rlo mm = 4096 * q" "rhi mm = 4096 * r" by (auto elim!: dvdE)
  show "l < 3"
  proof (rule ccontr)
    assume "\<not> l < 3"
    then have l: "l = 3" using loc_facts(3) [OF x t(1)] by simp
    obtain c where "?v = bs l * c" using d by (rule dvdE)
    then have "?v = 4096 * c" using l by (simp add: bs_3)
    then show False using p m qr l by (simp add: bs_3)
  qed
  show "tbl C t ! i AND 3 \<noteq> leaf_type l"
  proof
    assume lf: "tbl C t ! i AND 3 = leaf_type l"
    define va where "va = max ?v (rlo mm)"
    have va: "?v \<le> va" "va < ?v + bs l" "rlo mm \<le> va" "va < rhi mm"
      using m region_ok_ends(3) [OF mm] by (auto simp: va_def)
    then have "maps C at va (tbl C t ! i) l" using lf block_in_space(3) [OF x t] by (intro mapsI [of _ _ t l i]) auto
    moreover have "va div bs l * bs l = ?v" by (rule block_of [OF d va(1,2)])
    ultimately show False using np va(3,4) p unfolding no_partial_def by metis
  qed
qed

lemma map_action:
  assumes x: "xinv E C at X" and t: "loc C at t = Some (l, b)" "i < nent C t" "unat w = b + i * bs l" and mm: "region_ok C mm"
    and m: "rlo mm < b + i * bs l + bs l" "b + i * bs l < rhi mm" and np: "no_partial C at mm"
  shows "xlat_tables_map_region_action mm (tbl C t ! i AND 3) pa w l = Inr
    (if rlo mm \<le> b + i * bs l \<and> b + i * bs l + bs l \<le> rhi mm
     then if tbl C t ! i AND 3 = 0
          then if l = 3 \<or> bs l dvd unat pa \<and> 1 \<le> l \<and> bs l \<le> unat (granularity mm) then ACTION_WRITE_BLOCK_ENTRY else ACTION_CREATE_NEW_TABLE
          else if tbl C t ! i AND 3 = leaf_type l then ACTION_NONE else ACTION_RECURSE_INTO_TABLE
     else if tbl C t ! i AND 3 = 0 then ACTION_CREATE_NEW_TABLE else ACTION_RECURSE_INTO_TABLE)"
proof -
  let ?v = "b + i * bs l" and ?ty = "tbl C t ! i AND 3"
  note e = entry_va [OF x t] and r = region_ok_ends [OF mm]
  have c: "base_va mm \<le> w \<longleftrightarrow> rlo mm \<le> ?v" "w + xlat_block_size l - 1 \<le> region_end mm \<longleftrightarrow> ?v + bs l \<le> rhi mm"
    "w \<le> region_end mm" "granularity mm < xlat_block_size l \<longleftrightarrow> unat (granularity mm) < bs l"
    using t(3) e r m bs_pos [of l] by (auto simp: word_le_nat_alt word_less_nat_alt rlo_def unat_block_size simp del: bs_pos)
  have ty: "?ty = 0 \<or> ?ty = leaf_type l \<or> l < 3 \<and> ?ty = 3"
    using invD(5) [OF x t(1,2)] table_addr_facts(2) [OF invD(1) [OF x]] by (auto simp: entry_ok_def)
  have l3: "l \<le> 3" by (rule loc_facts(3) [OF x t(1)])
  show ?thesis
  proof (cases "rlo mm \<le> ?v \<and> ?v + bs l \<le> rhi mm")
    case True
    then show ?thesis
      using ty l3 unfolding xlat_tables_map_region_action_def Let_def c and_block_mask
      by (cases "l = 3") (auto simp: leaf_type_def not_less)
  next
    case False
    note pf = partial_facts [OF x t(1,2) mm m np False]
    then show ?thesis
      using ty False c(3) unfolding xlat_tables_map_region_action_def Let_def c
      by (auto simp: leaf_type_def)
  qed
qed

text \<open>The steps of the loop that write a descriptor, find one, or go into a table.\<close>

lemma write_step:
  assumes x: "xinv E C at {}" and t: "loc C at t = Some (l, b)" "i < nent C t" "unat w = b + i * bs l" and mm: "region_ok C mm" "attr_ok (attr mm)"
    and c: "rlo mm \<le> b + i * bs l" "b + i * bs l + bs l \<le> rhi mm" and e: "tbl C t ! i AND 3 = 0"
    and pa: "l = 3 \<or> bs l dvd unat (base_pa mm + w - base_va mm) \<and> 1 \<le> l \<and> bs l \<le> unat (granularity mm)"
  obtains d C1 where "xlat_desc E C (attr mm) (base_pa mm + w - base_va mm) l = Inr d" "tbl_put C t i d = Inr C1" "mpost E mm C at C1 at"
    "\<forall>va. b + i * bs l \<le> va \<and> va < b + i * bs l + bs l \<longrightarrow> covered C1 at va"
proof -
  let ?v = "b + i * bs l" and ?pa = "base_pa mm + w - base_va mm"
  have v: "?v < rhi mm" using c(2) bs_pos [of l] by linarith
  note p = entry_pa [OF x mm(1) t(3) c(1) v] and bl = block_in_space [OF x t(1,2)]
  have "bs l dvd unat ?pa"
  proof (cases "l = 3")
    case True
    have "4096 dvd ?v" using bl(1) True by (simp add: bs_3)
    then have "4096 dvd plo mm + (?v - rlo mm)" using mm(1) by (auto simp: region_ok_def intro: dvd_diff_nat)
    then show ?thesis using True p(1) by (simp add: bs_3)
  next
    case False
    then show ?thesis using pa by simp
  qed
  moreover have "regime_ok C" using invD(1) [OF x] by (simp add: tabs_wf_def)
  ultimately obtain d where d: "xlat_desc E C (attr mm) ?pa l = Inr d" "d AND 3 = leaf_type l"
    "\<And>va. xl_out d l va = (unat ?pa + va mod bs l, attrs_of E C (attr mm))"
    using xlat_desc_ok [of C "attr mm" l ?pa E] mm(2) p by metis
  note wl = write_leaf [OF x t(1,2) e d(2)]
  have put: "tbl_put C t i d = Inr (put t i d C)" by (rule tbl_access(3) [OF invD(1) [OF x] loc_facts(1) [OF x t(1)] t(2)])
  have out: "added E C at mm va d l" if "?v \<le> va" "va < ?v + bs l" for va
  proof -
    have blk: "va div bs l * bs l = ?v" by (rule block_of [OF bl(1) that])
    then have "va mod bs l = va - ?v" by (metis minus_div_mult_eq_mod)
    then have "xl_out d l va = (plo mm + (va - rlo mm), attrs_of E C (attr mm))" using d(3) p(1) c(1) that by simp
    moreover have "l = 3 \<or> one_block mm l ?v" using pa c p(1) by (auto simp: one_block_def)
    ultimately show ?thesis using wl(3) [OF that] blk c that by (simp add: added_def)
  qed
  have "mstep E mm C at (put t i d C) at" using wl(2) out unfolding mstep_def by auto
  moreover have "covered (put t i d C) at va" if "?v \<le> va" "va < ?v + bs l" for va using wl(2) that unfolding covered_def by blast
  ultimately show thesis using that [OF d(1) put] wl(1) by (simp add: mpost_def)
qed

lemma leaf_covers:
  assumes "xinv E C at X" "loc C at t = Some (l, b)" "i < nent C t" "tbl C t ! i AND 3 = leaf_type l"
  shows "\<forall>va. b + i * bs l \<le> va \<and> va < b + i * bs l + bs l \<longrightarrow> covered C at va"
  using mapsI [of C at t l i _ "tbl C t ! i"] assms(4) block_in_space(3) [OF assms(1-3)] unfolding covered_def by blast

lemma go_on_spec:
  assumes x: "xinv E C at X" and mm: "region_ok C mm" and al: "bs l dvd v" and w: "unat w = v + bs l"
    and p: "mpost E mm C at C1 at1" "\<forall>va. v \<le> va \<and> va < v + bs l \<and> rlo mm \<le> va \<and> va < rhi mm \<longrightarrow> covered C1 at1 va"
    and c: "v + bs l \<le> rhi mm" "v + bs l \<le> hi"
    and rest: "v + bs l < hi \<Longrightarrow> v + bs l < rhi mm \<Longrightarrow> mspec E mm C1 at1 (v + bs l) hi r" "v + bs l = hi \<Longrightarrow> r = Inr (w - 1, C1)"
  shows "mspec E mm C at v hi (if region_end mm \<le> w then Inr (w - 1, C1) else r)"
proof -
  note e = region_ok_ends [OF mm]
  have w1: "unat (w - 1) = v + bs l - 1" using w bs_pos [of l] unat_minus_one [of w] by (metis add_gr_0 unat_0 less_irrefl)
  have fin: "mspec E mm C at v hi (Inr (w - 1, C1))" if "v + bs l = min hi (rhi mm)"
  proof -
    have "unat (w - 1) + 1 = min hi (rhi mm)" using w1 that bs_pos [of l] by linarith
    moreover have "covered C1 at1 va" if "v \<le> va" "va < hi" "rlo mm \<le> va" "va < rhi mm" for va
      using that p(2) \<open>v + bs l = min hi (rhi mm)\<close> by auto
    ultimately show ?thesis using p(1) unfolding mspec_def by auto
  qed
  show ?thesis
  proof (cases "region_end mm \<le> w")
    case True
    then have "rhi mm \<le> v + bs l + 1" using w e(1,3) by (simp add: word_le_nat_alt)
    moreover have "rhi mm \<noteq> v + bs l + 1"
    proof
      assume r: "rhi mm = v + bs l + 1"
      have "4096 dvd rhi mm" "4096 dvd v + bs l" using mm al page_dvd_bs by (auto simp: region_ok_def ival_defs intro: dvd_trans)
      then have "4096 dvd (1 :: nat)" using r by (metis dvd_add_right_iff)
      then show False by simp
    qed
    ultimately show ?thesis using True fin c by simp
  next
    case False
    then have lt: "v + bs l < rhi mm" using w e(1) by (simp add: word_le_nat_alt)
    show ?thesis
    proof (cases "v + bs l < hi")
      case True
      have "mspec E mm C at v hi r"
        using rest(1) [OF True lt] p x by (intro mspec_seq [of E mm C at C1 at1 v "v + bs l"]) (simp_all add: mpost_def)
      then show ?thesis using False by simp
    next
      case no: False
      then have "v + bs l = hi" using c(2) by simp
      then show ?thesis using False rest(2) fin lt by simp
    qed
  qed
qed

lemma into_spec:
  assumes mm: "region_ok C mm" and al: "bs l dvd v" and w: "unat w = v + bs l" and c: "v + bs l \<le> hi"
    and sub: "mspec E mm C at v (v + bs l) r"
    and rest: "\<And>C1 at1. mpost E mm C at C1 at1 \<Longrightarrow> \<forall>va. v \<le> va \<and> va < v + bs l \<and> rlo mm \<le> va \<and> va < rhi mm \<longrightarrow> covered C1 at1 va
      \<Longrightarrow> v + bs l \<le> rhi mm \<Longrightarrow> mspec E mm C at v hi (go C1)"
  shows "mspec E mm C at v hi (andthen r (\<lambda>(e, C1). if e \<noteq> w - 1 then Inr (e, C1) else go C1))"
proof (cases r)
  case (Inl e)
  then show ?thesis using sub by (simp add: mspec_def)
next
  case (Inr p)
  obtain e C1 where r: "r = Inr (e, C1)" using Inr by (cases p) auto
  obtain at1 where a: "mpost E mm C at C1 at1"
    "unat e + 1 = min (v + bs l) (rhi mm) \<and> (\<forall>va. v \<le> va \<and> va < v + bs l \<and> rlo mm \<le> va \<and> va < rhi mm \<longrightarrow> covered C1 at1 va)
      \<or> 4096 dvd unat e \<and> short C at [mm]"
    using sub r by (auto simp: mspec_def)
  have w1: "unat (w - 1) + 1 = v + bs l" using w bs_pos [of l] unat_minus_one [of w]
    by (metis Suc_pred' add_gr_0 plus_1_eq_Suc add.commute unat_0 less_irrefl)
  from a(2) show ?thesis
  proof
    assume f: "4096 dvd unat e \<and> short C at [mm]"
    have "e \<noteq> w - 1"
    proof
      assume "e = w - 1"
      moreover have "4096 dvd v + bs l" using al page_dvd_bs by (auto intro: dvd_trans)
      ultimately have "4096 dvd (1 :: nat)" using f w1 by (metis dvd_add_right_iff)
      then show False by simp
    qed
    then show ?thesis using f a(1) r by (auto simp: mspec_def)
  next
    assume s: "unat e + 1 = min (v + bs l) (rhi mm) \<and> (\<forall>va. v \<le> va \<and> va < v + bs l \<and> rlo mm \<le> va \<and> va < rhi mm \<longrightarrow> covered C1 at1 va)"
    show ?thesis
    proof (cases "v + bs l \<le> rhi mm")
      case True
      then have "e = w - 1" using s w1 by (simp add: word_unat_eq_iff)
      then show ?thesis using rest [OF a(1)] s True r by simp
    next
      case False
      then have "e \<noteq> w - 1" using s w1 by auto
      moreover have "unat e + 1 = min hi (rhi mm)" using s False c by linarith
      moreover have "\<forall>va. v \<le> va \<and> va < hi \<and> rlo mm \<le> va \<and> va < rhi mm \<longrightarrow> covered C1 at1 va" using s False by auto
      ultimately show ?thesis using a(1) r unfolding mspec_def by auto
    qed
  qed
qed

section \<open>The loop over the entries of a table\<close>

lemma region_ok_keeps: "keeps_ctx C C' \<Longrightarrow> region_ok C mm \<Longrightarrow> region_ok C' mm"
  by (simp add: region_ok_def keeps_ctx_fields)

lemma xinv_drop:
  assumes "xinv E C at X" "\<And>n. n \<in> X \<Longrightarrow> \<not> is_free E C n"
  shows "xinv E C at {}"
  using assms unfolding xinv_def by blast

text \<open>What a call on a table of the given level does.\<close>

definition subspec :: "xlat_env \<Rightarrow> mmap_region \<Rightarrow> nat \<Rightarrow> bool" where
  "subspec E mm l \<longleftrightarrow> (\<forall>C at X n b w. xinv E C at X \<and> X \<subseteq> {n} \<and> (\<not> PLAT_XLAT_TABLES_DYNAMIC E \<longrightarrow> X = {}) \<and> at n = Some (l, b) \<and> unat w = b
     \<and> region_ok C mm \<and> no_partial C at mm \<and> rlo mm < b + 512 * bs l \<and> b < rhi mm \<longrightarrow>
     mspec E mm C at b (b + 512 * bs l) (xlat_tables_map_region E mm w (Sub n) 512 l C))"

lemma recurse_spec:
  assumes s: "subspec E mm (Suc l)" and l: "l < 3" and x: "xinv E C at X" "X \<subseteq> {n}" "\<not> PLAT_XLAT_TABLES_DYNAMIC E \<Longrightarrow> X = {}"
    and n: "at n = Some (Suc l, v)" "unat w = v" and mm: "region_ok C mm" "no_partial C at mm" "rlo mm < v + bs l" "v < rhi mm"
  shows "mspec E mm C at v (v + bs l) (xlat_tables_map_region E mm w (Sub n) 512 (Suc l) C)"
  using s x n mm unfolding subspec_def bs_Suc [OF l] by blast

lemma mspec_pre:
  assumes "mstep E mm C at C1 at1" "mspec E mm C1 at1 lo hi r" "xinv E C at X"
  shows "mspec E mm C at lo hi r"
  by (rule mspec_seq [OF assms(1) _ assms(2,3)]) auto

lemma want_entry:
  assumes x: "xinv E C at X" and t: "loc C at t = Some (l, b)" "i < nent C t" "tbl C t ! i AND 3 = 0" and l: "l < 3"
    and mm: "rlo mm < b + i * bs l + bs l" "b + i * bs l < rhi mm" "\<not> one_block mm l (b + i * bs l)"
  shows "(Suc l, b + i * bs l) \<in> wanted C at [mm]"
  using empty_entry(1) [OF x t l] loc_facts(2) [OF x t(1)] block_in_space(1) [OF x t(1,2)] l mm
  by (simp add: wanted_def needs_table_def meets_def)

lemma create_spec:
  assumes s: "subspec E mm (Suc l)" and l: "l < 3" and x: "xinv E C at {}"
    and t: "loc C at t = Some (l, b)" "i < nent C t" "tbl C t ! i AND 3 = 0" "unat w = b + i * bs l"
    and n: "n < tables_num C" "at n = None" "\<not> PLAT_XLAT_TABLES_DYNAMIC E \<Longrightarrow> next_table C = n"
    and mm: "region_ok C mm" "no_partial C at mm" "rlo mm < b + i * bs l + bs l" "b + i * bs l < rhi mm"
    and nb: "\<not> one_block mm l (b + i * bs l)"
  defines "C1 \<equiv> C\<lparr>next_table := (if PLAT_XLAT_TABLES_DYNAMIC E then next_table C else Suc n)\<rparr>"
  obtains C2 where "tbl_put C1 t i (TABLE_DESC OR table_addr C1 n) = Inr C2"
    "mspec E mm C at
      (b + i * bs l) (b + i * bs l + bs l) (xlat_tables_map_region E mm w (Sub n) 512 (Suc l) C2)"
proof -
  let ?v = "b + i * bs l" and ?at = "at(n \<mapsto> (Suc l, b + i * bs l))" and ?C2 = "put t i (TABLE_DESC OR table_addr C n) C1"
  note lt = link_table [OF x t(1-3) l n, folded C1_def]
  define X where "X = (if PLAT_XLAT_TABLES_DYNAMIC E then {n} else {})"
  have "keeps_ctx C C1" unfolding keeps_ctx_def C1_def
    by (rule exI [of _ "base_table C"], rule exI [of _ "tables C"], rule exI [of _ "tables_mapped_regions C"],
      rule exI [of _ "if PLAT_XLAT_TABLES_DYNAMIC E then next_table C else Suc n"]) simp
  then have k: "keeps_ctx C ?C2" using keeps_ctx_put by (rule keeps_ctx_trans)
  have "\<not> is_free E ?C2 n" if "\<not> PLAT_XLAT_TABLES_DYNAMIC E" using that by (simp add: is_free_def C1_def)
  then have x2: "xinv E ?C2 ?at X" using lt(1) xinv_drop [OF lt(1)] unfolding X_def by (auto split: if_splits)
  have "at \<subseteq>\<^sub>m ?at" using n(2) by (auto simp: map_le_def dom_def)
  moreover have "ran ?at \<subseteq> ran at \<union> wanted C at [mm]"
    using want_entry [OF x t(1-3) l mm(3,4) nb] n(2) by (auto simp: ran_def split: if_splits)
  ultimately have st: "mstep E mm C at ?C2 ?at" using k lt(2) unfolding mstep_def by simp
  have "mspec E mm ?C2 ?at ?v (?v + bs l) (xlat_tables_map_region E mm w (Sub n) 512 (Suc l) ?C2)"
    using region_ok_keeps [OF k mm(1)] mstep_no_partial [OF st mm(2)] t(4) mm(3,4)
    by (intro recurse_spec [OF s l x2]) (auto simp: X_def)
  then show thesis using that [OF lt(3)] mspec_pre [OF st _ x] by simp
qed

lemma full_short:
  assumes x: "xinv E C at X" and f: "\<forall>n < tables_num C. at n \<noteq> None" and p: "p \<in> wanted C at rs" "p \<notin> ran at"
  shows "short C at rs"
proof -
  have "dom at = {..<tables_num C}" using dom_at [OF x] f by auto
  then have "card (ran at) = tables_num C" using finite_places [OF x] by simp
  moreover have "ran at \<subset> ran at \<union> wanted C at rs" using p by auto
  then have "card (ran at) < card (ran at \<union> wanted C at rs)"
    using finite_places [OF x] finite_wanted by (intro psubset_card_mono) auto
  ultimately show ?thesis by (simp add: short_def)
qed

lemma entry_cases:
  assumes x: "xinv E C at X" and t: "loc C at t = Some (l, b)" "i < nent C t" "unat w = b + i * bs l" and mm: "region_ok C mm"
    and m: "rlo mm < b + i * bs l + bs l" "b + i * bs l < rhi mm" and np: "no_partial C at mm"
  obtains (leaf) "rlo mm \<le> b + i * bs l" "b + i * bs l + bs l \<le> rhi mm" "tbl C t ! i AND 3 = 0"
      "l = 3 \<or> bs l dvd unat pa \<and> 1 \<le> l \<and> bs l \<le> unat (granularity mm)"
      "xlat_tables_map_region_action mm (tbl C t ! i AND 3) pa w l = Inr ACTION_WRITE_BLOCK_ENTRY"
    | (present) "b + i * bs l + bs l \<le> rhi mm" "tbl C t ! i AND 3 = leaf_type l"
      "xlat_tables_map_region_action mm (tbl C t ! i AND 3) pa w l = Inr ACTION_NONE"
    | (create) "l < 3" "tbl C t ! i AND 3 = 0"
      "\<not> (rlo mm \<le> b + i * bs l \<and> b + i * bs l + bs l \<le> rhi mm \<and> bs l dvd unat pa \<and> 1 \<le> l \<and> bs l \<le> unat (granularity mm))"
      "xlat_tables_map_region_action mm (tbl C t ! i AND 3) pa w l = Inr ACTION_CREATE_NEW_TABLE"
    | (table) "l < 3" "tbl C t ! i AND 3 = 3" "tbl C t ! i AND 3 \<noteq> leaf_type l"
      "xlat_tables_map_region_action mm (tbl C t ! i AND 3) pa w l = Inr ACTION_RECURSE_INTO_TABLE"
proof -
  let ?ty = "tbl C t ! i AND 3" and ?in = "rlo mm \<le> b + i * bs l \<and> b + i * bs l + bs l \<le> rhi mm"
  note ac = map_action [OF x t mm m np, of pa] and pf = partial_facts [OF x t(1,2) mm m np]
  have l: "l \<le> 3" by (rule loc_facts(3) [OF x t(1)])
  consider (z) "?ty = 0" | (f) "?ty = leaf_type l" "?ty \<noteq> 0" | (s) "l < 3" "?ty = 3" "?ty \<noteq> leaf_type l"
    using invD(5) [OF x t(1,2)] table_addr_facts(2) [OF invD(1) [OF x]] by (fastforce simp: entry_ok_def)
  then show thesis
  proof cases
    case z
    show thesis
    proof (cases "?in \<and> (l = 3 \<or> bs l dvd unat pa \<and> 1 \<le> l \<and> bs l \<le> unat (granularity mm))")
      case True
      then show thesis using leaf ac z by auto
    next
      case False
      then have "l < 3" using pf(1) l by (cases ?in) auto
      then show thesis using create ac z False by (auto split: if_splits)
    qed
  next
    case f
    then have ?in using pf(2) by blast
    then show thesis using present ac f by simp
  next
    case s
    then have "?ty \<noteq> 0" by simp
    then have "xlat_tables_map_region_action mm ?ty pa w l = Inr ACTION_RECURSE_INTO_TABLE" unfolding ac using s(3) by simp
    then show thesis by (rule table [OF s])
  qed
qed

text \<open>One entry of the table, with what the loop goes on with.\<close>

definition go_on :: "mmap_region \<Rightarrow> u64 \<Rightarrow> (xlat_ctx \<Rightarrow> (u64 \<times> xlat_ctx) res) \<Rightarrow> xlat_ctx \<Rightarrow> (u64 \<times> xlat_ctx) res" where
  "go_on mm w K = (\<lambda>C. if region_end mm \<le> w then Inr (w - 1, C) else K C)"

definition go_into :: "xlat_env \<Rightarrow> mmap_region \<Rightarrow> u64 \<Rightarrow> u64 \<Rightarrow> nat \<Rightarrow> (xlat_ctx \<Rightarrow> (u64 \<times> xlat_ctx) res) \<Rightarrow> tptr \<Rightarrow> xlat_ctx \<Rightarrow> (u64 \<times> xlat_ctx) res" where
  "go_into E mm w w' l K s = (\<lambda>C. andthen (xlat_tables_map_region E mm w s 512 (Suc l) C)
     (\<lambda>(e, C). if e \<noteq> w' - 1 then Inr (e, C) else go_on mm w' K C))"

lemma entry_spec:
  assumes x: "xinv E C at {}" and t: "loc C at t = Some (l, b)" "i < nent C t" "unat w = b + i * bs l" "b + nent C t * bs l = hi"
    and mm: "region_ok C mm" "attr_ok (attr mm)" "no_partial C at mm" "rlo mm < b + i * bs l + bs l" "b + i * bs l < rhi mm"
    and sub: "l < 3 \<Longrightarrow> subspec E mm (Suc l)"
    and rest: "\<And>C1 at1. mpost E mm C at C1 at1 \<Longrightarrow>
      \<forall>va. b + i * bs l \<le> va \<and> va < b + i * bs l + bs l \<and> rlo mm \<le> va \<and> va < rhi mm \<longrightarrow> covered C1 at1 va
      \<Longrightarrow> b + i * bs l + bs l \<le> rhi mm \<Longrightarrow> mspec E mm C at (b + i * bs l) hi (go_on mm (w + xlat_block_size l) K C1)"
  shows "mspec E mm C at (b + i * bs l) hi
    (andthen (xlat_tables_map_region_action mm (tbl C t ! i AND 3) (base_pa mm + w - base_va mm) w l) (\<lambda>action.
       case action of
         ACTION_WRITE_BLOCK_ENTRY \<Rightarrow>
           andthen (xlat_desc E C (attr mm) (base_pa mm + w - base_va mm) l) (\<lambda>d. andthen (tbl_put C t i d) (go_on mm (w + xlat_block_size l) K))
       | ACTION_CREATE_NEW_TABLE \<Rightarrow>
           andthen (xlat_table_get_empty E C) (\<lambda>(n, C). case n of None \<Rightarrow> Inr (w, C)
             | Some n \<Rightarrow> andthen (tbl_put C t i (TABLE_DESC OR table_addr C n)) (go_into E mm w (w + xlat_block_size l) l K (Sub n)))
       | ACTION_RECURSE_INTO_TABLE \<Rightarrow> andthen (subtable C (tbl C t ! i)) (\<lambda>s. go_into E mm w (w + xlat_block_size l) l K s C)
       | ACTION_NONE \<Rightarrow> go_on mm (w + xlat_block_size l) K C))"
proof -
  let ?v = "b + i * bs l"
  note ev = entry_va [OF x t(1-3)] and bl = block_in_space [OF x t(1,2)]
  have hi: "?v + bs l \<le> hi"
  proof -
    have "Suc i * bs l \<le> nent C t * bs l" using t(2) by (intro mult_le_mono1) simp
    then show ?thesis using t(4) by simp
  qed
  have into: "mspec E mm C at ?v hi (go_into E mm w (w + xlat_block_size l) l K (Sub n) C2)"
    if "mspec E mm C at ?v (?v + bs l) (xlat_tables_map_region E mm w (Sub n) 512 (Suc l) C2)" for n C2
    unfolding go_into_def by (rule into_spec [OF mm(1) bl(1) ev(1) hi that]) (rule rest)
  consider (w) "rlo mm \<le> ?v" "?v + bs l \<le> rhi mm" "tbl C t ! i AND 3 = 0"
      "l = 3 \<or> bs l dvd unat (base_pa mm + w - base_va mm) \<and> 1 \<le> l \<and> bs l \<le> unat (granularity mm)"
      "xlat_tables_map_region_action mm (tbl C t ! i AND 3) (base_pa mm + w - base_va mm) w l = Inr ACTION_WRITE_BLOCK_ENTRY"
    | (n) "?v + bs l \<le> rhi mm" "tbl C t ! i AND 3 = leaf_type l"
      "xlat_tables_map_region_action mm (tbl C t ! i AND 3) (base_pa mm + w - base_va mm) w l = Inr ACTION_NONE"
    | (c) "l < 3" "tbl C t ! i AND 3 = 0" "\<not> (rlo mm \<le> ?v \<and> ?v + bs l \<le> rhi mm \<and> bs l dvd unat (base_pa mm + w - base_va mm) \<and> 1 \<le> l \<and> bs l \<le> unat (granularity mm))"
      "xlat_tables_map_region_action mm (tbl C t ! i AND 3) (base_pa mm + w - base_va mm) w l = Inr ACTION_CREATE_NEW_TABLE"
    | (r) "l < 3" "tbl C t ! i AND 3 = 3" "tbl C t ! i AND 3 \<noteq> leaf_type l"
      "xlat_tables_map_region_action mm (tbl C t ! i AND 3) (base_pa mm + w - base_va mm) w l = Inr ACTION_RECURSE_INTO_TABLE"
    using entry_cases [OF x t(1-3) mm(1,4,5,3), of "base_pa mm + w - base_va mm"] by metis
  then show ?thesis
  proof cases
    case w
    obtain d C1 where d: "xlat_desc E C (attr mm) (base_pa mm + w - base_va mm) l = Inr d" "tbl_put C t i d = Inr C1" "mpost E mm C at C1 at"
      "\<forall>va. ?v \<le> va \<and> va < ?v + bs l \<longrightarrow> covered C1 at va"
      by (rule write_step [OF x t(1-3) mm(1,2) w(1-4)])
    have "mspec E mm C at ?v hi (go_on mm (w + xlat_block_size l) K C1)" using d(4) by (intro rest [OF d(3) _ w(2)]) blast
    then show ?thesis using w(5) d(1,2) by simp
  next
    case n
    have p: "mpost E mm C at C at" using x mstep_refl by (simp add: mpost_def)
    have "mspec E mm C at ?v hi (go_on mm (w + xlat_block_size l) K C)"
      using leaf_covers [OF x t(1,2) n(2)] by (intro rest [OF p _ n(1)]) blast
    then show ?thesis using n(3) by simp
  next
    case c
    have nb: "\<not> one_block mm l ?v" using c(3) entry_pa [OF x mm(1) t(3) _ mm(5)] by (auto simp: one_block_def)
    show ?thesis
    proof (cases rule: get_empty_spec [OF x])
      case 1
      have s: "short C at [mm]"
        by (rule full_short [OF x 1(2) want_entry [OF x t(1,2) c(2,1) mm(4,5) nb] empty_entry(2) [OF x t(1,2) c(2,1)]])
      have "4096 dvd unat w" using bl(1) page_dvd_bs t(3) by (metis dvd_trans)
      moreover have "mpost E mm C at C at" using x mstep_refl by (simp add: mpost_def)
      ultimately show ?thesis using s c(4) 1(1) by (auto simp: mspec_def)
    next
      case (2 n C1)
      obtain C2 where "tbl_put C1 t i (TABLE_DESC OR table_addr C1 n) = Inr C2"
        "mspec E mm C at ?v (?v + bs l) (xlat_tables_map_region E mm w (Sub n) 512 (Suc l) C2)"
        using create_spec [OF sub [OF c(1)] c(1) x t(1,2) c(2) t(3) 2(2,3) 2(5) mm(1,3-5) nb, folded 2(4)] by metis
      then show ?thesis using c(4) 2(1) into by simp
    qed
  next
    case r
    obtain n where n: "n < tables_num C" "tbl C t ! i = TABLE_DESC OR table_addr C n" "at n = Some (Suc l, ?v)"
      using invD(5) [OF x t(1,2)] r(2,3) by (auto simp: entry_ok_def)
    have "mspec E mm C at ?v (?v + bs l) (xlat_tables_map_region E mm w (Sub n) 512 (Suc l) C)"
      by (rule recurse_spec [OF sub [OF r(1)] r(1) x _ _ n(3) t(3) mm(1,3-5)]) auto
    then show ?thesis using r(4) n(2) table_addr_facts(4) [OF invD(1) [OF x] n(1)] into by simp
  qed
qed

lemma map_loop_entry:
  assumes x: "xinv E C at {}" and t: "loc C at t = Some (l, b)" "i < nent C t"
  shows "map_loop E mm t (nent C t) l i w C =
    andthen (xlat_tables_map_region_action mm (tbl C t ! i AND 3) (base_pa mm + w - base_va mm) w l) (\<lambda>action.
       case action of
         ACTION_WRITE_BLOCK_ENTRY \<Rightarrow>
           andthen (xlat_desc E C (attr mm) (base_pa mm + w - base_va mm) l) (\<lambda>d. andthen (tbl_put C t i d)
             (go_on mm (w + xlat_block_size l) (map_loop E mm t (nent C t) l (Suc i) (w + xlat_block_size l))))
       | ACTION_CREATE_NEW_TABLE \<Rightarrow>
           andthen (xlat_table_get_empty E C) (\<lambda>(n, C1). case n of None \<Rightarrow> Inr (w, C1)
             | Some n \<Rightarrow> andthen (tbl_put C1 t i (TABLE_DESC OR table_addr C1 n))
                 (go_into E mm w (w + xlat_block_size l) l (map_loop E mm t (nent C t) l (Suc i) (w + xlat_block_size l)) (Sub n)))
       | ACTION_RECURSE_INTO_TABLE \<Rightarrow> andthen (subtable C (tbl C t ! i)) (\<lambda>s.
             go_into E mm w (w + xlat_block_size l) l (map_loop E mm t (nent C t) l (Suc i) (w + xlat_block_size l)) s C)
       | ACTION_NONE \<Rightarrow> go_on mm (w + xlat_block_size l) (map_loop E mm t (nent C t) l (Suc i) (w + xlat_block_size l)) C)"
proof -
  note g = tbl_access(2) [OF invD(1) [OF x] loc_facts(1) [OF x t(1)] t(2)]
  have l: "\<not> 3 < l" using loc_facts(3) [OF x t(1)] by simp
  show ?thesis
    unfolding map_loop.simps [of E mm t "nent C t" l i w C] g
    unfolding Let_def go_on_def go_into_def
    using t(2) l by (simp del: map_loop.simps xlat_tables_map_region.simps cong del: option.case_cong)
qed

lemma map_loop_spec:
  assumes sub: "l < 3 \<Longrightarrow> subspec E mm (Suc l)" and a: "attr_ok (attr mm)"
  shows "xinv E C at {} \<Longrightarrow> loc C at t = Some (l, b) \<Longrightarrow> i < nent C t \<Longrightarrow> unat w = b + i * bs l \<Longrightarrow> region_ok C mm \<Longrightarrow> no_partial C at mm
    \<Longrightarrow> rlo mm < b + i * bs l + bs l \<Longrightarrow> b + i * bs l < rhi mm
    \<Longrightarrow> mspec E mm C at (b + i * bs l) (b + nent C t * bs l)
      (map_loop E mm t (nent C t) l i w C)"
proof (induction "nent C t - i" arbitrary: C at i w)
  case 0
  then show ?case by simp
next
  case (Suc k)
  let ?v = "b + i * bs l" and ?hi = "b + nent C t * bs l"
  note x = Suc.prems(1) and t = Suc.prems(2-4) and mm = Suc.prems(5-8)
  note ev = entry_va [OF x t] and bl = block_in_space [OF x t(1,2)]
  have hi: "?v + bs l \<le> ?hi" "?v + bs l = ?hi \<longleftrightarrow> Suc i = nent C t"
  proof -
    have "Suc i * bs l \<le> nent C t * bs l" using t(2) by (intro mult_le_mono1) simp
    then show "?v + bs l \<le> ?hi" by simp
    have "Suc i * bs l = nent C t * bs l \<longleftrightarrow> Suc i = nent C t" by (simp only: mult_cancel2 bs_neq_0) simp
    then show "?v + bs l = ?hi \<longleftrightarrow> Suc i = nent C t" by auto
  qed
  let ?w = "w + xlat_block_size l"
  have rest: "mspec E mm C at ?v ?hi (go_on mm ?w (map_loop E mm t (nent C t) l (Suc i) ?w) C1)"
    if p: "mpost E mm C at C1 at1"
      "\<forall>va. ?v \<le> va \<and> va < ?v + bs l \<and> rlo mm \<le> va \<and> va < rhi mm \<longrightarrow> covered C1 at1 va" "?v + bs l \<le> rhi mm" for C1 at1
    unfolding go_on_def
  proof (rule go_on_spec [OF x mm(1) bl(1) ev(1) p hi(1)])
    assume c: "?v + bs l < ?hi" "?v + bs l < rhi mm"
    have s: "mstep E mm C at C1 at1" and x1: "xinv E C1 at1 {}" using p(1) by (auto simp: mpost_def)
    note k = keeps_ctx_fields [OF mstepD(1) [OF s]]
    have t1: "loc C1 at1 t = Some (l, b)" using t(1) mstepD(2) [OF s] unfolding k by (cases t) (auto simp: map_le_def dom_def)
    have v: "b + Suc i * bs l = ?v + bs l" by simp
    have "mspec E mm C1 at1 (b + Suc i * bs l) (b + nent C1 t * bs l)
      (map_loop E mm t (nent C1 t) l (Suc i) ?w C1)"
    proof (rule Suc.hyps(1) [OF _ x1 t1])
      show "k = nent C1 t - Suc i" using Suc.hyps(2) k(14) by simp
      show "Suc i < nent C1 t" using hi(2) c(1) t(2) k(14) by (metis Suc_lessI less_irrefl)
      show "unat ?w = b + Suc i * bs l" using ev(1) v by simp
      show "region_ok C1 mm" by (rule region_ok_keeps [OF mstepD(1) [OF s] mm(1)])
      show "no_partial C1 at1 mm" by (rule mstep_no_partial [OF s mm(2)])
      show "rlo mm < b + Suc i * bs l + bs l" "b + Suc i * bs l < rhi mm" using mm(3) c(2) by simp_all
    qed
    then show "mspec E mm C1 at1 (?v + bs l) ?hi (map_loop E mm t (nent C t) l (Suc i) ?w C1)"
      unfolding k v by simp
  next
    assume "?v + bs l = ?hi"
    then show "map_loop E mm t (nent C t) l (Suc i) ?w C1 = Inr (?w - 1, C1)" using hi(2) by (subst map_loop.simps) simp
  qed
  show ?case unfolding map_loop_entry [OF x t(1,2)]
    by (rule entry_spec [OF x t refl mm(1) a mm(2-4) sub rest])
qed

section \<open>Whole tables\<close>

declare map_loop.simps [simp del] xlat_tables_map_region.simps [simp del]

lemma start_spec:
  assumes x: "xinv E C at X" and t: "loc C at t = Some (l, b)" "unat w = b" and mm: "region_ok C mm" "rlo mm < b + nent C t * bs l" "b < rhi mm"
  defines "s \<equiv> xlat_tables_find_start_va mm w l" and "i \<equiv> xlat_tables_va_to_index w (xlat_tables_find_start_va mm w l) l"
  shows "i < nent C t" "unat s = b + i * bs l" "rlo mm < b + i * bs l + bs l" "b + i * bs l = b \<or> b + i * bs l \<le> rlo mm" "b + i * bs l < rhi mm"
proof -
  have al: "bs l dvd b" by (rule loc_facts(4) [OF x t(1)])
  then obtain c where c: "b = c * bs l" by (metis dvd_def mult.commute)
  define j where "j = (if b < rlo mm then rlo mm div bs l - c else 0)"
  have jc: "c \<le> rlo mm div bs l" if "b < rlo mm" using that c by (simp add: less_eq_div_iff_mult_less_eq)
  have us: "unat s = b + j * bs l"
  proof (cases "b < rlo mm")
    case True
    then have "w < base_va mm" using t(2) by (simp add: word_less_nat_alt rlo_def)
    then have "unat s = rlo mm div bs l * bs l" by (simp add: s_def xlat_tables_find_start_va_def unat_and_not_mask rlo_def)
    also have "\<dots> = b + j * bs l" using True jc c by (simp add: j_def diff_mult_distrib)
    finally show ?thesis .
  next
    case False
    then have "\<not> w < base_va mm" using t(2) by (simp add: word_less_nat_alt rlo_def)
    then show ?thesis using False t(2) by (simp add: s_def xlat_tables_find_start_va_def j_def)
  qed
  have v: "b + j * bs l = b \<or> b + j * bs l \<le> rlo mm"
    using us by (cases "b < rlo mm") (auto simp: j_def c add_mult_distrib [symmetric] jc [unfolded c])
  have lt: "rlo mm < b + j * bs l + bs l"
  proof (cases "b < rlo mm")
    case True
    then have "b + j * bs l = rlo mm div bs l * bs l" using jc c by (simp add: j_def diff_mult_distrib)
    then show ?thesis using dividend_less_div_times [of "bs l" "rlo mm"] by simp
  next
    case False
    then show ?thesis using bs_pos [of l] by (simp add: j_def del: bs_pos)
  qed
  have jn: "j < nent C t"
  proof -
    have "base_table_entries C * bs (base_level C) = unat (va_max_address C) + 1" using invD(1) [OF x] by (simp add: tabs_wf_def)
    then have "0 < nent C t" by (cases t) (auto intro: gr0I)
    then have "0 < nent C t * bs l" by simp
    then have "j * bs l < nent C t * bs l" using v mm(2) by linarith
    then show ?thesis by simp
  qed
  have "i = (unat s - unat w) div bs l" unfolding i_def s_def [symmetric]
  proof (rule va_to_index)
    show "unat w \<le> unat s" using us t(2) by simp
    have "nent C t \<le> 512" using invD(1) [OF x] by (cases t) (simp_all add: tabs_wf_def)
    then show "(unat s - unat w) div bs l < 2 ^ 32" using us t(2) jn by simp
  qed
  then have i: "i = j" using us t(2) by simp
  show "i < nent C t" "unat s = b + i * bs l" "rlo mm < b + i * bs l + bs l" "b + i * bs l = b \<or> b + i * bs l \<le> rlo mm" 
    using jn us v lt unfolding i by auto
  show "b + i * bs l < rhi mm" using v mm(3) region_ok_ends(3) [OF mm(1)] unfolding i by linarith
qed

lemma map_table_spec:
  assumes x: "xinv E C at {}" and t: "loc C at t = Some (l, b)" "unat w = b"
    and mm: "region_ok C mm" "attr_ok (attr mm)" "no_partial C at mm" "rlo mm < b + nent C t * bs l" "b < rhi mm"
    and sub: "l < 3 \<Longrightarrow> subspec E mm (Suc l)"
  shows "mspec E mm C at b (b + nent C t * bs l)
    (map_loop E mm t (nent C t) l (xlat_tables_va_to_index w (xlat_tables_find_start_va mm w l) l) (xlat_tables_find_start_va mm w l) C)"
proof -
  let ?s = "xlat_tables_find_start_va mm w l"
  let ?i = "xlat_tables_va_to_index w ?s l"
  note s = start_spec [OF x t mm(1,4,5)]
  have "mspec E mm C at (b + ?i * bs l) (b + nent C t * bs l) (map_loop E mm t (nent C t) l ?i ?s C)"
    by (rule map_loop_spec [OF sub mm(2) x t(1) s(1,2) mm(1,3) s(3,5)])
  then show ?thesis using s(4) x by (intro mspec_seq [OF mstep_refl, of b "b + ?i * bs l"]) auto
qed

lemma subspec_all:
  assumes a: "attr_ok (attr mm)"
  shows "1 \<le> l \<Longrightarrow> l \<le> 3 \<Longrightarrow> subspec E mm l"
proof (induction "3 - l" arbitrary: l rule: less_induct)
  case less
  have sub: "l < 3 \<Longrightarrow> subspec E mm (Suc l)" using less.hyps less.prems by simp
  show ?case unfolding subspec_def
  proof (intro allI impI, elim conjE)
    fix C at X n b and w :: u64
    assume x: "xinv E C at X" "X \<subseteq> {n}" "\<not> PLAT_XLAT_TABLES_DYNAMIC E \<longrightarrow> X = {}" and n: "at n = Some (l, b)" "unat w = b"
      and mm: "region_ok C mm" "no_partial C at mm" "rlo mm < b + 512 * bs l" "b < rhi mm"
    have bl: "base_level C < l" using invD(2) [OF x(1) n(1)] by (simp add: place_ok_def)
    obtain C1 where C1: "(if PLAT_XLAT_TABLES_DYNAMIC E \<and> base_level C < l then xlat_table_inc_regions_count (Sub n) C else Inr C) = Inr C1"
      "xinv E C1 at {}" "keeps_ctx C C1" "\<And>va d k. maps C1 at va d k = maps C at va d k"
    proof (cases "PLAT_XLAT_TABLES_DYNAMIC E")
      case True
      show thesis by (rule inc_count [OF x(1) n(1) x(2) True]) (use that True bl in simp)
    next
      case False
      then show thesis using that [of C] x by simp
    qed
    have s: "mstep E mm C at C1 at" using C1(3,4) by (simp add: mstep_def)
    have t: "loc C1 at (Sub n) = Some (l, b)" "nent C1 (Sub n) = 512" using n(1) by simp_all
    have "mspec E mm C1 at b (b + 512 * bs l)
      (map_loop E mm (Sub n) 512 l (xlat_tables_va_to_index w (xlat_tables_find_start_va mm w l) l) (xlat_tables_find_start_va mm w l) C1)"
      using map_table_spec [OF C1(2) t(1) n(2) region_ok_keeps [OF C1(3) mm(1)] a mstep_no_partial [OF s mm(2)] _ mm(4) sub] mm(3) t(2) by simp
    then have "mspec E mm C at b (b + 512 * bs l)
      (map_loop E mm (Sub n) 512 l (xlat_tables_va_to_index w (xlat_tables_find_start_va mm w l) l) (xlat_tables_find_start_va mm w l) C1)"
      by (rule mspec_pre [OF s _ x(1)])
    then show "mspec E mm C at b (b + 512 * bs l) (xlat_tables_map_region E mm w (Sub n) 512 l C)"
      unfolding xlat_tables_map_region.simps Let_def C1(1) using bl less.prems by simp
  qed
qed

text \<open>Mapping a region from the base table.\<close>

lemma map_region_spec:
  assumes x: "xinv E C at {}" and mm: "region_ok C mm" "attr_ok (attr mm)" "no_partial C at mm"
  shows "mspec E mm C at 0 (vspace C)
    (xlat_tables_map_region E mm 0 Base (base_table_entries C) (base_level C) C)"
proof -
  note r = region_ok_ends [OF mm(1)]
  have l: "base_level C \<le> 3" using loc_facts(3) [OF x, of Base] by simp
  have v: "rhi mm \<le> vspace C" "rlo mm < vspace C" using mm(1) vspace_bound [OF x] r(3) by (auto simp: region_ok_def)
  have "mspec E mm C at 0 (0 + nent C Base * bs (base_level C))
    (map_loop E mm Base (nent C Base) (base_level C) (xlat_tables_va_to_index 0 (xlat_tables_find_start_va mm 0 (base_level C)) (base_level C))
      (xlat_tables_find_start_va mm 0 (base_level C)) C)"
    using v r(3) l by (intro map_table_spec [OF x _ _ mm] subspec_all [OF mm(2)]) (auto simp: vspace_def)
  then show ?thesis using v l by (simp add: vspace_def xlat_tables_map_region.simps Let_def)
qed

end
