(* ===== verification/Tftf_Xlat_Init.thy ===== *)
theory Tftf_Xlat_Init
  imports Tftf_Xlat_Map
begin

text \<open>
  Initialising the translation tables of a context. The regions of the context are mapped one after another; afterwards a walk
  of the tables finds, for every address, the innermost region that contains it.
\<close>

section \<open>The regions of a context\<close>

definition inside :: "nat \<Rightarrow> mmap_region \<Rightarrow> bool" where
  "inside va r \<longleftrightarrow> rlo r \<le> va \<and> va < rhi r"

definition region_at :: "mmap_region list \<Rightarrow> nat \<Rightarrow> mmap_region option" where
  "region_at rs va = find (inside va) rs"

lemma region_at_Some: "region_at rs va = Some r \<Longrightarrow> r \<in> set rs \<and> inside va r"
  by (auto simp: region_at_def find_Some_iff)

lemma region_at_None: "region_at rs va = None \<longleftrightarrow> (\<forall>r \<in> set rs. \<not> inside va r)"
  by (auto simp: region_at_def find_None_iff)

lemma region_at_snoc: "region_at (rs @ [mm]) va = (case region_at rs va of Some r \<Rightarrow> Some r | None \<Rightarrow> if inside va mm then Some mm else None)"
  by (induction rs) (auto simp: region_at_def)

lemma region_at_innermost:
  assumes "sorted_wrt comes_before rs" "region_at rs va = Some r" "s \<in> set rs" "inside va s"
  shows "rlo s \<le> rlo r \<and> rhi r \<le> rhi s"
  using assms
  by (induction rs) (auto simp: region_at_def comes_before_def inside_def split: if_splits)

text \<open>
  The tables translate the addresses of the given regions, and only those. The first region of the array that contains an address
  decides where it goes and with which attributes. A descriptor lies in the region it was written for, and is a block
  descriptor only where the region can be entered with one.
\<close>

definition maps_regions :: "xlat_env \<Rightarrow> mmap_region list \<Rightarrow> xlat_ctx \<Rightarrow> places \<Rightarrow> bool" where
  "maps_regions E rs C at \<longleftrightarrow> xinv E C at {}
     \<and> (\<forall>va d k. maps C at va d k \<longrightarrow> (\<exists>r. region_at rs va = Some r \<and> xl_out d k va = (plo r + (va - rlo r), attrs_of E C (attr r))
          \<and> rlo r \<le> va div bs k * bs k \<and> va div bs k * bs k + bs k \<le> rhi r
          \<and> (k = 3 \<or> one_block r k (va div bs k * bs k))))
     \<and> (\<forall>va. region_at rs va \<noteq> None \<longrightarrow> covered C at va)"

lemma maps_regions_no_partial:
  assumes m: "maps_regions E rs C at" and b: "\<forall>r \<in> set rs. comes_before r mm"
  shows "no_partial C at mm"
  unfolding no_partial_def
proof (intro allI impI)
  fix va d k
  assume a: "maps C at va d k \<and> rlo mm \<le> va \<and> va < rhi mm"
  obtain r where r: "region_at rs va = Some r" "rlo r \<le> va div bs k * bs k" "va div bs k * bs k + bs k \<le> rhi r"
    using m a unfolding maps_regions_def by blast
  have "comes_before r mm" "inside va r" using b region_at_Some [OF r(1)] by auto
  then show "rlo mm \<le> va div bs k * bs k \<and> va div bs k * bs k + bs k \<le> rhi mm"
    using a r(2,3) by (auto simp: comes_before_def inside_def)
qed

lemma maps_regions_snoc:
  assumes m: "maps_regions E rs C at" and p: "mpost E mm C at C1 at1" and c: "\<And>va. inside va mm \<Longrightarrow> covered C1 at1 va"
  shows "maps_regions E (rs @ [mm]) C1 at1"
  unfolding maps_regions_def
proof (intro conjI allI impI)
  have s: "mstep E mm C at C1 at1" and x1: "xinv E C1 at1 {}" using p by (auto simp: mpost_def)
  note k = keeps_ctx_fields(16) [OF mstepD(1) [OF s]]
  show "xinv E C1 at1 {}" by (rule x1)
  show "covered C1 at1 va" if "region_at (rs @ [mm]) va \<noteq> None" for va
  proof (cases "region_at rs va")
    case None
    then show ?thesis using that c by (auto simp: region_at_snoc split: if_splits)
  next
    case (Some r)
    then show ?thesis using m mstepD(6) [OF s] by (simp add: maps_regions_def)
  qed
  fix va d j
  assume a: "maps C1 at1 va d j"
  show "\<exists>r. region_at (rs @ [mm]) va = Some r \<and> xl_out d j va = (plo r + (va - rlo r), attrs_of E C1 (attr r))
    \<and> rlo r \<le> va div bs j * bs j \<and> va div bs j * bs j + bs j \<le> rhi r \<and> (j = 3 \<or> one_block r j (va div bs j * bs j))"
  proof (cases "maps C at va d j")
    case True
    then obtain r where "region_at rs va = Some r" "xl_out d j va = (plo r + (va - rlo r), attrs_of E C (attr r))"
      "rlo r \<le> va div bs j * bs j" "va div bs j * bs j + bs j \<le> rhi r" "j = 3 \<or> one_block r j (va div bs j * bs j)" using m unfolding maps_regions_def by blast
    then show ?thesis using k by (simp add: region_at_snoc)
  next
    case False
    have ad: "added E C at mm va d j" by (rule mstepD(5) [OF s a False])
    then have "region_at rs va = None" using m unfolding maps_regions_def added_def by blast
    then show ?thesis using ad k by (simp add: region_at_snoc added_def inside_def)
  qed
qed

section \<open>The number of tables\<close>

text \<open>
  The number of tables that mapping a list of regions takes from a base table of the given level: one for each block that needs a
  table. The blocks of a level that some region meets are listed without repetition.
\<close>

definition block_starts :: "mmap_region list \<Rightarrow> nat \<Rightarrow> nat list" where
  "block_starts rs l = remdups (concat (map (\<lambda>r. map (\<lambda>j. j * bs l) [rlo r div bs l..<Suc ((rhi r - 1) div bs l)]) rs))"

definition tables_needed :: "nat \<Rightarrow> mmap_region list \<Rightarrow> nat" where
  "tables_needed b rs = (\<Sum>l \<leftarrow> [b..<3]. length (filter (needs_table rs l) (block_starts rs l)))"

lemma set_block_starts:
  assumes "\<forall>r \<in> set rs. rlo r < rhi r"
  shows "v \<in> set (block_starts rs l) \<longleftrightarrow> bs l dvd v \<and> (\<exists>r \<in> set rs. meets r l v)"
proof -
  have j: "rlo r div bs l \<le> j \<and> j < Suc ((rhi r - 1) div bs l) \<longleftrightarrow> meets r l (j * bs l)" if "r \<in> set rs" for r j
  proof -
    have "rlo r div bs l \<le> j \<longleftrightarrow> rlo r < Suc j * bs l"
      unfolding div_less_iff_less_mult [OF bs_pos, symmetric] by (rule less_Suc_eq_le [symmetric])
    moreover have "j \<le> (rhi r - 1) div bs l \<longleftrightarrow> j * bs l \<le> rhi r - 1" by (rule less_eq_div_iff_mult_less_eq) simp
    moreover have "0 < rhi r" using assms that by force
    ultimately show ?thesis by (auto simp: meets_def add.commute)
  qed
  have "v \<in> set (block_starts rs l) \<longleftrightarrow> (\<exists>r \<in> set rs. \<exists>j. v = j * bs l \<and> rlo r div bs l \<le> j \<and> j < Suc ((rhi r - 1) div bs l))"
    by (simp add: block_starts_def image_iff del: upt_Suc) (auto simp: Bex_def)
  also have "\<dots> \<longleftrightarrow> (\<exists>r \<in> set rs. \<exists>j. v = j * bs l \<and> meets r l v)" using j by blast
  also have "\<dots> \<longleftrightarrow> bs l dvd v \<and> (\<exists>r \<in> set rs. meets r l v)" by (auto simp: dvd_def mult.commute)
  finally show ?thesis .
qed

lemma needs_table_meets: "needs_table rs l v \<Longrightarrow> \<exists>r \<in> set rs. meets r l v"
  by (auto simp: needs_table_def find_Some_iff split: option.splits)

definition needed :: "nat \<Rightarrow> mmap_region list \<Rightarrow> (nat \<times> nat) set" where
  "needed b rs = {(Suc l, v) | l v. b \<le> l \<and> l < 3 \<and> bs l dvd v \<and> needs_table rs l v}"

lemma card_needed:
  assumes "\<forall>r \<in> set rs. rlo r < rhi r"
  shows "card (needed b rs) = tables_needed b rs"
proof -
  let ?f = "\<lambda>l. filter (needs_table rs l) (block_starts rs l)"
  have "needed b rs = (\<Union>l \<in> {b..<3}. Pair (Suc l) ` set (?f l))"
    using needs_table_meets [of rs] by (auto simp: needed_def set_block_starts [OF assms])
  also have "card \<dots> = (\<Sum>l \<in> {b..<3}. card (Pair (Suc l) ` set (?f l)))" by (rule card_UN_disjoint) auto
  also have "\<dots> = (\<Sum>l \<in> {b..<3}. length (?f l))"
  proof (intro sum.cong refl)
    show "card (Pair (Suc l) ` set (?f l)) = length (?f l)" for l
      using distinct_card [of "?f l"] by (simp add: card_image inj_on_def block_starts_def del: upt_Suc)
  qed
  also have "\<dots> = tables_needed b rs" by (simp add: tables_needed_def interv_sum_list_conv_sum_set_nat)
  finally show ?thesis .
qed

text \<open>Tables that map the regions have a table for each block that needs one.\<close>

lemma maps_regions_tables:
  assumes m: "maps_regions E rs C at" and ne: "\<forall>r \<in> set rs. rlo r < rhi r"
  shows "needed (base_level C) rs \<subseteq> ran at"
proof
  fix p assume "p \<in> needed (base_level C) rs"
  then obtain l v where p: "p = (Suc l, v)" "base_level C \<le> l" "l < 3" "bs l dvd v" "needs_table rs l v" by (auto simp: needed_def)
  have x: "xinv E C at {}" using m by (simp add: maps_regions_def)
  obtain r where r: "find (\<lambda>r. meets r l v) rs = Some r" "\<not> one_block r l v" using p(5) by (auto simp: needs_table_def split: option.splits)
  have rs: "r \<in> set rs" "meets r l v" using r(1) by (auto simp: find_Some_iff)
  define va where "va = max v (rlo r)"
  have va: "v \<le> va" "va < v + bs l" "inside va r" using rs ne bs_pos [of l] by (auto simp: va_def meets_def inside_def simp del: bs_pos)
  have "\<not> inside va s" if "s \<in> set rs" "\<not> meets s l v" for s using that va(1,2) by (auto simp: meets_def inside_def)
  then have "region_at rs va = Some r"
    using r(1) va(3) by (auto simp: region_at_def find_Some_iff)
  then obtain d k where k: "maps C at va d k" "k = 3 \<or> one_block r k (va div bs k * bs k)"
    using m unfolding maps_regions_def covered_def by (metis option.distinct(1) option.inject)
  have "l < k"
  proof (rule ccontr)
    assume "\<not> l < k"
    then have kl: "k \<le> l" "one_block r k (va div bs k * bs k)" using k(2) p(3) by auto
    let ?u = "va div bs k * bs k"
    have "?u \<le> v \<and> v + bs l \<le> ?u + bs k" by (rule block_nested [OF kl(1) p(4) va(1,2)])
    then show False using one_block_inside [OF kl(2,1) p(4)] r(2) by simp
  qed
  obtain t i where "describes C at t k i va" using k(1) by (auto simp: maps_def)
  then obtain s j n where s: "describes C at s l j va" "tbl C s ! j = TABLE_DESC OR table_addr C n" "n < tables_num C"
    using describes_above [OF x _ p(2) \<open>l < k\<close>] by blast
  then obtain b where b: "loc C at s = Some (l, b)" "j < nent C s" "b + j * bs l \<le> va" "va < b + j * bs l + bs l" by (auto simp: describes_def)
  have "b + j * bs l = v" using same_multiple [OF block_in_space(1) [OF x b(1,2)] p(4) b(3,4) va(1,2)] .
  moreover have "tbl C s ! j AND 3 = 3" using s(2,3) table_addr_facts(2) [OF invD(1) [OF x]] by simp
  ultimately have "\<exists>n. at n = Some (Suc l, v)" using invD(5) [OF x b(1,2)] p(3) by (auto simp: entry_ok_def leaf_type_def)
  then show "p \<in> ran at" using p(1) by (auto simp: ran_def)
qed

lemma wanted_Cons: "wanted C at [mm] \<subseteq> wanted C at (mm # ms)"
  by (auto simp: wanted_def needs_table_def split: if_splits)

lemma short_Cons:
  assumes "xinv E C at X" "short C at [mm]"
  shows "short C at (mm # ms)"
proof -
  have "card (ran at \<union> wanted C at [mm]) \<le> card (ran at \<union> wanted C at (mm # ms))"
    using finite_places [OF assms(1)] finite_wanted wanted_Cons by (intro card_mono) blast+
  then show ?thesis using assms(2) by (simp add: short_def)
qed

lemma short_after:
  assumes x: "xinv E C at X" and s: "mstep E mm C at C1 at1" and c: "\<And>va. inside va mm \<Longrightarrow> covered C1 at1 va"
    and ne: "rlo mm < rhi mm" and f: "short C1 at1 ms"
  shows "short C at (mm # ms)"
proof -
  have "p \<in> wanted C at (mm # ms)" if "p \<in> wanted C1 at1 ms" for p
  proof -
    obtain l v where p: "p = (Suc l, v)" "base_level C1 \<le> l" "l < 3" "bs l dvd v" "needs_table ms l v"
      "\<forall>va. v \<le> va \<and> va < v + bs l \<longrightarrow> \<not> covered C1 at1 va" using \<open>p \<in> wanted C1 at1 ms\<close> by (auto simp: wanted_def)
    have "\<not> meets mm l v"
    proof
      assume "meets mm l v"
      then have "inside (max v (rlo mm)) mm" "max v (rlo mm) < v + bs l" using ne bs_pos [of l] by (auto simp: meets_def inside_def simp del: bs_pos)
      then show False using p(6) c [of "max v (rlo mm)"] by auto
    qed
    then have "needs_table (mm # ms) l v" using p(5) by (simp add: needs_table_def)
    then show ?thesis using wanted_mono [OF s, of ms] \<open>p \<in> wanted C1 at1 ms\<close> p(1) by (auto simp: wanted_def)
  qed
  then have "ran at1 \<union> wanted C1 at1 ms \<subseteq> ran at \<union> wanted C at (mm # ms)" using mstepD(3) [OF s] wanted_Cons by blast
  then have "card (ran at1 \<union> wanted C1 at1 ms) \<le> card (ran at \<union> wanted C at (mm # ms))"
    using finite_places [OF x] finite_wanted by (intro card_mono) auto
  then show ?thesis using f keeps_ctx_fields(3) [OF mstepD(1) [OF s]] by (simp add: short_def)
qed

section \<open>Mapping the regions\<close>

lemma map_regions_spec:
  assumes z: "rsize z = 0"
  shows "maps_regions E rs C at \<Longrightarrow> sorted_wrt comes_before (rs @ ms) \<Longrightarrow> \<forall>r \<in> set ms. region_ok C r \<and> attr_ok (attr r) \<Longrightarrow>
    (case map_regions E (ms @ z # zs) C of
       Inl e \<Rightarrow> short C at ms
     | Inr C' \<Rightarrow> keeps_ctx C C' \<and> (\<exists>at'. maps_regions E (rs @ ms) C' at'))"
proof (induction ms arbitrary: rs C at)
  case Nil
  then show ?case using z by auto
next
  case (Cons mm ms)
  have x: "xinv E C at {}" using Cons.prems(1) by (simp add: maps_regions_def)
  have mm: "region_ok C mm" "attr_ok (attr mm)" "rsize mm \<noteq> 0" using Cons.prems(3) by (auto simp: region_ok_def)
  have np: "no_partial C at mm" using Cons.prems(2) by (intro maps_regions_no_partial [OF Cons.prems(1)]) (auto simp: sorted_wrt_append)
  let ?r = "xlat_tables_map_region E mm 0 Base (base_table_entries C) (base_level C) C"
  note sp = map_region_spec [OF x mm(1,2) np]
  have v: "rhi mm \<le> vspace C" using mm(1) vspace_bound [OF x] by (auto simp: region_ok_def)
  note re = region_ok_ends [OF mm(1)]
  have few: "short C at (mm # ms)" if "short C at [mm]" by (rule short_Cons [OF x that])
  show ?case
  proof (cases ?r)
    case (Inl e)
    then have "short C at [mm]" using sp by (simp add: mspec_def)
    then show ?thesis using Inl few mm(3) by simp
  next
    case (Inr p)
    obtain e C1 where r: "?r = Inr (e, C1)" using Inr by (cases p) auto
    obtain at1 where a: "mpost E mm C at C1 at1"
      "unat e + 1 = rhi mm \<and> (\<forall>va. va < vspace C \<and> inside va mm \<longrightarrow> covered C1 at1 va) \<or> 4096 dvd unat e \<and> short C at [mm]"
      using sp v unfolding r mspec_def inside_def by auto
    from a(2) show ?thesis
    proof
      assume f: "4096 dvd unat e \<and> short C at [mm]"
      have "e \<noteq> region_end mm"
      proof
        assume "e = region_end mm"
        then have "unat e + 1 = rhi mm" using re(1,3) by simp
        moreover have "4096 dvd rhi mm" using mm(1) by (auto simp: region_ok_def ival_defs)
        ultimately have "4096 dvd (1 :: nat)" using f by (metis dvd_add_right_iff)
        then show False by simp
      qed
      then show ?thesis using r mm(3) few f by simp
    next
      assume s: "unat e + 1 = rhi mm \<and> (\<forall>va. va < vspace C \<and> inside va mm \<longrightarrow> covered C1 at1 va)"
      then have e: "e = region_end mm" using re(1) by (auto simp: word_unat_eq_iff)
      have c: "covered C1 at1 va" if "inside va mm" for va using s that v by (auto simp: inside_def)
      have st: "mstep E mm C at C1 at1" using a(1) by (simp add: mpost_def)
      note kc = mstepD(1) [OF st]
      have ok: "\<forall>r \<in> set ms. region_ok C1 r \<and> attr_ok (attr r)" using Cons.prems(3) region_ok_keeps [OF kc] by simp
      have ih: "case map_regions E (ms @ z # zs) C1 of
         Inl e \<Rightarrow> short C1 at1 ms
       | Inr C' \<Rightarrow> keeps_ctx C1 C' \<and> (\<exists>at'. maps_regions E ((rs @ [mm]) @ ms) C' at')"
        using Cons.prems(2) by (intro Cons.IH [OF maps_regions_snoc [OF Cons.prems(1) a(1) c] _ ok]) simp_all
      show ?thesis
        using ih r e mm(3) short_after [OF x st c re(3), of ms] keeps_ctx_trans [OF kc]
        by (cases "map_regions E (ms @ z # zs) C1") auto
    qed
  qed
qed

section \<open>Walking the tables\<close>

lemma walk_idx:
  assumes x: "xinv E C at X" and t: "loc C at t = Some (l, b)" and va: "b \<le> unat w" "unat w < b + nent C t * bs l"
  shows "describes C at t l (xlat_table_idx w l) (unat w)" "xlat_table_idx w l < nent C t"
proof -
  have m: "(0x1FF :: u64) = mask 9" by (simp add: mask_eq_exp_minus_1)
  have i: "xlat_table_idx w l = unat w div bs l mod 512"
    unfolding xlat_table_idx_def m take_bit_eq_mask [symmetric] unat_take_bit unat_drop_shift by simp
  obtain q where q: "b = q * bs l" using loc_facts(4) [OF x t] by (metis dvd_def mult.commute)
  have d: "q \<le> unat w div bs l" "unat w div bs l < q + nent C t"
    using va unfolding q by (simp_all add: less_eq_div_iff_mult_less_eq add_mult_distrib [symmetric] less_mult_imp_div_less)
  have q512: "512 dvd q" "nent C t \<le> 512"
  proof -
    show "nent C t \<le> 512" using invD(1) [OF x] by (cases t) (simp_all add: tabs_wf_def)
    show "512 dvd q"
    proof (cases t)
      case Base
      then show ?thesis using t q by simp
    next
      case (Sub n)
      then have "bs (l - 1) dvd b" "base_level C < l" using loc_facts(6,8) [OF x t] by simp_all
      then have "512 * bs l dvd q * bs l" using bs_pred [of l] loc_facts(3) [OF x t] q by simp
      then show ?thesis by simp
    qed
  qed
  have "unat w div bs l mod 512 = unat w div bs l - q"
  proof -
    obtain k where k: "q = 512 * k" using q512(1) by (rule dvdE)
    have "unat w div bs l = q + (unat w div bs l - q)" using d(1) by simp
    then have "unat w div bs l mod 512 = (unat w div bs l - q) mod 512" unfolding k by (metis mod_mult_self2 add.commute mult.commute)
    then show ?thesis using d q512(2) by simp
  qed
  then have i: "xlat_table_idx w l = unat w div bs l - q" using i by simp
  then show lt: "xlat_table_idx w l < nent C t" using d by simp
  have "b + xlat_table_idx w l * bs l = unat w div bs l * bs l" using d(1) unfolding i q by (simp add: diff_mult_distrib)
  then show "describes C at t l (xlat_table_idx w l) (unat w)"
    using t lt dividend_less_div_times [of "bs l" "unat w"] unfolding describes_def by (metis add.commute bs_pos div_times_less_eq_dividend)
qed

lemma walk_spec:
  assumes x: "xinv E C at X"
  shows "loc C at t = Some (l, b) \<Longrightarrow> b \<le> unat w \<Longrightarrow> unat w < b + nent C t * bs l \<Longrightarrow>
    \<exists>e. find_entry_from C w [l..<4] t (nent C t) = Inr e
      \<and> (case e of None \<Rightarrow> \<not> covered C at (unat w) | Some (s, i, k) \<Rightarrow> maps C at (unat w) (tbl C s ! i) k \<and> tbl_get C s i = Inr (tbl C s ! i))"
proof (induction "3 - l" arbitrary: t l b rule: less_induct)
  case less
  let ?i = "xlat_table_idx w l" and ?d = "tbl C t ! xlat_table_idx w l"
  note w = walk_idx [OF x less.prems] and l = loc_facts(3) [OF x less.prems(1)]
  note g = tbl_access(2) [OF invD(1) [OF x] loc_facts(1) [OF x less.prems(1)] w(2)]
  have u: "find_entry_from C w [l..<4] t (nent C t) = (if ?d AND 3 = 0 then Inr None
    else if l = 3 then andthen (assert_c (?d AND 3 = PAGE_DESC)) (\<lambda>_. Inr (Some (t, ?i, l)))
    else if ?d AND 3 = BLOCK_DESC then Inr (Some (t, ?i, l))
    else andthen (assert_c (?d AND 3 = TABLE_DESC)) (\<lambda>_. andthen (subtable C ?d) (\<lambda>s. find_entry_from C w [Suc l..<4] s 512)))"
    using l w(2) g by (simp add: upt_conv_Cons Let_def)
  consider (no) "?d AND 3 = 0" | (leaf) "?d AND 3 = leaf_type l" "?d AND 3 \<noteq> 0"
    | (tab) n where "l < 3" "n < tables_num C" "?d = TABLE_DESC OR table_addr C n" "at n = Some (Suc l, b + ?i * bs l)"
    using invD(5) [OF x less.prems(1) w(2)] unfolding entry_ok_def by blast
  then show ?case
  proof cases
    case no
    have "\<not> covered C at (unat w)"
    proof
      assume "covered C at (unat w)"
      then obtain s j k where s: "describes C at s k j (unat w)" "tbl C s ! j AND 3 = leaf_type k" unfolding covered_def maps_def by blast
      then have "l = k \<and> t = s \<and> ?i = j" using one_end [OF x w(1) _ s(1)] no by (simp add: ends_walk_def)
      then show False using s(2) no by (auto simp: leaf_type_def split: if_splits)
    qed
    then show ?thesis unfolding u using no by simp
  next
    case leaf
    have "maps C at (unat w) ?d l" using w(1) leaf(1) by (intro mapsI) auto
    then show ?thesis unfolding u using leaf g by (auto simp: leaf_type_def)
  next
    case tab
    note f = table_addr_facts [OF invD(1) [OF x] tab(2)]
    have "b + ?i * bs l \<le> unat w \<and> unat w < b + ?i * bs l + 512 * bs (Suc l)"
      using w(1) less.prems(1) bs_Suc [OF tab(1)] by (auto simp: describes_def)
    then have "\<exists>e. find_entry_from C w [Suc l..<4] (Sub n) (nent C (Sub n)) = Inr e
      \<and> (case e of None \<Rightarrow> \<not> covered C at (unat w) | Some (s, i, k) \<Rightarrow> maps C at (unat w) (tbl C s ! i) k \<and> tbl_get C s i = Inr (tbl C s ! i))"
      using tab(1,4) by (intro less.hyps [of "Suc l" "Sub n" "b + ?i * bs l"]) auto
    then show ?thesis unfolding u using tab(1,3) f(2,4) by simp
  qed
qed

section \<open>Initialising a context\<close>

lemma unat_power64: "n < 64 \<Longrightarrow> unat ((2 :: u64) ^ n) = 2 ^ n"
  by (simp add: unat_exp_word)

lemma level_base_facts:
  assumes "12 \<le> n" "n \<le> 48" "sz = 2 ^ n"
  shows "get_xlat_table_level_base sz \<le> 3" "get_num_base_level_entries sz \<le> 512"
    "get_num_base_level_entries sz * bs (get_xlat_table_level_base sz) = 2 ^ n"
proof -
  let ?l = "get_xlat_table_level_base sz" and ?s = "12 + 9 * (3 - get_xlat_table_level_base sz)"
  have lt: "push_bit k 1 < sz \<longleftrightarrow> k < n" if "k < 64" for k
    using that assms by (simp add: word_less_nat_alt unat_power64 push_bit_eq_mult)
  have k: "(39 :: nat) < 64" "(30 :: nat) < 64" "(21 :: nat) < 64" by simp_all
  have "?l = (if 39 < n then 0 else if 30 < n then 1 else if 21 < n then 2 else 3)"
    unfolding get_xlat_table_level_base_def lt [OF k(1)] lt [OF k(2)] lt [OF k(3)] ..
  then have l: "?l \<le> 3" "?s \<le> n" "n \<le> ?s + 9" using assms(1,2) by auto
  show "?l \<le> 3" by (rule l(1))
  have e: "get_num_base_level_entries sz = 2 ^ (n - ?s)"
    using assms l(2) unfolding get_num_base_level_entries_def unat_drop_shift bs_def by (simp add: unat_power64 power_diff)
  show "get_num_base_level_entries sz * bs ?l = 2 ^ n" unfolding e bs_def power_add [symmetric] using l(2) by simp
  have "(2 :: nat) ^ (n - ?s) \<le> 2 ^ 9" using l(3) by (intro power_increasing) auto
  then show "get_num_base_level_entries sz \<le> 512" unfolding e by simp
qed

lemma power_of_two_ok: "is_power_of_two (2 ^ n)"
proof -
  have "(2 ^ n :: u64) AND mask n = 0" unfolding take_bit_eq_mask [symmetric] by (simp add: take_bit_eq_mod)
  then show ?thesis by (simp add: is_power_of_two_def mask_eq_exp_minus_1)
qed

text \<open>
  A context with its regions, before its tables are filled. The conditions are those the assertions of
  \<open>init_xlat_tables_ctx\<close> and the linker script give: the address space is a power of two of a supported size, the arrays have
  the sizes of the context, the tables are aligned pages, and the MMU is off.
\<close>

definition sizes_ok :: "xlat_env \<Rightarrow> xlat_ctx \<Rightarrow> bool" where
  "sizes_ok E C \<longleftrightarrow> length (tables C) = tables_num C \<and> (\<forall>t \<in> set (tables C). length t = 512)
     \<and> length (base_table C) = base_table_entries C \<and> length (tables_mapped_regions C) = tables_num C \<and> next_table C = 0
     \<and> 4096 dvd unat (tables_at C) \<and> unat (tables_at C) + 4096 * tables_num C \<le> 2 ^ 48
     \<and> base_level C = get_xlat_table_level_base (va_max_address C + 1)
     \<and> base_table_entries C = get_num_base_level_entries (va_max_address C + 1)
     \<and> (\<exists>n. 16 \<le> n \<and> n \<le> 48 \<and> va_max_address C + 1 = 2 ^ n \<and> xlat_get_min_virt_addr_space_size E \<le> 2 ^ n)"

definition machine_ok :: "xlat_env \<Rightarrow> xlat_ctx \<Rightarrow> bool" where
  "machine_ok E C \<longleftrightarrow> regime_ok C \<and> is_mmu_enabled_ctx E C = Inr False
     \<and> (\<exists>pa. xlat_arch_get_max_supported_pa E = Inr pa \<and> pa_max_address C \<le> pa)"

definition init_ready :: "xlat_env \<Rightarrow> xlat_ctx \<Rightarrow> bool" where
  "init_ready E C \<longleftrightarrow> mmap_ok C \<and> limits_ok C \<and> \<not> initialized C \<and> sizes_ok E C \<and> machine_ok E C \<and> (\<forall>r \<in> set (regs C). attr_ok (attr r))"

definition cleared :: "xlat_env \<Rightarrow> xlat_ctx \<Rightarrow> xlat_ctx" where
  "cleared E C = C\<lparr>base_table := replicate (base_table_entries C) 0,
     tables_mapped_regions := (if PLAT_XLAT_TABLES_DYNAMIC E then replicate (tables_num C) 0 else tables_mapped_regions C),
     tables := replicate (tables_num C) (replicate 512 0)\<rparr>"

lemma keeps_cleared: "keeps_ctx C (cleared E C)"
  unfolding keeps_ctx_def cleared_def
  by (rule exI [of _ "replicate (base_table_entries C) 0"], rule exI [of _ "replicate (tables_num C) (replicate 512 0)"],
      rule exI [of _ "if PLAT_XLAT_TABLES_DYNAMIC E then replicate (tables_num C) 0 else tables_mapped_regions C"],
      rule exI [of _ "next_table C"]) simp

lemma zero_tables_eq:
  assumes "sizes_ok E C"
  shows "zero_tables E C = Inr (cleared E C)"
proof -
  have "map (\<lambda>t. replicate 512 (0 :: u64) @ drop 512 t) (tables C) = replicate (tables_num C) (replicate 512 0)"
    using assms by (auto simp: sizes_ok_def map_replicate_const [symmetric] intro!: nth_equalityI)
  then show ?thesis using assms by (auto simp: zero_tables_def cleared_def sizes_ok_def)
qed

lemma cleared_wf:
  assumes "init_ready E C"
  shows "tabs_wf E (cleared E C)"
proof -
  obtain n where n: "16 \<le> n" "n \<le> 48" "va_max_address C + 1 = 2 ^ n" using assms by (auto simp: init_ready_def sizes_ok_def)
  have "12 \<le> n" using n(1) by simp
  note f = level_base_facts [OF this n(2,3)]
  have "unat (va_max_address C) < 2 ^ 48" using assms by (simp add: init_ready_def mmap_ok_def)
  then have "unat (va_max_address C + 1) = unat (va_max_address C) + 1" by (subst unat_add_no_wrap) simp_all
  then have "unat (va_max_address C) + 1 = 2 ^ n" using n by (simp add: unat_power64)
  then show ?thesis using assms f n(1)
    by (auto simp: tabs_wf_def cleared_def init_ready_def sizes_ok_def machine_ok_def mmap_ok_def regime_ok_def)
qed

lemma cleared_inv:
  assumes "init_ready E C"
  shows "maps_regions E [] (cleared E C) Map.empty"
proof -
  have b: "tbl (cleared E C) t ! i = 0" if "i < nent (cleared E C) t" "tvalid (cleared E C) t" for t i
    using that by (cases t) (simp_all add: cleared_def)
  have x: "xinv E (cleared E C) Map.empty {}"
  proof (rule xinvI [OF cleared_wf [OF assms]])
    show "entry_ok (cleared E C) Map.empty l (v + i * bs l) (tbl (cleared E C) t ! i)"
      if "loc (cleared E C) Map.empty t = Some (l, v)" "i < nent (cleared E C) t" for t l v i
      using that b [of i t] by (cases t) (auto simp: entry_ok_def)
    show "is_free E (cleared E C) n \<and> (\<forall>i < 512. tbl (cleared E C) (Sub n) ! i AND 3 = 0)" if "n < tables_num (cleared E C)" for n
      using that b [of _ "Sub n"] assms by (auto simp: is_free_def cleared_def init_ready_def sizes_ok_def)
  qed auto
  have "\<not> maps (cleared E C) Map.empty va d k" for va d k
  proof
    assume "maps (cleared E C) Map.empty va d k"
    then obtain t i where t: "describes (cleared E C) Map.empty t k i va" "tbl (cleared E C) t ! i = d" "d AND 3 = leaf_type k"
      unfolding maps_def by blast
    then have "t = Base" "i < nent (cleared E C) t" by (cases t; auto simp: describes_def)+
    then have "d = 0" using b [of i t] t(2) by simp
    then show False using t(3) by (auto simp: leaf_type_def split: if_splits)
  qed
  then show ?thesis using x by (simp add: maps_regions_def region_at_def)
qed

lemma init_spec:
  assumes r: "init_ready E C"
  shows "case init_xlat_tables_ctx E C of
      Inl e \<Rightarrow> tables_num C < tables_needed (base_level C) (regs C)
    | Inr C' \<Rightarrow> tables_needed (base_level C) (regs C) \<le> tables_num C \<and> initialized C'
        \<and> (\<exists>D at. keeps_ctx (cleared E C) D \<and> C' = D\<lparr>initialized := True\<rparr> \<and> maps_regions E (regs C) D at)"
proof -
  have m: "mmap_ok C" "limits_ok C" "\<not> initialized C" "sizes_ok E C" "machine_ok E C" "\<forall>r \<in> set (regs C). attr_ok (attr r)"
    using r by (simp_all add: init_ready_def)
  obtain n where n: "16 \<le> n" "n \<le> 48" "va_max_address C + 1 = 2 ^ n" "xlat_get_min_virt_addr_space_size E \<le> 2 ^ n"
    using m(4) by (auto simp: sizes_ok_def)
  have vb: "unat (va_max_address C) < 2 ^ 48" using m(1) by (simp add: mmap_ok_def)
  have a1: "xlat_get_min_virt_addr_space_size E - 1 \<le> va_max_address C"
  proof -
    have "0 < unat (xlat_get_min_virt_addr_space_size E)" by (simp add: xlat_get_min_virt_addr_space_size_def)
    moreover have "unat (va_max_address C + 1) = unat (va_max_address C) + 1" using vb by (subst unat_add_no_wrap) simp_all
    ultimately show ?thesis using n(4) unfolding n(3) [symmetric] word_le_nat_alt by (simp add: unat_minus_one unat_gt_0)
  qed
  have a2: "va_max_address C \<le> push_bit 48 1 - 1" using vb by (simp add: word_le_nat_alt)
  have a3: "is_power_of_two (va_max_address C + 1)" unfolding n(3) by (rule power_of_two_ok)
  obtain z zs where mm: "mmap C = regs C @ z # zs" "rsize z = 0"
  proof -
    have d: "mmap C = regs C @ drop (length (regs C)) (mmap C)" unfolding regs_def by (metis append_take_drop_id takeWhile_eq_take)
    have "length (regs C) < length (mmap C)" using m(1) by (simp add: mmap_ok_def)
    then obtain z zs where z: "drop (length (regs C)) (mmap C) = z # zs" by (metis Cons_nth_drop_Suc)
    then have "rsize z = 0" using m(1) by (auto simp: mmap_ok_def)
    then show thesis using that d z by metis
  qed
  have k: "base_level (cleared E C) = base_level C" "tables_num (cleared E C) = tables_num C" "mmap (cleared E C) = mmap C"
    "va_max_address (cleared E C) = va_max_address C" "pa_max_address (cleared E C) = pa_max_address C"
    "max_va (cleared E C) = max_va C" "max_pa (cleared E C) = max_pa C" by (simp_all add: cleared_def)
  have ok: "sorted_wrt comes_before ([] @ regs C)" "\<forall>r \<in> set (regs C). region_ok (cleared E C) r \<and> attr_ok (attr r)"
    using m(1,6) by (auto simp: mmap_ok_def region_ok_def k)
  note sp = map_regions_spec [OF mm(2) cleared_inv [OF r] ok, of zs, folded mm(1)]
  obtain pa where pa: "xlat_arch_get_max_supported_pa E = Inr pa" "pa_max_address C \<le> pa" using m(5) by (auto simp: machine_ok_def)
  have e: "init_xlat_tables_ctx E C = andthen (map_regions E (mmap C) (cleared E C)) (\<lambda>C'.
     andthen (assert_c (pa_max_address C' \<le> pa)) (\<lambda>_.
     andthen (assert_c (max_va C' \<le> va_max_address C')) (\<lambda>_.
     andthen (assert_c (max_pa C' \<le> pa_max_address C')) (\<lambda>_. Inr (C'\<lparr>initialized := True\<rparr>)))))"
    using m(3,5) a1 a2 a3 pa(1) zero_tables_eq [OF m(4)] k(3)
    by (auto simp: init_xlat_tables_ctx_def machine_ok_def regime_ok_def)
  have ne: "\<forall>r \<in> set (regs C). rlo r < rhi r" using ok(2) region_ok_ends(3) by blast
  show ?thesis
  proof (cases "map_regions E (mmap C) (cleared E C)")
    case (Inl f)
    have nc: "\<not> covered (cleared E C) Map.empty va" for va
      using cleared_inv [OF r] unfolding maps_regions_def covered_def by (auto simp: region_at_def)
    have "ran Map.empty \<union> wanted (cleared E C) Map.empty (regs C) = needed (base_level C) (regs C)"
      by (simp add: wanted_def needed_def nc k)
    then have "tables_num C < tables_needed (base_level C) (regs C)"
      using sp Inl card_needed [OF ne] by (simp add: short_def k)
    then show ?thesis using Inl e by simp
  next
    case (Inr D)
    then have D: "keeps_ctx (cleared E C) D" "\<exists>at. maps_regions E (regs C) D at" using sp by simp_all
    note kd = keeps_ctx_fields [OF D(1)]
    obtain at where at: "maps_regions E (regs C) D at" using D(2) by blast
    then have x: "xinv E D at {}" by (simp add: maps_regions_def)
    have "card (needed (base_level D) (regs C)) \<le> card (dom at)"
      using maps_regions_tables [OF at ne] finite_places [OF x] by (metis card_mono)
    also have "\<dots> \<le> tables_num D" using card_mono [OF _ dom_at [OF x]] by simp
    finally have few: "tables_needed (base_level C) (regs C) \<le> tables_num C" using card_needed [OF ne] kd(1,3) k by simp
    have "init_xlat_tables_ctx E C = Inr (D\<lparr>initialized := True\<rparr>)"
      using e Inr kd(6,7,10,11) k m(2) pa(2) by (simp add: limits_ok_def)
    then show ?thesis using D few by (auto simp del: init_xlat_tables_ctx_def)
  qed
qed

text \<open>The flag that says that the tables are in use plays no role in them.\<close>

lemma walk_initialized:
  "tbl_get (C\<lparr>initialized := True\<rparr>) t i = tbl_get C t i"
  "find_entry_from (C\<lparr>initialized := True\<rparr>) va ls t n = find_entry_from C va ls t n"
proof -
  show g: "tbl_get (C\<lparr>initialized := True\<rparr>) t i = tbl_get C t i" for t i by (cases t) simp_all
  have s: "subtable (C\<lparr>initialized := True\<rparr>) d = subtable C d" for d by (simp add: subtable_def table_addr_def)
  show "find_entry_from (C\<lparr>initialized := True\<rparr>) va ls t n = find_entry_from C va ls t n"
      proof (induction ls arbitrary: t n)
    case (Cons l ls)
    show ?case unfolding find_entry_from.simps g s Cons.IH ..
  qed simp
qed

lemma maps_regions_walk:
  assumes m: "maps_regions E rs C at" and l: "base_level C = get_xlat_table_level_base (va_max_address C + 1)"
    and va: "w \<le> va_max_address C"
  shows "case region_at rs (unat w) of
      None \<Rightarrow> find_xlat_table_entry w (va_max_address C + 1) C = Inr None
    | Some r \<Rightarrow> \<exists>t i k d. find_xlat_table_entry w (va_max_address C + 1) C = Inr (Some (t, i, k)) \<and> tbl_get C t i = Inr d
        \<and> maps C at (unat w) d k \<and> xl_out d k (unat w) = (plo r + (unat w - rlo r), attrs_of E C (attr r))"
proof -
  have x: "xinv E C at {}" using m by (simp add: maps_regions_def)
  have "unat w < 0 + nent C Base * bs (base_level C)"
    using va vspace_bound [OF x] by (simp add: vspace_def word_le_nat_alt)
  then obtain e where e: "find_xlat_table_entry w (va_max_address C + 1) C = Inr e"
    "case e of None \<Rightarrow> \<not> covered C at (unat w) | Some (s, i, k) \<Rightarrow> maps C at (unat w) (tbl C s ! i) k \<and> tbl_get C s i = Inr (tbl C s ! i)"
    using walk_spec [OF x, of Base "base_level C" 0 w] unfolding find_xlat_table_entry_def l [symmetric] by auto
  show ?thesis
  proof (cases "region_at rs (unat w)")
    case None
    then have "\<not> covered C at (unat w)" using m unfolding maps_regions_def covered_def by fastforce
    then have "e = None" using e(2) unfolding covered_def by (auto split: option.splits prod.splits)
    then show ?thesis using None e(1) by simp
  next
    case (Some r)
    then have "covered C at (unat w)" using m by (simp add: maps_regions_def)
    then obtain t i k where f: "e = Some (t, i, k)" "maps C at (unat w) (tbl C t ! i) k" "tbl_get C t i = Inr (tbl C t ! i)"
      using e(2) by (auto split: option.splits prod.splits)
    have "xl_out (tbl C t ! i) k (unat w) = (plo r + (unat w - rlo r), attrs_of E C (attr r))"
      using m f(2) Some unfolding maps_regions_def by fastforce
    then show ?thesis using Some e(1) f by auto
  qed
qed

text \<open>C2: for a context whose regions were added in order, initialising the translation tables fails exactly when there
  are fewer of them than blocks of addresses that need a table of their own: those where the first region of the array that
  meets the block cannot be entered with one block descriptor. Otherwise a walk of the tables for any address of the address space finds no descriptor if no region
  contains the address, and else a block or page descriptor that maps the address to the place of the innermost
  region that contains it, with the attributes of that region.\<close>

theorem init_xlat_tables_maps_regions:
  assumes "init_ready E C"
  shows "case init_xlat_tables_ctx E C of
      Inl e \<Rightarrow> tables_num C < tables_needed (base_level C) (regs C)
    | Inr C' \<Rightarrow> tables_needed (base_level C) (regs C) \<le> tables_num C \<and> initialized C' \<and> (\<forall>w \<le> va_max_address C. case region_at (regs C) (unat w) of
          None \<Rightarrow> (\<forall>r \<in> set (regs C). \<not> inside (unat w) r) \<and> find_xlat_table_entry w (va_max_address C + 1) C' = Inr None
        | Some r \<Rightarrow> r \<in> set (regs C) \<and> inside (unat w) r \<and> (\<forall>s \<in> set (regs C). inside (unat w) s \<longrightarrow> rlo s \<le> rlo r \<and> rhi r \<le> rhi s)
            \<and> (\<exists>t i k d. find_xlat_table_entry w (va_max_address C + 1) C' = Inr (Some (t, i, k)) \<and> tbl_get C' t i = Inr d
                \<and> d AND 3 = leaf_type k \<and> xl_out d k (unat w) = (plo r + (unat w - rlo r), attrs_of E C (attr r))))"
proof (cases "init_xlat_tables_ctx E C")
  case (Inl e)
  then show ?thesis using init_spec [OF assms] by simp
next
  case (Inr C')
  then obtain D at where few: "tables_needed (base_level C) (regs C) \<le> tables_num C" and D: "initialized C'" "keeps_ctx (cleared E C) D" "C' = D\<lparr>initialized := True\<rparr>" "maps_regions E (regs C) D at"
    using init_spec [OF assms] by auto
  note k = keeps_ctx_fields [OF keeps_ctx_trans [OF keeps_cleared D(2)]]
  have b: "base_level D = base_level C" "va_max_address D = va_max_address C" "attrs_of E D a = attrs_of E C a" for a
    unfolding k by simp_all
  have l: "base_level D = get_xlat_table_level_base (va_max_address D + 1)" using assms by (simp add: b init_ready_def sizes_ok_def)
  have s: "sorted_wrt comes_before (regs C)" using assms by (simp add: init_ready_def mmap_ok_def)
  have f: "find_xlat_table_entry w n C' = find_xlat_table_entry w n D" "tbl_get C' t i = tbl_get D t i" for w n t i
    unfolding D(3) by (simp_all add: find_xlat_table_entry_def walk_initialized)
  have "case region_at (regs C) (unat w) of
          None \<Rightarrow> (\<forall>r \<in> set (regs C). \<not> inside (unat w) r) \<and> find_xlat_table_entry w (va_max_address C + 1) C' = Inr None
        | Some r \<Rightarrow> r \<in> set (regs C) \<and> inside (unat w) r \<and> (\<forall>s \<in> set (regs C). inside (unat w) s \<longrightarrow> rlo s \<le> rlo r \<and> rhi r \<le> rhi s)
            \<and> (\<exists>t i k d. find_xlat_table_entry w (va_max_address C + 1) C' = Inr (Some (t, i, k)) \<and> tbl_get C' t i = Inr d
                \<and> d AND 3 = leaf_type k \<and> xl_out d k (unat w) = (plo r + (unat w - rlo r), attrs_of E C (attr r)))"
    if "w \<le> va_max_address C" for w
  proof (cases "region_at (regs C) (unat w)")
    case None
    then have "\<forall>r \<in> set (regs C). \<not> inside (unat w) r" using region_at_None by blast
    then show ?thesis using None maps_regions_walk [OF D(4) l, of w] that by (simp add: f b)
  next
    case (Some r)
    have wd: "w \<le> va_max_address D" using that b by simp
    obtain t i q d where w: "find_xlat_table_entry w (va_max_address C + 1) C' = Inr (Some (t, i, q))" "tbl_get C' t i = Inr d"
      "maps D at (unat w) d q" "xl_out d q (unat w) = (plo r + (unat w - rlo r), attrs_of E C (attr r))"
      using maps_regions_walk [OF D(4) l wd] Some unfolding f b by auto
    have "d AND 3 = leaf_type q" using w(3) by (auto simp: maps_def)
    then show ?thesis using Some w region_at_Some [OF Some] region_at_innermost [OF s Some] by auto
  qed
  then show ?thesis using Inr D(1) few by simp
qed

text \<open>A context with two regions, one inside the other.\<close>

definition demo_init :: xlat_ctx where
  "demo_init = demo_ctx\<lparr>mmap := [demo_inner, demo_outer, map_region 0 0 0 0, map_region 0 0 0 0], xlat_regime := EL2_REGIME\<rparr>"

lemma demo_init_regs: "regs demo_init = [demo_inner, demo_outer]"
  by (simp add: regs_def demo_init_def demo_inner_def demo_outer_def map_region_def)

lemma demo_init_fields:
  "va_max_address demo_init = 0xFFFFFFFF" "pa_max_address demo_init = 0xFFFFFFFF" "max_va demo_init = 0" "max_pa demo_init = 0"
  "mmap_num demo_init = 3" "tables_num demo_init = 4" "tables_at demo_init = 0x88000000" "next_table demo_init = 0" "xlat_regime demo_init = 2"
  "\<not> initialized demo_init" "tables demo_init = replicate 4 (replicate 512 0)" "tables_mapped_regions demo_init = replicate 4 0"
  "base_level demo_init = get_xlat_table_level_base 0x100000000" "base_table_entries demo_init = get_num_base_level_entries 0x100000000"
  "base_table demo_init = replicate (get_num_base_level_entries 0x100000000) 0"
  "mmap demo_init = [demo_inner, demo_outer, map_region 0 0 0 0, map_region 0 0 0 0]"
  by (simp_all add: demo_init_def demo_ctx_def register_xlat_context_def)

lemma demo_regions:
  "rlo demo_inner = 0x88001000" "rhi demo_inner = 0x88002000" "plo demo_inner = 0x88001000" "phi demo_inner = 0x88002000"
  "rlo demo_outer = 0x88000000" "rhi demo_outer = 0x88200000" "plo demo_outer = 0x88000000" "phi demo_outer = 0x88200000"
  "rsize demo_inner = 0x1000" "rsize demo_outer = 0x200000" "attr demo_inner = 0x2A" "attr demo_outer = 2"
  "granularity demo_inner = xlat_block_size 1" "granularity demo_outer = xlat_block_size 1"
  by (simp_all add: ival_defs demo_inner_def demo_outer_def map_region_def)

lemma demo_init_ready: "init_ready demo_xenv demo_init"
proof -
  have "mmap_ok demo_init"
    unfolding mmap_ok_def demo_init_regs by (simp add: region_ok_def comes_before_def demo_init_fields demo_regions map_region_def)
  moreover have "sizes_ok demo_xenv demo_init"
  proof -
    have "xlat_get_min_virt_addr_space_size demo_xenv \<le> 2 ^ 32"
      by (simp add: xlat_get_min_virt_addr_space_size_def is_armv8_4_ttst_present_def demo_xenv_def)
    then have "\<exists>n. 16 \<le> n \<and> n \<le> 48 \<and> va_max_address demo_init + 1 = 2 ^ n \<and> xlat_get_min_virt_addr_space_size demo_xenv \<le> 2 ^ n"
      by (intro exI [of _ 32]) (simp add: demo_init_fields)
    then show ?thesis unfolding sizes_ok_def by (simp add: demo_init_fields)
  qed
  moreover have "machine_ok demo_xenv demo_init"
    by (simp add: machine_ok_def regime_ok_def is_mmu_enabled_ctx_def xlat_arch_current_el_def xlat_arch_get_max_supported_pa_def
        get_pa_range_def pa_range_bits_arr_def demo_xenv_def demo_init_fields)
  ultimately show ?thesis by (simp add: init_ready_def limits_ok_def demo_init_fields demo_init_regs attr_ok_def demo_regions)
qed

lemma demo_init_returns: "\<exists>C'. init_xlat_tables_ctx demo_xenv demo_init = Inr C'"
proof -
  have "base_level demo_init = 1" by (simp add: demo_init_fields get_xlat_table_level_base_def)
  then have "\<not> tables_num demo_init < tables_needed (base_level demo_init) (regs demo_init)"
    by (simp add: demo_init_regs demo_init_fields(6) tables_needed_def block_starts_def needs_table_def meets_def one_block_def bs_def demo_regions upt_conv_Cons unat_block_size)
  then show ?thesis using init_spec [OF demo_init_ready] by (cases "init_xlat_tables_ctx demo_xenv demo_init") auto
qed

theorem init_xlat_tables_maps_regions_witness:
  "\<exists>C'. init_xlat_tables_ctx demo_xenv demo_init = Inr C' \<and> find_xlat_table_entry 0x1000 0x100000000 C' = Inr None
     \<and> (\<exists>t i k d. find_xlat_table_entry 0x88001800 0x100000000 C' = Inr (Some (t, i, k)) \<and> tbl_get C' t i = Inr d
        \<and> xl_out d k 0x88001800 = (0x88001800, attrs_of demo_xenv demo_init 0x2A))"
proof -
  obtain C' where C': "init_xlat_tables_ctx demo_xenv demo_init = Inr C'" using demo_init_returns by blast
  have r: "region_at (regs demo_init) (unat (0x1000 :: u64)) = None" "region_at (regs demo_init) (unat (0x88001800 :: u64)) = Some demo_inner"
    by (simp_all add: demo_init_regs region_at_def inside_def demo_regions)
  note all = conjunct2 [OF conjunct2 [OF init_xlat_tables_maps_regions [OF demo_init_ready, unfolded C' sum.case]]]
  have "find_xlat_table_entry 0x1000 0x100000000 C' = Inr None"
    using mp [OF spec [where x = "0x1000", OF all]] unfolding r by (simp add: demo_init_fields)
  moreover have "\<exists>t i k d. find_xlat_table_entry 0x88001800 0x100000000 C' = Inr (Some (t, i, k)) \<and> tbl_get C' t i = Inr d
        \<and> xl_out d k 0x88001800 = (0x88001800, attrs_of demo_xenv demo_init 0x2A)"
    using mp [OF spec [where x = "0x88001800", OF all]] unfolding r by (auto simp: demo_init_fields demo_regions)
  ultimately show ?thesis using C' by blast
qed

end
