(* ===== verification/Tftf_Xlat_Attr.thy ===== *)
theory Tftf_Xlat_Attr
  imports Tftf_Xlat_Init
begin

text \<open>
  The attributes of mapped memory: what \<open>xlat_get_mem_attributes_ctx\<close> reads in the tables is what the regions asked for.
\<close>

section \<open>Reading the attributes back\<close>

text \<open>
  The attributes \<open>xlat_get_mem_attributes_ctx\<close> gives for memory mapped with the attributes \<open>a\<close>: device memory and memory that can be
  written are never executable, and the user bit counts in the EL1 and EL0 regime only.
\<close>

definition seen_attr :: "xlat_ctx \<Rightarrow> u32 \<Rightarrow> u32" where
  "seen_attr C a = (((((a AND MT_TYPE_MASK) OR (if a AND MT_RW \<noteq> 0 then MT_RW else 0))
     OR (if xlat_regime C = EL1_EL0_REGIME \<and> a AND MT_USER \<noteq> 0 then MT_USER else 0))
     OR (if a AND MT_NS \<noteq> 0 then MT_NS else 0))
     OR (if a AND MT_TYPE_MASK = MT_DEVICE \<or> a AND MT_RW \<noteq> 0 \<or> a AND MT_EXECUTE_NEVER \<noteq> 0 then MT_EXECUTE_NEVER else 0))"

lemma xn_values:
  assumes "regime_ok C"
  obtains xn where "xlat_arch_regime_get_xn_desc E (xlat_regime C) = Inr xn" "xn = 0x40000000000000 \<or> xn = 0x60000000000000"
proof -
  have "\<exists>xn. xlat_arch_regime_get_xn_desc E (xlat_regime C) = Inr xn \<and> (xn = 0x40000000000000 \<or> xn = 0x60000000000000)"
    using assms by (auto simp: regime_ok_def xlat_arch_regime_get_xn_desc_def xlat_regime_is_dual_def upper_attrs_values)
  then show thesis using that by blast
qed

lemma and_absorb: "drop_bit n k AND m = m \<Longrightarrow> drop_bit n (d AND k) AND m = drop_bit n d AND (m :: u64)"
  by (simp add: bit_eq_iff bit_simps)

lemma desc_to_attr_part:
  assumes "regime_ok C"
  shows "desc_to_attr E C (d AND NOT (ADDR OR 3)) = desc_to_attr E C d"
proof -
  obtain xn where xn: "xlat_arch_regime_get_xn_desc E (xlat_regime C) = Inr xn" "xn = 0x40000000000000 \<or> xn = 0x60000000000000"
    by (rule xn_values [OF assms])
  have k: "NOT (ADDR OR 3) = 0xFFFF000000000FFC" by (simp add: ADDR_def)
  have x: "(d AND NOT (ADDR OR 3)) AND xn = d AND xn" using and_absorb [of 0 "NOT (ADDR OR 3)" xn d] xn(2) unfolding k by auto
  have r: "drop_bit 2 (d AND NOT (ADDR OR 3)) AND 3 = drop_bit 2 d AND 3" "drop_bit 7 (d AND NOT (ADDR OR 3)) AND 1 = drop_bit 7 d AND 1"
    "drop_bit 6 (d AND NOT (ADDR OR 3)) AND 1 = drop_bit 6 d AND 1" "drop_bit 5 (d AND NOT (ADDR OR 3)) AND 1 = drop_bit 5 d AND 1"
    unfolding k by (rule and_absorb; simp)+
  show ?thesis unfolding desc_to_attr_def r xn(1) andthen_Inr x ..
qed

lemma or_distribs:
  "drop_bit n (x OR y) AND m = (drop_bit n x AND m) OR (drop_bit n y AND m :: u64)" "(x OR y) AND m = (x AND m) OR (y AND m :: u64)"
  by (simp_all add: bit_eq_iff bit_simps; blast)+

text \<open>The attributes of a descriptor, one part after the other.\<close>

definition ns_part :: "u32 \<Rightarrow> u64" where "ns_part a = (if a AND MT_NS \<noteq> 0 then 0x20 else 0)"
definition rw_part :: "u32 \<Rightarrow> u64" where "rw_part a = (if a AND MT_RW \<noteq> 0 then 0 else 0x80)"
definition user_part :: "xlat_ctx \<Rightarrow> u32 \<Rightarrow> u64" where
  "user_part C a = (if xlat_regime C = EL1_EL0_REGIME \<and> a AND MT_USER = 0 then 0 else 0x40)"
definition type_part :: "u32 \<Rightarrow> u64" where
  "type_part a = (if a AND MT_TYPE_MASK = MT_DEVICE then 0x204 else if a AND MT_TYPE_MASK = MT_MEMORY then 0x300 else 0x208)"
definition xn_part :: "u64 \<Rightarrow> u32 \<Rightarrow> u64" where
  "xn_part xn a = (if a AND MT_TYPE_MASK = MT_DEVICE \<or> a AND MT_RW \<noteq> 0 \<or> a AND MT_EXECUTE_NEVER \<noteq> 0 then xn else 0)"
definition gp_part :: "xlat_env \<Rightarrow> u32 \<Rightarrow> u64" where
  "gp_part E a = (if is_armv8_5_bti_present E \<and> a AND (MT_TYPE_MASK OR MT_RW OR MT_EXECUTE_NEVER) = MT_CODE \<and> a AND MT_TYPE_MASK = MT_MEMORY then GP else 0)"

lemma attrs_of_parts:
  assumes "regime_ok C" "attr_ok a" "xlat_arch_regime_get_xn_desc E (xlat_regime C) = Inr xn"
  shows "attrs_of E C a = ((((((0x400 OR ns_part a) OR rw_part a) OR user_part C a) OR xn_part xn a) OR type_part a) OR gp_part E a)"
proof -
  define B where "B \<longleftrightarrow> is_armv8_5_bti_present E \<and> a AND (MT_TYPE_MASK OR MT_RW OR MT_EXECUTE_NEVER) = MT_CODE"
  have d1: "(lower_attrs ACCESS_FLAG OR (if a AND MT_NS \<noteq> 0 then lower_attrs NS else 0))
    OR (if a AND MT_RW \<noteq> 0 then lower_attrs AP_RW else lower_attrs AP_RO) = (0x400 OR ns_part a) OR rw_part a"
    by (simp add: lower_attrs_values ns_part_def rw_part_def)
  define d where "d = (0x400 OR ns_part a) OR rw_part a"
  have d2: "(if xlat_regime C = EL1_EL0_REGIME
        then Inr (d OR (if a AND MT_USER \<noteq> 0 then lower_attrs AP_ACCESS_UNPRIVILEGED else lower_attrs AP_NO_ACCESS_UNPRIVILEGED))
        else andthen (assert_c (xlat_regime C = EL2_REGIME \<or> xlat_regime C = EL3_REGIME)) (\<lambda>_.
             Inr (d OR lower_attrs AP_ONE_VA_RANGE_RES1))) = Inr (d OR user_part C a)"
    using assms(1) by (auto simp: regime_ok_def user_part_def lower_attrs_values)
  define e where "e = d OR user_part C a"
  have "desc_attrs E C a = Inr (((e OR xn_part xn a) OR type_part a) OR gp_part E a)"
    unfolding desc_attrs_def Let_def d1 unfolding d_def [symmetric] unfolding d2 unfolding andthen_Inr e_def [symmetric] assms(3)
    using assms(2) unfolding attr_ok_def xn_part_def type_part_def gp_part_def lower_attrs_values B_def [symmetric] conj_assoc [symmetric]
    by (elim insertE emptyE; cases "a AND MT_RW \<noteq> 0 \<or> a AND MT_EXECUTE_NEVER \<noteq> 0"; cases B)
      (simp_all add: or.assoc or.left_commute or.commute)
  then show ?thesis by (simp add: attrs_of_def e_def d_def)
qed

lemmas attr_parts = ns_part_def rw_part_def user_part_def type_part_def xn_part_def gp_part_def

lemma part_bits:
  "drop_bit 2 (ns_part a) AND 3 = 0" "drop_bit 2 (rw_part a) AND 3 = 0" "drop_bit 2 (user_part C a) AND 3 = 0" "drop_bit 2 (gp_part E a) AND 3 = 0"
  "drop_bit 2 (type_part a) AND 3 = (if a AND 7 = 0 then 1 else if a AND 7 = 2 then 0 else 2)"
  "drop_bit 7 (ns_part a) AND 1 = 0" "drop_bit 7 (rw_part a) AND 1 = (if a AND 8 = 0 then 1 else 0)" "drop_bit 7 (user_part C a) AND 1 = 0"
  "drop_bit 7 (gp_part E a) AND 1 = 0" "drop_bit 7 (type_part a) AND 1 = 0"
  "drop_bit 6 (ns_part a) AND 1 = 0" "drop_bit 6 (rw_part a) AND 1 = 0" "drop_bit 6 (gp_part E a) AND 1 = 0" "drop_bit 6 (type_part a) AND 1 = 0"
  "drop_bit 6 (user_part C a) AND 1 = (if xlat_regime C = 1 \<and> a AND 64 = 0 then 0 else 1)"
  "drop_bit 5 (ns_part a) AND 1 = (if a AND 16 = 0 then 0 else 1)" "drop_bit 5 (rw_part a) AND 1 = 0" "drop_bit 5 (user_part C a) AND 1 = 0"
  "drop_bit 5 (gp_part E a) AND 1 = 0" "drop_bit 5 (type_part a) AND 1 = 0"
  by (simp_all add: attr_parts)

lemma part_xn_bits:
  assumes "xn = 0x40000000000000 \<or> xn = 0x60000000000000"
  shows "drop_bit 2 (xn_part xn a) AND 3 = 0" "drop_bit 7 (xn_part xn a) AND 1 = 0" "drop_bit 6 (xn_part xn a) AND 1 = 0"
    "drop_bit 5 (xn_part xn a) AND 1 = 0" "ns_part a AND xn = 0" "rw_part a AND xn = 0" "user_part C a AND xn = 0" "gp_part E a AND xn = 0"
    "type_part a AND xn = 0" "0x400 AND xn = 0" "xn_part xn a AND xn = xn_part xn a" "xn \<noteq> 0"
  using assms by (elim disjE; simp add: attr_parts)+

lemma attr_read_back:
  assumes "regime_ok C" "attr_ok a"
  shows "desc_to_attr E C (attrs_of E C a) = Inr (seen_attr C a)"
proof -
  obtain xn where xn: "xlat_arch_regime_get_xn_desc E (xlat_regime C) = Inr xn" "xn = 0x40000000000000 \<or> xn = 0x60000000000000"
    by (rule xn_values [OF assms(1)])
  have t: "a AND 7 = 0 \<or> a AND 7 = 1 \<or> a AND 7 = 2" using assms(2) by (auto simp: attr_ok_def)
  note parts = attrs_of_parts [OF assms xn(1)] and xb = part_xn_bits [OF xn(2)]
  have 2: "drop_bit 2 (attrs_of E C a) AND 3 = (if a AND 7 = 0 then 1 else if a AND 7 = 2 then 0 else 2)"
    unfolding parts or_distribs part_bits xb by simp
  have 7: "drop_bit 7 (attrs_of E C a) AND 1 = (if a AND 8 = 0 then 1 else 0)" unfolding parts or_distribs part_bits xb by simp
  have 6: "drop_bit 6 (attrs_of E C a) AND 1 = (if xlat_regime C = 1 \<and> a AND 64 = 0 then 0 else 1)" unfolding parts or_distribs part_bits xb by simp
  have 5: "drop_bit 5 (attrs_of E C a) AND 1 = (if a AND 16 = 0 then 0 else 1)" unfolding parts or_distribs part_bits xb by simp
  have x: "attrs_of E C a AND xn = (if a AND 7 = 0 \<or> a AND 8 \<noteq> 0 \<or> a AND 32 \<noteq> 0 then xn else 0)"
    unfolding parts or_distribs xb by (simp add: xn_part_def)
  show ?thesis unfolding desc_to_attr_def 2 7 6 5 xn(1) andthen_Inr x seen_attr_def Let_def
    using t xb(12) by (elim disjE; cases "a AND 8 = 0"; cases "a AND 32 = 0"; simp)
qed

lemma attr_read_of_desc:
  assumes "regime_ok C" "attr_ok a" "xl_out d k va = (pa, attrs_of E C a)"
  shows "desc_to_attr E C d = Inr (seen_attr C a)"
  using attr_read_back [OF assms(1,2), of E] desc_to_attr_part [OF assms(1), of E d] assms(3) by (simp add: xl_out_def)

lemma mem_attributes_inside:
  assumes "init_ready E C" "init_xlat_tables_ctx E C = Inr C'" "w \<le> va_max_address C"
  shows "xlat_get_mem_attributes_ctx E w C' = Inr (case region_at (regs C) (unat w) of
      None \<Rightarrow> (- EINVAL, None) | Some r \<Rightarrow> (0, Some (seen_attr C (attr r))))"
proof -
  obtain D at where D: "keeps_ctx (cleared E C) D" "C' = D\<lparr>initialized := True\<rparr>" "maps_regions E (regs C) D at"
    using init_spec [OF assms(1)] assms(2) by auto
  note k = keeps_ctx_fields [OF keeps_ctx_trans [OF keeps_cleared D(1)]]
  have l: "base_level D = get_xlat_table_level_base (va_max_address D + 1)" using assms(1) by (simp add: k init_ready_def sizes_ok_def)
  have w: "w \<le> va_max_address D" using assms(3) by (simp add: k)
  have rg: "regime_ok D" using assms(1) by (simp add: regime_ok_def k init_ready_def machine_ok_def)
  have f: "find_xlat_table_entry w n C' = find_xlat_table_entry w n D" "tbl_get C' t i = tbl_get D t i" for n t i
    unfolding D(2) by (simp_all add: find_xlat_table_entry_def walk_initialized)
  have "xlat_regime C' = xlat_regime D" by (simp add: D(2))
  then have c: "desc_to_attr E C' d = desc_to_attr E D d" for d by (simp only: desc_to_attr_def)
  have n: "0 < va_max_address C + 1"
  proof -
    have "unat (va_max_address C) < 2 ^ 48" using assms(1) by (simp add: init_ready_def mmap_ok_def)
    then have "unat (va_max_address C + 1) = unat (va_max_address C) + 1" by (subst unat_add_no_wrap) simp_all
    then show ?thesis by (simp add: word_less_nat_alt)
  qed
  have e: "xlat_get_mem_attributes_ctx E w C' = andthen (find_xlat_table_entry w (va_max_address D + 1) D) (\<lambda>entry. case entry of
      None \<Rightarrow> Inr (- EINVAL, None)
    | Some (t, i, q) \<Rightarrow> andthen (tbl_get D t i) (\<lambda>d. andthen (desc_to_attr E D d) (\<lambda>a. Inr (0, Some a))))"
    using rg n unfolding xlat_get_mem_attributes_ctx_def xlat_get_mem_attributes_internal_def f c k
    by (auto simp: D(2) k regime_ok_def andthen_def split: sum.splits option.splits)
  show ?thesis
  proof (cases "region_at (regs C) (unat w)")
    case None
    then show ?thesis unfolding e using maps_regions_walk [OF D(3) l w] by simp
  next
    case (Some r)
    obtain t i q d where d: "find_xlat_table_entry w (va_max_address D + 1) D = Inr (Some (t, i, q))" "tbl_get D t i = Inr d"
      "xl_out d q (unat w) = (plo r + (unat w - rlo r), attrs_of E D (attr r))"
      using maps_regions_walk [OF D(3) l w] Some by auto
    have "attr_ok (attr r)" using region_at_Some [OF Some] assms(1) by (simp add: init_ready_def)
    then have "desc_to_attr E D d = Inr (seen_attr D (attr r))" using attr_read_of_desc [OF rg _ d(3)] by simp
    then show ?thesis unfolding e using d(1,2) Some by (simp add: seen_attr_def k)
  qed
qed

section \<open>Addresses beyond the address space\<close>

text \<open>
  The walk does not check its address: the index into the base table is taken from nine bits of it, so the bits above are
  ignored and an address beyond the address space is read like the address its lower bits give.
\<close>

lemma xlat_table_idx_nat: "xlat_table_idx w l = unat w div bs l mod 512"
proof -
  have m: "(0x1FF :: u64) = mask 9" by (simp add: mask_eq_exp_minus_1)
  show ?thesis unfolding xlat_table_idx_def m take_bit_eq_mask [symmetric] unat_take_bit unat_drop_shift by simp
qed

definition walk_alias :: "nat \<Rightarrow> u64 \<Rightarrow> nat" where
  "walk_alias l w = unat w mod (512 * bs l)"

lemma alias_idx:
  assumes "b \<le> l"
  shows "walk_alias b w div bs l mod 512 = unat w div bs l mod 512"
proof -
  have i: "x div bs l mod 512 = x mod (bs l * 512) div bs l" for x
    by (simp add: mod_mult2_eq)
  have "bs l * 512 dvd 512 * bs b" using bs_mono [OF assms] by (simp add: mult.commute)
  then show ?thesis unfolding i walk_alias_def by (simp add: mod_mod_cancel)
qed

lemma alias_less: "walk_alias b w < 2 ^ 64"
  unfolding walk_alias_def by (rule le_less_trans [OF mod_less_eq_dividend]) (use unat_less_2p [of w] in simp)

lemma unat_alias: "unat (of_nat (walk_alias b w) :: u64) = walk_alias b w"
  unfolding walk_alias_def using alias_less [of b w, unfolded walk_alias_def] by (simp add: unat_of_nat)

lemma find_entry_from_cong:
  "(\<And>l. l \<in> set ls \<Longrightarrow> xlat_table_idx v l = xlat_table_idx w l) \<Longrightarrow> find_entry_from C v ls t n = find_entry_from C w ls t n"
proof (induction ls arbitrary: t n)
  case (Cons l ls)
  have i: "find_entry_from C v ls t n = find_entry_from C w ls t n" for t n using Cons.prems by (intro Cons.IH) simp
  have j: "xlat_table_idx v l = xlat_table_idx w l" using Cons.prems by simp
  show ?case unfolding find_entry_from.simps i j ..
qed simp

lemma find_entry_alias:
  "find_xlat_table_entry (of_nat (walk_alias (get_xlat_table_level_base n) w)) n C = find_xlat_table_entry w n C"
  unfolding find_xlat_table_entry_def by (rule find_entry_from_cong) (auto simp: xlat_table_idx_nat unat_alias alias_idx)

lemma attributes_alias:
  "xlat_get_mem_attributes_ctx E (of_nat (walk_alias (get_xlat_table_level_base (va_max_address C + 1)) w)) C = xlat_get_mem_attributes_ctx E w C"
  unfolding xlat_get_mem_attributes_ctx_def xlat_get_mem_attributes_internal_def Let_def find_entry_alias ..

lemma find_entry_beyond:
  assumes "base_table_entries C \<le> unat w div bs (get_xlat_table_level_base n) mod 512" "get_xlat_table_level_base n \<le> 3"
  shows "find_xlat_table_entry w n C = Inr None"
proof -
  have "[get_xlat_table_level_base n..<4] = get_xlat_table_level_base n # [Suc (get_xlat_table_level_base n)..<4]"
    using assms(2) by (simp add: upt_conv_Cons)
  then show ?thesis unfolding find_xlat_table_entry_def using assms(1) by (simp add: xlat_table_idx_nat)
qed

lemma regions_beyond:
  assumes "mmap_ok C" "unat (va_max_address C) < v"
  shows "region_at (regs C) v = None"
  using assms unfolding region_at_None by (fastforce simp: mmap_ok_def region_ok_def inside_def)

lemma space_facts:
  assumes "init_ready E C"
  shows "get_xlat_table_level_base (va_max_address C + 1) = base_level C" "base_level C \<le> 3"
    "base_table_entries C * bs (base_level C) = unat (va_max_address C) + 1" "unat (va_max_address C) < 512 * bs (base_level C)"
    "0 < va_max_address C + 1"
proof -
  have m: "unat (va_max_address C) < 2 ^ 48" using assms by (simp add: init_ready_def mmap_ok_def)
  obtain n where n: "16 \<le> n" "n \<le> 48" "va_max_address C + 1 = 2 ^ n" using assms by (auto simp: init_ready_def sizes_ok_def)
  then have n12: "12 \<le> n" by simp
  show bl: "get_xlat_table_level_base (va_max_address C + 1) = base_level C" using assms by (simp add: init_ready_def sizes_ok_def)
  have be: "base_table_entries C = get_num_base_level_entries (va_max_address C + 1)" using assms by (simp add: init_ready_def sizes_ok_def)
  have lb: "base_level C \<le> 3" "base_table_entries C \<le> 512" "base_table_entries C * bs (base_level C) = 2 ^ n"
    using level_base_facts [OF n12 n(2,3)] bl be by simp_all
  have v: "unat (va_max_address C) + 1 = 2 ^ n" using m n(2,3) unat_add_no_wrap [of "va_max_address C" 1] by (simp add: unat_power64)
  have "2 ^ n \<le> 512 * bs (base_level C)" unfolding lb(3) [symmetric] using lb(2) by (rule mult_le_mono1)
  with v show "unat (va_max_address C) < 512 * bs (base_level C)" by linarith
  show "base_level C \<le> 3" "base_table_entries C * bs (base_level C) = unat (va_max_address C) + 1" using lb(1,3) v by simp_all
  show "0 < va_max_address C + 1" unfolding n(3) using n(2) by (simp add: word_less_nat_alt unat_power64)
qed

text \<open>C10: after the tables of a context were initialised, the attributes the library gives for an address of the address space are
  those of the innermost region that contains it: its memory type, its access permissions, its security state, and
  execute-never exactly if the region asks for it, is device memory or can be written; an address of the space outside all regions
  gives \<open>-EINVAL\<close>. The library does not check that the address is in the space: for any address the answer is that for its value
  modulo what a full base table covers, so that an address beyond the space can be given the attributes of a region.\<close>

theorem mem_attributes_of_regions:
  assumes "init_ready E C" "init_xlat_tables_ctx E C = Inr C'"
  shows "xlat_get_mem_attributes_ctx E w C' = Inr (case region_at (regs C) (unat w mod (512 * bs (base_level C))) of
      None \<Rightarrow> (- EINVAL, None) | Some r \<Rightarrow> (0, Some (seen_attr C (attr r))))
    \<and> unat (va_max_address C) < 512 * bs (base_level C)"
proof -
  obtain D at where D: "keeps_ctx (cleared E C) D" "C' = D\<lparr>initialized := True\<rparr>" "maps_regions E (regs C) D at"
    using init_spec [OF assms(1)] assms(2) by auto
  note k = keeps_ctx_fields [OF keeps_ctx_trans [OF keeps_cleared D(1)]]
  have c: "va_max_address C' = va_max_address C" "base_table_entries C' = base_table_entries C" "xlat_regime C' = xlat_regime C" "initialized C'"
    by (simp_all add: D(2) k)
  note sp = space_facts [OF assms(1)]
  let ?w = "of_nat (walk_alias (base_level C) w) :: u64"
  have a: "xlat_get_mem_attributes_ctx E w C' = xlat_get_mem_attributes_ctx E ?w C'"
    using attributes_alias [of E C' w] by (simp add: c(1) sp(1))
  show ?thesis
  proof (cases "?w \<le> va_max_address C")
    case True
    then show ?thesis using sp(4) mem_attributes_inside [OF assms True] unfolding a unat_alias by (simp add: walk_alias_def)
  next
    case False
    then have g: "unat (va_max_address C) < walk_alias (base_level C) w" by (simp add: word_le_nat_alt unat_alias)
    then have "base_table_entries C * bs (base_level C) \<le> walk_alias (base_level C) w" unfolding sp(3) by simp
    then have "base_table_entries C \<le> walk_alias (base_level C) w div bs (base_level C)"
      by (simp add: less_eq_div_iff_mult_less_eq)
    moreover have "walk_alias (base_level C) w div bs (base_level C) < 512"
      unfolding walk_alias_def by (simp add: less_mult_imp_div_less)
    ultimately have "find_xlat_table_entry ?w (va_max_address C + 1) C' = Inr None"
      using sp(2) by (intro find_entry_beyond) (simp_all add: c(2) sp(1) unat_alias)
    moreover have "regime_ok C" "mmap_ok C" using assms(1) by (simp_all add: init_ready_def machine_ok_def)
    ultimately have "xlat_get_mem_attributes_ctx E ?w C' = Inr (- EINVAL, None)" "region_at (regs C) (walk_alias (base_level C) w) = None"
      using sp(5) regions_beyond g
      unfolding xlat_get_mem_attributes_ctx_def xlat_get_mem_attributes_internal_def by (simp_all add: c regime_ok_def)
    then show ?thesis using sp(4) a by (simp add: walk_alias_def)
  qed
qed

theorem mem_attributes_of_regions_witness:
  "\<exists>C'. init_xlat_tables_ctx demo_xenv demo_init = Inr C' \<and> xlat_get_mem_attributes_ctx demo_xenv 0x88001800 C' = Inr (0, Some 0x2A)
     \<and> xlat_get_mem_attributes_ctx demo_xenv 0x88002000 C' = Inr (0, Some 0x2) \<and> xlat_get_mem_attributes_ctx demo_xenv 0x1000 C' = Inr (- EINVAL, None)
     \<and> xlat_get_mem_attributes_ctx demo_xenv 0x8088001800 C' = Inr (0, Some 0x2A)"
proof -
  obtain C' where C': "init_xlat_tables_ctx demo_xenv demo_init = Inr C'" using demo_init_returns by blast
  have b: "512 * bs (base_level demo_init) = 0x8000000000" by (simp add: demo_init_fields get_xlat_table_level_base_def bs_def)
  note a = mem_attributes_of_regions [OF demo_init_ready C', unfolded b demo_init_regs]
  show ?thesis
    using C' a [of "0x88001800"] a [of "0x88002000"] a [of "0x1000"] a [of "0x8088001800"]
    by (simp add: region_at_def inside_def demo_regions seen_attr_def demo_init_fields)
qed

end
