(* ===== verification/Spec2Isabelle.thy ===== *)
theory Spec2Isabelle
  imports Tftf_Heap Tftf_Timer_Arm Tftf_Image_Load Tftf_Fvp Tftf_Session Tftf_Xlat_Attr
begin

text \<open>
  A verification of the framework of Trusted Firmware-A Tests (TFTF), the program that runs as normal world software on Arm
  platforms and tests the firmware below it. The model is of the AArch64 build.

  \<^bold>\<open>The program.\<close> \<open>src/tftf/framework/main.c\<close> runs the tests of a generated list one after another. A session keeps its
  position and its results in non-volatile memory, so that it can go on after a test has reset or crashed the platform. Each test runs on the
  lead CPU, which powers on other CPUs with the hotplug functions; these wrap PSCI calls and keep a status per CPU. The power domain
  tree of the platform says which CPUs there are. Services below are interrupt handler tables, one timer peripheral shared
  by all CPUs, the translation tables, a page pool, an IO layer that loads firmware update images from a package, and a small C library.

  \<^bold>\<open>Conventions\<close> (\<open>Tftf_Prelude\<close>). Machine integers are words of their width. A function that can stop in an assertion, a panic or an undefined
  access returns \<open>fault + 'a\<close>, \<open>andthen\<close> sequences such steps, and \<open>aget\<close> and \<open>aput\<close> are checked array accesses. Static variables are the
  fields of a record that is passed along. The firmware, the platform and the test functions are parameters. Loops that may
  not end are \<open>partial_function (option)\<close>, so that \<open>None\<close> means that they do not return; no model uses fuel.

  \<^bold>\<open>C library.\<close> \<open>Tftf_Libc\<close> has the memory and string functions of \<open>src/lib/libc\<close> on a memory of bytes: \<open>memmove\<close> is right for every overlap,
  \<open>strlcpy\<close> stores the longest prefix that fits. \<open>Tftf_Printf\<close> has \<open>printf.c\<close>, \<open>mp_printf.c\<close>, \<open>snprintf.c\<close> and \<open>rand.c\<close>: \<open>vsnprintf\<close> stays in its
  buffer and returns the full length, numbers read back, the two printers agree, \<open>rand\<close> is the generator of Park and Miller; how
  \<open>vprintf\<close> pads negative numbers is shown to be off.

  \<^bold>\<open>Page pool.\<close> \<open>Tftf_Heap\<close> has \<open>src/lib/heap/page_alloc.c\<close>. \<open>page_alloc\<close> is the part under its lock and the part after it, and \<open>pool_reach\<close>
  interleaves the calls of several CPUs between them. Blocks are disjoint, aligned and inside the pool as long as no
  allocation falls between the two parts of another; otherwise two CPUs can be given one block. A size near \<open>2 ^ 64\<close> is granted.

  \<^bold>\<open>Interrupts.\<close> \<open>Tftf_Irq\<close> has \<open>src/lib/exceptions/irq.c\<close> and the handler tables of \<open>src/drivers/arm/gic/gic_v2v3_common.c\<close>. The controller is a record
  of what it was told. A plain registry is the specification that any sequence of registrations refines, and the
  dispatcher runs what the registry holds.

  \<^bold>\<open>Timer.\<close> \<open>Tftf_Timer_Drivers\<close> has the drivers of \<open>src/drivers/arm/timer\<close> and the interface \<open>timer_driver\<close>, interpreted for the system timer and
  the generic timer. \<open>Tftf_Timer\<close> has \<open>src/tftf/framework/timer/timer_framework.c\<close>, the interface \<open>timer_framework\<close> with the invariant, and the
  relation \<open>timer_step\<close> of all operations of all cores. \<open>Tftf_Timer_Arm\<close> interprets it for the Arm platforms. The peripheral is armed exactly when a core
  waits; the interrupt serves exactly the cores that are due and does not fail an assertion; it is early only after a core has
  resumed from system suspend with a request later than the programmed one, which is shown to happen. The counter is
  assumed not to run backwards and to stay below \<open>2 ^ 62\<close>.

  \<^bold>\<open>Topology and power states.\<close> \<open>Tftf_Topology\<close> has \<open>src/plat/common/plat_topology.c\<close>, \<open>Tftf_Fvp\<close> the tables of \<open>src/plat/arm/fvp\<close>: for every number of
  clusters, CPUs and threads the tree is built without a failing assertion, the iterators visit each present CPU once, and MPIDs and positions
  correspond. \<open>Tftf_Pstate\<close> has \<open>src/lib/psci/psci.c\<close> and \<open>src/plat/common/plat_state_id.c\<close>: the fields of a power state read back, and the iteration over
  state identifiers visits every combination once.

  \<^bold>\<open>Hotplug.\<close> \<open>Tftf_Hotplug\<close> has \<open>src/lib/power_management/hotplug/hotplug.c\<close>, each function for one CPU and the relation \<open>hp_step\<close> of all CPUs, with the
  points where other CPUs can run, the reference count and the failing assertions. Its parameters say whether \<open>tftf_try_cpu_on\<close> is used and
  whether tests call \<open>tftf_cpu_off\<close>. A CPU enters the function it was powered on for; \<open>tftf_cpu_on\<close> refines the relation; the stale
  entry of \<open>tftf_try_cpu_on\<close>, the hang after a denied CPU_OFF and the leak of the reference count are shown.

  \<^bold>\<open>Session.\<close> \<open>Tftf_Nvm\<close> has \<open>tftf_nvm_accessors.c\<close> and \<open>nvm_results_helpers.c\<close> over the bytes of \<open>tftf_state_t\<close> (\<open>nvm_field\<close> is the interface of a stored
  field); results and outputs read back. \<open>Tftf_Session\<close> has \<open>main.c\<close> and \<open>report.c\<close>: a session runs every test once in order, ends,
  and stores and reports the results; the result of a test follows from those of its CPUs; a resumption after a crash fails an assertion in debug builds.

  \<^bold>\<open>Images.\<close> \<open>Tftf_Io\<close> has \<open>io_storage.c\<close>, \<open>io_memmap.c\<close>, \<open>io_fip.c\<close>, \<open>arm_fwu_io_storage.c\<close> and \<open>image_loader.c\<close>; \<open>Tftf_Image_Load\<close> shows what
  \<open>load_image\<close> does for every content of memory, a table of contents that never ends included, and the errors of the queries for the package itself.

  \<^bold>\<open>Translation tables.\<close> \<open>Tftf_Xlat\<close> has \<open>src/lib/xlat_tables_v2\<close>. \<open>Tftf_Xlat_Regions\<close>: adding regions keeps the array well-formed. \<open>Tftf_Xlat_Tree\<close>: the tables in use form a
  tree, given by the place of each. \<open>Tftf_Xlat_Map\<close>: mapping a region adds descriptors for exactly the addresses that had none. \<open>Tftf_Xlat_Init\<close>: a walk of the
  initialised tables finds the innermost region of any address, and initialisation fails exactly if there are fewer tables than
  \<open>tables_needed\<close>, a specification of how many blocks of addresses need a table. \<open>Tftf_Xlat_Attr\<close>: the attributes read back are those asked for.

  \<^bold>\<open>Not modelled.\<close> Device registers (GIC drivers, UARTs, watchdog, NOR flash), assembly, the saving and restoring of a suspended
  CPU, spinlocks and events (what a lock protects is one step), the firmware and its SMC clients, ports other than FVP, the
  AArch32 tables, the tests themselves, the separate images (NS_BL1U, NS_BL2U, secure partitions, Realm payload), external libraries
  (libfdt, compiler-rt) and build tools. Cache maintenance and barriers have no effect; messages of INFO and NOTICE level are left out.
\<close>

end
